(* ===== verification/Prelude.thy ===== *)
theory Prelude
  imports Main "HOL-Library.Word" "HOL-Library.Monad_Syntax"
begin

text \<open>
  Shared vocabulary of the nagoya development: the machine types of the Rust
  sources, task identities, the result of polling a future, Rust's checked and
  saturating arithmetic, generic facts on lists and options, and the interface
  of a transition system with an invariant that every state machine of the
  development interprets.

  Conventions used by every theory:
  \<^item> A Rust panic (an \<open>unreachable!\<close>, a failed \<open>expect\<close>, an out-of-bounds index)
    is the value \<open>None\<close> of an \<open>option\<close> result; \<open>Some\<close> carries the state after
    the call.
  \<^item> A \<open>Waker\<close> is the identity of the task it wakes, and \<open>will_wake\<close> compares
    identities. The wakers an operation invokes are returned in the order in
    which it invokes them.
  \<^item> \<open>usize\<close>, \<open>u64\<close> and \<open>u32\<close> are words where the source relies on their width
    (64-bit targets); indices into a vector are \<open>nat\<close>, since a vector's length
    bounds them. \<open>i64\<close> is \<open>int\<close> with the saturation written out.
\<close>

section \<open>Machine types\<close>

type_synonym usize = "64 word"
type_synonym u64 = "64 word"
type_synonym u32 = "32 word"
type_synonym i64 = int

type_synonym waker = nat

datatype 'a poll = Ready 'a | Pending

named_theorems result_simps \<open>unfolding rules for the option and poll results\<close>
named_theorems inv_intros \<open>facts that an operation keeps a component's invariant\<close>

definition u64_max :: u64 where
  "u64_max = - 1"

definition usize_max :: usize where
  "usize_max = - 1"

definition i64_max :: i64 where
  "i64_max = 2 ^ 63 - 1"

definition i64_min :: i64 where
  "i64_min = - (2 ^ 63)"

text \<open>Values that fit an \<open>i64\<close>.\<close>

definition is_i64 :: "int \<Rightarrow> bool" where
  "is_i64 x \<longleftrightarrow> i64_min \<le> x \<and> x \<le> i64_max"

text \<open>\<open>i64::try_from\<close> on a \<open>u64\<close>, \<open>i64::saturating_add\<close> and \<open>i64::saturating_sub\<close>.\<close>

definition i64_try_from :: "u64 \<Rightarrow> i64 option" where
  "i64_try_from w = (if uint w \<le> i64_max then Some (uint w) else None)"

definition clamp_i64 :: "int \<Rightarrow> i64" where
  "clamp_i64 x = max i64_min (min i64_max x)"

definition i64_saturating_add :: "i64 \<Rightarrow> i64 \<Rightarrow> i64" where
  "i64_saturating_add a b = clamp_i64 (a + b)"

definition i64_saturating_sub :: "i64 \<Rightarrow> i64 \<Rightarrow> i64" where
  "i64_saturating_sub a b = clamp_i64 (a - b)"

text \<open>The unsigned counterparts.\<close>

definition u64_saturating_sub :: "u64 \<Rightarrow> u64 \<Rightarrow> u64" where
  "u64_saturating_sub a b = (if b \<le> a then a - b else 0)"

definition u64_saturating_add :: "u64 \<Rightarrow> u64 \<Rightarrow> u64" where
  "u64_saturating_add a b = (if unat a + unat b < 2 ^ 64 then a + b else u64_max)"

definition u64_checked_add :: "u64 \<Rightarrow> u64 \<Rightarrow> u64 option" where
  "u64_checked_add a b = (if unat a + unat b < 2 ^ 64 then Some (a + b) else None)"

lemma is_i64_clamp [simp]: "is_i64 (clamp_i64 x)"
  by (simp add: is_i64_def clamp_i64_def i64_min_def i64_max_def)

lemma clamp_i64_id: "is_i64 x \<Longrightarrow> clamp_i64 x = x"
  by (simp add: is_i64_def clamp_i64_def)

lemma clamp_i64_mono: "x \<le> y \<Longrightarrow> clamp_i64 x \<le> clamp_i64 y"
  by (auto simp: clamp_i64_def)

lemma i64_try_from_Some:
  "i64_try_from w = Some x \<longleftrightarrow> x = uint w \<and> uint w \<le> i64_max"
  by (auto simp: i64_try_from_def)

lemma i64_try_from_is_i64: "i64_try_from w = Some x \<Longrightarrow> is_i64 x \<and> 0 \<le> x"
proof -
  assume "i64_try_from w = Some x"
  then have "x = uint w" and "x \<le> i64_max" by (auto simp: i64_try_from_Some)
  moreover have "0 \<le> uint w" by simp
  moreover have "i64_min \<le> 0" by (simp add: i64_min_def)
  ultimately show ?thesis by (auto simp: is_i64_def intro: order_trans)
qed

lemma u64_checked_add_Some:
  "u64_checked_add a b = Some c \<longleftrightarrow> unat c = unat a + unat b"
proof
  assume "u64_checked_add a b = Some c"
  then have "unat a + unat b < 2 ^ LENGTH(64)" and "c = a + b"
    by (auto simp: u64_checked_add_def split: if_splits)
  then show "unat c = unat a + unat b"
    by (simp add: unat_word_ariths)
next
  assume eq: "unat c = unat a + unat b"
  have lt: "unat c < 2 ^ LENGTH(64)"
    by (rule unsigned_less)
  have "a + b = c"
  proof -
    have "unat (a + b) = unat c"
      using eq lt by (simp add: unat_word_ariths)
    then show ?thesis by (simp only: unsigned_word_eqI)
  qed
  then show "u64_checked_add a b = Some c"
    using eq lt by (simp add: u64_checked_add_def)
qed

lemma unat_u64_saturating_sub: "unat (u64_saturating_sub a b) = unat a - unat b"
  by (auto simp: u64_saturating_sub_def unat_sub word_le_nat_alt)

section \<open>Lists and options\<close>

definition first_or :: "'a list \<Rightarrow> 'a option \<Rightarrow> 'a option" where
  "first_or xs d = (case xs of [] \<Rightarrow> d | x # _ \<Rightarrow> Some x)"

definition last_or :: "'a option \<Rightarrow> 'a list \<Rightarrow> 'a option" where
  "last_or d xs = (if xs = [] then d else Some (last xs))"

lemma first_or_simps [simp]:
  "first_or [] d = d" "first_or (x # xs) d = Some x"
  by (simp_all add: first_or_def)

lemma first_or_append [simp]: "first_or (xs @ ys) d = first_or xs (first_or ys d)"
  by (cases xs) auto

lemma last_or_simps [simp]:
  "last_or d [] = d" "last_or d (x # xs) = last_or (Some x) xs"
  by (simp_all add: last_or_def)

lemma last_or_append [simp]: "last_or d (xs @ ys) = last_or (last_or d xs) ys"
  by (simp add: last_or_def)

lemma first_or_None [simp]: "first_or xs None = None \<longleftrightarrow> xs = []"
  by (cases xs) auto

lemma first_or_in_set: "first_or xs None = Some x \<Longrightarrow> x \<in> set xs"
  by (cases xs) auto

lemma last_or_cases:
  obtains "xs = []" "last_or d xs = d" | ys y where "xs = ys @ [y]" "last_or d xs = Some y"
  by (cases xs rule: rev_cases) auto

lemma first_or_cases:
  obtains "xs = []" "first_or xs d = d" | y ys where "xs = y # ys" "first_or xs d = Some y"
  by (cases xs) auto

lemma distinct_bounded_length:
  assumes "distinct xs" and "\<And>x. x \<in> set xs \<Longrightarrow> x < n"
  shows "length xs \<le> n"
proof -
  have "length xs = card (set xs)"
    using assms(1) by (simp add: distinct_card)
  also have "\<dots> \<le> card {..<n}"
    using assms(2) by (intro card_mono) auto
  finally show ?thesis by simp
qed

section \<open>Sums over a finite family\<close>

text \<open>
  A state machine keeps its threads, futures or jobs as a partial map; what they
  hold together is a sum over its domain. The update lemma is the accounting step of
  every action that changes one member.
\<close>

definition dom_sum :: "('b \<Rightarrow> 'a::comm_monoid_add) \<Rightarrow> ('k \<Rightarrow> 'b option) \<Rightarrow> 'a" where
  "dom_sum g m = (\<Sum>i \<in> dom m. g (the (m i)))"

definition opt_weight :: "('b \<Rightarrow> 'a::comm_monoid_add) \<Rightarrow> 'b option \<Rightarrow> 'a" where
  "opt_weight g x = (case x of None \<Rightarrow> 0 | Some y \<Rightarrow> g y)"

lemma opt_weight_simps [simp]: "opt_weight g None = 0" "opt_weight g (Some y) = g y"
  by (simp_all add: opt_weight_def)

lemma dom_sum_empty [simp]: "dom_sum g (\<lambda>_. None) = 0"
  by (simp add: dom_sum_def)

lemma dom_sum_split:
  assumes "finite (dom m)"
  shows "dom_sum g m = dom_sum g (m(i := None)) + opt_weight g (m i)"
proof (cases "m i")
  case None
  then have "m(i := None) = m" by auto
  then show ?thesis using None by simp
next
  case (Some y)
  have "dom_sum g m = g (the (m i)) + (\<Sum>k \<in> dom m - {i}. g (the (m k)))"
    unfolding dom_sum_def by (rule sum.remove) (use assms Some in auto)
  also have "(\<Sum>k \<in> dom m - {i}. g (the (m k))) = dom_sum g (m(i := None))"
    unfolding dom_sum_def by (rule sum.cong) auto
  finally show ?thesis using Some by (simp add: add.commute)
qed

lemma dom_sum_update:
  assumes "finite (dom m)"
  shows "dom_sum g (m(i := x)) + opt_weight g (m i) = dom_sum g m + opt_weight g x"
proof -
  have "finite (dom (m(i := x)))"
    using assms by (auto simp: dom_if intro: finite_subset [of _ "insert i (dom m)"])
  from dom_sum_split [OF this, of g i] dom_sum_split [OF assms, of g i]
  show ?thesis by (simp add: ac_simps)
qed

lemma dom_sum_member:
  fixes g :: "'b \<Rightarrow> 'a::{comm_monoid_add, canonically_ordered_monoid_add}"
  assumes "finite (dom m)" "m i = Some y"
  shows "g y \<le> dom_sum g m"
  using dom_sum_split [OF assms(1), of g i] assms(2) by (metis add.commute le_iff_add opt_weight_simps(2))

lemma dom_sum_zero:
  assumes "\<And>i y. m i = Some y \<Longrightarrow> g y = 0"
  shows "dom_sum g m = 0"
  unfolding dom_sum_def by (rule sum.neutral) (use assms in auto)

lemma finite_dom_upd [simp]: "finite (dom m) \<Longrightarrow> finite (dom (m(i := x)))"
  by (rule finite_subset [of _ "insert i (dom m)"]) auto

section \<open>Transition systems with an invariant\<close>

text \<open>
  The interface that every concurrent component of the development interprets:
  initial states, a step relation with one rule per atomic action of the
  source, and an invariant.
\<close>

inductive reach :: "('s \<Rightarrow> bool) \<Rightarrow> ('s \<Rightarrow> 's \<Rightarrow> bool) \<Rightarrow> 's \<Rightarrow> bool"
  for init :: "'s \<Rightarrow> bool" and step :: "'s \<Rightarrow> 's \<Rightarrow> bool" where
  reach_init: "init s \<Longrightarrow> reach init step s"
| reach_step: "reach init step s \<Longrightarrow> step s t \<Longrightarrow> reach init step t"

locale invariant_system =
  fixes init :: "'s \<Rightarrow> bool"
    and step :: "'s \<Rightarrow> 's \<Rightarrow> bool"
    and inv :: "'s \<Rightarrow> bool"
  assumes inv_init: "init s \<Longrightarrow> inv s"
    and inv_step: "inv s \<Longrightarrow> step s t \<Longrightarrow> inv t"
begin

lemma reach_inv: "reach init step s \<Longrightarrow> inv s"
  by (induction rule: reach.induct) (auto intro: inv_init inv_step)

lemma steps_inv: "inv s \<Longrightarrow> step\<^sup>*\<^sup>* s t \<Longrightarrow> inv t"
  by (rotate_tac, induction rule: rtranclp_induct) (auto intro: inv_step)

end

end
