(* ===== verification/WaitQueue.thy ===== *)
theory WaitQueue
  imports Prelude
begin

text \<open>
  The waiter queue of \<open>src/src/sync.rs\<close> (\<open>WakeKind\<close>, \<open>Waiter\<close>, \<open>WaiterSlot\<close>,
  \<open>WaitQueue\<close>, \<open>Waiters\<close>): a vector of slots that holds a doubly linked list of
  queued waiters, a singly linked free list and the granted waiters that their
  futures have not acknowledged yet. Every operation of the source is a
  definition here, with its panics as \<open>None\<close>. The abstraction of a queue is the
  list of queued slots in order and a map from live slots to their kind and
  waker; the lemmas show that each operation implements its effect on that
  abstraction, never panics on a token that is live, and keeps the links
  consistent. The locale at the end is the interface the async primitives use.
\<close>

section \<open>Data and operations\<close>

datatype wake_kind = Queued | WakeOne | WakeAll

record waiter =
  w_previous :: "nat option"
  w_next :: "nat option"
  w_kind :: wake_kind
  w_waker :: "waker option"

datatype waiter_slot = Live waiter | Free "nat option"

record wait_queue =
  q_slots :: "waiter_slot list"
  q_free :: "nat option"
  q_head :: "nat option"
  q_tail :: "nat option"

definition wq_new :: wait_queue where
  "wq_new = \<lparr>q_slots = [], q_free = None, q_head = None, q_tail = None\<rparr>"

definition wq_get :: "wait_queue \<Rightarrow> nat \<Rightarrow> waiter option" where
  "wq_get q i =
     (if i < length (q_slots q)
      then (case q_slots q ! i of Live w \<Rightarrow> Some w | Free _ \<Rightarrow> None)
      else None)"

text \<open>\<open>get_mut\<close> followed by an assignment through the reference it returns.\<close>

definition wq_get_mut :: "wait_queue \<Rightarrow> nat \<Rightarrow> (waiter \<Rightarrow> waiter) \<Rightarrow> wait_queue option" where
  "wq_get_mut q i f =
     (case wq_get q i of
        None \<Rightarrow> None
      | Some w \<Rightarrow> Some (q\<lparr>q_slots := (q_slots q)[i := Live (f w)]\<rparr>))"

definition wq_enqueue :: "wait_queue \<Rightarrow> nat \<Rightarrow> wait_queue option" where
  "wq_enqueue q i = do {
     let tail = q_tail q;
     q \<leftarrow> wq_get_mut q i (\<lambda>w. w\<lparr>w_previous := tail, w_next := None, w_kind := Queued\<rparr>);
     q \<leftarrow> (case tail of
             Some t \<Rightarrow> wq_get_mut q t (\<lambda>w. w\<lparr>w_next := Some i\<rparr>)
           | None \<Rightarrow> Some (q\<lparr>q_head := Some i\<rparr>));
     Some (q\<lparr>q_tail := Some i\<rparr>)
   }"

definition wq_unlink :: "wait_queue \<Rightarrow> nat \<Rightarrow> wait_queue option" where
  "wq_unlink q i = do {
     w \<leftarrow> wq_get q i;
     let prev = w_previous w;
     let nxt = w_next w;
     q \<leftarrow> (case prev of
             Some p \<Rightarrow> wq_get_mut q p (\<lambda>w. w\<lparr>w_next := nxt\<rparr>)
           | None \<Rightarrow> Some (q\<lparr>q_head := nxt\<rparr>));
     q \<leftarrow> (case nxt of
             Some n \<Rightarrow> wq_get_mut q n (\<lambda>w. w\<lparr>w_previous := prev\<rparr>)
           | None \<Rightarrow> Some (q\<lparr>q_tail := prev\<rparr>));
     wq_get_mut q i (\<lambda>w. w\<lparr>w_previous := None, w_next := None\<rparr>)
   }"

text \<open>
  Allocation of a slot inside \<open>register\<close>: the head of the free list, or a slot
  pushed at the end of the vector.
\<close>

definition wq_alloc :: "wait_queue \<Rightarrow> (wait_queue \<times> nat) option" where
  "wq_alloc q =
     (let w = \<lparr>w_previous = None, w_next = None, w_kind = Queued, w_waker = None\<rparr>
      in case q_free q of
           Some i \<Rightarrow>
             (if i < length (q_slots q)
              then (case q_slots q ! i of
                      Free nxt \<Rightarrow>
                        Some (q\<lparr>q_free := nxt, q_slots := (q_slots q)[i := Live w]\<rparr>, i)
                    | Live _ \<Rightarrow> None)
              else None)
         | None \<Rightarrow> Some (q\<lparr>q_slots := q_slots q @ [Live w]\<rparr>, length (q_slots q)))"

text \<open>
  The result carries the queue, the token the caller's \<open>&mut Option<usize>\<close> now
  holds and the replaced waker.
\<close>

definition wq_register ::
  "wait_queue \<Rightarrow> nat option \<Rightarrow> waker option \<Rightarrow>
     (wait_queue \<times> nat option \<times> waker option) option" where
  "wq_register q token wk = do {
     (q, i) \<leftarrow> (case token of
         Some i \<Rightarrow> do {
           w \<leftarrow> wq_get q i;
           q \<leftarrow> (if w_kind w \<noteq> Queued then wq_enqueue q i else Some q);
           Some (q, i)
         }
       | None \<Rightarrow> do {
           (q, i) \<leftarrow> wq_alloc q;
           q \<leftarrow> wq_enqueue q i;
           Some (q, i)
         });
     w \<leftarrow> wq_get q i;
     (case wk of
        Some k \<Rightarrow>
          (if w_waker w \<noteq> Some k
           then do {
             q \<leftarrow> wq_get_mut q i (\<lambda>w. w\<lparr>w_waker := Some k\<rparr>);
             Some (q, Some i, w_waker w)
           }
           else Some (q, Some i, None))
      | None \<Rightarrow> Some (q, Some i, None))
   }"

definition wq_remove ::
  "wait_queue \<Rightarrow> nat option \<Rightarrow> (wait_queue \<times> nat option \<times> waiter option) option" where
  "wq_remove q token =
     (case token of
        None \<Rightarrow> Some (q, None, None)
      | Some i \<Rightarrow> do {
          w \<leftarrow> wq_get q i;
          q \<leftarrow> (if w_kind w = Queued then wq_unlink q i else Some q);
          old \<leftarrow> wq_get q i;
          Some (q\<lparr>q_slots := (q_slots q)[i := Free (q_free q)], q_free := Some i\<rparr>,
                None, Some old)
        })"

definition wq_grant_one :: "wait_queue \<Rightarrow> (wait_queue \<times> waker option option) option" where
  "wq_grant_one q =
     (case q_head q of
        None \<Rightarrow> Some (q, None)
      | Some i \<Rightarrow> do {
          q \<leftarrow> wq_unlink q i;
          w \<leftarrow> wq_get q i;
          q \<leftarrow> wq_get_mut q i (\<lambda>w. w\<lparr>w_kind := WakeOne, w_waker := None\<rparr>);
          Some (q, Some (w_waker w))
        })"

text \<open>The \<open>while let\<close> loop of \<open>grant_all\<close>; \<open>wakers\<close> is the vector it pushes to.\<close>

partial_function (option) wq_grant_all_loop ::
  "wait_queue \<Rightarrow> waker list \<Rightarrow> (wait_queue \<times> waker list) option" where
  "wq_grant_all_loop q wakers =
     (case q_head q of
        None \<Rightarrow> Some (q, wakers)
      | Some i \<Rightarrow> do {
          q \<leftarrow> wq_unlink q i;
          w \<leftarrow> wq_get q i;
          q \<leftarrow> wq_get_mut q i (\<lambda>w. w\<lparr>w_kind := WakeAll, w_waker := None\<rparr>);
          wq_grant_all_loop q (case w_waker w of Some k \<Rightarrow> wakers @ [k] | None \<Rightarrow> wakers)
        })"

definition wq_grant_all :: "wait_queue \<Rightarrow> (wait_queue \<times> waker list) option" where
  "wq_grant_all q = wq_grant_all_loop q []"

text \<open>
  \<open>Waiters\<close>: each method is one critical section of the spin lock; the wakers
  it invokes after releasing the lock are returned.
\<close>

definition waiters_register ::
  "wait_queue \<Rightarrow> nat option \<Rightarrow> waker \<Rightarrow> (wait_queue \<times> nat option) option" where
  "waiters_register q token wk = do {
     (q, token, old) \<leftarrow> wq_register q token (Some wk);
     Some (q, token)
   }"

definition waiters_remove ::
  "wait_queue \<Rightarrow> nat option \<Rightarrow> (wait_queue \<times> nat option \<times> wake_kind option) option" where
  "waiters_remove q token =
     (if token = None then Some (q, None, None)
      else do {
        (q, token, removed) \<leftarrow> wq_remove q token;
        Some (q, token, map_option w_kind removed)
      })"

definition waiters_wake_one :: "wait_queue \<Rightarrow> (wait_queue \<times> waker list) option" where
  "waiters_wake_one q = do {
     (q, granted) \<leftarrow> wq_grant_one q;
     Some (q, (case granted of Some (Some k) \<Rightarrow> [k] | _ \<Rightarrow> []))
   }"

definition waiters_wake_all :: "wait_queue \<Rightarrow> (wait_queue \<times> waker list) option" where
  "waiters_wake_all q = wq_grant_all q"

section \<open>Representation\<close>

fun chain :: "waiter_slot list \<Rightarrow> nat option \<Rightarrow> nat list \<Rightarrow> nat option \<Rightarrow> bool" where
  "chain ss p [] n = True"
| "chain ss p (x # xs) n =
     (x < length ss \<and>
      (case ss ! x of
         Free _ \<Rightarrow> False
       | Live w \<Rightarrow> w_previous w = p \<and> w_next w = first_or xs n \<and> w_kind w = Queued) \<and>
      chain ss (Some x) xs n)"

fun free_chain :: "waiter_slot list \<Rightarrow> nat option \<Rightarrow> nat list \<Rightarrow> bool" where
  "free_chain ss f [] = (f = None)"
| "free_chain ss f (x # xs) =
     (f = Some x \<and> x < length ss \<and>
      (case ss ! x of Live _ \<Rightarrow> False | Free n \<Rightarrow> free_chain ss n xs))"

text \<open>
  Every slot is exactly one of: queued, on the free list, granted. The slots in
  \<open>X\<close> are exempt: \<open>register\<close> allocates a slot before it links it.
\<close>

definition classified ::
  "waiter_slot list \<Rightarrow> nat set \<Rightarrow> nat list \<Rightarrow> nat list \<Rightarrow> bool" where
  "classified ss X qs fs \<longleftrightarrow>
     (\<forall>i < length ss. i \<notin> X \<longrightarrow>
        (case ss ! i of
           Free _ \<Rightarrow> i \<in> set fs
         | Live w \<Rightarrow> w_kind w = Queued \<longrightarrow> i \<in> set qs))"

definition wq_rep_ex ::
  "nat set \<Rightarrow> wait_queue \<Rightarrow> nat list \<Rightarrow> nat list \<Rightarrow> bool" where
  "wq_rep_ex X q qs fs \<longleftrightarrow>
     chain (q_slots q) None qs None \<and> q_head q = first_or qs None \<and>
     q_tail q = last_or None qs \<and> distinct qs \<and>
     free_chain (q_slots q) (q_free q) fs \<and> distinct fs \<and>
     classified (q_slots q) X qs fs"

abbreviation wq_rep :: "wait_queue \<Rightarrow> nat list \<Rightarrow> nat list \<Rightarrow> bool" where
  "wq_rep \<equiv> wq_rep_ex {}"

text \<open>The abstraction: the queued slots in order, and kind and waker of every live slot.\<close>

fun walk :: "waiter_slot list \<Rightarrow> nat \<Rightarrow> nat option \<Rightarrow> nat list" where
  "walk ss 0 c = []"
| "walk ss (Suc n) None = []"
| "walk ss (Suc n) (Some i) =
     (if i < length ss
      then (case ss ! i of Live w \<Rightarrow> i # walk ss n (w_next w) | Free _ \<Rightarrow> [])
      else [])"

fun free_walk :: "waiter_slot list \<Rightarrow> nat \<Rightarrow> nat option \<Rightarrow> nat list" where
  "free_walk ss 0 c = []"
| "free_walk ss (Suc n) None = []"
| "free_walk ss (Suc n) (Some i) =
     (if i < length ss
      then (case ss ! i of Free c \<Rightarrow> i # free_walk ss n c | Live _ \<Rightarrow> [])
      else [])"

definition queued :: "wait_queue \<Rightarrow> nat list" where
  "queued q = walk (q_slots q) (length (q_slots q)) (q_head q)"

definition freed :: "wait_queue \<Rightarrow> nat list" where
  "freed q = free_walk (q_slots q) (length (q_slots q)) (q_free q)"

definition info :: "wait_queue \<Rightarrow> nat \<Rightarrow> (wake_kind \<times> waker option) option" where
  "info q i = map_option (\<lambda>w. (w_kind w, w_waker w)) (wq_get q i)"

definition wq_inv :: "wait_queue \<Rightarrow> bool" where
  "wq_inv q \<longleftrightarrow> wq_rep q (queued q) (freed q)"

section \<open>Chains\<close>

lemma chain_append:
  "chain ss p (xs @ ys) n \<longleftrightarrow>
     chain ss p xs (first_or ys n) \<and> chain ss (last_or p xs) ys n"
  by (induction xs arbitrary: p) (auto split: waiter_slot.splits)

lemma chain_update_outside [simp]:
  "x \<notin> set xs \<Longrightarrow> chain (ss[x := s]) p xs n = chain ss p xs n"
  by (induction xs arbitrary: p) auto

lemma chain_slot:
  assumes "chain ss p xs n" "x \<in> set xs"
  obtains w where "x < length ss" "ss ! x = Live w" "w_kind w = Queued"
  using assms by (induction xs arbitrary: p) (auto split: waiter_slot.splits)

lemma chain_push [simp]: "chain ss p xs n \<Longrightarrow> chain (ss @ ts) p xs n"
  by (induction xs arbitrary: p) (auto simp: nth_append)

lemma chain_relink_last:
  assumes "chain ss p (ys @ [t]) n" "t \<notin> set ys" "ss ! t = Live w"
  shows "chain (ss[t := Live (w\<lparr>w_next := n'\<rparr>)]) p (ys @ [t]) n'"
  using assms by (simp add: chain_append)

lemma chain_relink_first:
  assumes "chain ss p (y # ys) n" "y \<notin> set ys" "ss ! y = Live w"
  shows "chain (ss[y := Live (w\<lparr>w_previous := p'\<rparr>)]) p' (y # ys) n"
  using assms by simp

lemma free_chain_update_outside [simp]:
  "x \<notin> set xs \<Longrightarrow> free_chain (ss[x := s]) f xs = free_chain ss f xs"
  by (induction xs arbitrary: f) (auto split: waiter_slot.splits)

lemma free_chain_push [simp]: "free_chain ss f xs \<Longrightarrow> free_chain (ss @ ts) f xs"
  by (induction xs arbitrary: f) (auto simp: nth_append split: waiter_slot.splits)

lemma free_chain_slot:
  assumes "free_chain ss f xs" "x \<in> set xs"
  obtains m where "x < length ss" "ss ! x = Free m"
  using assms by (induction xs arbitrary: f) (auto split: waiter_slot.splits)

lemma chain_bounded: "chain ss p xs n \<Longrightarrow> x \<in> set xs \<Longrightarrow> x < length ss"
  by (erule chain_slot) auto

lemma free_chain_bounded: "free_chain ss f xs \<Longrightarrow> x \<in> set xs \<Longrightarrow> x < length ss"
  by (erule free_chain_slot) auto

lemma live_not_free_chain: "free_chain ss f xs \<Longrightarrow> ss ! x = Live w \<Longrightarrow> x \<notin> set xs"
  by (auto elim: free_chain_slot)

lemma walk_chain:
  "chain ss p xs None \<Longrightarrow> length xs \<le> n \<Longrightarrow> walk ss n (first_or xs None) = xs"
proof (induction xs arbitrary: p n)
  case Nil
  then show ?case by (cases n) auto
next
  case (Cons x xs)
  then obtain m where n: "n = Suc m" and "length xs \<le> m" by (cases n) auto
  with Cons show ?case by (auto split: waiter_slot.splits)
qed

lemma free_walk_chain:
  "free_chain ss f xs \<Longrightarrow> length xs \<le> n \<Longrightarrow> free_walk ss n f = xs"
proof (induction xs arbitrary: f n)
  case Nil
  then show ?case by (cases n) auto
next
  case (Cons x xs)
  then obtain m where n: "n = Suc m" and "length xs \<le> m" by (cases n) auto
  with Cons show ?case by (auto split: waiter_slot.splits)
qed

lemma wq_rep_unique:
  assumes "wq_rep q qs fs"
  shows "queued q = qs" "freed q = fs" "wq_inv q"
proof -
  have c: "chain (q_slots q) None qs None" and h: "q_head q = first_or qs None"
    and dq: "distinct qs" and f: "free_chain (q_slots q) (q_free q) fs" and df: "distinct fs"
    using assms by (auto simp: wq_rep_ex_def)
  have "length qs \<le> length (q_slots q)"
    using dq chain_bounded [OF c] by (rule distinct_bounded_length)
  with c h show q: "queued q = qs"
    by (simp add: queued_def walk_chain)
  have "length fs \<le> length (q_slots q)"
    using df free_chain_bounded [OF f] by (rule distinct_bounded_length)
  with f show fr: "freed q = fs"
    by (simp add: freed_def free_walk_chain)
  from q fr assms show "wq_inv q"
    by (simp add: wq_inv_def)
qed

section \<open>Slots through the abstraction\<close>

lemma wq_get_Some:
  "wq_get q i = Some w \<longleftrightarrow> i < length (q_slots q) \<and> q_slots q ! i = Live w"
  by (auto simp: wq_get_def split: waiter_slot.splits)

lemma info_None: "info q i = None \<longleftrightarrow> wq_get q i = None"
  by (simp add: info_def)

lemma info_Some:
  "info q i = Some (k, wk) \<longleftrightarrow> (\<exists>w. wq_get q i = Some w \<and> w_kind w = k \<and> w_waker w = wk)"
  by (auto simp: info_def)

lemma wq_get_update:
  "wq_get (q\<lparr>q_slots := (q_slots q)[j := s]\<rparr>) i =
     (if i = j \<and> j < length (q_slots q)
      then (case s of Live w \<Rightarrow> Some w | Free _ \<Rightarrow> None) else wq_get q i)"
  by (auto simp: wq_get_def nth_list_update)

lemma wq_get_links [simp]:
  "wq_get (q\<lparr>q_head := h\<rparr>) i = wq_get q i"
  "wq_get (q\<lparr>q_tail := h\<rparr>) i = wq_get q i"
  "wq_get (q\<lparr>q_free := h\<rparr>) i = wq_get q i"
  by (simp_all add: wq_get_def)

lemma wq_rep_head_slot:
  assumes "wq_rep_ex X q qs fs" "x \<in> set qs"
  obtains w where "wq_get q x = Some w" "w_kind w = Queued"
  using assms by (auto simp: wq_rep_ex_def wq_get_Some elim: chain_slot)

text \<open>
  Effect of an operation on the abstract state that keeps kind and waker of
  every slot, whatever it does to the links.
\<close>

definition same_info :: "wait_queue \<Rightarrow> wait_queue \<Rightarrow> bool" where
  "same_info q q' \<longleftrightarrow> length (q_slots q') = length (q_slots q) \<and> info q' = info q"

lemma wq_get_mut_Some:
  "wq_get q i = Some w \<Longrightarrow>
     wq_get_mut q i f = Some (q\<lparr>q_slots := (q_slots q)[i := Live (f w)]\<rparr>)"
  by (simp add: wq_get_mut_def)

lemma info_update_Live:
  "i < length (q_slots q) \<Longrightarrow>
     info (q\<lparr>q_slots := (q_slots q)[i := Live w]\<rparr>) = (info q)(i \<mapsto> (w_kind w, w_waker w))"
  by (rule ext) (simp add: info_def wq_get_update)

lemma info_update_Free:
  "i < length (q_slots q) \<Longrightarrow>
     info (q\<lparr>q_slots := (q_slots q)[i := Free f]\<rparr>) = (info q)(i := None)"
  by (rule ext) (simp add: info_def wq_get_update)

lemma info_links [simp]:
  "info (q\<lparr>q_head := h\<rparr>) = info q" "info (q\<lparr>q_tail := h\<rparr>) = info q"
  "info (q\<lparr>q_free := h\<rparr>) = info q"
  by (simp_all add: info_def fun_eq_iff)

section \<open>Linking and unlinking\<close>

lemma classified_update_Live:
  assumes "classified ss X qs fs" "set qs - {i} \<subseteq> set qs'"
    and "w_kind w = Queued \<longrightarrow> i \<in> set qs' \<union> Y" "X \<subseteq> insert i Y"
  shows "classified (ss[i := Live w]) Y qs' fs"
  unfolding classified_def
proof (intro allI impI)
  fix j
  assume j: "j < length (ss[i := Live w])" "j \<notin> Y"
  show "case ss[i := Live w] ! j of
      Live w \<Rightarrow> w_kind w = Queued \<longrightarrow> j \<in> set qs' | Free _ \<Rightarrow> j \<in> set fs"
  proof (cases "j = i")
    case True
    with j assms(3) show ?thesis by auto
  next
    case False
    with j assms(4) have "j < length ss" "j \<notin> X" by auto
    with assms(1) have "case ss ! j of
        Live w \<Rightarrow> w_kind w = Queued \<longrightarrow> j \<in> set qs | Free _ \<Rightarrow> j \<in> set fs"
      by (auto simp: classified_def)
    with False assms(2) show ?thesis
      by (auto split: waiter_slot.splits)
  qed
qed

lemma wq_enqueue_rep:
  assumes rep: "wq_rep_ex X q qs fs" and X: "X \<subseteq> {i}" and notin: "i \<notin> set qs"
    and get: "wq_get q i = Some w"
  obtains q' where "wq_enqueue q i = Some q'" "wq_rep q' (qs @ [i]) fs"
    "info q' = (info q)(i \<mapsto> (Queued, w_waker w))"
proof -
  let ?ss = "q_slots q"
  let ?w = "w\<lparr>w_previous := q_tail q, w_next := None, w_kind := Queued\<rparr>"
  have c: "chain ?ss None qs None" and f: "free_chain ?ss (q_free q) fs"
    and h: "q_head q = first_or qs None" and t: "q_tail q = last_or None qs"
    and d: "distinct qs" "distinct fs" and cl: "classified ?ss X qs fs"
    using rep by (auto simp: wq_rep_ex_def)
  have i: "i < length ?ss" "?ss ! i = Live w"
    using get by (auto simp: wq_get_Some)
  have if': "i \<notin> set fs"
    using f i(2) by (rule live_not_free_chain)
  show thesis
  proof (cases qs rule: rev_cases)
    case Nil
    let ?q = "q\<lparr>q_slots := ?ss[i := Live ?w], q_head := Some i, q_tail := Some i\<rparr>"
    have "wq_enqueue q i = Some ?q"
      using get t Nil by (simp add: wq_enqueue_def wq_get_mut_def Let_def)
    moreover have "wq_rep ?q (qs @ [i]) fs"
      using Nil i f if' d t cl X
      by (auto simp: wq_rep_ex_def intro!: classified_update_Live)
    moreover have "info ?q = (info q)(i \<mapsto> (Queued, w_waker w))"
      using i by (auto simp: info_def wq_get_def fun_eq_iff)
    ultimately show thesis by (rule that)
  next
    case (snoc ys z)
    have z: "z \<in> set qs" "z \<noteq> i" "z \<notin> set ys" and tz: "q_tail q = Some z"
      using snoc notin d t by auto
    obtain wz where wz: "z < length ?ss" "?ss ! z = Live wz" "w_kind wz = Queued"
      using chain_slot [OF c z(1)] .
    let ?s2 = "?ss[i := Live ?w, z := Live (wz\<lparr>w_next := Some i\<rparr>)]"
    let ?q = "q\<lparr>q_slots := ?s2, q_tail := Some i\<rparr>"
    have zf: "z \<notin> set fs"
      using f wz(2) by (rule live_not_free_chain)
    have "wq_enqueue q i = Some ?q"
      using get tz wz z by (simp add: wq_enqueue_def wq_get_mut_def wq_get_def Let_def)
    moreover have "wq_rep ?q (qs @ [i]) fs"
    proof -
      have "chain (?ss[z := Live (wz\<lparr>w_next := Some i\<rparr>)]) None qs (Some i)"
        using chain_relink_last [OF _ z(3) wz(2)] c snoc by simp
      then have "chain ?s2 None qs (Some i)"
        using notin z(2) by (simp add: list_update_swap)
      then have "chain ?s2 None (qs @ [i]) None"
        using i z t tz by (simp add: chain_append)
      moreover have "free_chain ?s2 (q_free q) fs"
        using f if' zf by simp
      moreover have "classified ?s2 {} (qs @ [i]) fs"
      proof (rule classified_update_Live)
        show "classified (?ss[i := Live ?w]) {} (qs @ [i]) fs"
          using X by (intro classified_update_Live [OF cl]) auto
      qed (use z in auto)
      ultimately show ?thesis
        using d notin h snoc by (auto simp: wq_rep_ex_def)
    qed
    moreover have "info ?q = (info q)(i \<mapsto> (Queued, w_waker w))"
      using i wz z by (auto simp: info_def wq_get_def fun_eq_iff nth_list_update)
    ultimately show thesis by (rule that)
  qed
qed

text \<open>
  The two halves of \<open>unlink\<close>: the link of the predecessor (or the head) is moved
  past \<open>i\<close>, then the back link of the successor (or the tail).
\<close>

lemma relink_previous:
  assumes c: "chain (q_slots q) None xs (Some i)" "chain (q_slots q) (Some i) ys None"
    and h: "q_head q = first_or xs (Some i)" and d: "distinct (xs @ i # ys)"
    and f: "free_chain (q_slots q) (q_free q) fs"
    and cl: "classified (q_slots q) {} (xs @ i # ys) fs"
  obtains s1 where "(case last_or None xs of
             Some p \<Rightarrow> wq_get_mut q p (\<lambda>w. w\<lparr>w_next := first_or ys None\<rparr>)
           | None \<Rightarrow> Some (q\<lparr>q_head := first_or ys None\<rparr>))
         = Some (q\<lparr>q_slots := s1, q_head := first_or (xs @ ys) None\<rparr>)"
    "chain s1 None xs (first_or ys None)" "chain s1 (Some i) ys None"
    "length s1 = length (q_slots q)" "s1 ! i = q_slots q ! i"
    "free_chain s1 (q_free q) fs" "classified s1 {} (xs @ i # ys) fs"
    "info (q\<lparr>q_slots := s1\<rparr>) = info q"
proof (cases xs rule: rev_cases)
  case Nil
  then show thesis
    using that [of "q_slots q"] c f cl by simp
next
  case (snoc us p)
  let ?ss = "q_slots q"
  have p: "p \<noteq> i" "p \<notin> set us" "p \<notin> set ys" "p \<in> set xs"
    using d snoc by auto
  obtain wp where wp: "p < length ?ss" "?ss ! p = Live wp" "w_kind wp = Queued"
    using chain_slot [OF c(1) p(4)] .
  have pf: "p \<notin> set fs"
    using f wp(2) by (rule live_not_free_chain)
  let ?s1 = "?ss[p := Live (wp\<lparr>w_next := first_or ys None\<rparr>)]"
  have "chain ?s1 None xs (first_or ys None)"
    using chain_relink_last [OF _ p(2) wp(2)] c(1) snoc by simp
  moreover have "classified ?s1 {} (xs @ i # ys) fs"
    using p(4) by (intro classified_update_Live [OF cl]) auto
  moreover have "info (q\<lparr>q_slots := ?s1\<rparr>) = info q"
    using wp by (auto simp: info_def wq_get_def fun_eq_iff nth_list_update)
  moreover have "wq_get_mut q p (\<lambda>w. w\<lparr>w_next := first_or ys None\<rparr>) =
      Some (q\<lparr>q_slots := ?s1, q_head := first_or (xs @ ys) None\<rparr>)"
    using wp h snoc by (cases us) (auto simp: wq_get_mut_def wq_get_def)
  ultimately show thesis
    using that [of ?s1] c(2) f pf p snoc by simp
qed

lemma relink_next:
  assumes c: "chain (q_slots q) None xs (first_or ys None)" "chain (q_slots q) (Some i) ys None"
    and t: "q_tail q = last_or (Some i) ys" and d: "distinct (xs @ i # ys)"
    and f: "free_chain (q_slots q) (q_free q) fs"
    and cl: "classified (q_slots q) {} (xs @ i # ys) fs"
  obtains s2 where "(case first_or ys None of
             Some n \<Rightarrow> wq_get_mut q n (\<lambda>w. w\<lparr>w_previous := last_or None xs\<rparr>)
           | None \<Rightarrow> Some (q\<lparr>q_tail := last_or None xs\<rparr>))
         = Some (q\<lparr>q_slots := s2, q_tail := last_or None (xs @ ys)\<rparr>)"
    "chain s2 None (xs @ ys) None" "length s2 = length (q_slots q)"
    "s2 ! i = q_slots q ! i" "free_chain s2 (q_free q) fs"
    "classified s2 {} (xs @ i # ys) fs" "info (q\<lparr>q_slots := s2\<rparr>) = info q"
proof (cases ys)
  case Nil
  then show thesis
    using that [of "q_slots q"] c f cl by simp
next
  case (Cons n vs)
  have n: "n \<noteq> i" "n \<notin> set vs" "n \<notin> set xs" "n \<in> set ys"
    using d Cons by auto
  obtain wn where wn: "n < length (q_slots q)" "q_slots q ! n = Live wn" "w_kind wn = Queued"
    using chain_slot [OF c(2) n(4)] .
  have nf: "n \<notin> set fs"
    using f wn(2) by (rule live_not_free_chain)
  let ?s2 = "(q_slots q)[n := Live (wn\<lparr>w_previous := last_or None xs\<rparr>)]"
  have "chain ?s2 (last_or None xs) ys None"
    using chain_relink_first [OF _ n(2) wn(2)] c(2) Cons by blast
  then have "chain ?s2 None (xs @ ys) None"
    using c(1) n(3) by (simp add: chain_append)
  moreover have "classified ?s2 {} (xs @ i # ys) fs"
    using n(4) by (intro classified_update_Live [OF cl]) auto
  moreover have "info (q\<lparr>q_slots := ?s2\<rparr>) = info q"
    using wn by (auto simp: info_def wq_get_def fun_eq_iff nth_list_update)
  moreover have "wq_get_mut q n (\<lambda>w. w\<lparr>w_previous := last_or None xs\<rparr>) =
      Some (q\<lparr>q_slots := ?s2, q_tail := last_or None (xs @ ys)\<rparr>)"
    using wn t Cons by (auto simp: wq_get_mut_def wq_get_def)
  ultimately show thesis
    using that [of ?s2] f nf n Cons by simp
qed

lemma wq_unlink_rep:
  assumes rep: "wq_rep q (xs @ i # ys) fs"
  obtains q' where "wq_unlink q i = Some q'" "wq_rep_ex {i} q' (xs @ ys) fs"
    "info q' = info q"
proof -
  have c: "chain (q_slots q) None xs (Some i)" "chain (q_slots q) (last_or None xs) (i # ys) None"
    and f: "free_chain (q_slots q) (q_free q) fs"
    and h: "q_head q = first_or xs (Some i)" and t: "q_tail q = last_or (Some i) ys"
    and d: "distinct (xs @ i # ys)" "distinct fs"
    and cl: "classified (q_slots q) {} (xs @ i # ys) fs"
    using rep by (auto simp: wq_rep_ex_def chain_append)
  obtain w where i: "i < length (q_slots q)" "q_slots q ! i = Live w"
      "w_previous w = last_or None xs" "w_next w = first_or ys None"
    and cy: "chain (q_slots q) (Some i) ys None"
    using c(2) by (auto split: waiter_slot.splits)
  have get: "wq_get q i = Some w" and nf: "i \<notin> set fs"
    using i f live_not_free_chain by (auto simp: wq_get_Some)
  obtain s1 where s1: "(case last_or None xs of
             Some p \<Rightarrow> wq_get_mut q p (\<lambda>w. w\<lparr>w_next := first_or ys None\<rparr>)
           | None \<Rightarrow> Some (q\<lparr>q_head := first_or ys None\<rparr>))
         = Some (q\<lparr>q_slots := s1, q_head := first_or (xs @ ys) None\<rparr>)"
    "chain s1 None xs (first_or ys None)" "chain s1 (Some i) ys None"
    "length s1 = length (q_slots q)" "s1 ! i = q_slots q ! i"
    "free_chain s1 (q_free q) fs" "classified s1 {} (xs @ i # ys) fs"
    "info (q\<lparr>q_slots := s1\<rparr>) = info q"
    by (rule relink_previous [OF c(1) cy h d(1) f cl])
  let ?q1 = "q\<lparr>q_slots := s1, q_head := first_or (xs @ ys) None\<rparr>"
  have info1: "info ?q1 = info q"
    using s1(8) by (simp add: info_def wq_get_def)
  obtain s2 where s2: "(case first_or ys None of
             Some n \<Rightarrow> wq_get_mut ?q1 n (\<lambda>w. w\<lparr>w_previous := last_or None xs\<rparr>)
           | None \<Rightarrow> Some (?q1\<lparr>q_tail := last_or None xs\<rparr>))
         = Some (?q1\<lparr>q_slots := s2, q_tail := last_or None (xs @ ys)\<rparr>)"
    "chain s2 None (xs @ ys) None" "length s2 = length s1" "s2 ! i = s1 ! i"
    "free_chain s2 (q_free q) fs" "classified s2 {} (xs @ i # ys) fs"
    "info (?q1\<lparr>q_slots := s2\<rparr>) = info ?q1"
    using relink_next [where q = ?q1 and xs = xs and ys = ys and i = i and fs = fs]
      s1 t d(1) by auto
  let ?q2 = "?q1\<lparr>q_slots := s2, q_tail := last_or None (xs @ ys)\<rparr>"
  let ?q3 = "?q2\<lparr>q_slots := s2[i := Live (w\<lparr>w_previous := None, w_next := None\<rparr>)]\<rparr>"
  have "wq_unlink q i = Some ?q3"
    unfolding wq_unlink_def get Let_def bind.bind_lunit i(3,4) s1(1) s2(1)
    using s1(4,5) s2(3,4) i by (simp add: wq_get_mut_def wq_get_def)
  moreover have "wq_rep_ex {i} ?q3 (xs @ ys) fs"
    using s2(2,5) d nf unfolding wq_rep_ex_def
    by (auto intro!: classified_update_Live [OF s2(6)])
  moreover have "info ?q3 = info ?q1"
    using s1(4,5) s2(3,4) i unfolding s2(7) [symmetric]
    by (auto simp: info_def wq_get_def fun_eq_iff nth_list_update)
  ultimately show thesis
    using that info1 by metis
qed

section \<open>The operations on the abstraction\<close>

lemma wq_invE:
  assumes "wq_inv q"
  obtains "wq_rep q (queued q) (freed q)"
  using assms by (auto simp: wq_inv_def)

lemma wq_inv_new [simp, inv_intros]: "wq_inv wq_new"
  by (simp add: wq_inv_def queued_def freed_def wq_new_def wq_rep_ex_def classified_def)

lemma queued_new [simp]: "queued wq_new = []"
  by (simp add: queued_def wq_new_def)

lemma info_new [simp]: "info wq_new i = None"
  by (simp add: info_def wq_get_def wq_new_def)

lemma queued_distinct: "wq_inv q \<Longrightarrow> distinct (queued q)"
  by (auto simp: wq_inv_def wq_rep_ex_def)

lemma queued_iff:
  assumes "wq_inv q"
  shows "i \<in> set (queued q) \<longleftrightarrow> (\<exists>w. info q i = Some (Queued, w))"
proof
  assume "i \<in> set (queued q)"
  with assms show "\<exists>w. info q i = Some (Queued, w)"
    by (auto simp: wq_inv_def info_Some elim!: wq_rep_head_slot)
next
  assume "\<exists>w. info q i = Some (Queued, w)"
  then obtain w where "i < length (q_slots q)" "q_slots q ! i = Live w" "w_kind w = Queued"
    by (auto simp: info_Some wq_get_Some)
  with assms show "i \<in> set (queued q)"
    by (auto simp: wq_inv_def wq_rep_ex_def classified_def split: waiter_slot.splits)
qed

lemma queued_head:
  "wq_inv q \<Longrightarrow> q_head q = first_or (queued q) None"
  by (auto simp: wq_inv_def wq_rep_ex_def)

text \<open>Storing a waker or a kind in a slot keeps the links.\<close>

lemma wq_rep_set_waker:
  assumes "wq_rep q qs fs" "wq_get q i = Some w"
  shows "wq_rep (q\<lparr>q_slots := (q_slots q)[i := Live (w\<lparr>w_waker := k\<rparr>)]\<rparr>) qs fs"
proof -
  let ?ss = "(q_slots q)[i := Live (w\<lparr>w_waker := k\<rparr>)]"
  have i: "i < length (q_slots q)" "q_slots q ! i = Live w"
    using assms(2) by (auto simp: wq_get_Some)
  have "chain ?ss p xs n" if "chain (q_slots q) p xs n" for p xs n
    using that i by (induction xs arbitrary: p) (auto simp: nth_list_update)
  moreover have "classified ?ss {} qs fs"
    using assms(1) i by (auto simp: wq_rep_ex_def classified_def nth_list_update
        split: waiter_slot.splits)
  moreover have "i \<notin> set fs"
    using assms(1) i(2) by (auto simp: wq_rep_ex_def dest: live_not_free_chain)
  ultimately show ?thesis
    using assms(1) by (simp add: wq_rep_ex_def)
qed

lemma wq_rep_set_kind:
  assumes "wq_rep_ex {i} q qs fs" "wq_get q i = Some w" "i \<notin> set qs" "k \<noteq> Queued"
  shows "wq_rep (q\<lparr>q_slots := (q_slots q)[i := Live (w\<lparr>w_kind := k, w_waker := None\<rparr>)]\<rparr>) qs fs"
proof -
  have "i \<notin> set fs"
    using assms(1,2) by (auto simp: wq_rep_ex_def wq_get_Some dest: live_not_free_chain)
  moreover have "classified ((q_slots q)[i := Live (w\<lparr>w_kind := k, w_waker := None\<rparr>)]) {} qs fs"
    using assms(1,4) by (intro classified_update_Live) (auto simp: wq_rep_ex_def)
  ultimately show ?thesis
    using assms(1,3) by (simp add: wq_rep_ex_def)
qed

lemma wq_rep_free:
  assumes "wq_rep_ex {i} q qs fs" "wq_get q i = Some w" "i \<notin> set qs"
  shows "wq_rep (q\<lparr>q_slots := (q_slots q)[i := Free (q_free q)], q_free := Some i\<rparr>) qs (i # fs)"
proof -
  have i: "i < length (q_slots q)" "q_slots q ! i = Live w"
    using assms(2) by (auto simp: wq_get_Some)
  then have "i \<notin> set fs"
    using assms(1) by (auto simp: wq_rep_ex_def dest: live_not_free_chain)
  moreover have "classified ((q_slots q)[i := Free (q_free q)]) {} qs (i # fs)"
    using assms(1) i by (auto simp: wq_rep_ex_def classified_def nth_list_update
        split: waiter_slot.splits)
  ultimately show ?thesis
    using assms i by (simp add: wq_rep_ex_def)
qed

lemma wq_alloc_rep:
  assumes "wq_rep q qs fs"
  obtains q' i w where "wq_alloc q = Some (q', i)" "wq_rep_ex {i} q' qs (tl fs)"
    "i \<notin> set qs" "info q i = None" "wq_get q' i = Some w" "w_waker w = None"
    "info q' = (info q)(i \<mapsto> (Queued, None))"
proof (cases fs)
  case Nil
  let ?w = "\<lparr>w_previous = None, w_next = None, w_kind = Queued, w_waker = None\<rparr>"
  let ?q = "q\<lparr>q_slots := q_slots q @ [Live ?w]\<rparr>" and ?i = "length (q_slots q)"
  from assms Nil have free: "q_free q = None"
    by (simp add: wq_rep_ex_def)
  have "?i \<notin> set qs"
    using assms by (auto simp: wq_rep_ex_def dest: chain_bounded)
  moreover have "wq_rep_ex {?i} ?q qs (tl fs)"
    using assms Nil free
    by (auto simp: wq_rep_ex_def classified_def nth_append less_Suc_eq)
  moreover have "info ?q = (info q)(?i \<mapsto> (Queued, None))"
    by (auto simp: info_def wq_get_def fun_eq_iff nth_append)
  ultimately show thesis
    using that [of ?q ?i ?w] free by (simp add: wq_alloc_def wq_get_def info_def Let_def)
next
  case (Cons i fs')
  let ?w = "\<lparr>w_previous = None, w_next = None, w_kind = Queued, w_waker = None\<rparr>"
  from assms Cons obtain nxt where i: "q_free q = Some i" "i < length (q_slots q)"
      "q_slots q ! i = Free nxt" "free_chain (q_slots q) nxt fs'" "i \<notin> set fs'"
    by (auto simp: wq_rep_ex_def split: waiter_slot.splits)
  let ?q = "q\<lparr>q_free := nxt, q_slots := (q_slots q)[i := Live ?w]\<rparr>"
  have "i \<notin> set qs"
    using assms i(3) by (auto simp: wq_rep_ex_def elim!: chain_slot)
  moreover have "wq_rep_ex {i} ?q qs (tl fs)"
    using assms i Cons calculation
    by (auto simp: wq_rep_ex_def classified_def nth_list_update split: waiter_slot.splits)
  moreover have "info ?q = (info q)(i \<mapsto> (Queued, None))"
    using i by (auto simp: info_def wq_get_def fun_eq_iff nth_list_update)
  ultimately show thesis
    using that [of ?q i ?w] i by (simp add: wq_alloc_def wq_get_def info_def Let_def)
qed

lemma wq_store_waker:
  assumes "wq_rep q qs fs" "wq_get q i = Some w"
  obtains q' where "wq_get_mut q i (\<lambda>w. w\<lparr>w_waker := k\<rparr>) = Some q'" "wq_rep q' qs fs"
    "info q' = (info q)(i \<mapsto> (w_kind w, k))"
proof -
  let ?q = "q\<lparr>q_slots := (q_slots q)[i := Live (w\<lparr>w_waker := k\<rparr>)]\<rparr>"
  have "i < length (q_slots q)"
    using assms(2) by (simp add: wq_get_Some)
  then have "info ?q = (info q)(i \<mapsto> (w_kind w, k))"
    by (simp add: info_update_Live)
  then show thesis
    using that [of ?q] assms by (simp add: wq_get_mut_Some wq_rep_set_waker)
qed

theorem wq_register_fresh:
  assumes "wq_inv q"
  obtains q' i where "wq_register q None wk = Some (q', Some i, None)"
    "info q i = None" "wq_inv q'" "queued q' = queued q @ [i]"
    "info q' = (info q)(i \<mapsto> (Queued, wk))"
proof -
  obtain q1 i w1 where alloc: "wq_alloc q = Some (q1, i)"
    and r1: "wq_rep_ex {i} q1 (queued q) (tl (freed q))" and ni: "i \<notin> set (queued q)"
    and fresh: "info q i = None" and g1: "wq_get q1 i = Some w1" "w_waker w1 = None"
    and i1: "info q1 = (info q)(i \<mapsto> (Queued, None))"
    using assms by (auto elim!: wq_invE wq_alloc_rep)
  obtain q2 where enq: "wq_enqueue q1 i = Some q2"
    and r2: "wq_rep q2 (queued q @ [i]) (tl (freed q))"
    and i2: "info q2 = (info q)(i \<mapsto> (Queued, None))"
    using wq_enqueue_rep [OF r1 subset_refl ni g1(1)] g1(2) i1 by auto
  obtain w2 where w2: "wq_get q2 i = Some w2" "w_kind w2 = Queued" "w_waker w2 = None"
    using i2 by (metis fun_upd_same info_Some)
  show thesis
  proof (cases wk)
    case None
    then show thesis
      using that [of q2 i] wq_rep_unique [OF r2] alloc enq w2 fresh i2
      by (simp add: wq_register_def)
  next
    case (Some k)
    obtain q3 where st: "wq_get_mut q2 i (\<lambda>w. w\<lparr>w_waker := Some k\<rparr>) = Some q3"
      and r3: "wq_rep q3 (queued q @ [i]) (tl (freed q))"
      and i3: "info q3 = (info q2)(i \<mapsto> (w_kind w2, Some k))"
      by (rule wq_store_waker [OF r2 w2(1)])
    show thesis
      using that [of q3 i] wq_rep_unique [OF r3] alloc enq w2 fresh i2 i3 st Some
      by (simp add: wq_register_def)
  qed
qed

theorem wq_register_live:
  assumes "wq_inv q" "info q i = Some (k, old)"
  obtains q' where
    "wq_register q (Some i) wk =
       Some (q', Some i, if wk = None \<or> wk = old then None else old)"
    "wq_inv q'" "queued q' = (if k = Queued then queued q else queued q @ [i])"
    "info q' = (info q)(i \<mapsto> (Queued, if wk = None then old else wk))"
proof -
  obtain w where w: "wq_get q i = Some w" "w_kind w = k" "w_waker w = old"
    using assms(2) by (auto simp: info_Some)
  obtain q2 where step: "(if w_kind w \<noteq> Queued then wq_enqueue q i else Some q) = Some q2"
    and r2: "wq_rep q2 (if k = Queued then queued q else queued q @ [i]) (freed q)"
    and i2: "info q2 = (info q)(i \<mapsto> (Queued, old))"
  proof (cases "k = Queued")
    case True
    moreover have "(info q)(i \<mapsto> (Queued, old)) = info q"
      using assms(2) True by (simp add: fun_upd_idem)
    ultimately show thesis
      using that [of q] assms(1) w by (simp add: wq_inv_def)
  next
    case False
    then have ni: "i \<notin> set (queued q)"
      using assms queued_iff by auto
    have r: "wq_rep q (queued q) (freed q)"
      using assms(1) by (rule wq_invE)
    show thesis
      using wq_enqueue_rep [OF r _ ni w(1)] that False w by auto
  qed
  obtain w2 where w2: "wq_get q2 i = Some w2" "w_kind w2 = Queued" "w_waker w2 = old"
    using i2 by (metis fun_upd_same info_Some)
  show thesis
  proof (cases "wk = None \<or> wk = old")
    case True
    then show thesis
      using that [of q2] wq_rep_unique [OF r2] step w w2 i2
      by (cases wk) (auto simp: wq_register_def)
  next
    case False
    then obtain k' where wk: "wk = Some k'" "old \<noteq> Some k'" by auto
    obtain q3 where st: "wq_get_mut q2 i (\<lambda>w. w\<lparr>w_waker := Some k'\<rparr>) = Some q3"
      and r3: "wq_rep q3 (if k = Queued then queued q else queued q @ [i]) (freed q)"
      and i3: "info q3 = (info q2)(i \<mapsto> (w_kind w2, Some k'))"
      by (rule wq_store_waker [OF r2 w2(1)])
    show thesis
      using that [of q3] wq_rep_unique [OF r3] step w w2 i2 i3 st wk
      by (simp add: wq_register_def)
  qed
qed

lemma wq_unlink_queued:
  assumes "wq_inv q" "i \<in> set (queued q)"
  obtains q' where "wq_unlink q i = Some q'"
    "wq_rep_ex {i} q' (remove1 i (queued q)) (freed q)" "info q' = info q"
    "i \<notin> set (remove1 i (queued q))"
proof -
  obtain xs ys where qs: "queued q = xs @ i # ys" "i \<notin> set xs"
    using split_list_first [OF assms(2)] by blast
  have d: "distinct (queued q)"
    using assms(1) by (rule queued_distinct)
  have "wq_rep q (xs @ i # ys) (freed q)"
    using assms(1) qs by (simp add: wq_inv_def)
  then obtain q' where "wq_unlink q i = Some q'" "wq_rep_ex {i} q' (xs @ ys) (freed q)"
      "info q' = info q"
    by (rule wq_unlink_rep)
  moreover have "remove1 i (queued q) = xs @ ys"
    using qs by (simp add: remove1_append)
  ultimately show thesis
    using that d qs by auto
qed

theorem wq_remove_live:
  assumes "wq_inv q" "info q i = Some (k, wk)"
  obtains q' old where "wq_remove q (Some i) = Some (q', None, Some old)"
    "w_kind old = k" "w_waker old = wk" "wq_inv q'" "queued q' = remove1 i (queued q)"
    "info q' = (info q)(i := None)"
proof -
  obtain w where w: "wq_get q i = Some w" "w_kind w = k" "w_waker w = wk"
    using assms(2) by (auto simp: info_Some)
  obtain q1 where step: "(if w_kind w = Queued then wq_unlink q i else Some q) = Some q1"
    and r1: "wq_rep_ex {i} q1 (remove1 i (queued q)) (freed q)" and i1: "info q1 = info q"
    and ni: "i \<notin> set (remove1 i (queued q))"
  proof (cases "k = Queued")
    case True
    then have "i \<in> set (queued q)"
      using assms queued_iff by auto
    then show thesis
      using wq_unlink_queued [OF assms(1)] that True w by metis
  next
    case False
    then have "i \<notin> set (queued q)"
      using assms queued_iff by auto
    then show thesis
      using that [of q] False w assms(1)
      by (auto simp: remove1_idem wq_inv_def wq_rep_ex_def classified_def)
  qed
  obtain w1 where w1: "wq_get q1 i = Some w1" "w_kind w1 = k" "w_waker w1 = wk"
    using i1 assms(2) by (metis info_Some)
  let ?q = "q1\<lparr>q_slots := (q_slots q1)[i := Free (q_free q1)], q_free := Some i\<rparr>"
  have "wq_rep ?q (remove1 i (queued q)) (i # freed q)"
    using r1 w1(1) ni by (rule wq_rep_free)
  moreover have "info ?q = (info q)(i := None)"
    using w1(1) i1 by (simp add: info_update_Free wq_get_Some)
  ultimately show thesis
    using that [of ?q w1] wq_rep_unique(1,3) [of ?q] step w w1
    by (auto simp: wq_remove_def)
qed

text \<open>One iteration of both grant loops: the head of the queue gets kind \<open>k\<close>.\<close>

lemma wq_grant_head:
  assumes "wq_inv q" "queued q = i # qs" "k \<noteq> Queued"
  obtains q1 w q' where "q_head q = Some i" "wq_unlink q i = Some q1" "wq_get q1 i = Some w"
    "wq_get_mut q1 i (\<lambda>w. w\<lparr>w_kind := k, w_waker := None\<rparr>) = Some q'"
    "wq_inv q'" "queued q' = qs" "info q i = Some (Queued, w_waker w)"
    "info q' = (info q)(i \<mapsto> (k, None))"
proof -
  obtain q1 where u: "wq_unlink q i = Some q1" and r1: "wq_rep_ex {i} q1 qs (freed q)"
    and i1: "info q1 = info q" and ni: "i \<notin> set qs"
    using wq_unlink_queued [OF assms(1), of i] assms(2) by auto
  obtain wk where ik: "info q i = Some (Queued, wk)"
    using queued_iff [OF assms(1)] assms(2) by auto
  then obtain w where w: "wq_get q1 i = Some w" "w_waker w = wk"
    using i1 by (metis info_Some)
  let ?q = "q1\<lparr>q_slots := (q_slots q1)[i := Live (w\<lparr>w_kind := k, w_waker := None\<rparr>)]\<rparr>"
  have "wq_rep ?q qs (freed q)"
    using r1 w(1) ni assms(3) by (rule wq_rep_set_kind)
  moreover have "info ?q = (info q)(i \<mapsto> (k, None))"
    using w(1) i1 by (simp add: info_update_Live wq_get_Some)
  ultimately show thesis
    using that [of q1 w ?q] wq_rep_unique(1,3) [of ?q] u w ik
      queued_head [OF assms(1)] assms(2)
    by (simp add: wq_get_mut_Some)
qed

lemma wq_grant_one_empty:
  "wq_inv q \<Longrightarrow> queued q = [] \<Longrightarrow> wq_grant_one q = Some (q, None)"
  by (simp add: wq_grant_one_def queued_head)

theorem wq_grant_one_head:
  assumes "wq_inv q" "queued q = i # qs"
  obtains q' wk where "wq_grant_one q = Some (q', Some wk)" "info q i = Some (Queued, wk)"
    "wq_inv q'" "queued q' = qs" "info q' = (info q)(i \<mapsto> (WakeOne, None))"
proof -
  obtain q1 w q' where g: "q_head q = Some i" "wq_unlink q i = Some q1" "wq_get q1 i = Some w"
    "wq_get_mut q1 i (\<lambda>w. w\<lparr>w_kind := WakeOne, w_waker := None\<rparr>) = Some q'"
    "wq_inv q'" "queued q' = qs" "info q i = Some (Queued, w_waker w)"
    "info q' = (info q)(i \<mapsto> (WakeOne, None))"
    by (rule wq_grant_head [OF assms, of WakeOne]) simp_all
  then show thesis
    using that [of q' "w_waker w"] by (simp add: wq_grant_one_def)
qed

definition waker_at :: "wait_queue \<Rightarrow> nat \<Rightarrow> waker option" where
  "waker_at q i = (case info q i of Some (k, wk) \<Rightarrow> wk | None \<Rightarrow> None)"

definition wakers_of :: "wait_queue \<Rightarrow> nat list \<Rightarrow> waker list" where
  "wakers_of q is = List.map_filter (waker_at q) is"

lemma wakers_of_cong:
  "(\<And>i. i \<in> set is \<Longrightarrow> info q' i = info q i) \<Longrightarrow> wakers_of q' is = wakers_of q is"
  by (auto simp: wakers_of_def waker_at_def map_filter_def intro!: map_cong filter_cong)

theorem wq_grant_all_queued:
  assumes "wq_inv q"
  obtains q' where "wq_grant_all q = Some (q', wakers_of q (queued q))"
    "wq_inv q'" "queued q' = []"
    "info q' = (\<lambda>i. if i \<in> set (queued q) then Some (WakeAll, None) else info q i)"
proof -
  have "\<exists>q'. wq_grant_all_loop q ws = Some (q', ws @ wakers_of q (queued q)) \<and>
      wq_inv q' \<and> queued q' = [] \<and>
      info q' = (\<lambda>i. if i \<in> set (queued q) then Some (WakeAll, None) else info q i)"
    if "wq_inv q" for q ws
    using that
  proof (induction "queued q" arbitrary: q ws)
    case Nil
    then show ?case
      by (subst wq_grant_all_loop.simps)
        (simp add: queued_head wakers_of_def map_filter_def Nil.hyps [symmetric])
  next
    case (Cons i qs)
    obtain q1 w q' where g: "q_head q = Some i" "wq_unlink q i = Some q1" "wq_get q1 i = Some w"
      "wq_get_mut q1 i (\<lambda>w. w\<lparr>w_kind := WakeAll, w_waker := None\<rparr>) = Some q'"
      "wq_inv q'" "queued q' = qs" "info q i = Some (Queued, w_waker w)"
      "info q' = (info q)(i \<mapsto> (WakeAll, None))"
      by (rule wq_grant_head [OF Cons.prems Cons.hyps(2) [symmetric], of WakeAll]) simp_all
    have ni: "i \<notin> set qs"
      using queued_distinct [OF Cons.prems] Cons.hyps(2) by (metis distinct.simps(2))
    have ws: "wakers_of q' qs = wakers_of q qs"
      using g(8) ni by (intro wakers_of_cong) auto
    let ?ws = "case w_waker w of Some k \<Rightarrow> ws @ [k] | None \<Rightarrow> ws"
    obtain q'' where q'': "wq_grant_all_loop q' ?ws = Some (q'', ?ws @ wakers_of q qs)"
      "wq_inv q''" "queued q'' = []"
      "info q'' = (\<lambda>j. if j \<in> set qs then Some (WakeAll, None) else info q' j)"
      using Cons.hyps(1) [OF g(6) [symmetric] g(5), of ?ws] g(6) ws by auto
    have "?ws @ wakers_of q qs = ws @ wakers_of q (i # qs)"
      using g(7) by (auto simp: wakers_of_def map_filter_def waker_at_def split: option.splits)
    then have "wq_grant_all_loop q ws = Some (q'', ws @ wakers_of q (queued q))"
      using q''(1) g Cons.hyps(2) [symmetric] by (subst wq_grant_all_loop.simps) simp
    moreover have "info q'' = (\<lambda>j. if j \<in> set (queued q) then Some (WakeAll, None) else info q j)"
      using q''(4) g(8) Cons.hyps(2) [symmetric] by auto
    ultimately show ?case
      using q''(2,3) by blast
  qed
  from this [OF assms, of "[]"] show thesis
    using that by (auto simp: wq_grant_all_def)
qed

section \<open>The interface of the waiter queue\<close>

text \<open>
  A token is what a future stores in its \<open>registration\<close> field: absent, or the
  index of a live slot.
\<close>

definition token_live :: "wait_queue \<Rightarrow> nat option \<Rightarrow> bool" where
  "token_live q t \<longleftrightarrow> (case t of None \<Rightarrow> True | Some i \<Rightarrow> info q i \<noteq> None)"

lemma token_live_simps [simp]:
  "token_live q None" "token_live q (Some i) \<longleftrightarrow> info q i \<noteq> None"
  by (simp_all add: token_live_def)

locale wait_list =
  fixes inv :: "'q \<Rightarrow> bool"
    and queue :: "'q \<Rightarrow> nat list"
    and slots :: "'q \<Rightarrow> nat \<Rightarrow> (wake_kind \<times> waker option) option"
    and register :: "'q \<Rightarrow> nat option \<Rightarrow> waker option \<Rightarrow> ('q \<times> nat option \<times> waker option) option"
    and remove :: "'q \<Rightarrow> nat option \<Rightarrow> ('q \<times> nat option \<times> waiter option) option"
    and grant_one :: "'q \<Rightarrow> ('q \<times> waker option option) option"
    and grant_all :: "'q \<Rightarrow> ('q \<times> waker list) option"
  assumes queue_iff: "inv q \<Longrightarrow> i \<in> set (queue q) \<longleftrightarrow> (\<exists>w. slots q i = Some (Queued, w))"
    and queue_distinct: "inv q \<Longrightarrow> distinct (queue q)"
    and register_fresh: "inv q \<Longrightarrow>
      \<exists>q' i. register q None wk = Some (q', Some i, None) \<and> slots q i = None \<and> inv q' \<and>
        queue q' = queue q @ [i] \<and> slots q' = (slots q)(i \<mapsto> (Queued, wk))"
    and register_live: "inv q \<Longrightarrow> slots q i = Some (k, old) \<Longrightarrow>
      \<exists>q' r. register q (Some i) wk = Some (q', Some i, r) \<and> inv q' \<and>
        queue q' = (if k = Queued then queue q else queue q @ [i]) \<and>
        slots q' = (slots q)(i \<mapsto> (Queued, if wk = None then old else wk))"
    and remove_none: "remove q None = Some (q, None, None)"
    and remove_live: "inv q \<Longrightarrow> slots q i = Some (k, wk) \<Longrightarrow>
      \<exists>q' w. remove q (Some i) = Some (q', None, Some w) \<and> w_kind w = k \<and> inv q' \<and>
        queue q' = remove1 i (queue q) \<and> slots q' = (slots q)(i := None)"
    and grant_one_empty: "inv q \<Longrightarrow> queue q = [] \<Longrightarrow> grant_one q = Some (q, None)"
    and grant_one_head: "inv q \<Longrightarrow> queue q = i # is \<Longrightarrow>
      \<exists>q' wk. grant_one q = Some (q', Some wk) \<and> slots q i = Some (Queued, wk) \<and> inv q' \<and>
        queue q' = is \<and> slots q' = (slots q)(i \<mapsto> (WakeOne, None))"
    and grant_all_queue: "inv q \<Longrightarrow>
      \<exists>q'. grant_all q = Some (q', List.map_filter
              (\<lambda>i. case slots q i of Some (k, wk) \<Rightarrow> wk | None \<Rightarrow> None) (queue q)) \<and>
        inv q' \<and> queue q' = [] \<and>
        slots q' = (\<lambda>i. if i \<in> set (queue q) then Some (WakeAll, None) else slots q i)"
begin

lemma queued_live: "inv q \<Longrightarrow> i \<in> set (queue q) \<Longrightarrow> slots q i \<noteq> None"
  by (auto simp: queue_iff)

text \<open>What a client relies on when it registers with whatever token it holds.\<close>

lemma register_any:
  assumes "inv q" "case t of None \<Rightarrow> True | Some i \<Rightarrow> slots q i \<noteq> None"
  shows "\<exists>q' i r. register q t wk = Some (q', Some i, r) \<and> inv q' \<and>
    (t = Some i \<or> t = None \<and> slots q i = None) \<and>
    queue q' = (if i \<in> set (queue q) then queue q else queue q @ [i]) \<and>
    slots q' = (slots q)(i \<mapsto> (Queued,
      if wk = None then (case slots q i of Some (k, w) \<Rightarrow> w | None \<Rightarrow> None) else wk))"
proof (cases t)
  case None
  obtain q' i where r: "register q None wk = Some (q', Some i, None)" "slots q i = None" "inv q'"
    "queue q' = queue q @ [i]" "slots q' = (slots q)(i \<mapsto> (Queued, wk))"
    using register_fresh [OF assms(1)] by blast
  moreover have "i \<notin> set (queue q)"
    using queued_live [OF assms(1)] r(2) by blast
  ultimately show ?thesis
    using None by (intro exI [of _ q'] exI [of _ i] exI [of _ None]) simp
next
  case (Some i)
  then obtain k old where i: "slots q i = Some (k, old)"
    using assms(2) by auto
  then have "i \<in> set (queue q) \<longleftrightarrow> k = Queued"
    using queue_iff [OF assms(1)] by simp
  then show ?thesis
    using register_live [OF assms(1) i, of wk] Some i by fastforce
qed

text \<open>Removal with whatever token a client holds reports the kind of its slot.\<close>

lemma remove_any:
  assumes "inv q" "case t of None \<Rightarrow> True | Some i \<Rightarrow> slots q i \<noteq> None"
  shows "\<exists>q' r. remove q t = Some (q', None, r) \<and> inv q' \<and>
    queue q' = (case t of None \<Rightarrow> queue q | Some i \<Rightarrow> remove1 i (queue q)) \<and>
    slots q' = (case t of None \<Rightarrow> slots q | Some i \<Rightarrow> (slots q)(i := None)) \<and>
    map_option w_kind r = (case t of None \<Rightarrow> None | Some i \<Rightarrow> map_option fst (slots q i))"
proof (cases t)
  case None
  then show ?thesis
    using assms by (simp add: remove_none)
next
  case (Some i)
  then obtain k wk where i: "slots q i = Some (k, wk)"
    using assms(2) by auto
  with remove_live [OF assms(1) i] Some show ?thesis
    by fastforce
qed

text \<open>A registration that is cancelled leaves no trace.\<close>

lemma register_then_remove:
  assumes "inv q" "register q None wk = Some (q1, t, r)"
  shows "\<exists>q2 w. remove q1 t = Some (q2, None, w) \<and> inv q2 \<and> queue q2 = queue q \<and> slots q2 = slots q"
proof -
  obtain q' i where q': "register q None wk = Some (q', Some i, None)" "slots q i = None" "inv q'"
    "queue q' = queue q @ [i]" "slots q' = (slots q)(i \<mapsto> (Queued, wk))"
    using register_fresh [OF assms(1)] by blast
  then have eq: "q1 = q'" "t = Some i"
    using assms(2) by auto
  have "i \<notin> set (queue q)"
    using queued_live [OF assms(1)] q'(2) by blast
  moreover have "slots q' i = Some (Queued, wk)"
    using q'(5) by simp
  ultimately show ?thesis
    using remove_live [OF q'(3), of i Queued wk] q' eq
    by (auto simp: remove1_append fun_upd_idem)
qed

end

interpretation wq: wait_list wq_inv queued info wq_register wq_remove wq_grant_one wq_grant_all
proof unfold_locales
  fix q i
  show "wq_inv q \<Longrightarrow> i \<in> set (queued q) \<longleftrightarrow> (\<exists>w. info q i = Some (Queued, w))"
    by (rule queued_iff)
  show "wq_inv q \<Longrightarrow> distinct (queued q)"
    by (rule queued_distinct)
  show "wq_remove q None = Some (q, None, None)"
    by (simp add: wq_remove_def)
  show "wq_inv q \<Longrightarrow> queued q = [] \<Longrightarrow> wq_grant_one q = Some (q, None)"
    by (rule wq_grant_one_empty)
next
  fix q wk
  assume "wq_inv q"
  then show "\<exists>q' i. wq_register q None wk = Some (q', Some i, None) \<and> info q i = None \<and>
      wq_inv q' \<and> queued q' = queued q @ [i] \<and> info q' = (info q)(i \<mapsto> (Queued, wk))"
    by (rule wq_register_fresh) blast
next
  fix q i k old wk
  assume "wq_inv q" "info q i = Some (k, old)"
  then show "\<exists>q' r. wq_register q (Some i) wk = Some (q', Some i, r) \<and> wq_inv q' \<and>
      queued q' = (if k = Queued then queued q else queued q @ [i]) \<and>
      info q' = (info q)(i \<mapsto> (Queued, if wk = None then old else wk))"
    by (rule wq_register_live) blast
next
  fix q i k wk
  assume "wq_inv q" "info q i = Some (k, wk)"
  then show "\<exists>q' w. wq_remove q (Some i) = Some (q', None, Some w) \<and> w_kind w = k \<and>
      wq_inv q' \<and> queued q' = remove1 i (queued q) \<and> info q' = (info q)(i := None)"
    by (rule wq_remove_live) blast
next
  fix q i "is"
  assume "wq_inv q" "queued q = i # is"
  then show "\<exists>q' wk. wq_grant_one q = Some (q', Some wk) \<and> info q i = Some (Queued, wk) \<and>
      wq_inv q' \<and> queued q' = is \<and> info q' = (info q)(i \<mapsto> (WakeOne, None))"
    by (rule wq_grant_one_head) blast
next
  fix q
  assume "wq_inv q"
  then show "\<exists>q'. wq_grant_all q = Some (q', List.map_filter
              (\<lambda>i. case info q i of Some (k, wk) \<Rightarrow> wk | None \<Rightarrow> None) (queued q)) \<and>
        wq_inv q' \<and> queued q' = [] \<and>
        info q' = (\<lambda>i. if i \<in> set (queued q) then Some (WakeAll, None) else info q i)"
    by (rule wq_grant_all_queued) (auto simp: wakers_of_def waker_at_def [abs_def])
qed

section \<open>The waiters of a primitive\<close>

lemma waiters_register_spec:
  assumes "wq_inv q" "token_live q t"
  obtains q' i where "waiters_register q t wk = Some (q', Some i)" "wq_inv q'"
    "t = Some i \<or> t = None \<and> info q i = None"
    "queued q' = (if i \<in> set (queued q) then queued q else queued q @ [i])"
    "info q' = (info q)(i \<mapsto> (Queued, Some wk))"
  using wq.register_any [OF assms(1), of t "Some wk"] assms(2)
  by (auto simp: waiters_register_def token_live_def)

lemma waiters_remove_spec:
  assumes "wq_inv q" "token_live q t"
  obtains q' where "waiters_remove q t =
      Some (q', None, (case t of None \<Rightarrow> None | Some i \<Rightarrow> map_option fst (info q i)))"
    "wq_inv q'" "queued q' = (case t of None \<Rightarrow> queued q | Some i \<Rightarrow> remove1 i (queued q))"
    "info q' = (case t of None \<Rightarrow> info q | Some i \<Rightarrow> (info q)(i := None))"
proof (cases t)
  case None
  then show thesis
    using that [of q] assms(1) by (simp add: waiters_remove_def)
next
  case (Some i)
  then show thesis
    using wq.remove_any [OF assms(1), of t] assms(2) that
    by (auto simp: waiters_remove_def)
qed

lemma waiters_wake_one_empty:
  "wq_inv q \<Longrightarrow> queued q = [] \<Longrightarrow> waiters_wake_one q = Some (q, [])"
  by (simp add: waiters_wake_one_def wq_grant_one_empty)

lemma waiters_wake_one_head:
  assumes "wq_inv q" "queued q = i # is"
  obtains q' where "waiters_wake_one q = Some (q', wakers_of q [i])" "wq_inv q'"
    "queued q' = is" "info q' = (info q)(i \<mapsto> (WakeOne, None))"
  using wq.grant_one_head [OF assms]
  by (auto simp: waiters_wake_one_def wakers_of_def waker_at_def map_filter_def
      split: option.splits)

lemma waiters_wake_all_spec:
  assumes "wq_inv q"
  obtains q' where "waiters_wake_all q = Some (q', wakers_of q (queued q))" "wq_inv q'"
    "queued q' = []"
    "info q' = (\<lambda>i. if i \<in> set (queued q) then Some (WakeAll, None) else info q i)"
  using wq_grant_all_queued [OF assms] unfolding waiters_wake_all_def by blast

lemma wait_queue_register_rule:
  assumes "wq_inv q" "token_live q t"
  shows "\<exists>q' i old. wq_register q t wk = Some (q', Some i, old) \<and> wq_inv q' \<and>
    (t = Some i \<or> t = None \<and> info q i = None) \<and>
    queued q' = (if i \<in> set (queued q) then queued q else queued q @ [i]) \<and>
    info q' = (info q)(i \<mapsto> (Queued, if wk = None then waker_at q i else wk))"
  using wq.register_any [OF assms(1) assms(2) [unfolded token_live_def], of wk]
  unfolding waker_at_def .


section \<open>Registrations of a family of futures\<close>

text \<open>
  The futures of one primitive, numbered by \<open>nat\<close>: \<open>reg i\<close> is the content of the
  \<open>registration\<close> field of future \<open>i\<close>. Every token is live, no two futures share
  a slot, and no live slot is without a future (a slot is never leaked).
\<close>

definition owned :: "wait_queue \<Rightarrow> (nat \<Rightarrow> nat option) \<Rightarrow> bool" where
  "owned q reg \<longleftrightarrow> wq_inv q \<and>
     (\<forall>i t. reg i = Some t \<longrightarrow> info q t \<noteq> None) \<and>
     (\<forall>i j t. reg i = Some t \<longrightarrow> reg j = Some t \<longrightarrow> i = j) \<and>
     (\<forall>t. info q t \<noteq> None \<longrightarrow> (\<exists>i. reg i = Some t))"

lemma ownedD:
  assumes "owned q reg"
  shows "wq_inv q" "token_live q (reg i)" "reg i = Some t \<Longrightarrow> reg j = Some t \<Longrightarrow> i = j"
    "info q t = Some x \<Longrightarrow> \<exists>i. reg i = Some t"
  using assms by (auto simp: owned_def token_live_def split: option.splits)

lemma owned_new: "owned wq_new (\<lambda>_. None)"
  by (simp add: owned_def)

lemma owned_same_dom:
  assumes "owned q reg" "wq_inv q'" "dom (info q') = dom (info q)"
  shows "owned q' reg"
proof -
  have "info q' t = None \<longleftrightarrow> info q t = None" for t
    using assms(3) by (metis domIff)
  with assms(1,2) show ?thesis
    unfolding owned_def by presburger
qed

lemma owned_register:
  assumes "owned q reg" "wq_register q (reg i) wk = Some (q', t', r)"
  shows "owned q' (reg(i := t'))"
proof -
  obtain q1 t r1 where r: "wq_register q (reg i) wk = Some (q1, Some t, r1)" "wq_inv q1"
    "reg i = Some t \<or> reg i = None \<and> info q t = None"
    "info q1 = (info q)(t \<mapsto> (Queued, if wk = None then waker_at q t else wk))"
    using wait_queue_register_rule [OF ownedD(1,2) [OF assms(1)]] by metis
  then have eq: "q' = q1" "t' = Some t"
    using assms(2) by auto
  have fresh: "reg j \<noteq> Some t" if "j \<noteq> i" for j
    using r(3) that ownedD(3) [OF assms(1)] ownedD(2) [OF assms(1), of j]
    by (auto simp: token_live_def split: option.splits)
  show ?thesis
    unfolding eq owned_def
  proof (intro conjI allI impI)
    show "wq_inv q1" by (fact r(2))
    show "info q1 u \<noteq> None" if "(reg(i := Some t)) j = Some u" for j u
      using that r(4) ownedD(2) [OF assms(1), of j] by (auto split: if_splits)
    show "j = l" if "(reg(i := Some t)) j = Some u" "(reg(i := Some t)) l = Some u" for j l u
      using that fresh ownedD(3) [OF assms(1)] by (auto split: if_splits)
    show "\<exists>j. (reg(i := Some t)) j = Some u" if live: "info q1 u \<noteq> None" for u
    proof (cases "u = t")
      case True
      then show ?thesis by auto
    next
      case False
      then have "info q u \<noteq> None"
        using live r(4) by simp
      then obtain j where "reg j = Some u"
        using ownedD(4) [OF assms(1)] by blast
      moreover have "j \<noteq> i"
        using calculation r(3) False by auto
      ultimately show ?thesis by auto
    qed
  qed
qed

lemma owned_remove:
  assumes "owned q reg" "wq_remove q (reg i) = Some (q', t', r)"
  shows "owned q' (reg(i := None))"
proof (cases "reg i")
  case None
  with assms show ?thesis
    by (simp add: wq.remove_none fun_upd_idem)
next
  case (Some t)
  have live: "info q t \<noteq> None"
    using ownedD(2) [OF assms(1), of i] Some by simp
  then obtain k w where "info q t = Some (k, w)"
    by auto
  then have q': "wq_inv q'" "info q' = (info q)(t := None)"
    using wq.remove_live [OF ownedD(1) [OF assms(1)], of t k w] assms(2) Some by auto
  have other: "reg j \<noteq> Some t" if "j \<noteq> i" for j
    using ownedD(3) [OF assms(1)] Some that by blast
  show ?thesis
    unfolding owned_def
  proof (intro conjI allI impI)
    show "wq_inv q'" by (fact q'(1))
    show "info q' u \<noteq> None" if "(reg(i := None)) j = Some u" for j u
      using that q'(2) other ownedD(2) [OF assms(1), of j] by (auto split: if_splits)
    show "j = l" if "(reg(i := None)) j = Some u" "(reg(i := None)) l = Some u" for j l u
      using that ownedD(3) [OF assms(1)] by (auto split: if_splits)
    show "\<exists>j. (reg(i := None)) j = Some u" if "info q' u \<noteq> None" for u
    proof -
      from that q'(2) have "info q u \<noteq> None" "u \<noteq> t"
        by (auto split: if_splits)
      then obtain j where "reg j = Some u" "j \<noteq> i"
        using ownedD(4) [OF assms(1)] Some by (metis not_None_eq option.sel)
      then show ?thesis by auto
    qed
  qed
qed

lemma owned_grant_one:
  assumes "owned q reg" "wq_grant_one q = Some (q', r)"
  shows "owned q' reg"
proof (cases "queued q")
  case Nil
  with assms show ?thesis
    by (simp add: wq_grant_one_empty ownedD)
next
  case (Cons i "is")
  obtain wk where q': "wq_inv q'" "info q i = Some (Queued, wk)"
    "info q' = (info q)(i \<mapsto> (WakeOne, None))"
    using wq.grant_one_head [OF ownedD(1) [OF assms(1)] Cons] assms(2) by auto
  then show ?thesis
    by (intro owned_same_dom [OF assms(1)]) auto
qed

lemma owned_grant_all:
  assumes "owned q reg" "wq_grant_all q = Some (q', ws)"
  shows "owned q' reg"
proof -
  have "wq_inv q'" "info q' = (\<lambda>i. if i \<in> set (queued q) then Some (WakeAll, None) else info q i)"
    using wq.grant_all_queue [OF ownedD(1) [OF assms(1)]] assms(2) by auto
  then show ?thesis
    using wq.queued_live [OF ownedD(1) [OF assms(1)]]
    by (intro owned_same_dom [OF assms(1)]) (auto split: if_splits)
qed

lemmas owned_intros [inv_intros] =
  owned_register owned_remove owned_grant_one owned_grant_all

lemma owned_waiters:
  assumes "owned q reg"
  shows "waiters_register q (reg i) wk = Some (q', t) \<Longrightarrow> owned q' (reg(i := t))"
    and "waiters_remove q (reg i) = Some (q', t, k) \<Longrightarrow> owned q' (reg(i := None))"
    and "waiters_wake_one q = Some (q', ws) \<Longrightarrow> owned q' reg"
    and "waiters_wake_all q = Some (q', ws) \<Longrightarrow> owned q' reg"
  using assms
  by (auto simp: waiters_register_def waiters_remove_def waiters_wake_one_def
      waiters_wake_all_def fun_upd_idem bind_eq_Some_conv split: if_splits
      intro: owned_intros)

text \<open>No operation panics on the registrations of a family of futures.\<close>

lemma owned_no_panic:
  assumes "owned q reg"
  shows "wq_register q (reg i) wk \<noteq> None" "wq_remove q (reg i) \<noteq> None"
    "wq_grant_one q \<noteq> None" "wq_grant_all q \<noteq> None"
    "waiters_register q (reg i) k \<noteq> None" "waiters_remove q (reg i) \<noteq> None"
    "waiters_wake_one q \<noteq> None" "waiters_wake_all q \<noteq> None"
proof -
  note inv = ownedD(1) [OF assms] and live = ownedD(2) [OF assms, of i]
  note live' = live [unfolded token_live_def]
  show reg: "wq_register q (reg i) wk \<noteq> None" for wk
    using wq.register_any [OF inv live', of wk] by auto
  show rem: "wq_remove q (reg i) \<noteq> None"
    using wq.remove_any [OF inv live'] by auto
  show one: "wq_grant_one q \<noteq> None"
    using wq.grant_one_head [OF inv] wq_grant_one_empty [OF inv] by (cases "queued q") auto
  show all: "wq_grant_all q \<noteq> None"
    using wq.grant_all_queue [OF inv] by auto
  show "waiters_register q (reg i) k \<noteq> None"
    using reg [of "Some k"] by (auto simp: waiters_register_def)
  show "waiters_remove q (reg i) \<noteq> None" "waiters_wake_one q \<noteq> None" "waiters_wake_all q \<noteq> None"
    using rem one all by (auto simp: waiters_remove_def waiters_wake_one_def waiters_wake_all_def)
qed

text \<open>What one future's operation means for the slots of the family.\<close>

definition slot_kind :: "wait_queue \<Rightarrow> nat option \<Rightarrow> wake_kind option" where
  "slot_kind q t = (case t of None \<Rightarrow> None | Some i \<Rightarrow> map_option fst (info q i))"

lemma slot_kind_None [simp]: "slot_kind q None = None"
  by (simp add: slot_kind_def)

lemma family_register:
  assumes own: "owned q reg" and r: "waiters_register q (reg i) wk = Some (q', t)"
  shows "slot_kind q' t = Some Queued" "j \<noteq> i \<Longrightarrow> slot_kind q' (reg j) = slot_kind q (reg j)"
proof -
  obtain u where u: "t = Some u" "reg i = Some u \<or> reg i = None \<and> info q u = None"
    "info q' = (info q)(u \<mapsto> (Queued, Some wk))"
    using waiters_register_spec [OF ownedD(1,2) [OF own], of i wk] r by auto
  then show "slot_kind q' t = Some Queued"
    by (simp add: slot_kind_def)
  assume "j \<noteq> i"
  then have "reg j \<noteq> Some u"
    using u(2) ownedD(2) [OF own, of j] ownedD(3) [OF own, of i u j] by auto
  then show "slot_kind q' (reg j) = slot_kind q (reg j)"
    using u(3) by (auto simp: slot_kind_def split: option.splits)
qed

lemma family_remove:
  assumes own: "owned q reg" and r: "waiters_remove q (reg i) = Some (q', t, k)"
  shows "t = None" "k = slot_kind q (reg i)" "j \<noteq> i \<Longrightarrow> slot_kind q' (reg j) = slot_kind q (reg j)"
proof -
  have q': "t = None" "k = slot_kind q (reg i)"
    "info q' = (case reg i of None \<Rightarrow> info q | Some u \<Rightarrow> (info q)(u := None))"
    using waiters_remove_spec [OF ownedD(1,2) [OF own], of i] r unfolding slot_kind_def by auto
  then show "t = None" "k = slot_kind q (reg i)" by blast+
  assume "j \<noteq> i"
  then have "reg j \<noteq> Some u" if "reg i = Some u" for u
    using that ownedD(3) [OF own, of i u j] by auto
  then show "slot_kind q' (reg j) = slot_kind q (reg j)"
    using q'(3) by (auto simp: slot_kind_def split: option.splits)
qed

lemma family_wake_all:
  assumes own: "owned q reg" and r: "waiters_wake_all q = Some (q', ws)"
  shows "slot_kind q' (reg j) \<noteq> Some Queued"
proof -
  have q': "wq_inv q'" "queued q' = []"
    using waiters_wake_all_spec [OF ownedD(1) [OF own]] r by auto
  then show ?thesis
    using wq.queue_iff [OF q'(1)] by (auto simp: slot_kind_def split: option.splits)
qed

section \<open>Properties\<close>

text \<open>
  C1: a waiter that registers, with no token or with the token of its live slot, is
  never refused and never panics: a fresh registration gets a slot that no other
  future holds, a granted slot goes to the back of the queue, a queued slot keeps
  its place, the newest waker is stored, and no other slot changes.
\<close>

theorem wait_queue_register:
  assumes "wq_inv q" "token_live q t"
  shows "\<exists>q' i old. wq_register q t wk = Some (q', Some i, old) \<and> wq_inv q' \<and>
    (t = Some i \<or> t = None \<and> info q i = None) \<and>
    queued q' = (if i \<in> set (queued q) then queued q else queued q @ [i]) \<and>
    info q' = (info q)(i \<mapsto> (Queued, if wk = None then waker_at q i else wk))"
  by (rule wait_queue_register_rule [OF assms])

theorem wait_queue_register_witness:
  "wq_inv wq_new \<and> token_live wq_new None \<and>
   (\<exists>q' i old. wq_register wq_new None (Some 7) = Some (q', Some i, old) \<and>
      queued q' = [i] \<and> info q' i = Some (Queued, Some 7))"
  using wait_queue_register [of wq_new None "Some 7"] by auto

text \<open>
  removing the registration a future holds unlinks exactly its slot, in
  whatever position of the queue it is, reports whether it had been granted, frees
  the slot for reuse and leaves the order and the state of all others unchanged.
\<close>

theorem wait_queue_remove:
  assumes "wq_inv q" "info q i = Some (k, wk)"
  shows "\<exists>q' w. wq_remove q (Some i) = Some (q', None, Some w) \<and> w_kind w = k \<and> wq_inv q' \<and>
    queued q' = remove1 i (queued q) \<and> info q' = (info q)(i := None)"
  using wq.remove_live [OF assms] .

theorem wait_queue_remove_witness:
  "\<exists>q0 i. wq_register wq_new None (Some 7) = Some (q0, Some i, None) \<and>
     (\<exists>q' w. wq_remove q0 (Some i) = Some (q', None, Some w) \<and> w_kind w = Queued \<and>
        queued q' = [])"
proof -
  obtain q0 i where q0: "wq_register wq_new None (Some 7) = Some (q0, Some i, None)" "wq_inv q0"
    "queued q0 = [i]" "info q0 i = Some (Queued, Some 7)"
    using wq.register_fresh [OF wq_inv_new, of "Some 7"] by auto
  then show ?thesis
    using wait_queue_remove [OF q0(2,4)] by auto
qed

text \<open>
  granting is first come first served: \<open>grant_one\<close> takes the head of the
  queue, hands out the waker that slot held and marks it, and on an empty queue it
  changes nothing; \<open>grant_all\<close> always terminates, hands out the wakers of all
  queued slots in queue order and marks exactly them.
\<close>

theorem wait_queue_grant_fifo:
  assumes "wq_inv q"
  shows "(case queued q of
      [] \<Rightarrow> wq_grant_one q = Some (q, None)
    | i # is \<Rightarrow> \<exists>q'. wq_grant_one q = Some (q', Some (waker_at q i)) \<and> wq_inv q' \<and>
        queued q' = is \<and> info q' = (info q)(i \<mapsto> (WakeOne, None))) \<and>
    (\<exists>q'. wq_grant_all q = Some (q', wakers_of q (queued q)) \<and> wq_inv q' \<and> queued q' = [] \<and>
        info q' = (\<lambda>i. if i \<in> set (queued q) then Some (WakeAll, None) else info q i))"
proof (rule conjI)
  show "case queued q of
      [] \<Rightarrow> wq_grant_one q = Some (q, None)
    | i # is \<Rightarrow> \<exists>q'. wq_grant_one q = Some (q', Some (waker_at q i)) \<and> wq_inv q' \<and>
        queued q' = is \<and> info q' = (info q)(i \<mapsto> (WakeOne, None))"
  proof (cases "queued q")
    case Nil
    then show ?thesis using assms by (simp add: wq_grant_one_empty)
  next
    case (Cons i "is")
    then show ?thesis
      using wq.grant_one_head [OF assms Cons] by (auto simp: waker_at_def)
  qed
  show "\<exists>q'. wq_grant_all q = Some (q', wakers_of q (queued q)) \<and> wq_inv q' \<and> queued q' = [] \<and>
        info q' = (\<lambda>i. if i \<in> set (queued q) then Some (WakeAll, None) else info q i)"
    using wq_grant_all_queued [OF assms] by blast
qed

theorem wait_queue_grant_fifo_witness:
  "\<exists>q0 i. wq_register wq_new None (Some 7) = Some (q0, Some i, None) \<and>
     (\<exists>q'. wq_grant_one q0 = Some (q', Some (Some 7)) \<and> queued q' = []) \<and>
     (\<exists>q'. wq_grant_all q0 = Some (q', [7]) \<and> queued q' = [])"
proof -
  obtain q0 i where q0: "wq_register wq_new None (Some 7) = Some (q0, Some i, None)" "wq_inv q0"
    "queued q0 = [i]" "info q0 i = Some (Queued, Some 7)"
    using wq.register_fresh [OF wq_inv_new, of "Some 7"] by auto
  then show ?thesis
    using wait_queue_grant_fifo [OF q0(2)]
    by (auto simp: waker_at_def wakers_of_def map_filter_def)
qed
end
