(* ===== verification/Notify.thy ===== *)
theory Notify
  imports WaitQueue
begin

text \<open>
  \<open>Notify\<close> and its future \<open>Notified\<close> (\<open>src/src/sync.rs\<close>): the stored permit, the
  broadcast generation, the waiter queue, and every operation of both types. A
  step relation composes them into a system of any number of futures and
  notifiers; its steps are the critical sections of the source, and a poll may
  be split between its lock-free fast path and its locked part. The properties:
  no notification is lost and none is duplicated, whatever the interleaving of
  notifications, polls and cancellations.
\<close>

section \<open>Data and operations\<close>

record notify =
  n_permit :: bool
  n_generation :: usize
  n_waiters :: wait_queue

record notified =
  f_generation :: usize
  f_registration :: "nat option"
  f_done :: bool
  f_reserved_one :: bool

definition notify_new :: notify where
  "notify_new = \<lparr>n_permit = False, n_generation = 0, n_waiters = wq_new\<rparr>"

definition notify_grant_one :: "notify \<Rightarrow> (notify \<times> waker option) option" where
  "notify_grant_one n = do {
     (q, granted) \<leftarrow> wq_grant_one (n_waiters n);
     Some (case granted of
       Some wk \<Rightarrow> (n\<lparr>n_waiters := q\<rparr>, wk)
     | None \<Rightarrow> (n\<lparr>n_waiters := q, n_permit := True\<rparr>, None))
   }"

definition notify_one :: "notify \<Rightarrow> (notify \<times> waker list) option" where
  "notify_one n = do {
     (n, wk) \<leftarrow> notify_grant_one n;
     Some (n, (case wk of Some k \<Rightarrow> [k] | None \<Rightarrow> []))
   }"

definition notify_waiters :: "notify \<Rightarrow> (notify \<times> waker list) option" where
  "notify_waiters n = do {
     let n = n\<lparr>n_generation := n_generation n + 1\<rparr>;
     (q, wakers) \<leftarrow> wq_grant_all (n_waiters n);
     Some (n\<lparr>n_waiters := q\<rparr>, wakers)
   }"

definition notify_notified :: "notify \<Rightarrow> notified" where
  "notify_notified n =
     \<lparr>f_generation = n_generation n, f_registration = None, f_done = False,
      f_reserved_one = False\<rparr>"

text \<open>The part of \<open>ready_or_register\<close> under the queue lock.\<close>

definition notified_locked ::
  "notify \<Rightarrow> notified \<Rightarrow> waker option \<Rightarrow> (notify \<times> notified \<times> bool) option" where
  "notified_locked n f wk = do {
     assigned \<leftarrow> (case f_registration f of
         None \<Rightarrow> Some None
       | Some i \<Rightarrow> do {
           w \<leftarrow> wq_get (n_waiters n) i;
           Some (if w_kind w \<noteq> Queued then Some (w_kind w) else None)
         });
     let (n, notification) =
       (if assigned \<noteq> None then (n, assigned)
        else if n_generation n \<noteq> f_generation f then (n, Some WakeAll)
        else if n_permit n then (n\<lparr>n_permit := False\<rparr>, Some WakeOne)
        else (n\<lparr>n_permit := False\<rparr>, None));
     (case notification of
        Some kind \<Rightarrow> do {
          (q, reg, removed) \<leftarrow> wq_remove (n_waiters n) (f_registration f);
          Some (n\<lparr>n_waiters := q\<rparr>,
                f\<lparr>f_registration := reg, f_done := True, f_reserved_one := (kind = WakeOne)\<rparr>,
                True)
        }
      | None \<Rightarrow> do {
          (q, reg, old) \<leftarrow> wq_register (n_waiters n) (f_registration f) wk;
          Some (n\<lparr>n_waiters := q\<rparr>, f\<lparr>f_registration := reg\<rparr>, False)
        })
   }"

definition ready_or_register ::
  "notify \<Rightarrow> notified \<Rightarrow> waker option \<Rightarrow> (notify \<times> notified \<times> bool) option" where
  "ready_or_register n f wk =
     (if f_done f then Some (n, f, True)
      else if f_registration f = None \<and> n_generation n \<noteq> f_generation f
      then Some (n, f\<lparr>f_done := True\<rparr>, True)
      else if f_registration f = None \<and> n_permit n
      then Some (n\<lparr>n_permit := False\<rparr>, f\<lparr>f_done := True, f_reserved_one := True\<rparr>, True)
      else notified_locked n f wk)"

definition notified_enable :: "notify \<Rightarrow> notified \<Rightarrow> (notify \<times> notified \<times> bool) option" where
  "notified_enable n f = ready_or_register n f None"

text \<open>What \<open>poll\<close> does with the outcome of \<open>ready_or_register\<close>.\<close>

definition notified_deliver :: "notified \<times> bool \<Rightarrow> notified \<times> unit poll" where
  "notified_deliver r =
     (case r of (f, ready) \<Rightarrow>
        if ready then (f\<lparr>f_reserved_one := False\<rparr>, Ready ()) else (f, Pending))"

definition notified_poll ::
  "notify \<Rightarrow> notified \<Rightarrow> waker \<Rightarrow> (notify \<times> notified \<times> unit poll) option" where
  "notified_poll n f wk = do {
     (n, f, ready) \<leftarrow> ready_or_register n f (Some wk);
     Some (n, notified_deliver (f, ready))
   }"

definition notified_drop :: "notify \<Rightarrow> notified \<Rightarrow> (notify \<times> waker list) option" where
  "notified_drop n f =
     (if f_reserved_one f then notify_one n
      else if f_registration f = None then Some (n, [])
      else do {
        (q, reg, removed) \<leftarrow> wq_remove (n_waiters n) (f_registration f);
        let n = n\<lparr>n_waiters := q\<rparr>;
        (n, wk) \<leftarrow> (if map_option w_kind removed = Some WakeOne
                    then notify_grant_one n else Some (n, None));
        Some (n, (case wk of Some k \<Rightarrow> [k] | None \<Rightarrow> []))
      })"

section \<open>The system of futures and notifiers\<close>

text \<open>
  Besides the notifier and its futures the state counts, for the statements only,
  the calls of \<open>notify_one\<close> and the single notifications delivered by a poll.
\<close>

record nsys =
  ns_notify :: notify
  ns_futures :: "nat \<Rightarrow> notified option"
  ns_sent :: nat
  ns_delivered :: nat

definition nsys_init :: "nsys \<Rightarrow> bool" where
  "nsys_init s \<longleftrightarrow>
     s = \<lparr>ns_notify = notify_new, ns_futures = (\<lambda>_. None), ns_sent = 0, ns_delivered = 0\<rparr>"

text \<open>
  A call of \<open>enable\<close> or \<open>poll\<close> runs \<open>ready_or_register\<close> as one step, or, when
  another thread ran between its fast path and the lock, only its locked part.
\<close>

definition ready_part ::
  "notify \<Rightarrow> notified \<Rightarrow> waker option \<Rightarrow> notify \<times> notified \<times> bool \<Rightarrow> bool" where
  "ready_part n f wk r \<longleftrightarrow>
     ready_or_register n f wk = Some r \<or> \<not> f_done f \<and> notified_locked n f wk = Some r"

inductive notify_step :: "nsys \<Rightarrow> nsys \<Rightarrow> bool" where
  create: "ns_futures s i = None \<Longrightarrow>
    notify_step s (s\<lparr>ns_futures := (ns_futures s)(i \<mapsto> notify_notified (ns_notify s))\<rparr>)"
| enable: "ns_futures s i = Some f \<Longrightarrow> ready_part (ns_notify s) f None (n, f', r) \<Longrightarrow>
    notify_step s (s\<lparr>ns_notify := n, ns_futures := (ns_futures s)(i \<mapsto> f')\<rparr>)"
| poll: "ns_futures s i = Some f \<Longrightarrow> ready_part (ns_notify s) f (Some wk) (n, f', r) \<Longrightarrow>
    notify_step s (s\<lparr>ns_notify := n,
      ns_futures := (ns_futures s)(i \<mapsto> fst (notified_deliver (f', r))),
      ns_delivered := ns_delivered s + (if r \<and> f_reserved_one f' then 1 else 0)\<rparr>)"
| drop: "ns_futures s i = Some f \<Longrightarrow> notified_drop (ns_notify s) f = Some (n, ws) \<Longrightarrow>
    notify_step s (s\<lparr>ns_notify := n, ns_futures := (ns_futures s)(i := None)\<rparr>)"
| one: "notify_one (ns_notify s) = Some (n, ws) \<Longrightarrow>
    notify_step s (s\<lparr>ns_notify := n, ns_sent := Suc (ns_sent s)\<rparr>)"
| all: "notify_waiters (ns_notify s) = Some (n, ws) \<Longrightarrow>
    notify_step s (s\<lparr>ns_notify := n\<rparr>)"

definition regs :: "(nat \<Rightarrow> notified option) \<Rightarrow> nat \<Rightarrow> nat option" where
  "regs fs i = (case fs i of None \<Rightarrow> None | Some f \<Rightarrow> f_registration f)"

text \<open>A future holds a notification when it has reserved one or its slot was granted one.\<close>

definition holds :: "notify \<Rightarrow> notified \<Rightarrow> bool" where
  "holds n f \<longleftrightarrow> f_reserved_one f \<or>
     (\<exists>t w. f_registration f = Some t \<and> info (n_waiters n) t = Some (WakeOne, w))"

definition holders :: "notify \<Rightarrow> (nat \<Rightarrow> notified option) \<Rightarrow> nat set" where
  "holders n fs = {i. \<exists>f. fs i = Some f \<and> holds n f}"

definition future_ok :: "notify \<Rightarrow> notified \<Rightarrow> bool" where
  "future_ok n f \<longleftrightarrow>
     (f_done f \<longrightarrow> f_registration f = None) \<and> (f_reserved_one f \<longrightarrow> f_done f) \<and>
     (\<forall>t w. f_registration f = Some t \<longrightarrow> info (n_waiters n) t = Some (Queued, w) \<longrightarrow>
        f_generation f = n_generation n)"

definition ncore :: "notify \<Rightarrow> (nat \<Rightarrow> notified option) \<Rightarrow> bool" where
  "ncore n fs \<longleftrightarrow>
     owned (n_waiters n) (regs fs) \<and> (n_permit n \<longrightarrow> queued (n_waiters n) = []) \<and>
     (\<forall>i f. fs i = Some f \<longrightarrow> future_ok n f)"

text \<open>The notifications in flight: held by a future or stored as the permit.\<close>

definition in_flight :: "notify \<Rightarrow> (nat \<Rightarrow> notified option) \<Rightarrow> nat" where
  "in_flight n fs = card (holders n fs) + (if n_permit n then 1 else 0)"

definition notify_inv :: "nsys \<Rightarrow> bool" where
  "notify_inv s \<longleftrightarrow>
     ncore (ns_notify s) (ns_futures s) \<and> finite (dom (ns_futures s)) \<and>
     in_flight (ns_notify s) (ns_futures s) + ns_delivered s \<le> ns_sent s"


section \<open>One call of a future\<close>

lemma regs_update [simp]:
  "regs (fs(i \<mapsto> f)) = (regs fs)(i := f_registration f)"
  "regs (fs(i := None)) = (regs fs)(i := None)"
  "regs (\<lambda>_. None) = (\<lambda>_. None)"
  by (auto simp: regs_def fun_eq_iff)

lemma regs_Some: "fs i = Some f \<Longrightarrow> regs fs i = f_registration f"
  by (simp add: regs_def)

lemma permit_idle [simp]: "\<not> n_permit n \<Longrightarrow> n\<lparr>n_permit := False\<rparr> = n"
  by (cases n) simp

text \<open>
  The outcomes of a call that gets to run its checks, given the invariant: the
  future was ready before, its slot had been granted, a broadcast happened since
  it was created, the stored permit is taken, or the future is (re)registered.
\<close>

lemma ready_part_cases:
  assumes inv: "ncore n fs" and f: "fs i = Some f"
    and r: "ready_part n f wk (n', f', r)"
  obtains
    (ready) "f_done f" "n' = n" "f' = f" "r"
  | (granted) t k w q' t' x where "\<not> f_done f" "f_registration f = Some t"
      "info (n_waiters n) t = Some (k, w)" "k \<noteq> Queued"
      "wq_remove (n_waiters n) (Some t) = Some (q', t', x)"
      "n' = n\<lparr>n_waiters := q'\<rparr>"
      "f' = f\<lparr>f_registration := None, f_done := True, f_reserved_one := (k = WakeOne)\<rparr>" "r"
  | (broadcast) "\<not> f_done f" "f_registration f = None"
      "n_generation n \<noteq> f_generation f" "n' = n"
      "f' = f\<lparr>f_done := True, f_reserved_one := False\<rparr>" "r"
  | (permit) "\<not> f_done f" "f_registration f = None" "n_permit n"
      "n' = n\<lparr>n_permit := False\<rparr>"
      "f' = f\<lparr>f_done := True, f_reserved_one := True\<rparr>" "r"
  | (register) q' t' x where "\<not> f_done f" "\<not> n_permit n"
      "n_generation n = f_generation f"
      "\<And>t. f_registration f = Some t \<Longrightarrow> t \<in> set (queued (n_waiters n))"
      "wq_register (n_waiters n) (f_registration f) wk = Some (q', t', x)"
      "n' = n\<lparr>n_waiters := q'\<rparr>" "f' = f\<lparr>f_registration := t'\<rparr>" "\<not> r"
proof (cases "f_done f")
  case True
  then have "n' = n" "f' = f" "r"
    using r by (auto simp: ready_part_def ready_or_register_def)
  then show thesis by (rule ready [OF True])
next
  case False
  let ?q = "n_waiters n"
  have own: "owned ?q (regs fs)" and ok: "future_ok n f"
    and pq: "n_permit n \<Longrightarrow> queued ?q = []"
    using inv f by (auto simp: ncore_def)
  note qinv = ownedD(1) [OF own]
  have nr: "\<not> f_reserved_one f"
    using ok False by (auto simp: future_ok_def)
  show thesis
  proof (cases "f_registration f")
    case None
    have same: "f\<lparr>f_reserved_one := False\<rparr> = f"
      using nr by (cases f) simp
    have reg_same: "f\<lparr>f_registration := None\<rparr> = f"
      using None by (cases f) simp
    consider "n_generation n \<noteq> f_generation f"
      | "n_generation n = f_generation f" "n_permit n"
      | "n_generation n = f_generation f" "\<not> n_permit n"
      by blast
    then show thesis
    proof cases
      case 1
      then have "n' = n" "f' = f\<lparr>f_done := True, f_reserved_one := False\<rparr>" "r"
        using r False None nr by (cases f; auto simp: ready_part_def ready_or_register_def
            notified_locked_def wq.remove_none)+
      then show thesis using broadcast [OF False None 1] by blast
    next
      case 2
      then have "n' = n\<lparr>n_permit := False\<rparr>" "f' = f\<lparr>f_done := True, f_reserved_one := True\<rparr>" "r"
        using r False None by (cases f; auto simp: ready_part_def ready_or_register_def
            notified_locked_def wq.remove_none)+
      then show thesis using permit [OF False None 2(2)] by blast
    next
      case 3
      then have "notified_locked n f wk = Some (n', f', r)"
        using r False None by (auto simp: ready_part_def ready_or_register_def)
      then have "\<exists>q' t' x. wq_register ?q (f_registration f) wk = Some (q', t', x) \<and>
          n' = n\<lparr>n_waiters := q'\<rparr> \<and> f' = f\<lparr>f_registration := t'\<rparr> \<and> \<not> r"
        using 3 None by (auto simp: notified_locked_def bind_eq_Some_conv)
      then show thesis
        using register [OF False 3(2,1)] None by auto
    qed
  next
    case (Some t)
    have locked: "notified_locked n f wk = Some (n', f', r)"
      using r False Some by (auto simp: ready_part_def ready_or_register_def)
    obtain k w where t: "info ?q t = Some (k, w)"
      using ownedD(2) [OF own, of i] f Some by (auto simp: regs_def)
    then obtain wt where wt: "wq_get ?q t = Some wt" "w_kind wt = k"
      by (auto simp: info_Some)
    show thesis
    proof (cases "k = Queued")
      case True
      then have tq: "t \<in> set (queued ?q)" and gen: "n_generation n = f_generation f"
        using t ok Some by (auto simp: wq.queue_iff [OF qinv] future_ok_def)
      then have np: "\<not> n_permit n"
        using pq by auto
      have "\<exists>q' t' x. wq_register ?q (f_registration f) wk = Some (q', t', x) \<and>
          n' = n\<lparr>n_waiters := q'\<rparr> \<and> f' = f\<lparr>f_registration := t'\<rparr> \<and> \<not> r"
        using locked Some wt True gen np
        by (auto simp: notified_locked_def bind_eq_Some_conv)
      then show thesis
        using register [OF False np gen] Some tq by auto
    next
      case nq: False
      have "\<exists>q' t' x. wq_remove ?q (Some t) = Some (q', t', x) \<and>
          n' = n\<lparr>n_waiters := q'\<rparr> \<and>
          f' = f\<lparr>f_registration := None, f_done := True, f_reserved_one := (k = WakeOne)\<rparr> \<and> r"
        using locked Some wt nq wq.remove_live [OF qinv t]
        by (auto simp: notified_locked_def bind_eq_Some_conv)
      then show thesis
        using granted [OF False Some t nq] by blast
    qed
  qed
qed

section \<open>Effects on the family of futures\<close>

lemma ncoreD:
  assumes "ncore n fs"
  shows "owned (n_waiters n) (regs fs)" "wq_inv (n_waiters n)"
    "n_permit n \<Longrightarrow> queued (n_waiters n) = []" "fs i = Some f \<Longrightarrow> future_ok n f"
  using assms ownedD(1) by (auto simp: ncore_def)

lemma future_frame:
  assumes "f_registration g \<noteq> Some t"
    and "\<And>u. u \<noteq> t \<Longrightarrow> info (n_waiters n') u = info (n_waiters n) u"
    and "n_generation n' = n_generation n"
  shows "holds n' g = holds n g \<and> future_ok n' g = future_ok n g"
proof (cases "f_registration g")
  case None
  then show ?thesis by (simp add: holds_def future_ok_def)
next
  case (Some u)
  then have "info (n_waiters n') u = info (n_waiters n) u"
    using assms(1,2) by auto
  with Some assms(3) show ?thesis by (simp add: holds_def future_ok_def)
qed

lemma future_frame_same:
  assumes "n_waiters n' = n_waiters n" "n_generation n' = n_generation n"
  shows "holds n' g = holds n g \<and> future_ok n' g = future_ok n g"
  using assms by (simp add: holds_def future_ok_def)

lemma holders_update:
  assumes "\<And>j g. j \<noteq> i \<Longrightarrow> fs j = Some g \<Longrightarrow> holds n' g = holds n g"
  shows "holders n' (fs(i \<mapsto> f)) =
      (if holds n' f then insert i (holders n fs) else holders n fs - {i})"
    and "holders n' (fs(i := None)) = holders n fs - {i}"
  using assms by (auto simp: holders_def)

lemma finite_holders: "finite (dom fs) \<Longrightarrow> finite (holders n fs)"
  by (rule finite_subset [of _ "dom fs"]) (auto simp: holders_def)

text \<open>Only its owner is affected when a slot changes.\<close>

lemma other_registration:
  assumes "ncore n fs" "fs i = Some f" "fs j = Some g" "j \<noteq> i"
    and "f_registration f = Some t \<or> f_registration f = None \<and> info (n_waiters n) t = None"
  shows "f_registration g \<noteq> Some t"
proof
  assume g: "f_registration g = Some t"
  note own = ncoreD(1) [OF assms(1)]
  have "info (n_waiters n) t \<noteq> None"
    using ownedD(2) [OF own, of j] assms(3) g by (simp add: regs_def)
  then have "f_registration f = Some t"
    using assms(5) by auto
  then show False
    using ownedD(3) [OF own, of i t j] assms(2,3,4) g by (auto simp: regs_def)
qed

lemma ncore_update:
  assumes "owned (n_waiters n') ((regs fs)(i := f_registration f'))"
    and "n_permit n' \<Longrightarrow> queued (n_waiters n') = []" "future_ok n' f'"
    and "\<And>j g. j \<noteq> i \<Longrightarrow> fs j = Some g \<Longrightarrow> future_ok n' g"
  shows "ncore n' (fs(i \<mapsto> f'))"
  using assms by (auto simp: ncore_def)

lemma ready_part_effect:
  assumes inv: "ncore n fs" and f: "fs i = Some f" and r: "ready_part n f wk (n', f', r)"
  shows "ncore n' (fs(i \<mapsto> f'))" (is ?core)
    and "holders n' (fs(i \<mapsto> f')) = holders n fs \<and> n_permit n' = n_permit n \<or>
      i \<notin> holders n fs \<and> holders n' (fs(i \<mapsto> f')) = insert i (holders n fs) \<and>
      n_permit n \<and> \<not> n_permit n'" (is ?hold)
    and "r \<longrightarrow> f_done f' \<and> f_registration f' = None" (is ?done)
proof -
  let ?q = "n_waiters n"
  note own = ncoreD(1) [OF inv] and qinv = ncoreD(2) [OF inv] and ok = ncoreD(4) [OF inv f]
  from inv f r have "?core \<and> ?hold \<and> ?done"
  proof (cases rule: ready_part_cases)
    case ready
    then have "f_registration f' = None"
      using ok by (simp add: future_ok_def)
    with ready inv f show ?thesis
      by (simp add: fun_upd_idem)
  next
    case (granted t k w q' t' x)
    have q': "wq_inv q'" "queued q' = remove1 t (queued ?q)" "info q' = (info ?q)(t := None)"
      using wq.remove_live [OF qinv granted(3)] granted(5) by auto
    have frame: "holds n' g = holds n g \<and> future_ok n' g" if "j \<noteq> i" "fs j = Some g" for j g
      using future_frame [OF other_registration [OF inv f that(2,1)], of t n'] granted(2,6) q'(3)
        ncoreD(4) [OF inv that(2)] by simp
    have "t \<notin> set (queued ?q)"
      using granted(3,4) by (auto simp: wq.queue_iff [OF qinv])
    then have "queued q' = queued ?q"
      using q'(2) by (simp add: remove1_idem)
    moreover have "owned q' ((regs fs)(i := None))"
      using owned_remove [OF own, of i q' t' x] granted(2,5) f by (simp add: regs_def)
    moreover have "future_ok n' f'"
      using granted(7) by (simp add: future_ok_def)
    ultimately have ?core
      using ncoreD(3) [OF inv] frame granted(6,7) by (intro ncore_update) auto
    moreover have "i \<in> holders n fs \<longleftrightarrow> k = WakeOne"
      using f granted ok by (auto simp: holders_def holds_def future_ok_def)
    then have ?hold
      using holders_update(1) [of i fs n' n f'] frame granted(6,7)
      by (auto simp: holds_def)
    ultimately show ?thesis
      using granted(7) by simp
  next
    case broadcast
    then have "holds n f' = False" "i \<notin> holders n fs"
      using f ok by (auto simp: holders_def holds_def future_ok_def)
    moreover have "regs (fs(i \<mapsto> f')) = regs fs"
      using f broadcast by (simp add: regs_def fun_eq_iff)
    ultimately show ?thesis
      using inv broadcast holders_update(1) [of i fs n n f']
      by (auto simp: ncore_def future_ok_def)
  next
    case permit
    have ni: "i \<notin> holders n fs"
      using f ok permit by (auto simp: holders_def holds_def future_ok_def)
    have frame: "holds n' g = holds n g \<and> future_ok n' g" if "fs j = Some g" for j g
      using future_frame_same [of n' n g] ncoreD(4) [OF inv that] permit(4) by simp
    have "regs (fs(i \<mapsto> f')) = regs fs"
      using f permit by (simp add: regs_def fun_eq_iff)
    then have ?core
      using inv permit frame by (auto simp: ncore_def future_ok_def)
    moreover have ?hold
      using ni permit frame holders_update(1) [of i fs n' n f'] by (auto simp: holds_def)
    ultimately show ?thesis
      using permit by simp
  next
    case (register q' t' x)
    obtain t where t: "t' = Some t" "wq_inv q'"
      "f_registration f = Some t \<or> f_registration f = None \<and> info ?q t = None"
      "info q' = (info ?q)(t \<mapsto> (Queued, if wk = None then waker_at ?q t else wk))"
      using wait_queue_register_rule [OF qinv, of "f_registration f" wk]
        ownedD(2) [OF own, of i] f register(5) by (auto simp: regs_def)
    have frame: "holds n' g = holds n g \<and> future_ok n' g" if "j \<noteq> i" "fs j = Some g" for j g
      using future_frame [OF other_registration [OF inv f that(2,1) t(3)], of n'] register(6) t(4)
        ncoreD(4) [OF inv that(2)] by simp
    have "owned q' ((regs fs)(i := t'))"
      using owned_register [OF own, of i wk q' t' x] register(5) f by (simp add: regs_def)
    moreover have fok: "future_ok n' f'" "\<not> holds n' f'"
      using register(1,3,6,7) t(1,4) ok by (auto simp: future_ok_def holds_def)
    ultimately have ?core
      using register(2,6,7) frame by (intro ncore_update) auto
    moreover have "i \<notin> holders n fs"
      using f ok register(1,4) by (auto simp: holders_def holds_def future_ok_def
          wq.queue_iff [OF qinv])
    then have ?hold
      using holders_update(1) [of i fs n' n f'] frame fok(2) register(6) by simp
    ultimately show ?thesis
      using register(8) by simp
  qed
  then show ?core ?hold ?done by blast+
qed

text \<open>Granting: the head of the queue becomes a holder, or the permit is stored.\<close>

lemma notify_grant_one_effect:
  assumes inv: "ncore n fs" and g: "notify_grant_one n = Some (n', wk)"
  shows "ncore n' fs"
    and "n_permit n' \<and> holders n' fs = holders n fs \<and> queued (n_waiters n) = [] \<or>
      n_permit n' = n_permit n \<and> \<not> n_permit n \<and>
      (\<exists>j. j \<notin> holders n fs \<and> j \<in> dom fs \<and> holders n' fs = insert j (holders n fs))"
proof -
  let ?q = "n_waiters n"
  note own = ncoreD(1) [OF inv] and qinv = ncoreD(2) [OF inv]
  have "ncore n' fs \<and> (n_permit n' \<and> holders n' fs = holders n fs \<and> queued ?q = [] \<or>
      n_permit n' = n_permit n \<and> \<not> n_permit n \<and>
      (\<exists>j. j \<notin> holders n fs \<and> j \<in> dom fs \<and> holders n' fs = insert j (holders n fs)))"
  proof (cases "queued ?q")
    case Nil
    then have n': "n' = n\<lparr>n_permit := True\<rparr>"
      using g by (simp add: notify_grant_one_def wq_grant_one_empty [OF qinv])
    have "holds n' h = holds n h \<and> future_ok n' h = future_ok n h" for h
      using future_frame_same [of n' n h] n' by simp
    then show ?thesis
      using inv Nil n' by (auto simp: ncore_def holders_def)
  next
    case (Cons t ts)
    obtain q' w where q': "wq_grant_one ?q = Some (q', Some w)" "wq_inv q'" "queued q' = ts"
      "info ?q t = Some (Queued, w)" "info q' = (info ?q)(t \<mapsto> (WakeOne, None))"
      using wq.grant_one_head [OF qinv Cons] by blast
    have n': "n' = n\<lparr>n_waiters := q'\<rparr>"
      using g q'(1) by (simp add: notify_grant_one_def)
    have np: "\<not> n_permit n"
      using ncoreD(3) [OF inv] Cons by auto
    obtain j f where j: "fs j = Some f" "f_registration f = Some t"
      using ownedD(4) [OF own q'(4)] by (auto simp: regs_def split: option.splits)
    have frame: "holds n' h = holds n h \<and> future_ok n' h = future_ok n h"
      if "l \<noteq> j" "fs l = Some h" for l h
      using future_frame [OF other_registration [OF inv j(1) that(2,1)], of t n'] j(2) n' q'(5)
      by simp
    have "holds n' f" "\<not> holds n f" "future_ok n' f"
      using j n' q'(4,5) ncoreD(4) [OF inv j(1)] by (auto simp: holds_def future_ok_def)
    then have "j \<notin> holders n fs" "holders n' fs = insert j (holders n fs)"
      using j holders_update(1) [of j fs n' n f] frame
      by (auto simp: holders_def fun_upd_idem)
    moreover have "owned q' (regs fs)"
      using owned_grant_one [OF own q'(1)] .
    then have "ncore n' fs"
      using inv np n' frame \<open>future_ok n' f\<close> j(1)
      by (simp add: ncore_def) (metis option.inject)
    ultimately show ?thesis
      using np n' j(1) by auto
  qed
  then show "ncore n' fs"
    and "n_permit n' \<and> holders n' fs = holders n fs \<and> queued ?q = [] \<or>
      n_permit n' = n_permit n \<and> \<not> n_permit n \<and>
      (\<exists>j. j \<notin> holders n fs \<and> j \<in> dom fs \<and> holders n' fs = insert j (holders n fs))"
    by blast+
qed

lemma notify_waiters_effect:
  assumes inv: "ncore n fs" and g: "notify_waiters n = Some (n', ws)"
  shows "ncore n' fs" "holders n' fs = holders n fs" "n_permit n' = n_permit n"
    and "n_generation n' = n_generation n + 1" "queued (n_waiters n') = []"
    and "ws = wakers_of (n_waiters n) (queued (n_waiters n))"
proof -
  let ?q = "n_waiters n"
  note own = ncoreD(1) [OF inv] and qinv = ncoreD(2) [OF inv]
  obtain q' where q': "wq_grant_all ?q = Some (q', wakers_of ?q (queued ?q))" "wq_inv q'"
    "queued q' = []"
    "info q' = (\<lambda>i. if i \<in> set (queued ?q) then Some (WakeAll, None) else info ?q i)"
    using wq_grant_all_queued [OF qinv] by blast
  then have n': "n' = n\<lparr>n_generation := n_generation n + 1, n_waiters := q'\<rparr>"
    and ws: "ws = wakers_of ?q (queued ?q)"
    using g by (auto simp: notify_waiters_def Let_def)
  have one: "(\<exists>w. info q' t = Some (WakeOne, w)) \<longleftrightarrow> (\<exists>w. info ?q t = Some (WakeOne, w))" for t
    using q'(4) wq.queue_iff [OF qinv, of t] by auto
  have noq: "info q' t \<noteq> Some (Queued, w)" for t w
    using wq.queue_iff [OF q'(2), of t] q'(3) by auto
  have "future_ok n' f" if "fs i = Some f" for i f
    using ncoreD(4) [OF inv that] n' noq by (auto simp: future_ok_def)
  then show "ncore n' fs"
    using owned_grant_all [OF own q'(1)] n' q'(3) by (auto simp: ncore_def)
  show "holders n' fs = holders n fs"
    using one n' by (simp add: holders_def holds_def)
  show "n_permit n' = n_permit n" "n_generation n' = n_generation n + 1"
    "queued (n_waiters n') = []" "ws = wakers_of ?q (queued ?q)"
    using n' q'(3) ws by simp_all
qed

text \<open>Dropping a future releases its slot; what it held goes to the next waiter or the permit.\<close>

lemma notified_forget:
  assumes inv: "ncore n fs" and f: "fs i = Some f"
  obtains q' x where "wq_remove (n_waiters n) (f_registration f) = Some (q', None, x)"
    "map_option w_kind x = (case f_registration f of None \<Rightarrow> None
       | Some t \<Rightarrow> map_option fst (info (n_waiters n) t))"
    "ncore (n\<lparr>n_waiters := q'\<rparr>) (fs(i := None))"
    "holders (n\<lparr>n_waiters := q'\<rparr>) (fs(i := None)) = holders n fs - {i}"
proof -
  let ?q = "n_waiters n" and ?r = "f_registration f"
  note own = ncoreD(1) [OF inv] and qinv = ncoreD(2) [OF inv]
  have live: "token_live ?q ?r"
    using ownedD(2) [OF own, of i] f by (simp add: regs_def)
  obtain q' x where q': "wq_remove ?q ?r = Some (q', None, x)" "wq_inv q'"
    "queued q' = (case ?r of None \<Rightarrow> queued ?q | Some t \<Rightarrow> remove1 t (queued ?q))"
    "info q' = (case ?r of None \<Rightarrow> info ?q | Some t \<Rightarrow> (info ?q)(t := None))"
    "map_option w_kind x = (case ?r of None \<Rightarrow> None | Some t \<Rightarrow> map_option fst (info ?q t))"
    using wq.remove_any [OF qinv live [unfolded token_live_def]] by blast
  let ?n = "n\<lparr>n_waiters := q'\<rparr>"
  have frame: "holds ?n g = holds n g \<and> future_ok ?n g = future_ok n g"
    if "j \<noteq> i" "fs j = Some g" for j g
  proof (cases ?r)
    case None
    then show ?thesis using q'(4) by (auto simp: holds_def future_ok_def)
  next
    case (Some t)
    then show ?thesis
      using future_frame [OF other_registration [OF inv f that(2,1)], of t ?n] q'(4) by simp
  qed
  have own': "owned q' ((regs fs)(i := None))"
    using owned_remove [OF own, of i q' None x] q'(1) f by (simp add: regs_def)
  have "queued q' = []" if "n_permit n"
    using ncoreD(3) [OF inv that] q'(3) by (simp split: option.splits)
  then have "ncore ?n (fs(i := None))"
    using own' frame ncoreD(4) [OF inv] by (simp add: ncore_def)
  moreover have "holders ?n (fs(i := None)) = holders n fs - {i}"
    using holders_update(2) [of i fs ?n n] frame by simp
  ultimately show thesis
    using that q'(1,5) by blast
qed

lemma notified_drop_effect:
  assumes inv: "ncore n fs" and fin: "finite (dom fs)" and f: "fs i = Some f"
    and d: "notified_drop n f = Some (n', ws)"
  shows "ncore n' (fs(i := None))"
    and "in_flight n' (fs(i := None)) \<le> in_flight n fs"
    and "0 < in_flight n fs \<Longrightarrow> 0 < in_flight n' (fs(i := None))"
proof -
  let ?fs = "fs(i := None)"
  note ok = ncoreD(4) [OF inv f]
  obtain q' x where q': "wq_remove (n_waiters n) (f_registration f) = Some (q', None, x)"
    and kind: "map_option w_kind x = (case f_registration f of None \<Rightarrow> None
       | Some t \<Rightarrow> map_option fst (info (n_waiters n) t))"
    and core: "ncore (n\<lparr>n_waiters := q'\<rparr>) ?fs"
    and hold: "holders (n\<lparr>n_waiters := q'\<rparr>) ?fs = holders n fs - {i}"
    using notified_forget [OF inv f] by blast
  let ?n = "n\<lparr>n_waiters := q'\<rparr>"
  have finh: "finite (holders n fs)" "finite (holders m ?fs)" for m
    using finite_holders fin by simp_all
  have i: "i \<in> holders n fs \<longleftrightarrow> f_reserved_one f \<or> map_option w_kind x = Some WakeOne"
    using f kind by (auto simp: holders_def holds_def split: option.splits)
  consider (give) wk where "i \<in> holders n fs" "notify_grant_one ?n = Some (n', wk)"
    | (silent) "i \<notin> holders n fs" "n' = ?n"
  proof (cases "f_reserved_one f")
    case True
    then have "f_registration f = None"
      using ok by (simp add: future_ok_def)
    then have eq: "q' = n_waiters n"
      using q' by (simp add: wq.remove_none)
    obtain wk where "notify_grant_one n = Some (n', wk)"
      using d True by (auto simp: notified_drop_def notify_one_def bind_eq_Some_conv)
    then show thesis
      by (intro give) (use True i eq in simp_all)
  next
    case nr: False
    show thesis
    proof (cases "f_registration f")
      case None
      then have eq: "q' = n_waiters n" "map_option w_kind x = None" "n' = n"
        using q' kind d nr by (simp_all add: wq.remove_none notified_drop_def)
      show thesis
        by (rule silent) (use i eq nr in simp_all)
    next
      case (Some t)
      then have "map_option w_kind x = Some WakeOne \<and> (\<exists>wk. notify_grant_one ?n = Some (n', wk)) \<or>
          map_option w_kind x \<noteq> Some WakeOne \<and> n' = ?n"
        using d nr q'
        by (auto simp: notified_drop_def Let_def bind_eq_Some_conv split: if_splits)
      then show thesis
        using give silent i nr by blast
    qed
  qed
  then have "ncore n' ?fs \<and> in_flight n' ?fs \<le> in_flight n fs \<and>
      (0 < in_flight n fs \<longrightarrow> 0 < in_flight n' ?fs)"
  proof cases
    case silent
    then show ?thesis using core hold by (simp add: in_flight_def)
  next
    case give
    have card: "card (holders n fs) = Suc (card (holders n fs - {i}))"
      using give(1) finh(1) by (metis card_Suc_Diff1)
    have core': "ncore n' ?fs"
      using notify_grant_one_effect(1) [OF core give(2)] .
    from notify_grant_one_effect(2) [OF core give(2)] show ?thesis
    proof (elim disjE conjE exE)
      assume "n_permit n'" "holders n' ?fs = holders ?n ?fs"
      then show ?thesis using core' hold card by (simp add: in_flight_def)
    next
      fix j
      assume "n_permit n' = n_permit ?n" "\<not> n_permit ?n" "j \<notin> holders ?n ?fs"
        "holders n' ?fs = insert j (holders ?n ?fs)"
      then show ?thesis
        using core' hold card finh(2) [of ?n] by (simp add: in_flight_def)
    qed
  qed
  then show "ncore n' ?fs" "in_flight n' ?fs \<le> in_flight n fs"
    "0 < in_flight n fs \<Longrightarrow> 0 < in_flight n' ?fs" by blast+
qed

section \<open>The invariant of the system\<close>

lemma notify_inv_init: "nsys_init s \<Longrightarrow> notify_inv s"
  by (simp add: nsys_init_def notify_inv_def ncore_def notify_new_def owned_new
      in_flight_def holders_def)

lemma in_flight_ready:
  assumes "ncore n fs" "finite (dom fs)" "fs i = Some f" "ready_part n f wk (n', f', r)"
  shows "in_flight n' (fs(i \<mapsto> f')) = in_flight n fs"
  using ready_part_effect(2) [OF assms(1,3,4)] finite_holders [OF assms(2), of n]
  by (auto simp: in_flight_def)

text \<open>Delivering clears the reservation of a ready future.\<close>

lemma in_flight_deliver:
  assumes "ncore n fs" "finite (dom fs)" "fs i = Some f" "r \<Longrightarrow> f_registration f = None"
  shows "ncore n (fs(i \<mapsto> fst (notified_deliver (f, r))))"
    and "in_flight n (fs(i \<mapsto> fst (notified_deliver (f, r)))) +
      (if r \<and> f_reserved_one f then 1 else 0) = in_flight n fs"
proof -
  let ?f = "f\<lparr>f_reserved_one := False\<rparr>"
  have "regs (fs(i \<mapsto> ?f)) = regs fs"
    using assms(3) by (simp add: regs_def fun_eq_iff)
  then show "ncore n (fs(i \<mapsto> fst (notified_deliver (f, r))))"
    using assms(1,3) by (auto simp: notified_deliver_def ncore_def future_ok_def fun_upd_idem)
  have fin: "finite (holders n fs)"
    using assms(2) by (rule finite_holders)
  show "in_flight n (fs(i \<mapsto> fst (notified_deliver (f, r)))) +
      (if r \<and> f_reserved_one f then 1 else 0) = in_flight n fs"
  proof (cases r)
    case True
    then have "holders n (fs(i \<mapsto> ?f)) = holders n fs - {i}"
      using assms(4) holders_update(1) [of i fs n n ?f] by (simp add: holds_def)
    moreover have "i \<in> holders n fs \<longleftrightarrow> f_reserved_one f"
      using assms(3,4) True by (auto simp: holders_def holds_def)
    moreover have "card (holders n fs - {i}) + (if i \<in> holders n fs then 1 else 0) =
        card (holders n fs)"
      using fin by (cases "i \<in> holders n fs") (simp_all add: card_Suc_Diff1 del: card_Diff_insert)
    ultimately show ?thesis
      using True by (simp add: in_flight_def notified_deliver_def)
  next
    case False
    then show ?thesis using assms(3) by (simp add: notified_deliver_def fun_upd_idem)
  qed
qed

abbreviation flying :: "nsys \<Rightarrow> nat" where
  "flying s \<equiv> in_flight (ns_notify s) (ns_futures s)"

lemma notify_step_preserves:
  assumes "notify_step s t" "notify_inv s"
  shows "notify_inv t \<and>
    (0 < flying s \<longrightarrow> 0 < flying t \<or> ns_delivered t = Suc (ns_delivered s))"
  using assms
proof (induction rule: notify_step.induct)
  case (create s i)
  let ?f = "notify_notified (ns_notify s)"
  have "regs ((ns_futures s)(i \<mapsto> ?f)) = regs (ns_futures s)"
    using create.hyps by (simp add: regs_def fun_eq_iff notify_notified_def)
  then have "ncore (ns_notify s) ((ns_futures s)(i \<mapsto> ?f))"
    using create.prems by (auto simp: notify_inv_def ncore_def future_ok_def notify_notified_def)
  moreover have "holders (ns_notify s) ((ns_futures s)(i \<mapsto> ?f)) = holders (ns_notify s) (ns_futures s)"
    using create.hyps by (auto simp: holders_def holds_def notify_notified_def)
  then have "in_flight (ns_notify s) ((ns_futures s)(i \<mapsto> ?f)) = flying s"
    by (simp only: in_flight_def)
  ultimately show ?case
    using create.prems by (simp add: notify_inv_def del: fun_upd_apply)
next
  case (enable s i f n f' r)
  then have "ncore n ((ns_futures s)(i \<mapsto> f'))"
    "in_flight n ((ns_futures s)(i \<mapsto> f')) = flying s"
    using ready_part_effect(1) in_flight_ready by (auto simp: notify_inv_def)
  then show ?case
    using enable.prems by (simp add: notify_inv_def del: fun_upd_apply)
next
  case (poll s i f wk n f' r)
  let ?fs = "(ns_futures s)(i \<mapsto> f')"
  have core: "ncore n ?fs" and fin: "finite (dom ?fs)"
    and reg: "r \<Longrightarrow> f_registration f' = None" and fl: "in_flight n ?fs = flying s"
    using poll ready_part_effect(1,3) in_flight_ready by (auto simp: notify_inv_def)
  have f': "?fs i = Some f'" by simp
  have d: "ncore n (?fs(i \<mapsto> fst (notified_deliver (f', r))))"
    "in_flight n (?fs(i \<mapsto> fst (notified_deliver (f', r)))) +
      (if r \<and> f_reserved_one f' then 1 else 0) = flying s"
    using in_flight_deliver [OF core fin f' reg] fl by (simp_all del: fun_upd_apply)
  then show ?case
    using poll.prems by (auto simp: notify_inv_def simp del: fun_upd_apply split: if_splits)
next
  case (drop s i f n ws)
  then show ?case
    using notified_drop_effect [of "ns_notify s" "ns_futures s" i f n ws]
    by (auto simp: notify_inv_def simp del: fun_upd_apply)
next
  case (one s n ws)
  then obtain wk where g: "notify_grant_one (ns_notify s) = Some (n, wk)"
    by (auto simp: notify_one_def bind_eq_Some_conv)
  have core: "ncore (ns_notify s) (ns_futures s)" and fin: "finite (holders m (ns_futures s))" for m
    using one.prems finite_holders by (auto simp: notify_inv_def)
  have "in_flight n (ns_futures s) \<le> Suc (flying s) \<and> 0 < in_flight n (ns_futures s)"
    using notify_grant_one_effect(2) [OF core g] fin [of "ns_notify s"]
    by (auto simp: in_flight_def)
  then show ?case
    using notify_grant_one_effect(1) [OF core g] one.prems by (auto simp: notify_inv_def)
next
  case (all s n ws)
  then show ?case
    using notify_waiters_effect [of "ns_notify s" "ns_futures s" n ws]
    by (auto simp: notify_inv_def in_flight_def)
qed

interpretation notify_system: invariant_system nsys_init notify_step notify_inv
  by unfold_locales (auto intro: notify_inv_init dest: notify_step_preserves)

section \<open>Properties\<close>

text \<open>No operation panics on a future that the invariant covers.\<close>

lemma ready_or_register_no_panic:
  assumes "ncore n fs" "fs i = Some f"
  shows "ready_or_register n f wk \<noteq> None"
proof -
  note own = ncoreD(1) [OF assms(1)]
  have reg: "regs fs i = f_registration f"
    using assms(2) by (rule regs_Some)
  have "wq_register (n_waiters n) (f_registration f) wk \<noteq> None"
    "wq_remove (n_waiters n) (f_registration f) \<noteq> None"
    using owned_no_panic(1,2) [OF own, of i] reg by auto
  moreover have "wq_get (n_waiters n) t \<noteq> None" if "f_registration f = Some t" for t
    using ownedD(2) [OF own, of i] reg that by (auto simp: info_def)
  ultimately show ?thesis
    by (auto simp: ready_or_register_def notified_locked_def Let_def bind_eq_None_conv
        simp del: not_None_eq split: option.splits)
qed

lemma notify_grant_one_no_panic:
  assumes "ncore n fs"
  shows "notify_grant_one n \<noteq> None"
  using owned_no_panic(3) [OF ncoreD(1) [OF assms]] by (auto simp: notify_grant_one_def)

lemma notify_waiters_no_panic:
  assumes "ncore n fs"
  shows "notify_waiters n \<noteq> None"
  using owned_no_panic(4) [OF ncoreD(1) [OF assms]] by (auto simp: notify_waiters_def)

lemma notified_drop_no_panic:
  assumes "ncore n fs" "fs i = Some f"
  shows "notified_drop n f \<noteq> None"
proof -
  obtain q' x where q': "wq_remove (n_waiters n) (f_registration f) = Some (q', None, x)"
    "ncore (n\<lparr>n_waiters := q'\<rparr>) (fs(i := None))"
    using notified_forget [OF assms] by blast
  then show ?thesis
    using notify_grant_one_no_panic [OF assms(1)] notify_grant_one_no_panic [OF q'(2)]
    by (auto simp: notified_drop_def notify_one_def Let_def)
qed

text \<open>
  C2: a notification is never lost. In every reachable state, while a single
  notification is in flight (stored as the permit, granted to a registered future
  or reserved by one), no creation, poll, cancellation, further notification or
  broadcast makes it disappear: after any step one is still in flight, or that
  step delivered one to a poll.
\<close>

theorem notify_never_lost:
  assumes "reach nsys_init notify_step s" "notify_step s t" "0 < flying s"
  shows "0 < flying t \<or> ns_delivered t = Suc (ns_delivered s)"
  using notify_step_preserves [OF assms(2) notify_system.reach_inv [OF assms(1)]] assms(3)
  by blast

text \<open>
  a notification is never duplicated: what was delivered and what is still in
  flight never exceed the number of \<open>notify_one\<close> calls, and a stored permit never
  coexists with a queued waiter.
\<close>

theorem notify_no_duplicates:
  assumes "reach nsys_init notify_step s"
  shows "flying s + ns_delivered s \<le> ns_sent s \<and>
    (n_permit (ns_notify s) \<longrightarrow> queued (n_waiters (ns_notify s)) = [])"
  using notify_system.reach_inv [OF assms] by (auto simp: notify_inv_def ncore_def)

text \<open>
  no operation of \<open>Notify\<close> or \<open>Notified\<close> panics in a reachable state: the
  \<open>unreachable!\<close> arms and the slot indexing of the waiter queue are never hit.
\<close>

theorem notify_never_panics:
  assumes "reach nsys_init notify_step s"
  shows "notify_one (ns_notify s) \<noteq> None \<and> notify_waiters (ns_notify s) \<noteq> None \<and>
    (\<forall>i f. ns_futures s i = Some f \<longrightarrow>
       notified_enable (ns_notify s) f \<noteq> None \<and> notified_poll (ns_notify s) f wk \<noteq> None \<and>
       notified_drop (ns_notify s) f \<noteq> None)"
proof -
  have core: "ncore (ns_notify s) (ns_futures s)"
    using notify_system.reach_inv [OF assms] by (simp add: notify_inv_def)
  have "notify_one (ns_notify s) \<noteq> None"
    using notify_grant_one_no_panic [OF core] by (auto simp: notify_one_def)
  moreover have "notified_enable (ns_notify s) f \<noteq> None \<and> notified_poll (ns_notify s) f wk \<noteq> None"
    if "ns_futures s i = Some f" for i f
    using ready_or_register_no_panic [OF core that, of None]
      ready_or_register_no_panic [OF core that, of "Some wk"]
    by (auto simp: notified_enable_def notified_poll_def)
  ultimately show ?thesis
    using notify_waiters_no_panic [OF core] notified_drop_no_panic [OF core] by blast
qed

text \<open>
  a broadcast reaches every waiter: after \<open>notify_waiters\<close>, each future that was
  not ready yet completes at its next poll, whether it was registered or only
  created before (for an unregistered future, unless its generation snapshot is
  exactly \<open>2 ^ 64 - 1\<close> broadcasts old), and no permit is left behind.
\<close>

theorem notify_waiters_reaches_all:
  assumes "reach nsys_init notify_step s" "ns_futures s i = Some f"
    and "f_registration f \<noteq> None \<or> f_generation f \<noteq> n_generation (ns_notify s) + 1"
    and "notify_waiters (ns_notify s) = Some (n', ws)"
  shows "n_permit n' = n_permit (ns_notify s) \<and>
    (\<exists>n'' f''. notified_poll n' f wk = Some (n'', f'', Ready ()))"
proof -
  have core: "ncore (ns_notify s) (ns_futures s)"
    using notify_system.reach_inv [OF assms(1)] by (simp add: notify_inv_def)
  note eff = notify_waiters_effect [OF core assms(4)]
  obtain n'' f'' r where r: "ready_or_register n' f (Some wk) = Some (n'', f'', r)"
    using ready_or_register_no_panic [OF eff(1) assms(2), of "Some wk"] by auto
  then have part: "ready_part n' f (Some wk) (n'', f'', r)"
    by (simp add: ready_part_def)
  from eff(1) assms(2) part have "r"
  proof (cases rule: ready_part_cases)
    case (register q' t' x)
    then show ?thesis
      using assms(3) eff(4,5) by (cases "f_registration f") auto
  qed
  with r eff(3) show ?thesis
    by (simp add: notified_poll_def notified_deliver_def)
qed

section \<open>A concrete run\<close>

text \<open>One future created, polled, granted a notification: the witnesses run here.\<close>

definition run0 :: nsys where
  "run0 = \<lparr>ns_notify = notify_new, ns_futures = (\<lambda>_. None), ns_sent = 0, ns_delivered = 0\<rparr>"

definition run1 :: nsys where
  "run1 = run0\<lparr>ns_futures := (ns_futures run0)(0 \<mapsto> notify_notified notify_new)\<rparr>"

lemma reach_run0: "reach nsys_init notify_step run0"
  by (rule reach.reach_init) (simp add: nsys_init_def run0_def)

lemma reach_run1: "reach nsys_init notify_step run1"
  using reach.reach_step [OF reach_run0 notify_step.create [of run0 0]]
  by (simp add: run1_def run0_def)

definition run2 :: nsys where
  "run2 = run1\<lparr>ns_notify := notify_new\<lparr>n_permit := True\<rparr>, ns_sent := 1\<rparr>"

lemma notify_one_run1: "notify_one (ns_notify run1) = Some (notify_new\<lparr>n_permit := True\<rparr>, [])"
  by (simp add: run1_def run0_def notify_one_def notify_grant_one_def notify_new_def
      wq_grant_one_def wq_new_def)

lemma reach_run2: "reach nsys_init notify_step run2"
  using reach.reach_step [OF reach_run1 notify_step.one [OF notify_one_run1]]
  by (simp add: run2_def run1_def run0_def)

lemma flying_run2: "flying run2 = 1"
  by (simp add: run2_def run1_def run0_def in_flight_def holders_def holds_def
      notify_notified_def notify_new_def)

lemma broadcast_run1:
  "notify_waiters (ns_notify run1) = Some (notify_new\<lparr>n_generation := 1\<rparr>, [])"
  by (simp add: run1_def run0_def notify_waiters_def notify_new_def wq_grant_all_def
      wq_grant_all_loop.simps wq_new_def)

theorem notify_never_lost_witness:
  "\<exists>t. notify_step run2 t \<and> 0 < flying run2 \<and>
     (0 < flying t \<or> ns_delivered t = Suc (ns_delivered run2))"
proof -
  have "notify_step run2 (run2\<lparr>ns_futures := (ns_futures run2)
      (1 \<mapsto> notify_notified (ns_notify run2))\<rparr>)" (is "notify_step _ ?t")
    by (rule notify_step.create) (simp add: run2_def run1_def run0_def)
  then show ?thesis
    using notify_never_lost [OF reach_run2, of ?t] flying_run2 by auto
qed

theorem notify_no_duplicates_witness:
  "flying run2 + ns_delivered run2 \<le> ns_sent run2 \<and>
   n_permit (ns_notify run2) \<and> queued (n_waiters (ns_notify run2)) = []"
proof -
  have "n_permit (ns_notify run2)"
    by (simp add: run2_def)
  then show ?thesis
    using notify_no_duplicates [OF reach_run2] by blast
qed

theorem notify_never_panics_witness:
  "notify_one (ns_notify run2) \<noteq> None \<and> notified_poll (ns_notify run2) (notify_notified notify_new) 3 \<noteq> None"
proof -
  have "ns_futures run2 0 = Some (notify_notified notify_new)"
    by (simp add: run2_def run1_def run0_def)
  then show ?thesis
    using notify_never_panics [OF reach_run2, of 3] by blast
qed

theorem notify_waiters_reaches_all_witness:
  "\<exists>n'' f''. notified_poll (notify_new\<lparr>n_generation := 1\<rparr>) (notify_notified notify_new) 3 =
     Some (n'', f'', Ready ())"
proof -
  have "ns_futures run1 0 = Some (notify_notified notify_new)"
    by (simp add: run1_def run0_def)
  moreover have "f_generation (notify_notified notify_new) \<noteq> n_generation (ns_notify run1) + 1"
    by (simp add: run1_def run0_def notify_notified_def notify_new_def)
  ultimately show ?thesis
    using notify_waiters_reaches_all [OF reach_run1 _ _ broadcast_run1] by blast
qed
end
