(* ===== verification/Barrier.thy ===== *)
theory Barrier
  imports Notify
begin

text \<open>
  The barrier (\<open>src/src/sync.rs\<close>, \<open>Barrier\<close>): its two critical sections and the
  async \<open>wait\<close> as a step relation over any number of tasks, each with its
  \<open>Notified\<close> future, built on the model of \<open>Notify\<close>. The results: arrivals are
  grouped in order, one leader each; nobody returns before its group is complete;
  and no task of a complete group stays parked.
\<close>

section \<open>Data and operations\<close>

record barrier =
  b_n :: usize
  b_arrived :: usize
  b_generation :: usize
  b_notify :: notify

definition barrier_new :: "usize \<Rightarrow> barrier" where
  "barrier_new n = \<lparr>b_n = n, b_arrived = 0, b_generation = 0, b_notify = notify_new\<rparr>"

text \<open>
  The first critical section of \<open>wait\<close>: \<open>None\<close> for the arrival that completes the
  group, otherwise the generation to wait out.
\<close>

definition barrier_arrive :: "barrier \<Rightarrow> barrier \<times> usize option" where
  "barrier_arrive b =
     (let b = b\<lparr>b_arrived := b_arrived b + 1\<rparr> in
      if b_n b \<le> b_arrived b
      then (b\<lparr>b_arrived := 0, b_generation := b_generation b + 1\<rparr>, None)
      else (b, Some (b_generation b)))"

definition barrier_released :: "barrier \<Rightarrow> usize \<Rightarrow> bool" where
  "barrier_released b generation \<longleftrightarrow> b_generation b \<noteq> generation"

text \<open>
  Where a call of \<open>wait\<close> is: the leader before its broadcast; at the top of the
  loop; with a fresh \<open>Notified\<close>; with that future enabled, before the generation
  is read again; awaiting it; returned.
\<close>

datatype wait_state =
  Leader | Looping usize | Created usize | Enrolled usize | Awaiting usize | Returned bool

record bsys =
  bs_barrier :: barrier
  bs_futures :: "nat \<Rightarrow> notified option"
  bs_tasks :: "nat \<Rightarrow> wait_state option"
  bs_count :: nat
  bs_ticket :: "nat \<Rightarrow> nat"

definition bsys_start :: "usize \<Rightarrow> bsys" where
  "bsys_start n = \<lparr>bs_barrier = barrier_new n, bs_futures = (\<lambda>_. None), bs_tasks = (\<lambda>_. None),
     bs_count = 0, bs_ticket = (\<lambda>_. 0)\<rparr>"

definition with_notify :: "bsys \<Rightarrow> notify \<Rightarrow> bsys" where
  "with_notify s n = s\<lparr>bs_barrier := (bs_barrier s)\<lparr>b_notify := n\<rparr>\<rparr>"

abbreviation bs_notify :: "bsys \<Rightarrow> notify" where
  "bs_notify s \<equiv> b_notify (bs_barrier s)"

inductive barrier_step :: "bsys \<Rightarrow> bsys \<Rightarrow> bool" where
  arrive: "bs_tasks s i = None \<Longrightarrow> barrier_arrive (bs_barrier s) = (b, g) \<Longrightarrow>
    barrier_step s (s\<lparr>bs_barrier := b, bs_count := Suc (bs_count s),
      bs_ticket := (bs_ticket s)(i := bs_count s),
      bs_tasks := (bs_tasks s)(i \<mapsto> (case g of None \<Rightarrow> Leader | Some g \<Rightarrow> Looping g))\<rparr>)"
| release: "bs_tasks s i = Some Leader \<Longrightarrow> notify_waiters (bs_notify s) = Some (n, ws) \<Longrightarrow>
    barrier_step s ((with_notify s n)\<lparr>bs_tasks := (bs_tasks s)(i \<mapsto> Returned True)\<rparr>)"
| create: "bs_tasks s i = Some (Looping g) \<Longrightarrow>
    barrier_step s (s\<lparr>bs_tasks := (bs_tasks s)(i \<mapsto> Created g),
      bs_futures := (bs_futures s)(i \<mapsto> notify_notified (bs_notify s))\<rparr>)"
| enable: "bs_tasks s i = Some (Created g) \<Longrightarrow> bs_futures s i = Some f \<Longrightarrow>
    ready_part (bs_notify s) f None (n, f', r) \<Longrightarrow>
    barrier_step s ((with_notify s n)\<lparr>bs_tasks := (bs_tasks s)(i \<mapsto> Enrolled g),
      bs_futures := (bs_futures s)(i \<mapsto> f')\<rparr>)"
| gone: "bs_tasks s i = Some (Enrolled g) \<Longrightarrow> bs_futures s i = Some f \<Longrightarrow>
    barrier_released (bs_barrier s) g \<Longrightarrow> notified_drop (bs_notify s) f = Some (n, ws) \<Longrightarrow>
    barrier_step s ((with_notify s n)\<lparr>bs_tasks := (bs_tasks s)(i \<mapsto> Returned False),
      bs_futures := (bs_futures s)(i := None)\<rparr>)"
| wait: "bs_tasks s i = Some (Enrolled g) \<Longrightarrow> \<not> barrier_released (bs_barrier s) g \<Longrightarrow>
    barrier_step s (s\<lparr>bs_tasks := (bs_tasks s)(i \<mapsto> Awaiting g)\<rparr>)"
| pending: "bs_tasks s i = Some (Awaiting g) \<Longrightarrow> bs_futures s i = Some f \<Longrightarrow>
    ready_part (bs_notify s) f (Some wk) (n, f', False) \<Longrightarrow>
    barrier_step s ((with_notify s n)\<lparr>bs_futures := (bs_futures s)(i \<mapsto> f')\<rparr>)"
| woken: "bs_tasks s i = Some (Awaiting g) \<Longrightarrow> bs_futures s i = Some f \<Longrightarrow>
    ready_part (bs_notify s) f (Some wk) (n, f', True) \<Longrightarrow>
    notified_drop n (fst (notified_deliver (f', True))) = Some (n', ws) \<Longrightarrow>
    barrier_step s ((with_notify s n')\<lparr>bs_tasks := (bs_tasks s)(i \<mapsto> Looping g),
      bs_futures := (bs_futures s)(i := None)\<rparr>)"
| cancel: "bs_tasks s i = Some (Awaiting g) \<Longrightarrow> bs_futures s i = Some f \<Longrightarrow>
    notified_drop (bs_notify s) f = Some (n, ws) \<Longrightarrow>
    barrier_step s ((with_notify s n)\<lparr>bs_tasks := (bs_tasks s)(i := None),
      bs_futures := (bs_futures s)(i := None)\<rparr>)"

abbreviation barrier_reach :: "usize \<Rightarrow> bsys \<Rightarrow> bool" where
  "barrier_reach n \<equiv> reach (\<lambda>s. s = bsys_start n) barrier_step"

section \<open>The invariant\<close>

text \<open>The size of a group: a barrier for 0 tasks releases every arrival, as one for 1 does.\<close>

definition group :: "usize \<Rightarrow> nat" where
  "group n = max 1 (unat n)"

fun waits_for :: "wait_state \<Rightarrow> usize option" where
  "waits_for (Looping g) = Some g"
| "waits_for (Created g) = Some g"
| "waits_for (Enrolled g) = Some g"
| "waits_for (Awaiting g) = Some g"
| "waits_for _ = None"

fun leads :: "wait_state \<Rightarrow> bool" where
  "leads Leader = True"
| "leads (Returned r) = r"
| "leads _ = False"

text \<open>The counters against the number of arrivals, and every task against its ticket.\<close>

definition counted :: "usize \<Rightarrow> bsys \<Rightarrow> bool" where
  "counted n s \<longleftrightarrow>
     b_n (bs_barrier s) = n \<and>
     unat (b_arrived (bs_barrier s)) = bs_count s mod group n \<and>
     b_generation (bs_barrier s) = of_nat (bs_count s div group n) \<and>
     (\<forall>i w. bs_tasks s i = Some w \<longrightarrow>
        bs_ticket s i < bs_count s \<and>
        (leads w \<longleftrightarrow> Suc (bs_ticket s i) mod group n = 0) \<and>
        (waits_for w = None \<longrightarrow> Suc (bs_ticket s i div group n) * group n \<le> bs_count s) \<and>
        (\<forall>g. waits_for w = Some g \<longrightarrow> g = of_nat (bs_ticket s i div group n))) \<and>
     (\<forall>i j. bs_tasks s i \<noteq> None \<longrightarrow> bs_tasks s j \<noteq> None \<longrightarrow> bs_ticket s i = bs_ticket s j \<longrightarrow> i = j)"

definition waiting :: "notify \<Rightarrow> notified \<Rightarrow> bool" where
  "waiting n f \<longleftrightarrow> \<not> f_done f \<and> slot_kind (n_waiters n) (f_registration f) = Some Queued"

definition enrolled :: "bsys \<Rightarrow> bool" where
  "enrolled s \<longleftrightarrow>
     ncore (bs_notify s) (bs_futures s) \<and>
     (\<forall>i g. bs_tasks s i = Some (Awaiting g) \<or> bs_tasks s i = Some (Enrolled g) \<longrightarrow>
        (\<exists>f. bs_futures s i = Some f \<and> (f_done f \<or> f_registration f \<noteq> None))) \<and>
     (\<forall>i g f. bs_tasks s i = Some (Awaiting g) \<longrightarrow> bs_futures s i = Some f \<longrightarrow> waiting (bs_notify s) f \<longrightarrow>
        b_generation (bs_barrier s) = g \<or> (\<exists>j. bs_tasks s j = Some Leader)) \<and>
     finite (dom (bs_futures s)) \<and>
     (\<forall>i. bs_futures s i \<noteq> None \<longrightarrow>
        (\<exists>g. bs_tasks s i \<in> {Some (Created g), Some (Enrolled g), Some (Awaiting g)}))"

definition barrier_inv :: "usize \<Rightarrow> bsys \<Rightarrow> bool" where
  "barrier_inv n s \<longleftrightarrow> counted n s \<and> enrolled s"

subsection \<open>Counting\<close>

lemma group_pos: "0 < group n"
  by (simp add: group_def)

lemma barrier_arrive_counted:
  assumes n: "b_n b = n" and a: "unat (b_arrived b) = k mod group n"
    and g: "b_generation b = of_nat (k div group n)" and r: "barrier_arrive b = (b', x)"
  shows "b_n b' = n" "b_notify b' = b_notify b"
    "unat (b_arrived b') = Suc k mod group n" "b_generation b' = of_nat (Suc k div group n)"
    "x = (if Suc k mod group n = 0 then None else Some (of_nat (k div group n)))"
proof -
  have lt: "k mod group n < group n"
    using group_pos by simp
  have un: "unat n < 2 ^ LENGTH(64)"
    by (rule unsigned_less)
  have "group n \<le> 2 ^ 64 - 1"
    using un by (simp add: group_def)
  then have "unat (b_arrived b) < 2 ^ 64 - 1"
    using lt a by linarith
  then have u: "unat (b_arrived b + 1) = Suc (k mod group n)"
    using a lt by (auto simp: unat_word_ariths)
  have full: "n \<le> b_arrived b + 1 \<longleftrightarrow> Suc k mod group n = 0"
  proof -
    have "n \<le> b_arrived b + 1 \<longleftrightarrow> unat n \<le> Suc (k mod group n)"
      using u by (simp add: word_le_nat_alt)
    also have "\<dots> \<longleftrightarrow> group n \<le> Suc (k mod group n)"
      by (auto simp: group_def)
    also have "\<dots> \<longleftrightarrow> Suc k mod group n = 0"
      using lt by (auto simp: mod_Suc)
    finally show ?thesis .
  qed
  have "Suc k div group n = (if Suc k mod group n = 0 then Suc (k div group n) else k div group n)"
    by (simp add: div_Suc)
  moreover have "Suc k mod group n = (if Suc k mod group n = 0 then 0 else Suc (k mod group n))"
    by (simp add: mod_Suc)
  ultimately show "b_n b' = n" "b_notify b' = b_notify b"
    "unat (b_arrived b') = Suc k mod group n" "b_generation b' = of_nat (Suc k div group n)"
    "x = (if Suc k mod group n = 0 then None else Some (of_nat (k div group n)))"
    using r n g u full by (auto simp: barrier_arrive_def Let_def split: if_splits)
qed

text \<open>A step of one task that has arrived keeps the counts.\<close>

lemma counted_task:
  assumes c: "counted n s" and i: "bs_tasks s i = Some w"
    and t: "bs_tasks t = (bs_tasks s)(i := w')" "bs_count t = bs_count s" "bs_ticket t = bs_ticket s"
      "b_n (bs_barrier t) = b_n (bs_barrier s)" "b_arrived (bs_barrier t) = b_arrived (bs_barrier s)"
      "b_generation (bs_barrier t) = b_generation (bs_barrier s)"
    and w: "\<And>v. w' = Some v \<Longrightarrow> leads v = leads w"
      "\<And>v. w' = Some v \<Longrightarrow> waits_for v = None \<Longrightarrow>
        Suc (bs_ticket s i div group n) * group n \<le> bs_count s"
      "\<And>v g. w' = Some v \<Longrightarrow> waits_for v = Some g \<Longrightarrow> waits_for w = Some g"
  shows "counted n t"
  unfolding counted_def t(2-6)
proof (intro conjI)
  show "\<forall>j v. bs_tasks t j = Some v \<longrightarrow> bs_ticket s j < bs_count s \<and>
      (leads v \<longleftrightarrow> Suc (bs_ticket s j) mod group n = 0) \<and>
      (waits_for v = None \<longrightarrow> Suc (bs_ticket s j div group n) * group n \<le> bs_count s) \<and>
      (\<forall>g. waits_for v = Some g \<longrightarrow> g = of_nat (bs_ticket s j div group n))"
  proof (intro allI impI)
    fix j v
    assume "bs_tasks t j = Some v"
    then show "bs_ticket s j < bs_count s \<and> (leads v \<longleftrightarrow> Suc (bs_ticket s j) mod group n = 0) \<and>
      (waits_for v = None \<longrightarrow> Suc (bs_ticket s j div group n) * group n \<le> bs_count s) \<and>
      (\<forall>g. waits_for v = Some g \<longrightarrow> g = of_nat (bs_ticket s j div group n))"
      using c i t(1) w by (cases "j = i") (auto simp: counted_def)
  qed
  show "\<forall>j k. bs_tasks t j \<noteq> None \<longrightarrow> bs_tasks t k \<noteq> None \<longrightarrow> bs_ticket s j = bs_ticket s k \<longrightarrow> j = k"
    using c i t(1) unfolding counted_def by (metis fun_upd_apply option.discI)
qed (use c in \<open>auto simp: counted_def\<close>)

lemma counted_arrive:
  assumes c: "counted n s" and i: "bs_tasks s i = None" and r: "barrier_arrive (bs_barrier s) = (b, x)"
    and t: "t = s\<lparr>bs_barrier := b, bs_count := Suc (bs_count s),
      bs_ticket := (bs_ticket s)(i := bs_count s),
      bs_tasks := (bs_tasks s)(i \<mapsto> (case x of None \<Rightarrow> Leader | Some g \<Rightarrow> Looping g))\<rparr>"
  shows "counted n t"
proof -
  note b = barrier_arrive_counted [OF _ _ _ r, of n "bs_count s"]
  let ?m = "group n" and ?k = "bs_count s"
  have k: "Suc (?k div ?m) * ?m \<le> Suc ?k" if "Suc ?k mod ?m = 0"
  proof -
    have "Suc ?k div ?m = Suc (?k div ?m)"
      using that by (simp add: div_Suc)
    then show ?thesis
      by (metis div_times_less_eq_dividend)
  qed
  have b': "b_n b = n" "unat (b_arrived b) = Suc ?k mod ?m" "b_generation b = of_nat (Suc ?k div ?m)"
    "x = (if Suc ?k mod ?m = 0 then None else Some (of_nat (?k div ?m)))"
    using b c by (auto simp: counted_def)
  have old: "bs_ticket s j < ?k" if "bs_tasks s j = Some w" for j w
    using c that by (auto simp: counted_def)
  show ?thesis
    unfolding counted_def
  proof (intro conjI)
    show "\<forall>j v. bs_tasks t j = Some v \<longrightarrow> bs_ticket t j < bs_count t \<and>
      (leads v \<longleftrightarrow> Suc (bs_ticket t j) mod ?m = 0) \<and>
      (waits_for v = None \<longrightarrow> Suc (bs_ticket t j div ?m) * ?m \<le> bs_count t) \<and>
      (\<forall>g. waits_for v = Some g \<longrightarrow> g = of_nat (bs_ticket t j div ?m))"
    proof (intro allI impI)
      fix j v
      assume v: "bs_tasks t j = Some v"
      show "bs_ticket t j < bs_count t \<and> (leads v \<longleftrightarrow> Suc (bs_ticket t j) mod ?m = 0) \<and>
        (waits_for v = None \<longrightarrow> Suc (bs_ticket t j div ?m) * ?m \<le> bs_count t) \<and>
        (\<forall>g. waits_for v = Some g \<longrightarrow> g = of_nat (bs_ticket t j div ?m))"
      proof (cases "j = i")
        case True
        then show ?thesis using v t b'(4) k by (auto split: if_splits)
      next
        case False
        then have "bs_tasks s j = Some v" using v t by simp
        then show ?thesis using False c t by (fastforce simp: counted_def)
      qed
    qed
    show "\<forall>j l. bs_tasks t j \<noteq> None \<longrightarrow> bs_tasks t l \<noteq> None \<longrightarrow> bs_ticket t j = bs_ticket t l \<longrightarrow> j = l"
    proof (intro allI impI)
      fix j l
      assume a: "bs_tasks t j \<noteq> None" "bs_tasks t l \<noteq> None" "bs_ticket t j = bs_ticket t l"
      have ne: "bs_ticket s a \<noteq> ?k" if "bs_tasks s a \<noteq> None" for a
        using old [of a] that by auto
      show "j = l"
      proof (cases "j = i \<or> l = i")
        case True
        then show ?thesis using a t ne by (auto split: if_splits)
      next
        case False
        then show ?thesis using a t c by (simp add: counted_def)
      qed
    qed
  qed (use t b' in simp_all)
qed

lemma counted_released:
  assumes c: "counted n s" and i: "bs_tasks s i = Some w" "waits_for w = Some g"
    and r: "barrier_released (bs_barrier s) g"
  shows "Suc (bs_ticket s i div group n) * group n \<le> bs_count s"
proof -
  let ?m = "group n"
  have "bs_ticket s i < bs_count s" "g = of_nat (bs_ticket s i div ?m)"
    "b_generation (bs_barrier s) = of_nat (bs_count s div ?m)"
    using c i by (auto simp: counted_def)
  then have "bs_ticket s i div ?m < bs_count s div ?m"
    using r div_le_mono [of "bs_ticket s i" "bs_count s" ?m]
    by (auto simp: barrier_released_def order.order_iff_strict)
  then have "Suc (bs_ticket s i div ?m) * ?m \<le> (bs_count s div ?m) * ?m"
    by (intro mult_le_mono1) simp
  then show ?thesis
    using div_times_less_eq_dividend [of "bs_count s" ?m] by linarith
qed

subsection \<open>Enrolment\<close>

lemma ready_part_others:
  assumes inv: "ncore n fs" and f: "fs i = Some f" and r: "ready_part n f wk (n', f', r)"
    and g: "fs j = Some g" "j \<noteq> i"
  shows "slot_kind (n_waiters n') (f_registration g) = slot_kind (n_waiters n) (f_registration g)"
proof -
  let ?q = "n_waiters n"
  note own = ncoreD(1) [OF inv] and qinv = ncoreD(2) [OF inv]
  from inv f r show ?thesis
  proof (cases rule: ready_part_cases)
    case (granted t k w q' t' x)
    have "info q' = (info ?q)(t := None)"
      using wq.remove_live [OF qinv granted(3)] granted(5) by auto
    moreover have "f_registration g \<noteq> Some t"
      using other_registration [OF inv f g] granted(2) by blast
    ultimately show ?thesis
      using granted(6) by (auto simp: slot_kind_def split: option.splits)
  next
    case (register q' t' x)
    obtain t where t: "f_registration f = Some t \<or> f_registration f = None \<and> info ?q t = None"
      "info q' = (info ?q)(t \<mapsto> (Queued, if wk = None then waker_at ?q t else wk))"
      using wait_queue_register_rule [OF qinv, of "f_registration f" wk]
        ownedD(2) [OF own, of i] f register(5) by (auto simp: regs_def)
    then have "f_registration g \<noteq> Some t"
      using other_registration [OF inv f g] by blast
    then show ?thesis
      using t(2) register(6) by (auto simp: slot_kind_def split: option.splits)
  qed simp_all
qed

lemma ready_part_enrols:
  assumes inv: "ncore n fs" and f: "fs i = Some f" and r: "ready_part n f wk (n', f', r)"
  shows "f_done f' \<or> f_registration f' \<noteq> None"
proof -
  note own = ncoreD(1) [OF inv] and qinv = ncoreD(2) [OF inv]
  from inv f r show ?thesis
  proof (cases rule: ready_part_cases)
    case (register q' t' x)
    then show ?thesis
      using wait_queue_register_rule [OF qinv, of "f_registration f" wk]
        ownedD(2) [OF own, of i] f by (auto simp: regs_def)
  qed simp_all
qed

lemma grant_one_queued:
  assumes "wq_inv q" "wq_grant_one q = Some (q', x)" "slot_kind q' t = Some Queued"
  shows "slot_kind q t = Some Queued"
proof (cases "queued q")
  case Nil
  then show ?thesis
    using assms wq_grant_one_empty by auto
next
  case (Cons i ts)
  have "info q' = (info q)(i \<mapsto> (WakeOne, None))"
    using wq.grant_one_head [OF assms(1) Cons] assms(2) by auto
  then show ?thesis
    using assms(3) by (auto simp: slot_kind_def split: option.splits if_splits)
qed

lemma notified_drop_others:
  assumes inv: "ncore n fs" and f: "fs i = Some f" and d: "notified_drop n f = Some (n', ws)"
    and g: "fs j = Some g" "j \<noteq> i"
    and k: "slot_kind (n_waiters n') (f_registration g) = Some Queued"
  shows "slot_kind (n_waiters n) (f_registration g) = Some Queued"
proof -
  let ?q = "n_waiters n"
  note own = ncoreD(1) [OF inv] and qinv = ncoreD(2) [OF inv]
  have grant: "slot_kind (n_waiters m) t = Some Queued"
    if "notify_grant_one m = Some (m', w)" "wq_inv (n_waiters m)" "slot_kind (n_waiters m') t = Some Queued"
    for m m' w t
    using that grant_one_queued
    by (auto simp: notify_grant_one_def bind_eq_Some_conv split: option.splits)
  show ?thesis
  proof (cases "f_reserved_one f \<or> f_registration f = None")
    case True
    then show ?thesis
      using d k grant [OF _ qinv] by (auto simp: notified_drop_def notify_one_def bind_eq_Some_conv
          split: if_splits)
  next
    case False
    then obtain q' reg x where q': "wq_remove ?q (f_registration f) = Some (q', reg, x)"
      and m: "n' = n\<lparr>n_waiters := q'\<rparr> \<or> (\<exists>w. notify_grant_one (n\<lparr>n_waiters := q'\<rparr>) = Some (n', w))"
      using d by (auto simp: notified_drop_def bind_eq_Some_conv Let_def split: if_splits)
    have qr: "wq_remove ?q (regs fs i) = Some (q', reg, x)"
      using q' f by (simp add: regs_Some)
    then have rem: "waiters_remove ?q (regs fs i) = Some (q', reg, map_option w_kind x)"
      using False f by (auto simp: waiters_remove_def regs_Some)
    have "wq_inv q'"
      using owned_remove [OF own qr] ownedD(1) by blast
    then have "slot_kind q' (f_registration g) = Some Queued"
      using m k grant [of "n\<lparr>n_waiters := q'\<rparr>" n'] by auto
    then show ?thesis
      using family_remove(3) [OF own rem g(2)] g(1) by (simp add: regs_Some)
  qed
qed

lemma ncore_create:
  assumes "ncore n fs" "fs i = None"
  shows "ncore n (fs(i \<mapsto> notify_notified n))"
proof -
  have "regs (fs(i \<mapsto> notify_notified n)) = regs fs"
    using assms(2) by (simp add: regs_def fun_eq_iff notify_notified_def)
  then show ?thesis
    using assms by (auto simp: ncore_def future_ok_def notify_notified_def)
qed

text \<open>One task moves; the others keep their futures, and wait only if they did before.\<close>

lemma enrolled_task:
  assumes e: "enrolled s"
    and t: "bs_tasks t = (bs_tasks s)(i := w)" "bs_futures t = (bs_futures s)(i := x)"
      "b_generation (bs_barrier t) = b_generation (bs_barrier s)"
    and core: "ncore (bs_notify t) ((bs_futures s)(i := x))"
    and others: "\<And>j g. j \<noteq> i \<Longrightarrow> bs_futures s j = Some g \<Longrightarrow> waiting (bs_notify t) g \<Longrightarrow> waiting (bs_notify s) g"
    and leader: "bs_tasks s i \<noteq> Some Leader"
    and me: "x \<noteq> None \<longleftrightarrow> (\<exists>g. w \<in> {Some (Created g), Some (Enrolled g), Some (Awaiting g)})"
      "\<And>g. w = Some (Awaiting g) \<or> w = Some (Enrolled g) \<Longrightarrow>
        \<exists>f. x = Some f \<and> (f_done f \<or> f_registration f \<noteq> None)"
      "\<And>g f. w = Some (Awaiting g) \<Longrightarrow> x = Some f \<Longrightarrow> waiting (bs_notify t) f \<Longrightarrow>
        b_generation (bs_barrier s) = g \<or> (\<exists>j. bs_tasks s j = Some Leader)"
  shows "enrolled t"
proof -
  have lead: "(\<exists>j. bs_tasks t j = Some Leader)" if "\<exists>j. bs_tasks s j = Some Leader"
    using that leader t(1) by auto
  show ?thesis
    unfolding enrolled_def t(2,3)
  proof (intro conjI allI impI)
    fix j g
    assume "bs_tasks t j = Some (Awaiting g) \<or> bs_tasks t j = Some (Enrolled g)"
    then show "\<exists>f. ((bs_futures s)(i := x)) j = Some f \<and> (f_done f \<or> f_registration f \<noteq> None)"
      using e t(1) me(2) by (cases "j = i") (auto simp: enrolled_def)
  next
    fix j g f
    assume a: "bs_tasks t j = Some (Awaiting g)" "((bs_futures s)(i := x)) j = Some f" "waiting (bs_notify t) f"
    have "b_generation (bs_barrier s) = g \<or> (\<exists>j. bs_tasks s j = Some Leader)"
    proof (cases "j = i")
      case True
      then show ?thesis using a t(1) me(3) by auto
    next
      case False
      then show ?thesis using a t(1) others e by (auto simp: enrolled_def)
    qed
    then show "b_generation (bs_barrier s) = g \<or> (\<exists>j. bs_tasks t j = Some Leader)"
      using lead by blast
  next
    fix j
    assume "((bs_futures s)(i := x)) j \<noteq> None"
    then show "\<exists>g. bs_tasks t j \<in> {Some (Created g), Some (Enrolled g), Some (Awaiting g)}"
      using e t(1) me(1) by (cases "j = i") (auto simp: enrolled_def)
  qed (use core e in \<open>auto simp: enrolled_def\<close>)
qed

lemma waiting_frame:
  "slot_kind (n_waiters n') (f_registration g) = slot_kind (n_waiters n) (f_registration g) \<Longrightarrow>
   waiting n' g = waiting n g"
  by (simp add: waiting_def)

lemma enrolledD:
  assumes "enrolled s"
  shows "ncore (bs_notify s) (bs_futures s)" "bs_tasks s i = Some (Looping g) \<Longrightarrow> bs_futures s i = None"
    "finite (dom (bs_futures s))"
    "bs_tasks s i = Some (Awaiting g) \<Longrightarrow> bs_futures s i = Some f \<Longrightarrow> waiting (bs_notify s) f \<Longrightarrow>
      b_generation (bs_barrier s) = g \<or> (\<exists>j. bs_tasks s j = Some Leader)"
    "bs_tasks s i = Some (Awaiting g) \<or> bs_tasks s i = Some (Enrolled g) \<Longrightarrow>
      \<exists>f. bs_futures s i = Some f \<and> (f_done f \<or> f_registration f \<noteq> None)"
  using assms unfolding enrolled_def by (blast, force, blast, blast, blast)

lemma drop_others_waiting:
  assumes "ncore n fs" "fs i = Some f" "notified_drop n f = Some (n', ws)" "fs j = Some g" "j \<noteq> i"
    "waiting n' g"
  shows "waiting n g"
  using assms notified_drop_others by (auto simp: waiting_def)

lemma enrolled_step:
  assumes "barrier_step s t" "enrolled s"
  shows "enrolled t"
  using assms
proof (induction rule: barrier_step.induct)
  case (arrive s i b x)
  let ?w = "case x of None \<Rightarrow> Leader | Some g \<Rightarrow> Looping g"
  have none: "bs_futures s i = None"
    using arrive by (auto simp: enrolled_def)
  have b: "b_notify b = bs_notify s" "x = None \<or> b_generation b = b_generation (bs_barrier s)"
    using arrive(2) by (auto simp: barrier_arrive_def Let_def split: if_splits)
  show ?case
  proof (cases x)
    case None
    then show ?thesis
      using arrive b none by (auto simp: enrolled_def)
  next
    case (Some g)
    have "(bs_futures s)(i := None) = bs_futures s"
      using none by (simp add: fun_upd_idem)
    then show ?thesis
      using arrive b Some enrolledD(1) [OF arrive(3)]
      by (intro enrolled_task [OF arrive(3), where i = i and w = "Some ?w" and x = None]) auto
  qed
next
  case (release s i n ws)
  note eff = notify_waiters_effect [OF enrolledD(1) [OF release(3)] release(2)]
  have "\<not> waiting n f" for f
    using wq.queue_iff [OF ncoreD(2) [OF eff(1)]] eff(5)
    by (auto simp: waiting_def slot_kind_def split: option.splits)
  then show ?case
    using release eff(1) by (auto simp: enrolled_def with_notify_def)
next
  case (create s i g)
  have none: "bs_futures s i = None"
    using enrolledD(2) [OF create(2,1)] .
  show ?case
    using create ncore_create [OF enrolledD(1) [OF create(2)] none]
    by (intro enrolled_task [OF create(2), where i = i and w = "Some (Created g)"
          and x = "Some (notify_notified (bs_notify s))"]) auto
next
  case (enable s i g f n f' r)
  note core = enrolledD(1) [OF enable(4)]
  show ?case
    using enable(1) ready_part_effect(1) [OF core enable(2,3)] ready_part_enrols [OF core enable(2,3)]
      waiting_frame [OF ready_part_others [OF core enable(2,3)]]
    by (intro enrolled_task [OF enable(4), where i = i and w = "Some (Enrolled g)" and x = "Some f'"])
      (auto simp: with_notify_def)
next
  case (gone s i g f n ws)
  note core = enrolledD(1) [OF gone(5)]
  show ?case
    using gone(1) notified_drop_effect(1) [OF core enrolledD(3) [OF gone(5)] gone(2,4)]
      drop_others_waiting [OF core gone(2,4)]
    by (intro enrolled_task [OF gone(5), where i = i and w = "Some (Returned False)" and x = None])
      (auto simp: with_notify_def)
next
  case (wait s i g)
  obtain f where f: "bs_futures s i = Some f" "f_done f \<or> f_registration f \<noteq> None"
    using enrolledD(5) [OF wait(3)] wait(1) by blast
  then have "(bs_futures s)(i \<mapsto> f) = bs_futures s"
    by (simp add: fun_upd_idem)
  then show ?case
    using wait(1,2) f enrolledD(1) [OF wait(3)]
    by (intro enrolled_task [OF wait(3), where i = i and w = "Some (Awaiting g)" and x = "Some f"])
      (auto simp: barrier_released_def)
next
  case (pending s i g f wk n f')
  note core = enrolledD(1) [OF pending(4)]
  have same: "(bs_tasks s)(i \<mapsto> Awaiting g) = bs_tasks s"
    using pending(1) by (simp add: fun_upd_idem)
  have reg: "f_done f \<or> f_registration f \<noteq> None"
    using enrolledD(5) [OF pending(4)] pending(1,2) by fastforce
  from core pending(2,3) have mine: "waiting (bs_notify s) f"
  proof (cases rule: ready_part_cases)
    case (register q' t' x)
    then obtain t where t: "f_registration f = Some t" "t \<in> set (queued (n_waiters (bs_notify s)))"
      using reg by blast
    then show ?thesis
      using register(1) wq.queue_iff [OF ncoreD(2) [OF core], of t]
      by (auto simp: waiting_def slot_kind_def)
  qed simp_all
  show ?case
    using pending(1) same ready_part_effect(1) [OF core pending(2,3)] ready_part_enrols [OF core pending(2,3)]
      waiting_frame [OF ready_part_others [OF core pending(2,3)]] enrolledD(4) [OF pending(4,1,2)] mine
    by (intro enrolled_task [OF pending(4), where i = i and w = "Some (Awaiting g)" and x = "Some f'"])
      (auto simp: with_notify_def)
next
  case (woken s i g f wk n f' n' ws)
  note core = enrolledD(1) [OF woken(5)]
  let ?f = "fst (notified_deliver (f', True))" and ?fs = "(bs_futures s)(i \<mapsto> f')"
  have eff: "ncore n ?fs" "f_registration f' = None"
    using ready_part_effect(1,3) [OF core woken(2,3)] by auto
  have f': "?fs i = Some f'" "finite (dom ?fs)"
    using enrolledD(3) [OF woken(5)] by auto
  have core': "ncore n (?fs(i \<mapsto> ?f))"
    using in_flight_deliver(1) [OF eff(1) f'(2,1)] eff(2) by blast
  have f2: "(?fs(i \<mapsto> ?f)) i = Some ?f" "finite (dom (?fs(i \<mapsto> ?f)))"
    using f' by auto
  have others: "waiting (bs_notify s) h" if "j \<noteq> i" "bs_futures s j = Some h" "waiting n' h" for j h
  proof -
    have "(?fs(i \<mapsto> ?f)) j = Some h"
      using that by simp
    then have "waiting n h"
      using drop_others_waiting [OF core' f2(1) woken(4) _ that(1,3)] by blast
    then show ?thesis
      using waiting_frame [OF ready_part_others [OF core woken(2,3) that(2,1)]] by simp
  qed
  have "ncore n' ((bs_futures s)(i := None))"
    using notified_drop_effect(1) [OF core' f2(2,1) woken(4)] by (simp only: fun_upd_upd)
  then show ?case
    using woken(1) others
    by (intro enrolled_task [OF woken(5), where i = i and w = "Some (Looping g)" and x = None])
      (auto simp: with_notify_def)
next
  case (cancel s i g f n ws)
  note core = enrolledD(1) [OF cancel(4)]
  show ?case
    using cancel(1) notified_drop_effect(1) [OF core enrolledD(3) [OF cancel(4)] cancel(2,3)]
      drop_others_waiting [OF core cancel(2,3)]
    by (intro enrolled_task [OF cancel(4), where i = i and w = None and x = None])
      (auto simp: with_notify_def)
qed

lemma counted_step:
  assumes "barrier_step s t" "counted n s"
  shows "counted n t"
  using assms
proof (induction rule: barrier_step.induct)
  case (arrive s i b g)
  then show ?case using counted_arrive by blast
next
  case (gone s i g f m ws)
  then show ?case
    using counted_released [OF gone(5,1) _ gone(3)]
    by (intro counted_task [OF gone(5,1), where w' = "Some (Returned False)"]) (auto simp: with_notify_def)
next
  case (release s i m ws)
  then have "Suc (bs_ticket s i div group n) * group n \<le> bs_count s"
    unfolding counted_def by (metis waits_for.simps(5))
  then show ?case
    by (intro counted_task [OF release(3,1), where w' = "Some (Returned True)"]) (auto simp: with_notify_def)
next
  case (pending s i g f wk m f')
  have "(bs_tasks s)(i \<mapsto> Awaiting g) = bs_tasks s"
    using pending(1) by (simp add: fun_upd_idem)
  then show ?case
    by (intro counted_task [OF pending(4,1), where w' = "Some (Awaiting g)"]) (auto simp: with_notify_def)
next
  case (create s i g)
  then show ?case
    by (intro counted_task [OF create(2,1), where w' = "Some (Created g)"]) auto
next
  case (enable s i g f m f' r)
  then show ?case
    by (intro counted_task [OF enable(4,1), where w' = "Some (Enrolled g)"]) (auto simp: with_notify_def)
next
  case (wait s i g)
  then show ?case
    by (intro counted_task [OF wait(3,1), where w' = "Some (Awaiting g)"]) auto
next
  case (woken s i g f wk m f' n' ws)
  then show ?case
    by (intro counted_task [OF woken(5,1), where w' = "Some (Looping g)"]) (auto simp: with_notify_def)
next
  case (cancel s i g f m ws)
  then show ?case
    by (intro counted_task [OF cancel(4,1), where w' = None]) (auto simp: with_notify_def)
qed

interpretation barrier: invariant_system "\<lambda>s. s = bsys_start n" barrier_step "barrier_inv n" for n
proof unfold_locales
  show "barrier_inv n s" if "s = bsys_start n" for s
    using that notify_inv_init [of "\<lparr>ns_notify = notify_new, ns_futures = (\<lambda>_. None), ns_sent = 0, ns_delivered = 0\<rparr>"]
    by (simp add: barrier_inv_def counted_def enrolled_def bsys_start_def barrier_new_def nsys_init_def
        notify_inv_def)
  show "barrier_inv n t" if "barrier_inv n s" "barrier_step s t" for s t
    using that counted_step enrolled_step by (auto simp: barrier_inv_def)
qed

section \<open>Properties\<close>

text \<open>
  C8: a rendezvous is complete before anybody leaves it, and has one leader.
  Number the arrivals from 0 and cut them into groups of \<open>n\<close> (of one, for \<open>n = 0\<close>):
  when a call of \<open>wait\<close> has returned, all arrivals of its group have happened; it
  returned \<open>true\<close> exactly when it was the last arrival of the group; and different
  calls are different arrivals.
\<close>

theorem barrier_rendezvous:
  assumes "barrier_reach n s" "bs_tasks s i = Some (Returned r)"
  shows "Suc (bs_ticket s i div group n) * group n \<le> bs_count s \<and>
    (r \<longleftrightarrow> Suc (bs_ticket s i) mod group n = 0) \<and>
    (\<forall>j. j \<noteq> i \<and> bs_tasks s j \<noteq> None \<longrightarrow> bs_ticket s j \<noteq> bs_ticket s i)"
proof -
  have c: "counted n s"
    using barrier.reach_inv [OF assms(1)] by (simp add: barrier_inv_def)
  then have "Suc (bs_ticket s i div group n) * group n \<le> bs_count s"
    "r \<longleftrightarrow> Suc (bs_ticket s i) mod group n = 0"
    using assms(2) unfolding counted_def by (metis waits_for.simps(6), metis leads.simps(2))
  moreover have "bs_ticket s j \<noteq> bs_ticket s i" if "j \<noteq> i" "bs_tasks s j \<noteq> None" for j
    using c that assms(2) unfolding counted_def by (metis option.distinct(1))
  ultimately show ?thesis by blast
qed

text \<open>
  nobody sleeps through its release. A task that awaits its notification after
  its generation has passed is ready at its next poll, or the leader of a group
  has completed it and is about to broadcast.
\<close>

theorem barrier_no_lost_wakeup:
  assumes "barrier_reach n s" "bs_tasks s i = Some (Awaiting g)" "barrier_released (bs_barrier s) g"
  shows "(\<exists>j. bs_tasks s j = Some Leader) \<or>
    (\<exists>f m f'. bs_futures s i = Some f \<and> notified_poll (bs_notify s) f wk = Some (m, f', Ready ()))"
proof (cases "\<exists>j. bs_tasks s j = Some Leader")
  case no: False
  have e: "enrolled s"
    using barrier.reach_inv [OF assms(1)] by (simp add: barrier_inv_def)
  obtain f where f: "bs_futures s i = Some f" "f_done f \<or> f_registration f \<noteq> None"
    using enrolledD(5) [OF e] assms(2) by blast
  note core = enrolledD(1) [OF e]
  have nw: "\<not> waiting (bs_notify s) f"
    using enrolledD(4) [OF e assms(2) f(1)] no assms(3) by (auto simp: barrier_released_def)
  obtain m f' r where r: "ready_or_register (bs_notify s) f (Some wk) = Some (m, f', r)"
    using ready_or_register_no_panic [OF core f(1), of "Some wk"] by auto
  then have part: "ready_part (bs_notify s) f (Some wk) (m, f', r)"
    by (simp add: ready_part_def)
  from core f(1) part have "r"
  proof (cases rule: ready_part_cases)
    case (register q' t' x)
    then obtain t where t: "f_registration f = Some t" "t \<in> set (queued (n_waiters (bs_notify s)))"
      using f(2) by blast
    then have "waiting (bs_notify s) f"
      using register(1) wq.queue_iff [OF ncoreD(2) [OF core], of t]
      by (auto simp: waiting_def slot_kind_def)
    then show ?thesis using nw by simp
  qed
  then show ?thesis
    using r f(1) by (auto simp: notified_poll_def notified_deliver_def)
qed blast

section \<open>Concrete runs\<close>

text \<open>A barrier for one task: the only arrival leads and returns \<open>true\<close>.\<close>

definition solo1 :: bsys where
  "solo1 = (bsys_start 1)\<lparr>bs_barrier := (barrier_new 1)\<lparr>b_generation := 1\<rparr>, bs_count := 1,
     bs_tasks := [0 \<mapsto> Leader]\<rparr>"

definition solo2 :: bsys where
  "solo2 = (with_notify solo1 (notify_new\<lparr>n_generation := 1\<rparr>))\<lparr>bs_tasks := [0 \<mapsto> Returned True]\<rparr>"

lemma solo2_reach: "barrier_reach 1 solo2"
proof -
  have "barrier_step (bsys_start 1) solo1"
    using barrier_step.arrive [of "bsys_start 1" 0 "(barrier_new 1)\<lparr>b_generation := 1\<rparr>" None]
    by (simp add: bsys_start_def barrier_arrive_def barrier_new_def solo1_def fun_upd_idem)
  moreover have "barrier_step solo1 solo2"
    using barrier_step.release [of solo1 0 "notify_new\<lparr>n_generation := 1\<rparr>" "[]"]
    by (simp add: solo1_def solo2_def barrier_new_def notify_waiters_def notify_new_def
        wq_grant_all_def wq_grant_all_loop.simps wq_new_def)
  moreover have "barrier_reach 1 (bsys_start 1)"
    by (rule reach.reach_init) simp
  ultimately show ?thesis
    using reach.reach_step [where init = "\<lambda>s. s = bsys_start 1" and step = barrier_step] by blast
qed

theorem barrier_rendezvous_witness:
  "bs_tasks solo2 0 = Some (Returned True) \<and> Suc (bs_ticket solo2 0 div group 1) * group 1 \<le> bs_count solo2"
proof -
  have "bs_tasks solo2 0 = Some (Returned True)"
    by (simp add: solo2_def)
  then show ?thesis
    using barrier_rendezvous [OF solo2_reach] by blast
qed

text \<open>A barrier for two: task 0 awaits, then task 1 completes the group.\<close>

definition pair_queue :: wait_queue where
  "pair_queue = \<lparr>q_slots = [Live \<lparr>w_previous = None, w_next = None, w_kind = Queued, w_waker = None\<rparr>],
     q_free = None, q_head = Some 0, q_tail = Some 0\<rparr>"

definition pair_future :: notified where
  "pair_future = (notify_notified notify_new)\<lparr>f_registration := Some 0\<rparr>"

definition pair1 :: bsys where
  "pair1 = (bsys_start 2)\<lparr>bs_barrier := (barrier_new 2)\<lparr>b_arrived := 1\<rparr>, bs_count := 1,
     bs_tasks := [0 \<mapsto> Looping 0]\<rparr>"

definition pair2 :: bsys where
  "pair2 = pair1\<lparr>bs_tasks := [0 \<mapsto> Created 0], bs_futures := [0 \<mapsto> notify_notified notify_new]\<rparr>"

definition pair3 :: bsys where
  "pair3 = (with_notify pair2 (notify_new\<lparr>n_waiters := pair_queue\<rparr>))
     \<lparr>bs_tasks := [0 \<mapsto> Enrolled 0], bs_futures := [0 \<mapsto> pair_future]\<rparr>"

definition pair4 :: bsys where
  "pair4 = pair3\<lparr>bs_tasks := [0 \<mapsto> Awaiting 0]\<rparr>"

definition pair5 :: bsys where
  "pair5 = pair4\<lparr>bs_barrier := (bs_barrier pair4)\<lparr>b_arrived := 0, b_generation := 1\<rparr>, bs_count := Suc (Suc 0),
     bs_ticket := (\<lambda>_. 0)(1 := 1), bs_tasks := [0 \<mapsto> Awaiting 0, 1 \<mapsto> Leader]\<rparr>"

lemmas pair_defs = pair1_def pair2_def pair3_def pair4_def pair5_def bsys_start_def barrier_new_def
  with_notify_def

lemma pair_steps:
  "barrier_step (bsys_start 2) pair1" "barrier_step pair1 pair2" "barrier_step pair2 pair3"
  "barrier_step pair3 pair4" "barrier_step pair4 pair5"
proof -
  show "barrier_step (bsys_start 2) pair1"
    using barrier_step.arrive [of "bsys_start 2" 0 "(barrier_new 2)\<lparr>b_arrived := 1\<rparr>" "Some 0"]
    by (simp add: pair_defs barrier_arrive_def word_le_nat_alt fun_upd_idem)
  show "barrier_step pair1 pair2"
    using barrier_step.create [of pair1 0 0] by (simp add: pair_defs)
  have "ready_or_register notify_new (notify_notified notify_new) None =
      Some (notify_new\<lparr>n_waiters := pair_queue\<rparr>, pair_future, False)"
    by (simp add: ready_or_register_def notified_locked_def notify_notified_def notify_new_def
        wq_register_def wq_alloc_def wq_new_def wq_enqueue_def wq_get_mut_def wq_get_def pair_queue_def
        pair_future_def)
  then have "ready_part (bs_notify pair2) (notify_notified notify_new) None
      (notify_new\<lparr>n_waiters := pair_queue\<rparr>, pair_future, False)"
    by (simp add: ready_part_def pair_defs)
  then show "barrier_step pair2 pair3"
    using barrier_step.enable [of pair2 0 0 "notify_notified notify_new"
        "notify_new\<lparr>n_waiters := pair_queue\<rparr>" pair_future False]
    by (simp add: pair_defs)
  show "barrier_step pair3 pair4"
    using barrier_step.wait [of pair3 0 0] by (simp add: pair_defs barrier_released_def)
  show "barrier_step pair4 pair5"
    using barrier_step.arrive [of pair4 1 "(bs_barrier pair4)\<lparr>b_arrived := 0, b_generation := 1\<rparr>" None]
    by (simp add: pair_defs barrier_arrive_def word_le_nat_alt)
qed

lemma pair5_reach: "barrier_reach 2 pair5"
proof -
  note next_state = reach.reach_step [where init = "\<lambda>s. s = bsys_start 2" and step = barrier_step]
  have "barrier_reach 2 (bsys_start 2)"
    by (rule reach.reach_init) simp
  from next_state [OF next_state [OF next_state [OF next_state [OF next_state
    [OF this pair_steps(1)] pair_steps(2)] pair_steps(3)] pair_steps(4)] pair_steps(5)]
  show ?thesis .
qed

theorem barrier_no_lost_wakeup_witness:
  "bs_tasks pair5 0 = Some (Awaiting 0) \<and> barrier_released (bs_barrier pair5) 0 \<and>
   ((\<exists>j. bs_tasks pair5 j = Some Leader) \<or>
    (\<exists>f m f'. bs_futures pair5 0 = Some f \<and> notified_poll (bs_notify pair5) f 3 = Some (m, f', Ready ())))"
proof -
  have "bs_tasks pair5 0 = Some (Awaiting 0)" "barrier_released (bs_barrier pair5) 0"
    by (simp_all add: pair_defs barrier_released_def)
  then show ?thesis
    using barrier_no_lost_wakeup [OF pair5_reach, of 0 0 3] by blast
qed

end
