(* ===== verification/Semaphore.thy ===== *)
theory Semaphore
  imports WaitQueue "HOL-Library.Sublist"
begin

text \<open>
  The counting semaphore (\<open>src/src/sync.rs\<close>, \<open>Semaphore\<close>, \<open>SemaphorePermit\<close>,
  \<open>Acquire\<close>): each method as one function, and a system of any number of
  \<open>Acquire\<close> futures, permits and releases whose actions are the single atomic
  operations of the methods (one compare-and-swap, one \<open>fetch_add\<close>, one critical
  section of the waiter queue), in any interleaving. The results: permits are
  conserved; a waiter is never left parked beside a free permit unless a grant
  was absorbed by a future that had just taken its permit another way; and a run
  in which exactly that happens.
\<close>

section \<open>Data and operations\<close>

record semaphore =
  s_permits :: usize
  s_waiters :: wait_queue

record acquire =
  a_registration :: "nat option"

definition semaphore_new :: "usize \<Rightarrow> semaphore" where
  "semaphore_new permits = \<lparr>s_permits = permits, s_waiters = wq_new\<rparr>"

definition available_permits :: "semaphore \<Rightarrow> usize" where
  "available_permits s = s_permits s"

text \<open>
  The compare-and-swap loop retries on interference, so the iteration that leaves
  the loop is one atomic operation: the count is zero and stays, or drops by one.
\<close>

definition try_acquire :: "semaphore \<Rightarrow> semaphore \<times> bool" where
  "try_acquire s =
     (if s_permits s = 0 then (s, False)
      else (s\<lparr>s_permits := s_permits s - 1\<rparr>, True))"

definition sem_acquire :: acquire where
  "sem_acquire = \<lparr>a_registration = None\<rparr>"

primrec wake_times :: "nat \<Rightarrow> wait_queue \<Rightarrow> (wait_queue \<times> waker list) option" where
  "wake_times 0 q = Some (q, [])"
| "wake_times (Suc n) q = do {
     (q, ws) \<leftarrow> waiters_wake_one q;
     (q, ws') \<leftarrow> wake_times n q;
     Some (q, ws @ ws')
   }"

definition add_permits :: "semaphore \<Rightarrow> usize \<Rightarrow> (semaphore \<times> waker list) option" where
  "add_permits s n =
     (if n = 0 then Some (s, [])
      else do {
        let s = s\<lparr>s_permits := s_permits s + n\<rparr>;
        (q, ws) \<leftarrow> wake_times (unat n) (s_waiters s);
        Some (s\<lparr>s_waiters := q\<rparr>, ws)
      })"

definition sem_release :: "semaphore \<Rightarrow> (semaphore \<times> waker list) option" where
  "sem_release s = do {
     let s = s\<lparr>s_permits := s_permits s + 1\<rparr>;
     (q, ws) \<leftarrow> waiters_wake_one (s_waiters s);
     Some (s\<lparr>s_waiters := q\<rparr>, ws)
   }"

text \<open>Dropping a permit releases it; forgetting one leaves the semaphore as it is.\<close>

definition permit_drop :: "semaphore \<Rightarrow> (semaphore \<times> waker list) option" where
  "permit_drop s = sem_release s"

definition permit_forget :: "semaphore \<Rightarrow> semaphore" where
  "permit_forget s = s"

definition acquire_poll ::
  "semaphore \<Rightarrow> acquire \<Rightarrow> waker \<Rightarrow> (semaphore \<times> acquire \<times> unit poll) option" where
  "acquire_poll s a wk =
     (let (s, got) = try_acquire s in
      if got then do {
        (q, reg, k) \<leftarrow> waiters_remove (s_waiters s) (a_registration a);
        Some (s\<lparr>s_waiters := q\<rparr>, a\<lparr>a_registration := reg\<rparr>, Ready ())
      }
      else do {
        (q, reg) \<leftarrow> waiters_register (s_waiters s) (a_registration a) wk;
        let (s, got) = try_acquire (s\<lparr>s_waiters := q\<rparr>);
        let a = a\<lparr>a_registration := reg\<rparr>;
        if got then do {
          (q, reg, k) \<leftarrow> waiters_remove (s_waiters s) (a_registration a);
          Some (s\<lparr>s_waiters := q\<rparr>, a\<lparr>a_registration := reg\<rparr>, Ready ())
        }
        else Some (s, a, Pending)
      })"

definition acquire_drop :: "semaphore \<Rightarrow> acquire \<Rightarrow> (semaphore \<times> waker list) option" where
  "acquire_drop s a = do {
     (q, reg, k) \<leftarrow> waiters_remove (s_waiters s) (a_registration a);
     let s = s\<lparr>s_waiters := q\<rparr>;
     if k = Some WakeOne \<and> available_permits s \<noteq> 0
     then do {
       (q, ws) \<leftarrow> waiters_wake_one (s_waiters s);
       Some (s\<lparr>s_waiters := q\<rparr>, ws)
     }
     else Some (s, [])
   }"

section \<open>Interleaved executions\<close>

text \<open>
  Where a future is between two atomic operations: not being polled; the first
  \<open>try_acquire\<close> of a poll failed; registered, before the second one; a
  \<open>try_acquire\<close> succeeded, before the registration is removed (the flag records,
  for the statements only, whether its slot had been granted by then); removed by
  its destructor with kind \<open>One\<close>, before the count is read.
\<close>

datatype phase = Idle | Failed | Registered | Took bool | Dropping

text \<open>
  Besides the semaphore and the futures the state has the permits held by
  callers, the \<open>wake_one\<close> calls still to be made by releases that have added
  their permits, and ghost counters: permits forgotten and added, and grants
  absorbed (found on the slot of a future that took its permit before the grant).
\<close>

record sem_sys =
  ss_sem :: semaphore
  ss_futures :: "nat \<Rightarrow> (acquire \<times> phase) option"
  ss_held :: nat
  ss_wakes :: nat
  ss_forgotten :: nat
  ss_added :: nat
  ss_absorbed :: nat

definition sem_start :: "usize \<Rightarrow> sem_sys" where
  "sem_start n = \<lparr>ss_sem = semaphore_new n, ss_futures = (\<lambda>_. None), ss_held = 0, ss_wakes = 0,
     ss_forgotten = 0, ss_added = 0, ss_absorbed = 0\<rparr>"

datatype sem_action =
  Create nat | TryFirst nat | Register nat waker | TrySecond nat | Unregister nat |
  DropFuture nat | DropCheck nat | TryAcquire | ReleaseAdd | Forget | AddPermits usize | Wake

definition set_future :: "sem_sys \<Rightarrow> nat \<Rightarrow> semaphore \<Rightarrow> (acquire \<times> phase) option \<Rightarrow> sem_sys" where
  "set_future s i m f = s\<lparr>ss_sem := m, ss_futures := (ss_futures s)(i := f)\<rparr>"

fun sem_act :: "sem_action \<Rightarrow> sem_sys \<Rightarrow> sem_sys option" where
  "sem_act (Create i) s =
     (case ss_futures s i of
        None \<Rightarrow> Some (set_future s i (ss_sem s) (Some (sem_acquire, Idle)))
      | Some _ \<Rightarrow> None)"
| "sem_act (TryFirst i) s =
     (case ss_futures s i of
        Some (a, Idle) \<Rightarrow>
          (case try_acquire (ss_sem s) of
             (m, True) \<Rightarrow> Some ((set_future s i m (Some (a, Took
               (slot_kind (s_waiters m) (a_registration a) = Some WakeOne))))
               \<lparr>ss_held := Suc (ss_held s)\<rparr>)
           | (m, False) \<Rightarrow> Some (set_future s i m (Some (a, Failed))))
      | _ \<Rightarrow> None)"
| "sem_act (Register i wk) s =
     (case ss_futures s i of
        Some (a, Failed) \<Rightarrow> do {
          (q, reg) \<leftarrow> waiters_register (s_waiters (ss_sem s)) (a_registration a) wk;
          Some (set_future s i ((ss_sem s)\<lparr>s_waiters := q\<rparr>)
            (Some (a\<lparr>a_registration := reg\<rparr>, Registered)))
        }
      | _ \<Rightarrow> None)"
| "sem_act (TrySecond i) s =
     (case ss_futures s i of
        Some (a, Registered) \<Rightarrow>
          (case try_acquire (ss_sem s) of
             (m, True) \<Rightarrow> Some ((set_future s i m (Some (a, Took
               (slot_kind (s_waiters m) (a_registration a) = Some WakeOne))))
               \<lparr>ss_held := Suc (ss_held s)\<rparr>)
           | (m, False) \<Rightarrow> Some (set_future s i m (Some (a, Idle))))
      | _ \<Rightarrow> None)"
| "sem_act (Unregister i) s =
     (case ss_futures s i of
        Some (a, Took g) \<Rightarrow> do {
          (q, reg, k) \<leftarrow> waiters_remove (s_waiters (ss_sem s)) (a_registration a);
          Some ((set_future s i ((ss_sem s)\<lparr>s_waiters := q\<rparr>) None)
            \<lparr>ss_absorbed := ss_absorbed s + (if k = Some WakeOne \<and> \<not> g then 1 else 0)\<rparr>)
        }
      | _ \<Rightarrow> None)"
| "sem_act (DropFuture i) s =
     (case ss_futures s i of
        Some (a, Idle) \<Rightarrow> do {
          (q, reg, k) \<leftarrow> waiters_remove (s_waiters (ss_sem s)) (a_registration a);
          Some (set_future s i ((ss_sem s)\<lparr>s_waiters := q\<rparr>)
            (if k = Some WakeOne then Some (a\<lparr>a_registration := reg\<rparr>, Dropping) else None))
        }
      | _ \<Rightarrow> None)"
| "sem_act (DropCheck i) s =
     (case ss_futures s i of
        Some (a, Dropping) \<Rightarrow>
          Some ((set_future s i (ss_sem s) None)
            \<lparr>ss_wakes := ss_wakes s + (if available_permits (ss_sem s) \<noteq> 0 then 1 else 0)\<rparr>)
      | _ \<Rightarrow> None)"
| "sem_act TryAcquire s =
     (case try_acquire (ss_sem s) of
        (m, True) \<Rightarrow> Some (s\<lparr>ss_sem := m, ss_held := Suc (ss_held s)\<rparr>)
      | (m, False) \<Rightarrow> None)"
| "sem_act ReleaseAdd s =
     (if ss_held s = 0 then None
      else Some (s\<lparr>ss_sem := (ss_sem s)\<lparr>s_permits := s_permits (ss_sem s) + 1\<rparr>,
             ss_held := ss_held s - 1, ss_wakes := Suc (ss_wakes s)\<rparr>))"
| "sem_act Forget s =
     (if ss_held s = 0 then None
      else Some (s\<lparr>ss_sem := permit_forget (ss_sem s), ss_held := ss_held s - 1,
             ss_forgotten := Suc (ss_forgotten s)\<rparr>))"
| "sem_act (AddPermits n) s =
     (if n = 0 then None
      else Some (s\<lparr>ss_sem := (ss_sem s)\<lparr>s_permits := s_permits (ss_sem s) + n\<rparr>,
             ss_wakes := ss_wakes s + unat n, ss_added := ss_added s + unat n\<rparr>))"
| "sem_act Wake s =
     (if ss_wakes s = 0 then None
      else do {
        (q, ws) \<leftarrow> waiters_wake_one (s_waiters (ss_sem s));
        Some (s\<lparr>ss_sem := (ss_sem s)\<lparr>s_waiters := q\<rparr>, ss_wakes := ss_wakes s - 1\<rparr>)
      })"

definition sem_step :: "sem_sys \<Rightarrow> sem_sys \<Rightarrow> bool" where
  "sem_step s t \<longleftrightarrow> (\<exists>a. sem_act a s = Some t)"

abbreviation sem_reach :: "usize \<Rightarrow> sem_sys \<Rightarrow> bool" where
  "sem_reach n \<equiv> reach (\<lambda>s. s = sem_start n) sem_step"

primrec sem_run :: "sem_action list \<Rightarrow> sem_sys \<Rightarrow> sem_sys option" where
  "sem_run [] s = Some s"
| "sem_run (a # as) s = do { s \<leftarrow> sem_act a s; sem_run as s }"

lemma sem_run_reach: "sem_reach n s \<Longrightarrow> sem_run as s = Some t \<Longrightarrow> sem_reach n t"
proof (induction as arbitrary: s)
  case (Cons a as)
  then obtain u where "sem_act a s = Some u" "sem_run as u = Some t"
    by (auto simp: bind_eq_Some_conv)
  then show ?case
    using Cons.IH [of u] reach.reach_step [OF Cons.prems(1), of u] by (auto simp: sem_step_def)
qed simp

section \<open>Who answers for the free permits\<close>

definition sem_regs :: "(nat \<Rightarrow> (acquire \<times> phase) option) \<Rightarrow> nat \<Rightarrow> nat option" where
  "sem_regs fs i = (case fs i of None \<Rightarrow> None | Some (a, p) \<Rightarrow> a_registration a)"

definition granted :: "wait_queue \<Rightarrow> acquire \<Rightarrow> bool" where
  "granted q a \<longleftrightarrow> slot_kind q (a_registration a) = Some WakeOne"

definition parked :: "wait_queue \<Rightarrow> acquire \<times> phase \<Rightarrow> bool" where
  "parked q f \<longleftrightarrow> snd f = Idle \<and> slot_kind q (a_registration (fst f)) = Some Queued"

text \<open>
  A future that will look at the count again before it parks, or hand its grant
  on: its slot was granted and it has not taken a permit since, it is being
  dropped with a grant, or it is registered, about to try a second time, and no
  parked future is behind it in the queue.
\<close>

definition last_parked :: "wait_queue \<Rightarrow> (nat \<Rightarrow> (acquire \<times> phase) option) \<Rightarrow> acquire \<Rightarrow> bool" where
  "last_parked q fs a \<longleftrightarrow> slot_kind q (a_registration a) = Some Queued \<and>
     (\<forall>j g t u. fs j = Some g \<longrightarrow> parked q g \<longrightarrow> a_registration a = Some t \<longrightarrow>
        a_registration (fst g) = Some u \<longrightarrow> \<not> subseq [t, u] (queued q))"

definition responsible ::
  "wait_queue \<Rightarrow> (nat \<Rightarrow> (acquire \<times> phase) option) \<Rightarrow> acquire \<times> phase \<Rightarrow> bool" where
  "responsible q fs f \<longleftrightarrow>
     (case f of
        (a, Dropping) \<Rightarrow> True
      | (a, Took True) \<Rightarrow> False
      | (a, Registered) \<Rightarrow> granted q a \<or> last_parked q fs a
      | (a, _) \<Rightarrow> granted q a)"

definition responders :: "wait_queue \<Rightarrow> (nat \<Rightarrow> (acquire \<times> phase) option) \<Rightarrow> nat set" where
  "responders q fs = {i. \<exists>f. fs i = Some f \<and> responsible q fs f}"

definition sem_core :: "wait_queue \<Rightarrow> (nat \<Rightarrow> (acquire \<times> phase) option) \<Rightarrow> bool" where
  "sem_core q fs \<longleftrightarrow> owned q (sem_regs fs) \<and> finite (dom fs) \<and>
     (\<forall>i a. fs i = Some (a, Took True) \<longrightarrow> granted q a) \<and>
     (\<forall>i a. fs i = Some (a, Dropping) \<longrightarrow> a_registration a = None)"

definition answered :: "sem_sys \<Rightarrow> bool" where
  "answered s \<longleftrightarrow>
     (\<exists>i f. ss_futures s i = Some f \<and> parked (s_waiters (ss_sem s)) f) \<longrightarrow>
     unat (s_permits (ss_sem s)) \<le>
       card (responders (s_waiters (ss_sem s)) (ss_futures s)) + ss_wakes s + ss_absorbed s"

definition conserved :: "usize \<Rightarrow> sem_sys \<Rightarrow> bool" where
  "conserved n s \<longleftrightarrow> (unat n + ss_added s < 2 ^ 64 \<longrightarrow>
     unat (s_permits (ss_sem s)) + ss_held s + ss_forgotten s = unat n + ss_added s)"

definition sem_inv :: "usize \<Rightarrow> sem_sys \<Rightarrow> bool" where
  "sem_inv n s \<longleftrightarrow> sem_core (s_waiters (ss_sem s)) (ss_futures s) \<and> answered s \<and> conserved n s"

lemma sem_regs_update [simp]:
  "sem_regs (fs(i \<mapsto> (a, p))) = (sem_regs fs)(i := a_registration a)"
  "sem_regs (fs(i := None)) = (sem_regs fs)(i := None)"
  "sem_regs (\<lambda>_. None) = (\<lambda>_. None)"
  by (auto simp: sem_regs_def fun_eq_iff)

lemma sem_regs_Some: "fs i = Some (a, p) \<Longrightarrow> sem_regs fs i = a_registration a"
  by (simp add: sem_regs_def)

lemma sem_regs_same: "fs i = Some (a, p) \<Longrightarrow> sem_regs (fs(i \<mapsto> (a, p'))) = sem_regs fs"
  by (simp add: sem_regs_def fun_eq_iff)

lemma finite_responders: "finite (dom fs) \<Longrightarrow> finite (responders q fs)"
  by (rule finite_subset [of _ "dom fs"]) (auto simp: responders_def)

text \<open>How a change of future \<open>i\<close> alone moves the number of responders.\<close>

lemma card_except:
  fixes R R' :: "nat set"
  assumes "finite R'" "\<And>j. j \<noteq> i \<Longrightarrow> j \<in> R \<Longrightarrow> j \<in> R'"
  shows "card R \<le> card R' + 1" "(i \<in> R \<Longrightarrow> i \<in> R') \<Longrightarrow> card R \<le> card R'"
    and "i \<notin> R \<Longrightarrow> i \<in> R' \<Longrightarrow> Suc (card R) \<le> card R'"
proof -
  have sub: "R \<subseteq> insert i R'" using assms(2) by blast
  then have "card R \<le> card (insert i R')" using assms(1) by (simp add: card_mono)
  then show "card R \<le> card R' + 1" using card_insert_le_m1 [of "card R' + 1" R'] assms(1)
    by (simp add: card_insert_if split: if_splits)
  show "card R \<le> card R'" if "i \<in> R \<Longrightarrow> i \<in> R'"
    using that sub assms(1) by (intro card_mono) blast+
  show "Suc (card R) \<le> card R'" if "i \<notin> R" "i \<in> R'"
  proof -
    have "finite R" using sub assms(1) finite_subset by blast
    then have "Suc (card R) = card (insert i R)" using that by simp
    also have "\<dots> \<le> card R'" using sub that assms by (intro card_mono) blast+
    finally show ?thesis .
  qed
qed

text \<open>
  The others keep their slots and their order when an operation touches the slot
  of future \<open>i\<close> only; their responsibility is kept when future \<open>i\<close> does not park.
\<close>

definition others_kept ::
  "wait_queue \<Rightarrow> (nat \<Rightarrow> (acquire \<times> phase) option) \<Rightarrow> nat \<Rightarrow> wait_queue \<Rightarrow> bool" where
  "others_kept q fs i q' \<longleftrightarrow> (\<forall>k g. k \<noteq> i \<longrightarrow> fs k = Some g \<longrightarrow>
     slot_kind q' (a_registration (fst g)) = slot_kind q (a_registration (fst g)) \<and>
     (\<forall>t u. a_registration (fst g) = Some u \<longrightarrow> subseq [t, u] (queued q') \<longrightarrow> subseq [t, u] (queued q)))"

lemma others_keptD:
  assumes "others_kept q fs i q'" "k \<noteq> i" "fs k = Some g"
  shows "slot_kind q' (a_registration (fst g)) = slot_kind q (a_registration (fst g))"
    and "parked q' g = parked q g"
    and "a_registration (fst g) = Some u \<Longrightarrow> subseq [t, u] (queued q') \<Longrightarrow> subseq [t, u] (queued q)"
  using assms(1) [unfolded others_kept_def, rule_format, OF assms(2,3)]
  unfolding parked_def by metis+

lemma others_kept_refl [simp]: "others_kept q fs i q"
  by (simp add: others_kept_def)

lemma responsible_frame:
  assumes kept: "others_kept q fs i q'" and other: "fs j = Some f" "j \<noteq> i" "responsible q fs f"
    and idle: "\<And>g. x = Some g \<Longrightarrow> \<not> parked q' g"
  shows "responsible q' (fs(i := x)) f"
proof -
  obtain a p where f: "f = (a, p)" by (cases f)
  have s: "slot_kind q' (a_registration a) = slot_kind q (a_registration a)"
    using others_keptD(1) [OF kept other(2,1)] f by simp
  have "last_parked q' (fs(i := x)) a" if l: "last_parked q fs a"
    unfolding last_parked_def
  proof (intro conjI allI impI)
    show "slot_kind q' (a_registration a) = Some Queued"
      using l s by (simp add: last_parked_def)
    fix k g t u
    assume g: "(fs(i := x)) k = Some g" "parked q' g" "a_registration a = Some t"
      "a_registration (fst g) = Some u"
    then have k: "k \<noteq> i" "fs k = Some g"
      using idle by (auto split: if_splits)
    then have "parked q g"
      using others_keptD(2) [OF kept] g(2) by blast
    then show "\<not> subseq [t, u] (queued q')"
      using l g(3,4) k(2) others_keptD(3) [OF kept k g(4), of t] unfolding last_parked_def by blast
  qed
  then show ?thesis
    using other(3) s f by (auto simp: responsible_def granted_def split: phase.splits bool.splits)
qed

lemma answered_step:
  assumes ans: "(\<exists>k f. fs k = Some f \<and> parked q f) \<longrightarrow> P \<le> card (responders q fs) + W"
    and kept: "others_kept q fs i q'" and fin: "finite (dom fs)"
    and idle: "\<And>g. x = Some g \<Longrightarrow> \<not> parked q' g"
    and ex: "\<exists>k f. (fs(i := x)) k = Some f \<and> parked q' f"
  shows "P \<le> card (responders q' (fs(i := x))) + W +
    (if i \<in> responders q fs \<and> i \<notin> responders q' (fs(i := x)) then 1 else 0)"
    and "i \<notin> responders q fs \<Longrightarrow> i \<in> responders q' (fs(i := x)) \<Longrightarrow>
      P < card (responders q' (fs(i := x))) + W"
proof -
  let ?R = "responders q fs" and ?R' = "responders q' (fs(i := x))"
  have fin': "finite ?R'"
    using fin by (intro finite_responders) simp
  have sub: "j \<in> ?R'" if "j \<noteq> i" "j \<in> ?R" for j
    using that responsible_frame [OF kept _ _ _ idle, where x = x] by (fastforce simp: responders_def)
  obtain k f where k: "k \<noteq> i" "fs k = Some f" "parked q' f"
    using ex idle by (auto split: if_splits)
  then have "parked q f"
    using others_keptD(2) [OF kept] by blast
  then have P: "P \<le> card ?R + W"
    using ans k(2) by blast
  then show "P \<le> card ?R' + W + (if i \<in> ?R \<and> i \<notin> ?R' then 1 else 0)"
    using card_except(1,2) [where i = i and R = ?R, OF fin' sub]
    by (cases "i \<in> ?R \<and> i \<notin> ?R'") auto
  show "P < card ?R' + W" if "i \<notin> ?R" "i \<in> ?R'"
    using P card_except(3) [where i = i and R = ?R, OF fin' sub that] by simp
qed

section \<open>Effects of the atomic operations\<close>

lemma sem_coreD:
  assumes "sem_core q fs"
  shows "owned q (sem_regs fs)" "wq_inv q" "finite (dom fs)"
    "fs i = Some (a, Took True) \<Longrightarrow> granted q a" "fs i = Some (a, Dropping) \<Longrightarrow> a_registration a = None"
    "fs i = Some (a, p) \<Longrightarrow> token_live q (a_registration a)"
  using assms ownedD(1) ownedD(2) [of q "sem_regs fs" i]
  by (auto simp: sem_core_def sem_regs_Some)

lemma sem_other_slot:
  assumes "sem_core q fs" "fs i = Some (a, p)" "fs k = Some g" "k \<noteq> i"
    and "a_registration a = Some t \<or> a_registration a = None \<and> info q t = None"
  shows "a_registration (fst g) \<noteq> Some t"
proof
  assume g: "a_registration (fst g) = Some t"
  note own = sem_coreD(1) [OF assms(1)]
  have k: "sem_regs fs k = Some t"
    using g assms(3) by (cases g) (simp add: sem_regs_def)
  then have "info q t \<noteq> None"
    using ownedD(2) [OF own, of k] by simp
  then show False
    using assms(2,4,5) k ownedD(3) [OF own, of i t k] by (auto simp: sem_regs_Some)
qed

lemma subseq_snoc: "subseq [t, u] (xs @ [v]) \<Longrightarrow> u \<noteq> v \<Longrightarrow> subseq [t, u] xs"
proof (induction xs)
  case (Cons x xs)
  then show ?case
    by (cases "t = x") (auto simp: subseq_singleton_left)
qed (simp split: if_splits)

lemma subseq_fresh_last: "u \<notin> set xs \<Longrightarrow> \<not> subseq [u, v] (xs @ [u])"
  by (induction xs) auto

lemma subseq_remove1: "subseq ys (remove1 x xs) \<Longrightarrow> subseq ys xs"
proof (induction xs arbitrary: ys)
  case (Cons a xs)
  then show ?case
    by (cases "x = a"; cases ys) (auto split: if_splits dest: subseq_Cons')
qed simp

lemma sem_register_effect:
  assumes core: "sem_core q fs" and i: "fs i = Some (a, p)"
    and r: "waiters_register q (a_registration a) wk = Some (q', reg)"
  obtains t where "reg = Some t" "slot_kind q' reg = Some Queued" "others_kept q fs i q'"
    "owned q' ((sem_regs fs)(i := reg))" "queued q' = (if t \<in> set (queued q) then queued q else queued q @ [t])"
    "t \<in> set (queued q) \<longleftrightarrow> slot_kind q (a_registration a) = Some Queued"
proof -
  note qinv = sem_coreD(2) [OF core] and live = sem_coreD(6) [OF core i]
  obtain t where t: "reg = Some t" "wq_inv q'" "a_registration a = Some t \<or> a_registration a = None \<and> info q t = None"
    "queued q' = (if t \<in> set (queued q) then queued q else queued q @ [t])"
    "info q' = (info q)(t \<mapsto> (Queued, Some wk))"
    using waiters_register_spec [OF qinv live, of wk] r by auto
  have "others_kept q fs i q'"
    unfolding others_kept_def
  proof (intro allI impI conjI)
    fix k g assume k: "k \<noteq> i" "fs k = Some g"
    have ne: "a_registration (fst g) \<noteq> Some t"
      using sem_other_slot [OF core i k(2,1) t(3)] .
    then show "slot_kind q' (a_registration (fst g)) = slot_kind q (a_registration (fst g))"
      using t(5) by (auto simp: slot_kind_def split: option.splits)
    show "subseq [w, u] (queued q)" if "a_registration (fst g) = Some u" "subseq [w, u] (queued q')" for w u
      using that ne t(4) subseq_snoc by (auto split: if_splits)
  qed
  moreover have "owned q' ((sem_regs fs)(i := reg))"
    using owned_waiters(1) [OF sem_coreD(1) [OF core], of i wk q' reg] r i by (simp add: sem_regs_Some)
  moreover have "t \<in> set (queued q) \<longleftrightarrow> slot_kind q (a_registration a) = Some Queued"
    using t(3) wq.queue_iff [OF qinv, of t] by (auto simp: slot_kind_def)
  ultimately show thesis
    using that t by (simp add: slot_kind_def)
qed

lemma sem_remove_effect:
  assumes core: "sem_core q fs" and i: "fs i = Some (a, p)"
    and r: "waiters_remove q (a_registration a) = Some (q', reg, k)"
  shows "reg = None" "k = slot_kind q (a_registration a)" "others_kept q fs i q'"
    "owned q' ((sem_regs fs)(i := None))"
proof -
  note qinv = sem_coreD(2) [OF core] and live = sem_coreD(6) [OF core i]
  obtain q1 where q1: "waiters_remove q (a_registration a) = Some (q1, None, slot_kind q (a_registration a))"
    "queued q1 = (case a_registration a of None \<Rightarrow> queued q | Some i \<Rightarrow> remove1 i (queued q))"
    "info q1 = (case a_registration a of None \<Rightarrow> info q | Some i \<Rightarrow> (info q)(i := None))"
    using waiters_remove_spec [OF qinv live] unfolding slot_kind_def by blast
  then have eq: "q1 = q'" "reg = None" "k = slot_kind q (a_registration a)"
    using r by auto
  then show "reg = None" "k = slot_kind q (a_registration a)" by blast+
  show "owned q' ((sem_regs fs)(i := None))"
    using owned_waiters(2) [OF sem_coreD(1) [OF core], of i q' reg k] r i by (simp add: sem_regs_Some)
  show "others_kept q fs i q'"
    unfolding others_kept_def
  proof (intro allI impI conjI)
    fix j g assume j: "j \<noteq> i" "fs j = Some g"
    have "a_registration (fst g) \<noteq> Some t" if "a_registration a = Some t" for t
      using sem_other_slot [OF core i j(2,1)] that by blast
    then show "slot_kind q' (a_registration (fst g)) = slot_kind q (a_registration (fst g))"
      using q1(3) eq(1) by (auto simp: slot_kind_def split: option.splits)
    show "subseq [w, u] (queued q)" if "subseq [w, u] (queued q')" for w u
      using that q1(2) eq(1) subseq_remove1 by (auto split: option.splits)
  qed
qed

text \<open>Granting: the owner of the head slot becomes responsible when somebody is parked behind it.\<close>

lemma sem_wake_effect:
  assumes core: "sem_core q fs" and w: "waiters_wake_one q = Some (q', ws)"
  shows "owned q' (sem_regs fs)"
    and "(queued q = [] \<and> q' = q) \<or> (\<exists>i a p. fs i = Some (a, p) \<and> others_kept q fs i q' \<and>
      slot_kind q (a_registration a) = Some Queued \<and> granted q' a \<and>
      (\<forall>k g. k \<noteq> i \<longrightarrow> fs k = Some g \<longrightarrow> parked q g \<longrightarrow> \<not> last_parked q fs a))"
proof -
  note own = sem_coreD(1) [OF core] and qinv = sem_coreD(2) [OF core]
  show "owned q' (sem_regs fs)"
    using owned_waiters(3) [OF own w] .
  show "(queued q = [] \<and> q' = q) \<or> (\<exists>i a p. fs i = Some (a, p) \<and> others_kept q fs i q' \<and>
      slot_kind q (a_registration a) = Some Queued \<and> granted q' a \<and>
      (\<forall>k g. k \<noteq> i \<longrightarrow> fs k = Some g \<longrightarrow> parked q g \<longrightarrow> \<not> last_parked q fs a))"
  proof (cases "queued q")
    case Nil
    then show ?thesis using w waiters_wake_one_empty [OF qinv] by simp
  next
    case (Cons t ts)
    obtain wk where q': "queued q' = ts" "info q' = (info q)(t \<mapsto> (WakeOne, None))"
      "info q t = Some (Queued, wk)"
      using waiters_wake_one_head [OF qinv Cons] w wq.queue_iff [OF qinv, of t] Cons by auto
    then obtain i where "sem_regs fs i = Some t"
      using ownedD(4) [OF own q'(3)] by blast
    then obtain a p where i: "fs i = Some (a, p)" "a_registration a = Some t"
      by (auto simp: sem_regs_def split: option.splits)
    have ne: "a_registration (fst g) \<noteq> Some t" if "k \<noteq> i" "fs k = Some g" for k g
      using sem_other_slot [OF core i(1) that(2,1)] i(2) by blast
    then have "others_kept q fs i q'"
      using q'(1,2) Cons by (auto simp: others_kept_def slot_kind_def split: option.splits
          dest: subseq_Cons')
    moreover have "\<not> last_parked q fs a" if k: "k \<noteq> i" "fs k = Some g" "parked q g" for k g
    proof -
      obtain u where u: "a_registration (fst g) = Some u" "u \<in> set (queued q)"
        using k(3) wq.queue_iff [OF qinv] by (auto simp: parked_def slot_kind_def split: option.splits)
      then have "subseq [t, u] (queued q)"
        using ne [OF k(1,2)] Cons by (auto simp: subseq_singleton_left)
      then show ?thesis
        using k(2,3) u(1) i(2) unfolding last_parked_def by blast
    qed
    moreover have "slot_kind q (a_registration a) = Some Queued" "granted q' a"
      using i(2) q'(2,3) by (simp_all add: slot_kind_def granted_def)
    ultimately show ?thesis
      using i(1) by blast
  qed
qed

section \<open>The invariant\<close>

lemma try_acquire_cases:
  obtains "s_permits s = 0" "try_acquire s = (s, False)"
  | "s_permits s \<noteq> 0" "try_acquire s = (s\<lparr>s_permits := s_permits s - 1\<rparr>, True)"
    "unat (s_permits s - 1) = unat (s_permits s) - 1" "0 < unat (s_permits s)"
  by (cases "s_permits s = 0") (auto simp: try_acquire_def unat_minus_one unat_gt_0)

lemma unat_add_le: "unat (a + b :: 'a::len word) \<le> unat a + unat b"
  by (simp add: unat_word_ariths)

lemma unat_add_exact: "unat (a :: usize) + unat b < 2 ^ 64 \<Longrightarrow> unat (a + b) = unat a + unat b"
  by (simp add: unat_word_ariths)

lemma sem_act_conserved:
  assumes "conserved n s" "sem_act act s = Some t"
  shows "conserved n t"
  using assms
proof (cases act)
  case (TryFirst i)
  then show ?thesis
    using assms by (cases "ss_sem s" rule: try_acquire_cases)
      (auto simp: conserved_def set_future_def split: option.splits prod.splits phase.splits)
next
  case (TrySecond i)
  then show ?thesis
    using assms by (cases "ss_sem s" rule: try_acquire_cases)
      (auto simp: conserved_def set_future_def split: option.splits prod.splits phase.splits)
next
  case TryAcquire
  then show ?thesis
    using assms by (cases "ss_sem s" rule: try_acquire_cases) (auto simp: conserved_def)
next
  case ReleaseAdd
  then show ?thesis
    using assms unat_add_exact [of "s_permits (ss_sem s)" 1]
    by (auto simp: conserved_def split: if_splits)
next
  case (AddPermits m)
  then show ?thesis
    using assms unat_add_exact [of "s_permits (ss_sem s)" m]
    by (auto simp: conserved_def split: if_splits)
qed (auto simp: conserved_def set_future_def permit_forget_def bind_eq_Some_conv
    split: option.splits prod.splits phase.splits if_splits)

lemma sem_core_update:
  assumes "sem_core q fs" "others_kept q fs i q'" "owned q' (sem_regs (fs(i := x)))"
    and "\<And>a. x = Some (a, Took True) \<Longrightarrow> granted q' a"
    and "\<And>a. x = Some (a, Dropping) \<Longrightarrow> a_registration a = None"
  shows "sem_core q' (fs(i := x))"
proof -
  have "granted q' a" if "(fs(i := x)) k = Some (a, Took True)" for k a
    using that assms(4) sem_coreD(4) [OF assms(1)] others_keptD(1) [OF assms(2), of k "(a, Took True)"]
    by (auto simp: granted_def split: if_splits)
  then show ?thesis
    using assms sem_coreD(5) [OF assms(1)] by (auto simp: sem_core_def split: if_splits)
qed

lemma answered_free: "s_permits (ss_sem s) = 0 \<Longrightarrow> answered s"
  by (simp add: answered_def)

text \<open>
  One future changes and does not park: the bound is kept as long as the permits
  drop, or the wakes or absorbed grants rise, when the future gives up responsibility.
\<close>

lemma answered_future:
  assumes core: "sem_core (s_waiters (ss_sem s)) (ss_futures s)" and ans: "answered s"
    and t: "ss_futures t = (ss_futures s)(i := x)"
    and kept: "others_kept (s_waiters (ss_sem s)) (ss_futures s) i (s_waiters (ss_sem t))"
    and idle: "\<And>g. x = Some g \<Longrightarrow> \<not> parked (s_waiters (ss_sem t)) g"
    and less: "unat (s_permits (ss_sem t)) + ss_wakes s + ss_absorbed s +
      (if i \<in> responders (s_waiters (ss_sem s)) (ss_futures s) \<and>
          i \<notin> responders (s_waiters (ss_sem t)) ((ss_futures s)(i := x)) then 1 else 0) \<le>
      unat (s_permits (ss_sem s)) + ss_wakes t + ss_absorbed t"
  shows "answered t"
  unfolding answered_def
proof
  assume "\<exists>k f. ss_futures t k = Some f \<and> parked (s_waiters (ss_sem t)) f"
  then have ex: "\<exists>k f. ((ss_futures s)(i := x)) k = Some f \<and> parked (s_waiters (ss_sem t)) f"
    using t by simp
  have "(\<exists>k f. ss_futures s k = Some f \<and> parked (s_waiters (ss_sem s)) f) \<longrightarrow>
      unat (s_permits (ss_sem s)) \<le>
      card (responders (s_waiters (ss_sem s)) (ss_futures s)) + (ss_wakes s + ss_absorbed s)"
    using ans by (auto simp: answered_def add.assoc)
  from answered_step(1) [OF this kept sem_coreD(3) [OF core] idle ex] less
  show "unat (s_permits (ss_sem t)) \<le>
      card (responders (s_waiters (ss_sem t)) (ss_futures t)) + ss_wakes t + ss_absorbed t"
    unfolding t by (auto split: if_splits)
qed

text \<open>The three actions that hand a permit to a future or report that there is none.\<close>

lemma sem_try_future:
  assumes core: "sem_core (s_waiters (ss_sem s)) (ss_futures s)" and ans: "answered s"
    and i: "ss_futures s i = Some (a, p)" and p: "p = Idle \<or> p = Registered"
    and p': "p' = Failed \<or> p' = Idle"
    and t: "t = (case try_acquire (ss_sem s) of
         (m, True) \<Rightarrow> (set_future s i m (Some (a, Took
           (slot_kind (s_waiters m) (a_registration a) = Some WakeOne))))\<lparr>ss_held := Suc (ss_held s)\<rparr>
       | (m, False) \<Rightarrow> set_future s i m (Some (a, p')))"
  shows "sem_core (s_waiters (ss_sem t)) (ss_futures t) \<and> answered t"
proof (cases "ss_sem s" rule: try_acquire_cases)
  case 1
  then have "sem_core (s_waiters (ss_sem t)) (ss_futures t)"
    using core p' t sem_regs_same [where fs = "ss_futures s", OF i, of p'] sem_coreD(1) [OF core]
    by (auto simp: set_future_def simp del: fun_upd_apply intro!: sem_core_update)
  then show ?thesis
    using 1 t by (simp add: answered_free set_future_def)
next
  case 2
  let ?q = "s_waiters (ss_sem s)"
  let ?x = "Some (a, Took (slot_kind ?q (a_registration a) = Some WakeOne))"
  have t': "s_waiters (ss_sem t) = ?q" "ss_futures t = (ss_futures s)(i := ?x)"
    "s_permits (ss_sem t) = s_permits (ss_sem s) - 1" "ss_wakes t = ss_wakes s" "ss_absorbed t = ss_absorbed s"
    using 2 t by (simp_all add: set_future_def)
  have "sem_core ?q ((ss_futures s)(i := ?x))"
    using core sem_regs_same [where fs = "ss_futures s", OF i] sem_coreD(1) [OF core]
    by (intro sem_core_update) (auto simp: granted_def)
  moreover have "answered t"
    using 2(3,4) t' by (intro answered_future [OF core ans t'(2)]) (auto simp: parked_def)
  ultimately show ?thesis using t' by simp
qed

lemma sem_register_step:
  assumes core: "sem_core (s_waiters (ss_sem s)) (ss_futures s)" and ans: "answered s"
    and i: "ss_futures s i = Some (a, Failed)"
    and r: "waiters_register (s_waiters (ss_sem s)) (a_registration a) wk = Some (q, reg)"
    and t: "t = set_future s i ((ss_sem s)\<lparr>s_waiters := q\<rparr>) (Some (a\<lparr>a_registration := reg\<rparr>, Registered))"
  shows "sem_core (s_waiters (ss_sem t)) (ss_futures t) \<and> answered t"
proof -
  let ?q = "s_waiters (ss_sem s)" and ?x = "Some (a\<lparr>a_registration := reg\<rparr>, Registered)"
  obtain u where u: "reg = Some u" "slot_kind q reg = Some Queued" "others_kept ?q (ss_futures s) i q"
    "owned q ((sem_regs (ss_futures s))(i := reg))"
    "queued q = (if u \<in> set (queued ?q) then queued ?q else queued ?q @ [u])"
    "u \<in> set (queued ?q) \<longleftrightarrow> slot_kind ?q (a_registration a) = Some Queued"
    using sem_register_effect [OF core i r] by blast
  have "sem_core q ((ss_futures s)(i := ?x))"
    using core u(3,4) by (intro sem_core_update) auto
  moreover have "i \<in> responders q ((ss_futures s)(i := ?x))" if g: "i \<in> responders ?q (ss_futures s)"
  proof -
    have "granted ?q a"
      using g i by (auto simp: responders_def responsible_def)
    then have nq: "u \<notin> set (queued ?q)"
      using u(6) by (simp add: granted_def)
    have "\<not> subseq [u, v] (queued q)" for v
      using u(5) nq subseq_fresh_last by simp
    then show ?thesis
      using u(1,2) by (auto simp: responders_def responsible_def last_parked_def)
  qed
  then have "answered t"
    using t u(3) by (intro answered_future [OF core ans, of t i ?x]) (auto simp: set_future_def parked_def)
  ultimately show ?thesis
    using t by (simp add: set_future_def)
qed

lemma sem_unregister_step:
  assumes core: "sem_core (s_waiters (ss_sem s)) (ss_futures s)" and ans: "answered s"
    and i: "ss_futures s i = Some (a, Took g)"
    and r: "waiters_remove (s_waiters (ss_sem s)) (a_registration a) = Some (q, reg, k)"
    and t: "t = (set_future s i ((ss_sem s)\<lparr>s_waiters := q\<rparr>) None)
      \<lparr>ss_absorbed := ss_absorbed s + (if k = Some WakeOne \<and> \<not> g then 1 else 0)\<rparr>"
  shows "sem_core (s_waiters (ss_sem t)) (ss_futures t) \<and> answered t"
proof -
  note eff = sem_remove_effect [OF core i r]
  have "sem_core q ((ss_futures s)(i := None))"
    using core eff(3,4) by (intro sem_core_update) auto
  moreover have "k = Some WakeOne \<and> \<not> g"
    if "i \<in> responders (s_waiters (ss_sem s)) (ss_futures s)"
    using that i eff(2) by (cases g) (auto simp: responders_def responsible_def granted_def)
  then have "answered t"
    using t eff(3) by (intro answered_future [OF core ans, of t i None]) (auto simp: set_future_def)
  ultimately show ?thesis
    using t by (simp add: set_future_def)
qed

lemma sem_drop_step:
  assumes core: "sem_core (s_waiters (ss_sem s)) (ss_futures s)" and ans: "answered s"
    and i: "ss_futures s i = Some (a, Idle)"
    and r: "waiters_remove (s_waiters (ss_sem s)) (a_registration a) = Some (q, reg, k)"
    and t: "t = set_future s i ((ss_sem s)\<lparr>s_waiters := q\<rparr>)
      (if k = Some WakeOne then Some (a\<lparr>a_registration := reg\<rparr>, Dropping) else None)"
  shows "sem_core (s_waiters (ss_sem t)) (ss_futures t) \<and> answered t"
proof -
  let ?x = "if k = Some WakeOne then Some (a\<lparr>a_registration := reg\<rparr>, Dropping) else None"
  note eff = sem_remove_effect [OF core i r]
  have "sem_core q ((ss_futures s)(i := ?x))"
    using core eff(1,3,4) by (intro sem_core_update) (auto split: if_splits)
  moreover have "i \<in> responders q ((ss_futures s)(i := ?x))"
    if "i \<in> responders (s_waiters (ss_sem s)) (ss_futures s)"
    using that i eff(2) by (auto simp: responders_def responsible_def granted_def)
  then have "answered t"
    using t eff(3)
    by (intro answered_future [OF core ans, of t i ?x]) (auto simp: set_future_def parked_def split: if_splits)
  ultimately show ?thesis
    using t by (simp add: set_future_def)
qed

lemma sem_check_step:
  assumes core: "sem_core (s_waiters (ss_sem s)) (ss_futures s)" and ans: "answered s"
    and i: "ss_futures s i = Some (a, Dropping)"
    and t: "t = (set_future s i (ss_sem s) None)
      \<lparr>ss_wakes := ss_wakes s + (if available_permits (ss_sem s) \<noteq> 0 then 1 else 0)\<rparr>"
  shows "sem_core (s_waiters (ss_sem t)) (ss_futures t) \<and> answered t"
proof -
  have reg: "a_registration a = None"
    using sem_coreD(5) [OF core i] .
  then have "sem_regs ((ss_futures s)(i := None)) = sem_regs (ss_futures s)"
    using i by (simp add: sem_regs_def fun_eq_iff)
  then have "sem_core (s_waiters (ss_sem s)) ((ss_futures s)(i := None))"
    using core sem_coreD(1) [OF core] by (intro sem_core_update) auto
  moreover have "answered t"
  proof (cases "s_permits (ss_sem s) = 0")
    case True
    then show ?thesis using t by (simp add: answered_free set_future_def)
  next
    case False
    then show ?thesis
      using t by (intro answered_future [OF core ans, of t i None])
        (auto simp: set_future_def available_permits_def)
  qed
  ultimately show ?thesis
    using t by (simp add: set_future_def)
qed

lemma sem_create_step:
  assumes core: "sem_core (s_waiters (ss_sem s)) (ss_futures s)" and ans: "answered s"
    and i: "ss_futures s i = None" and t: "t = set_future s i (ss_sem s) (Some (sem_acquire, Idle))"
  shows "sem_core (s_waiters (ss_sem t)) (ss_futures t) \<and> answered t"
proof -
  have "sem_regs ((ss_futures s)(i \<mapsto> (sem_acquire, Idle))) = sem_regs (ss_futures s)"
    using i by (simp add: sem_regs_def fun_eq_iff sem_acquire_def)
  then have "sem_core (s_waiters (ss_sem s)) ((ss_futures s)(i \<mapsto> (sem_acquire, Idle)))"
    using core sem_coreD(1) [OF core] by (intro sem_core_update) (auto simp del: sem_regs_update)
  moreover have "i \<notin> responders (s_waiters (ss_sem s)) (ss_futures s)"
    using i by (simp add: responders_def)
  then have "answered t"
    using t by (intro answered_future [OF core ans, of t i "Some (sem_acquire, Idle)"])
      (auto simp: set_future_def parked_def slot_kind_def sem_acquire_def)
  ultimately show ?thesis
    using t by (simp add: set_future_def)
qed

lemma sem_wake_step:
  assumes core: "sem_core (s_waiters (ss_sem s)) (ss_futures s)" and ans: "answered s"
    and n: "ss_wakes s \<noteq> 0" and r: "waiters_wake_one (s_waiters (ss_sem s)) = Some (q, ws)"
    and t: "t = s\<lparr>ss_sem := (ss_sem s)\<lparr>s_waiters := q\<rparr>, ss_wakes := ss_wakes s - 1\<rparr>"
  shows "sem_core (s_waiters (ss_sem t)) (ss_futures t) \<and> answered t"
proof -
  let ?q = "s_waiters (ss_sem s)" and ?fs = "ss_futures s"
  from sem_wake_effect(2) [OF core r] show ?thesis
  proof (elim disjE exE conjE)
    assume e: "queued ?q = []" "q = ?q"
    then have "\<not> parked ?q g" if "?fs k = Some g" for k g
      using wq.queue_iff [OF sem_coreD(2) [OF core]]
      by (auto simp: parked_def slot_kind_def split: option.splits)
    then show ?thesis
      using t e core by (auto simp: answered_def)
  next
    fix i a p
    assume i: "?fs i = Some (a, p)" and kept: "others_kept ?q ?fs i q"
      and before: "slot_kind ?q (a_registration a) = Some Queued" and after: "granted q a"
      and last: "\<forall>k g. k \<noteq> i \<longrightarrow> ?fs k = Some g \<longrightarrow> parked ?q g \<longrightarrow> \<not> last_parked ?q ?fs a"
    have fs: "?fs(i := Some (a, p)) = ?fs"
      using i by (simp add: fun_upd_idem)
    have p: "p \<noteq> Took True" "p \<noteq> Dropping"
      using before sem_coreD(4,5) [OF core] i by (auto simp: granted_def slot_kind_def)
    have core': "sem_core q (?fs(i := Some (a, p)))"
      using core kept sem_wake_effect(1) [OF core r] p
      by (intro sem_core_update) (auto simp only: fs Pair_inject option.inject phase.inject)
    have idle: "\<not> parked q g" if "Some (a, p) = Some g" for g
      using that after by (auto simp: parked_def granted_def)
    have "answered t"
      unfolding answered_def
    proof
      assume "\<exists>k f. ss_futures t k = Some f \<and> parked (s_waiters (ss_sem t)) f"
      then have ex: "\<exists>k f. (?fs(i := Some (a, p))) k = Some f \<and> parked q f"
        using t fs by simp
      then obtain k f where k: "k \<noteq> i" "?fs k = Some f" "parked q f"
        using idle by (auto split: if_splits)
      then have "parked ?q f"
        using others_keptD(2) [OF kept] by blast
      then have "i \<notin> responders ?q ?fs"
        using last [rule_format, OF k(1,2)] before i p
        by (auto simp: responders_def responsible_def granted_def split: phase.splits bool.splits)
      moreover have "i \<in> responders q (?fs(i := Some (a, p)))"
        using after p by (auto simp: responders_def responsible_def split: phase.splits bool.splits)
      moreover have ans': "(\<exists>k f. ?fs k = Some f \<and> parked ?q f) \<longrightarrow>
          unat (s_permits (ss_sem s)) \<le> card (responders ?q ?fs) + (ss_wakes s + ss_absorbed s)"
        using ans by (auto simp: answered_def add.assoc)
      ultimately show "unat (s_permits (ss_sem t)) \<le>
          card (responders (s_waiters (ss_sem t)) (ss_futures t)) + ss_wakes t + ss_absorbed t"
        using answered_step(2) [OF ans' kept sem_coreD(3) [OF core] idle ex] t n fs by simp
    qed
    then show ?thesis
      using core' t fs by simp
  qed
qed

lemma sem_act_core:
  assumes core: "sem_core (s_waiters (ss_sem s)) (ss_futures s)" and ans: "answered s"
    and act: "sem_act act s = Some t"
  shows "sem_core (s_waiters (ss_sem t)) (ss_futures t) \<and> answered t"
proof (cases act)
  case (Create i)
  then show ?thesis
    using act sem_create_step [OF core ans] by (auto split: option.splits)
next
  case (TryFirst i)
  then obtain a where i: "ss_futures s i = Some (a, Idle)"
    using act by (auto split: option.splits phase.splits)
  show ?thesis
    by (rule sem_try_future [OF core ans i, where p' = Failed])
      (use act TryFirst i in \<open>auto split: prod.splits bool.splits\<close>)
next
  case (Register i wk)
  then show ?thesis
    using act sem_register_step [OF core ans]
    by (auto simp: bind_eq_Some_conv split: option.splits phase.splits)
next
  case (TrySecond i)
  then obtain a where i: "ss_futures s i = Some (a, Registered)"
    using act by (auto split: option.splits phase.splits)
  show ?thesis
    by (rule sem_try_future [OF core ans i, where p' = Idle])
      (use act TrySecond i in \<open>auto split: prod.splits bool.splits\<close>)
next
  case (Unregister i)
  then show ?thesis
    using act sem_unregister_step [OF core ans]
    by (auto simp: bind_eq_Some_conv split: option.splits phase.splits)
next
  case (DropFuture i)
  then show ?thesis
    using act sem_drop_step [OF core ans]
    by (auto simp: bind_eq_Some_conv split: option.splits phase.splits)
next
  case (DropCheck i)
  then show ?thesis
    using act sem_check_step [OF core ans] by (auto split: option.splits phase.splits)
next
  case TryAcquire
  then show ?thesis
    using act core ans
    by (cases "ss_sem s" rule: try_acquire_cases) (auto simp: answered_def)
next
  case ReleaseAdd
  then show ?thesis
    using act core ans unat_add_le [of "s_permits (ss_sem s)" 1]
    by (auto simp: answered_def split: if_splits)
next
  case Forget
  then show ?thesis
    using act core ans by (auto simp: answered_def permit_forget_def split: if_splits)
next
  case (AddPermits n)
  then show ?thesis
    using act core ans unat_add_le [of "s_permits (ss_sem s)" n]
    by (auto simp: answered_def split: if_splits)
next
  case Wake
  then show ?thesis
    using act sem_wake_step [OF core ans] by (auto simp: bind_eq_Some_conv split: if_splits)
qed

lemma sem_start_inv: "sem_inv n (sem_start n)"
  by (simp add: sem_inv_def sem_start_def sem_core_def semaphore_new_def owned_new answered_def
      conserved_def)

interpretation sem: invariant_system "\<lambda>s. s = sem_start n" sem_step "sem_inv n" for n
proof unfold_locales
  show "sem_inv n s" if "s = sem_start n" for s
    using that sem_start_inv by simp
  show "sem_inv n t" if "sem_inv n s" "sem_step s t" for s t
    using that by (auto simp: sem_step_def sem_inv_def dest: sem_act_core sem_act_conserved)
qed

text \<open>The other methods are sequences of the same atomic operations.\<close>

lemma wake_times_actions:
  "wake_times k (s_waiters (ss_sem s)) = Some (q, ws) \<Longrightarrow> k \<le> ss_wakes s \<Longrightarrow>
   sem_run (replicate k Wake) s =
     Some (s\<lparr>ss_sem := (ss_sem s)\<lparr>s_waiters := q\<rparr>, ss_wakes := ss_wakes s - k\<rparr>)"
proof (induction k arbitrary: s ws)
  case (Suc k)
  then obtain q1 w1 w2 where q1: "waiters_wake_one (s_waiters (ss_sem s)) = Some (q1, w1)"
    "wake_times k q1 = Some (q, w2)"
    by (auto simp: bind_eq_Some_conv)
  then show ?case
    using Suc.IH [of "s\<lparr>ss_sem := (ss_sem s)\<lparr>s_waiters := q1\<rparr>, ss_wakes := ss_wakes s - 1\<rparr>" w2] Suc.prems(2)
    by simp
qed simp

lemma release_actions:
  assumes "sem_release (ss_sem s) = Some (m, ws)" "ss_held s \<noteq> 0"
  shows "\<exists>t. sem_run [ReleaseAdd, Wake] s = Some t \<and> ss_sem t = m"
  using assms by (auto simp: sem_release_def bind_eq_Some_conv)

lemma add_permits_actions:
  assumes "add_permits (ss_sem s) n = Some (m, ws)" "n \<noteq> 0"
  shows "\<exists>t. sem_run (AddPermits n # replicate (unat n) Wake) s = Some t \<and> ss_sem t = m"
proof -
  obtain q ws' where q: "wake_times (unat n) (s_waiters (ss_sem s)) = Some (q, ws')"
    "m = (ss_sem s)\<lparr>s_permits := s_permits (ss_sem s) + n, s_waiters := q\<rparr>"
    using assms by (auto simp: add_permits_def Let_def bind_eq_Some_conv)
  then show ?thesis
    using assms(2) wake_times_actions [of "unat n" "s\<lparr>ss_sem := (ss_sem s)
        \<lparr>s_permits := s_permits (ss_sem s) + n\<rparr>, ss_wakes := ss_wakes s + unat n,
        ss_added := ss_added s + unat n\<rparr>" q ws'] by simp
qed

lemma acquire_drop_actions:
  assumes "acquire_drop (ss_sem s) a = Some (m, ws)" "ss_futures s i = Some (a, Idle)"
  shows "\<exists>as t. sem_run as s = Some t \<and> set as \<subseteq> {DropFuture i, DropCheck i, Wake} \<and>
    ss_sem t = m \<and> ss_futures t i = None"
proof -
  obtain q reg k where r: "waiters_remove (s_waiters (ss_sem s)) (a_registration a) = Some (q, reg, k)"
    using assms(1) by (auto simp: acquire_drop_def bind_eq_Some_conv)
  consider "k \<noteq> Some WakeOne" | "k = Some WakeOne" "s_permits (ss_sem s) = 0"
    | "k = Some WakeOne" "s_permits (ss_sem s) \<noteq> 0" by blast
  then show ?thesis
  proof cases
    case 1
    then show ?thesis
      using assms r by (intro exI [of _ "[DropFuture i]"]) (auto simp: acquire_drop_def set_future_def)
  next
    case 2
    then show ?thesis
      using assms r by (intro exI [of _ "[DropFuture i, DropCheck i]"])
        (auto simp: acquire_drop_def set_future_def available_permits_def)
  next
    case 3
    then show ?thesis
      using assms r by (intro exI [of _ "[DropFuture i, DropCheck i, Wake]"])
        (auto simp: acquire_drop_def set_future_def available_permits_def bind_eq_Some_conv)
  qed
qed

section \<open>Properties\<close>

text \<open>
  C4: permits are conserved. Whatever the interleaving, and as long as the total
  fits a \<open>usize\<close>, the free permits, the held ones and the forgotten ones add up to
  the permits the semaphore was created with and those added since: no permit is
  handed out twice and none disappears.
\<close>

theorem semaphore_conserves_permits:
  assumes "sem_reach n s" "unat n + ss_added s < 2 ^ 64"
  shows "unat (available_permits (ss_sem s)) + ss_held s + ss_forgotten s = unat n + ss_added s"
  using sem.reach_inv [OF assms(1)] assms(2)
  by (simp add: sem_inv_def conserved_def available_permits_def)

text \<open>
  C3: no waiter sleeps beside a free permit. When every future is between polls, no
  granted future is still to be polled, no release is still to wake somebody and
  no grant was absorbed so far, then a parked future implies that no permit is free.
\<close>

theorem semaphore_no_lost_wakeup:
  assumes "sem_reach n s" "ss_wakes s = 0" "ss_absorbed s = 0"
    and "\<And>i a p. ss_futures s i = Some (a, p) \<Longrightarrow> p = Idle \<and> \<not> granted (s_waiters (ss_sem s)) a"
    and "ss_futures s j = Some f" "parked (s_waiters (ss_sem s)) f"
  shows "available_permits (ss_sem s) = 0"
proof -
  have "responders (s_waiters (ss_sem s)) (ss_futures s) = {}"
    using assms(4) by (fastforce simp: responders_def responsible_def)
  moreover have "\<exists>i f. ss_futures s i = Some f \<and> parked (s_waiters (ss_sem s)) f"
    using assms(5,6) by blast
  ultimately have "unat (s_permits (ss_sem s)) = 0"
    using sem.reach_inv [OF assms(1)] assms(2,3) by (simp add: sem_inv_def answered_def)
  then show ?thesis
    by (simp add: available_permits_def unsigned_eq_0_iff)
qed

lemma acquire_poll_outcome:
  assumes inv: "sem_core (s_waiters (ss_sem s)) (ss_futures s)"
    and i: "ss_futures s i = Some (a, Idle)"
  shows "\<exists>m a' r t. acquire_poll (ss_sem s) a wk = Some (m, a', r) \<and>
    sem_run (if available_permits (ss_sem s) = 0 then [TryFirst i, Register i wk, TrySecond i]
             else [TryFirst i, Unregister i]) s = Some t \<and> ss_sem t = m \<and>
    (if available_permits (ss_sem s) = 0
     then r = Pending \<and> ss_futures t i = Some (a', Idle) \<and> available_permits m = 0 \<and>
       (\<exists>u. a_registration a' = Some u \<and> info (s_waiters m) u = Some (Queued, Some wk))
     else r = Ready () \<and> ss_futures t i = None \<and> a_registration a' = None \<and>
       ss_held t = Suc (ss_held s) \<and> available_permits m = available_permits (ss_sem s) - 1)"
proof -
  let ?q = "s_waiters (ss_sem s)"
  note qinv = sem_coreD(2) [OF inv] and live = sem_coreD(6) [OF inv i]
  show ?thesis
  proof (cases "available_permits (ss_sem s) = 0")
    case True
    obtain q' u where "waiters_register ?q (a_registration a) wk = Some (q', Some u)"
      "info q' = (info ?q)(u \<mapsto> (Queued, Some wk))"
      using waiters_register_spec [OF qinv live] by blast
    then show ?thesis
      using True i by (simp add: acquire_poll_def try_acquire_def available_permits_def
          set_future_def)
  next
    case False
    obtain q' k where "waiters_remove ?q (a_registration a) = Some (q', None, k)"
      using waiters_remove_spec [OF qinv live] by blast
    then show ?thesis
      using False i by (simp add: acquire_poll_def try_acquire_def available_permits_def
          set_future_def)
  qed
qed

text \<open>
  a poll that is not interrupted never panics and is the sequence of atomic
  operations of the interleaved model: with a free permit it takes one, leaves the
  queue and is ready; without, it is pending with its own waker in a queued slot.
\<close>

theorem semaphore_poll:
  assumes "sem_reach n s" "ss_futures s i = Some (a, Idle)"
  shows "\<exists>m a' r t. acquire_poll (ss_sem s) a wk = Some (m, a', r) \<and>
    sem_run (if available_permits (ss_sem s) = 0 then [TryFirst i, Register i wk, TrySecond i]
             else [TryFirst i, Unregister i]) s = Some t \<and> ss_sem t = m \<and>
    (if available_permits (ss_sem s) = 0
     then r = Pending \<and> ss_futures t i = Some (a', Idle) \<and> available_permits m = 0 \<and>
       (\<exists>u. a_registration a' = Some u \<and> info (s_waiters m) u = Some (Queued, Some wk))
     else r = Ready () \<and> ss_futures t i = None \<and> a_registration a' = None \<and>
       ss_held t = Suc (ss_held s) \<and> available_permits m = available_permits (ss_sem s) - 1)"
  using acquire_poll_outcome sem.reach_inv [OF assms(1)] assms(2) by (simp add: sem_inv_def)

text \<open>
  The run behind the exception of the theorem above. Futures 0 and 1 wait behind
  two held permits; a release grants future 0, but future 1 takes that permit in
  its second try; future 0 finds none and queues again, now behind future 1, which
  still has its registration; the next release grants future 1, whose poll removes
  the slot without passing the grant on. It starts once the other permits of the
  semaphore, if it was made with more than two, have been taken.
\<close>

definition lost_run :: "sem_action list" where
  "lost_run =
     [TryAcquire, TryAcquire, Create 0, TryFirst 0, Register 0 10, TrySecond 0,
      Create 1, TryFirst 1, Register 1 11, ReleaseAdd, Wake, TrySecond 1,
      TryFirst 0, Register 0 10, TrySecond 0, ReleaseAdd, Wake, Unregister 1]"

text \<open>
  Nobody will look again: a permit is free beside a parked future, no \<open>wake_one\<close>
  is due, and every future is between polls with a slot that was not granted.
\<close>

definition stranded :: "sem_sys \<Rightarrow> nat \<Rightarrow> bool" where
  "stranded s i \<longleftrightarrow> available_permits (ss_sem s) \<noteq> 0 \<and> ss_wakes s = 0 \<and>
     (\<exists>f. ss_futures s i = Some f \<and> parked (s_waiters (ss_sem s)) f) \<and>
     (\<forall>j a p. ss_futures s j = Some (a, p) \<longrightarrow> p = Idle \<and> \<not> granted (s_waiters (ss_sem s)) a)"

lemma lost_run_result:
  "case sem_run lost_run (sem_start 2) of
     None \<Rightarrow> False
   | Some s \<Rightarrow> available_permits (ss_sem s) = 1 \<and> ss_wakes s = 0 \<and> ss_absorbed s = 1 \<and>
       ss_futures s 0 = Some (\<lparr>a_registration = Some 0\<rparr>, Idle) \<and> ss_futures s 1 = None \<and>
       slot_kind (s_waiters (ss_sem s)) (Some 0) = Some Queued"
  by code_simp

text \<open>The futures of a run are those it creates.\<close>

lemma sem_act_futures:
  assumes "sem_act act s = Some t" "ss_futures t j = Some f"
  shows "ss_futures s j \<noteq> None \<or> act = Create j"
  using assms by (cases act)
    (auto simp: set_future_def bind_eq_Some_conv split: option.splits prod.splits phase.splits if_splits
      bool.splits)

lemma sem_run_futures:
  "sem_run as s = Some t \<Longrightarrow> ss_futures t j = Some f \<Longrightarrow> ss_futures s j \<noteq> None \<or> Create j \<in> set as"
proof (induction as arbitrary: s)
  case (Cons a as)
  then obtain u where u: "sem_act a s = Some u" "sem_run as u = Some t"
    by (auto simp: bind_eq_Some_conv)
  then show ?case
    using Cons.IH [OF u(2) Cons.prems(2)] sem_act_futures [OF u(1), of j] by auto
qed simp

text \<open>Permits held on top change nothing else of a run.\<close>

definition hold_more :: "nat \<Rightarrow> sem_sys \<Rightarrow> sem_sys" where
  "hold_more k s = s\<lparr>ss_held := ss_held s + k\<rparr>"

lemma sem_act_hold_more:
  assumes "sem_act act s = Some t"
  shows "sem_act act (hold_more k s) = Some (hold_more k t)"
proof (cases act)
  case (DropFuture i)
  then obtain a q reg j where "ss_futures s i = Some (a, Idle)"
    "waiters_remove (s_waiters (ss_sem s)) (a_registration a) = Some (q, reg, j)"
    "t = set_future s i ((ss_sem s)\<lparr>s_waiters := q\<rparr>)
      (if j = Some WakeOne then Some (a\<lparr>a_registration := reg\<rparr>, Dropping) else None)"
    using assms by (auto simp: bind_eq_Some_conv split: option.splits phase.splits)
  then show ?thesis
    using DropFuture by (simp add: hold_more_def set_future_def)
next
  case (Unregister i)
  then obtain a g q reg j where "ss_futures s i = Some (a, Took g)"
    "waiters_remove (s_waiters (ss_sem s)) (a_registration a) = Some (q, reg, j)"
    "t = (set_future s i ((ss_sem s)\<lparr>s_waiters := q\<rparr>) None)
      \<lparr>ss_absorbed := ss_absorbed s + (if j = Some WakeOne \<and> \<not> g then 1 else 0)\<rparr>"
    using assms by (auto simp: bind_eq_Some_conv split: option.splits phase.splits)
  then show ?thesis
    using Unregister by (simp add: hold_more_def set_future_def)
qed (use assms in \<open>auto simp: hold_more_def set_future_def permit_forget_def bind_eq_Some_conv
    split: option.splits prod.splits phase.splits if_splits bool.splits\<close>)

lemma sem_run_hold_more: "sem_run as s = Some t \<Longrightarrow> sem_run as (hold_more k s) = Some (hold_more k t)"
proof (induction as arbitrary: s)
  case (Cons a as)
  then obtain u where "sem_act a s = Some u" "sem_run as u = Some t"
    by (auto simp: bind_eq_Some_conv)
  then show ?case
    using Cons.IH [of u] sem_act_hold_more by simp
qed simp

lemma sem_run_append: "sem_run (as @ bs) s = do { s \<leftarrow> sem_run as s; sem_run bs s }"
  by (induction as arbitrary: s) (simp_all add: bind_assoc)

lemma take_permits:
  "k \<le> unat n \<Longrightarrow> sem_run (replicate k TryAcquire) (sem_start n) =
     Some (hold_more k (sem_start (n - of_nat k)))"
proof (induction k)
  case (Suc k)
  have "unat (of_nat k :: usize) \<le> k"
    by (simp add: unat_of_nat)
  then have "n - of_nat k \<noteq> 0"
    using Suc.prems by auto
  then have "sem_act TryAcquire (hold_more k (sem_start (n - of_nat k))) =
      Some (hold_more (Suc k) (sem_start (n - of_nat (Suc k))))"
    by (simp add: hold_more_def sem_start_def semaphore_new_def try_acquire_def algebra_simps)
  moreover have "replicate (Suc k) TryAcquire = replicate k TryAcquire @ [TryAcquire]"
    by (simp add: replicate_append_same)
  ultimately show ?case
    using Suc by (simp add: sem_run_append del: replicate.simps sem_act.simps of_nat_Suc)
qed (simp add: hold_more_def)

lemma strands:
  assumes "2 \<le> unat n"
  obtains s where "sem_reach n s" "stranded s 0" "ss_absorbed s = 1"
proof -
  let ?k = "unat n - 2"
  have n: "n - of_nat ?k = 2"
    using assms by (simp add: of_nat_diff)
  obtain u where u: "sem_run lost_run (sem_start 2) = Some u"
    using lost_run_result by (auto split: option.splits)
  have "sem_run (replicate ?k TryAcquire @ lost_run) (sem_start n) = Some (hold_more ?k u)"
    using take_permits [of ?k n] sem_run_hold_more [OF u, of ?k] n by (simp add: sem_run_append)
  then have "sem_reach n (hold_more ?k u)"
    using sem_run_reach [of n "sem_start n"] reach.reach_init by fastforce
  moreover have "stranded (hold_more ?k u) 0"
  proof -
    have "a = \<lparr>a_registration = Some 0\<rparr> \<and> p = Idle" if "ss_futures u j = Some (a, p)" for j a p
      using sem_run_futures [OF u that] lost_run_result u that
      by (auto simp: sem_start_def lost_run_def)
    then show ?thesis
      using lost_run_result u
      by (fastforce simp: stranded_def hold_more_def granted_def parked_def)
  qed
  ultimately show thesis
    using that lost_run_result u by (auto simp: hold_more_def)
qed

text \<open>The actions of others that free no permit: polls and drops of other futures, callers taking permits.\<close>

fun no_release :: "nat \<Rightarrow> sem_action \<Rightarrow> bool" where
  "no_release i (TryFirst j) \<longleftrightarrow> j \<noteq> i"
| "no_release i (DropFuture j) \<longleftrightarrow> j \<noteq> i"
| "no_release i ReleaseAdd \<longleftrightarrow> False"
| "no_release i (AddPermits n) \<longleftrightarrow> False"
| "no_release i _ \<longleftrightarrow> True"

definition unwoken :: "sem_sys \<Rightarrow> nat \<Rightarrow> bool" where
  "unwoken s i \<longleftrightarrow> ss_wakes s = 0 \<and>
     (\<exists>f. ss_futures s i = Some f \<and> parked (s_waiters (ss_sem s)) f) \<and>
     (\<forall>j a p. ss_futures s j = Some (a, p) \<longrightarrow> p \<noteq> Dropping \<and> \<not> granted (s_waiters (ss_sem s)) a)"

lemma unwoken_update:
  assumes "unwoken s i" "j \<noteq> i" "others_kept (s_waiters (ss_sem s)) (ss_futures s) j (s_waiters m)"
    and "\<And>a p. x = Some (a, p) \<Longrightarrow> p \<noteq> Dropping \<and> \<not> granted (s_waiters m) a"
  shows "unwoken (set_future s j m x) i"
proof -
  have "p \<noteq> Dropping \<and> \<not> granted (s_waiters m) a" if "((ss_futures s)(j := x)) k = Some (a, p)" for k a p
    using that assms(1,4) others_keptD(1) [OF assms(3), of k "(a, p)"]
    by (cases "k = j") (auto simp: unwoken_def granted_def)
  moreover obtain f where "ss_futures s i = Some f" "parked (s_waiters m) f"
    using assms(1,2) others_keptD(2) [OF assms(3), of i] by (auto simp: unwoken_def)
  ultimately show ?thesis
    using assms(1,2) by (auto simp: unwoken_def set_future_def)
qed

lemma unwoken_cong:
  "ss_wakes t = ss_wakes s \<Longrightarrow> ss_futures t = ss_futures s \<Longrightarrow>
   s_waiters (ss_sem t) = s_waiters (ss_sem s) \<Longrightarrow> unwoken t i = unwoken s i"
  by (simp add: unwoken_def)

lemma unwoken_step:
  assumes core: "sem_core (s_waiters (ss_sem s)) (ss_futures s)" and un: "unwoken s i"
    and no: "no_release i act" and act: "sem_act act s = Some t"
  shows "unwoken t i"
proof -
  have none: "\<not> granted (s_waiters (ss_sem s)) a \<and> p \<noteq> Dropping" if "ss_futures s j = Some (a, p)" for j a p
    using un that by (auto simp: unwoken_def)
  have ii: "p = Idle" if "ss_futures s i = Some (a, p)" for a p
    using un that by (auto simp: unwoken_def parked_def)
  have tries: "unwoken (set_future s j m (Some (a, p'))) i"
    if "\<exists>p. ss_futures s j = Some (a, p)" "j \<noteq> i" "p' \<noteq> Dropping" "s_waiters m = s_waiters (ss_sem s)"
    for j a p' m
    using that none by (intro unwoken_update [OF un]) auto
  show ?thesis
  proof (cases act)
    case (Create j)
    then have "t = set_future s j (ss_sem s) (Some (sem_acquire, Idle))" "j \<noteq> i"
      using act un by (auto simp: unwoken_def split: option.splits)
    then show ?thesis
      by (auto simp: sem_acquire_def granted_def slot_kind_def intro!: unwoken_update [OF un])
  next
    case (TryFirst j)
    then show ?thesis
      using act no by (cases "ss_sem s" rule: try_acquire_cases)
        (auto intro!: tries simp: unwoken_cong [of "X\<lparr>ss_held := h\<rparr>" X for X h] split: option.splits phase.splits)
  next
    case (TrySecond j)
    moreover have "ss_futures s j = Some (a, Registered) \<Longrightarrow> j \<noteq> i" for a
      using ii by auto
    ultimately show ?thesis
      using act by (cases "ss_sem s" rule: try_acquire_cases)
        (auto intro!: tries simp: unwoken_cong [of "X\<lparr>ss_held := h\<rparr>" X for X h] split: option.splits phase.splits)
  next
    case (Register j wk)
    then obtain a q reg where j: "ss_futures s j = Some (a, Failed)"
      "waiters_register (s_waiters (ss_sem s)) (a_registration a) wk = Some (q, reg)"
      "t = set_future s j ((ss_sem s)\<lparr>s_waiters := q\<rparr>) (Some (a\<lparr>a_registration := reg\<rparr>, Registered))"
      using act by (auto simp: bind_eq_Some_conv split: option.splits phase.splits)
    then obtain u where "slot_kind q reg = Some Queued" "others_kept (s_waiters (ss_sem s)) (ss_futures s) j q"
      using sem_register_effect [OF core j(1,2)] by metis
    then show ?thesis
      using j ii by (auto simp: granted_def intro!: unwoken_update [OF un])
  next
    case (Unregister j)
    then obtain a g q reg k where j: "ss_futures s j = Some (a, Took g)"
      "waiters_remove (s_waiters (ss_sem s)) (a_registration a) = Some (q, reg, k)"
      "t = (set_future s j ((ss_sem s)\<lparr>s_waiters := q\<rparr>) None)
        \<lparr>ss_absorbed := ss_absorbed s + (if k = Some WakeOne \<and> \<not> g then 1 else 0)\<rparr>"
      using act by (auto simp: bind_eq_Some_conv split: option.splits phase.splits)
    then have "unwoken (set_future s j ((ss_sem s)\<lparr>s_waiters := q\<rparr>) None) i"
      using sem_remove_effect(3) [OF core j(1,2)] ii by (intro unwoken_update [OF un]) auto
    then show ?thesis
      using j(3) by (simp add: unwoken_def)
  next
    case (DropFuture j)
    then obtain a q reg k where j: "ss_futures s j = Some (a, Idle)"
      "waiters_remove (s_waiters (ss_sem s)) (a_registration a) = Some (q, reg, k)"
      "t = set_future s j ((ss_sem s)\<lparr>s_waiters := q\<rparr>)
        (if k = Some WakeOne then Some (a\<lparr>a_registration := reg\<rparr>, Dropping) else None)"
      using act by (auto simp: bind_eq_Some_conv split: option.splits phase.splits)
    then show ?thesis
      using sem_remove_effect(2,3) [OF core j(1,2)] none [OF j(1)] no DropFuture
      by (auto simp: granted_def intro!: unwoken_update [OF un])
  next
    case (DropCheck j)
    then show ?thesis
      using act none [of j] by (fastforce split: option.splits phase.splits)
  next
    case TryAcquire
    then show ?thesis
      using act un unwoken_cong [of t s i] by (cases "ss_sem s" rule: try_acquire_cases) auto
  next
    case Wake
    then show ?thesis
      using act un by (auto simp: unwoken_def)
  qed (use act un no unwoken_cong [of t s i] in \<open>auto simp: permit_forget_def split: if_splits\<close>)
qed

lemma unwoken_run:
  "sem_reach n s \<Longrightarrow> unwoken s i \<Longrightarrow> list_all (no_release i) as \<Longrightarrow> sem_run as s = Some t \<Longrightarrow> unwoken t i"
proof (induction as arbitrary: s)
  case (Cons a as)
  then obtain u where u: "sem_act a s = Some u" "sem_run as u = Some t"
    by (auto simp: bind_eq_Some_conv)
  have "unwoken u i"
    using unwoken_step [OF _ Cons.prems(2) _ u(1)] sem.reach_inv [OF Cons.prems(1)] Cons.prems(3)
    by (simp add: sem_inv_def)
  then show ?case
    using Cons.IH [OF reach.reach_step [OF Cons.prems(1)]] u Cons.prems(3) by (auto simp: sem_step_def)
qed simp

lemma stranded_unwoken: "stranded s i \<Longrightarrow> unwoken s i"
  unfolding stranded_def unwoken_def by fastforce

lemma stranded_absorbed:
  assumes "sem_reach n s" "stranded s i"
  shows "0 < ss_absorbed s"
proof -
  let ?q = "s_waiters (ss_sem s)"
  have "responders ?q (ss_futures s) = {}"
    using assms(2) by (fastforce simp: responders_def responsible_def stranded_def)
  moreover have "0 < unat (s_permits (ss_sem s))"
    using assms(2) by (simp add: stranded_def available_permits_def unat_gt_0)
  ultimately show ?thesis
    using sem.reach_inv [OF assms(1)] assms(2) by (auto simp: sem_inv_def answered_def stranded_def)
qed

lemma unregister_absorbs:
  assumes "sem_reach n s" and i: "ss_futures s i = Some (a, Took False)"
    and g: "granted (s_waiters (ss_sem s)) a"
  obtains t where "sem_act (Unregister i) s = Some t" "ss_absorbed t = Suc (ss_absorbed s)"
    "ss_wakes t = ss_wakes s" "available_permits (ss_sem t) = available_permits (ss_sem s)"
    "\<forall>j a p. ss_futures t j = Some (a, p) \<longrightarrow> ss_futures s j = Some (a, p) \<and>
      granted (s_waiters (ss_sem t)) a = granted (s_waiters (ss_sem s)) a"
proof -
  have core: "sem_core (s_waiters (ss_sem s)) (ss_futures s)"
    using sem.reach_inv [OF assms(1)] by (simp add: sem_inv_def)
  obtain q k where r: "waiters_remove (s_waiters (ss_sem s)) (a_registration a) = Some (q, None, k)"
    using waiters_remove_spec [OF sem_coreD(2,6) [OF core]] i by blast
  note eff = sem_remove_effect [OF core i r]
  have "granted q b = granted (s_waiters (ss_sem s)) b" if "j \<noteq> i" "ss_futures s j = Some (b, p)" for j b p
    using others_keptD(1) [OF eff(3) that] by (simp add: granted_def)
  then show thesis
    using that i r eff(2) g
    by (fastforce simp: set_future_def available_permits_def granted_def split: if_splits)
qed

text \<open>
  C5: a grant can be absorbed, and its waiter sleeps on. A future that took a permit
  before its slot was granted drops that grant when its poll removes the slot: the
  permits stay, no \<open>wake_one\<close> becomes due and no other future is granted
  (\<open>Acquire::drop\<close> passes such a grant on). From every semaphore with two permits or
  more an execution leads to a parked future beside a free permit with nobody left
  to look again, one grant having been absorbed; such a state is reached only after
  an absorbed grant; and there the future stays parked whatever the other futures
  and callers do, until permits are released or added again or it is itself polled
  or dropped.
\<close>

theorem semaphore_absorbed_grant:
  assumes "2 \<le> unat n"
  shows "(\<forall>s i a. sem_reach n s \<and> ss_futures s i = Some (a, Took False) \<and>
       granted (s_waiters (ss_sem s)) a \<longrightarrow>
       (\<exists>t. sem_act (Unregister i) s = Some t \<and> ss_absorbed t = Suc (ss_absorbed s) \<and>
          ss_wakes t = ss_wakes s \<and> available_permits (ss_sem t) = available_permits (ss_sem s) \<and>
          (\<forall>j a p. ss_futures t j = Some (a, p) \<longrightarrow> ss_futures s j = Some (a, p) \<and>
             granted (s_waiters (ss_sem t)) a = granted (s_waiters (ss_sem s)) a))) \<and>
     (\<exists>s i. sem_reach n s \<and> stranded s i \<and> ss_absorbed s = 1) \<and>
     (\<forall>s i. sem_reach n s \<and> stranded s i \<longrightarrow> 0 < ss_absorbed s \<and>
       (\<forall>as t. list_all (no_release i) as \<and> sem_run as s = Some t \<longrightarrow>
          (\<exists>f. ss_futures t i = Some f \<and> parked (s_waiters (ss_sem t)) f)))"
proof (intro conjI allI impI)
  fix s i a
  assume "sem_reach n s \<and> ss_futures s i = Some (a, Took False) \<and> granted (s_waiters (ss_sem s)) a"
  then show "\<exists>t. sem_act (Unregister i) s = Some t \<and> ss_absorbed t = Suc (ss_absorbed s) \<and>
      ss_wakes t = ss_wakes s \<and> available_permits (ss_sem t) = available_permits (ss_sem s) \<and>
      (\<forall>j a p. ss_futures t j = Some (a, p) \<longrightarrow> ss_futures s j = Some (a, p) \<and>
         granted (s_waiters (ss_sem t)) a = granted (s_waiters (ss_sem s)) a)"
    by (elim conjE) (rule unregister_absorbs, assumption+, blast)
next
  show "\<exists>s i. sem_reach n s \<and> stranded s i \<and> ss_absorbed s = 1"
    using strands [OF assms] by blast
next
  fix s i assume "sem_reach n s \<and> stranded s i"
  then show "0 < ss_absorbed s"
    using stranded_absorbed by blast
next
  fix s i as t
  assume "sem_reach n s \<and> stranded s i" "list_all (no_release i) as \<and> sem_run as s = Some t"
  then show "\<exists>f. ss_futures t i = Some f \<and> parked (s_waiters (ss_sem t)) f"
    using unwoken_run [of n s i as t] stranded_unwoken by (auto simp: unwoken_def)
qed

theorem semaphore_absorbed_grant_witness:
  "(2::nat) \<le> unat (2 :: usize) \<and> (\<exists>s i. sem_reach 2 s \<and> stranded s i \<and> ss_absorbed s = 1)"
proof
  show two: "(2::nat) \<le> unat (2 :: usize)" by simp
  show "\<exists>s i. sem_reach 2 s \<and> stranded s i \<and> ss_absorbed s = 1"
    using semaphore_absorbed_grant [OF two] by blast
qed

section \<open>Concrete runs\<close>

definition park_run :: "sem_action list" where
  "park_run = [TryAcquire, Create 0, TryFirst 0, Register 0 10, TrySecond 0]"

definition park_queue :: wait_queue where
  "park_queue = \<lparr>q_slots = [Live \<lparr>w_previous = None, w_next = None, w_kind = Queued, w_waker = Some 10\<rparr>],
     q_free = None, q_head = Some 0, q_tail = Some 0\<rparr>"

definition park_state :: sem_sys where
  "park_state = (sem_start 1)\<lparr>ss_sem := \<lparr>s_permits = 0, s_waiters = park_queue\<rparr>,
     ss_futures := [0 \<mapsto> (\<lparr>a_registration = Some 0\<rparr>, Idle)], ss_held := 1\<rparr>"

lemma park_state_run: "sem_run park_run (sem_start 1) = Some park_state"
  by (simp add: park_state_def park_run_def try_acquire_def sem_start_def semaphore_new_def
      set_future_def sem_acquire_def waiters_register_def wq_register_def wq_alloc_def wq_new_def
      wq_enqueue_def wq_get_mut_def wq_get_def park_queue_def)

lemma park_state_reach: "sem_reach 1 park_state"
  by (rule sem_run_reach [OF _ park_state_run], rule reach.reach_init) simp

lemma park_state_future:
  "ss_futures park_state i = Some (a, p) \<longleftrightarrow> i = 0 \<and> a = \<lparr>a_registration = Some 0\<rparr> \<and> p = Idle"
  by (auto simp: park_state_def)

lemma park_state_kind: "slot_kind (s_waiters (ss_sem park_state)) (Some 0) = Some Queued"
  by (simp add: park_state_def park_queue_def slot_kind_def info_def wq_get_def)

theorem semaphore_conserves_permits_witness:
  "unat (available_permits (ss_sem park_state)) + ss_held park_state + ss_forgotten park_state = 1"
  using semaphore_conserves_permits [OF park_state_reach]
  by (simp add: park_state_def sem_start_def)

theorem semaphore_no_lost_wakeup_witness:
  "parked (s_waiters (ss_sem park_state)) (\<lparr>a_registration = Some 0\<rparr>, Idle) \<and>
   available_permits (ss_sem park_state) = 0"
proof -
  have park: "parked (s_waiters (ss_sem park_state)) (\<lparr>a_registration = Some 0\<rparr>, Idle)"
    using park_state_kind by (simp add: parked_def)
  moreover have "available_permits (ss_sem park_state) = 0"
    by (rule semaphore_no_lost_wakeup [OF park_state_reach _ _ _ _ park])
      (auto simp: park_state_future granted_def park_state_kind, simp_all add: park_state_def sem_start_def)
  ultimately show ?thesis ..
qed

theorem semaphore_poll_witness:
  "\<exists>m a' r. acquire_poll (ss_sem park_state) \<lparr>a_registration = Some 0\<rparr> 12 = Some (m, a', r) \<and> r = Pending"
proof -
  have i: "ss_futures park_state 0 = Some (\<lparr>a_registration = Some 0\<rparr>, Idle)"
    by (simp add: park_state_future)
  have "available_permits (ss_sem park_state) = 0"
    by (simp add: park_state_def available_permits_def)
  then show ?thesis
    using semaphore_poll [OF park_state_reach i, of 12] by auto
qed

end
