(* ===== verification/RwLock.thy ===== *)
theory RwLock
  imports WaitQueue
begin

text \<open>
  The async reader-writer lock (\<open>src/src/sync.rs\<close>, \<open>RwLock\<close>, its guards and its
  four futures): each method as one function, and a system of futures and guards
  whose actions are the single atomic operations of the methods. The results:
  writers exclude everybody, a value is stable under a read guard, the state word
  is the number of readers or the writer mark, and no future stays parked beside a
  lock it could take.
\<close>

section \<open>Data and operations\<close>

definition WRITER :: usize where
  "WRITER = usize_max"

record 'a rwlock =
  rw_state :: usize
  rw_waiters :: wait_queue
  rw_value :: 'a

definition rwlock_new :: "'a \<Rightarrow> 'a rwlock" where
  "rwlock_new v = \<lparr>rw_state = 0, rw_waiters = wq_new, rw_value = v\<rparr>"

definition into_inner :: "'a rwlock \<Rightarrow> 'a" where
  "into_inner l = rw_value l"

definition rw_get_mut :: "'a rwlock \<Rightarrow> ('a \<Rightarrow> 'a) \<Rightarrow> 'a rwlock" where
  "rw_get_mut l f = l\<lparr>rw_value := f (rw_value l)\<rparr>"

definition try_read_raw :: "'a rwlock \<Rightarrow> 'a rwlock \<times> bool" where
  "try_read_raw l =
     (if rw_state l = WRITER then (l, False)
      else (l\<lparr>rw_state := rw_state l + 1\<rparr>, True))"

definition try_write_raw :: "'a rwlock \<Rightarrow> 'a rwlock \<times> bool" where
  "try_write_raw l =
     (if rw_state l = 0 then (l\<lparr>rw_state := WRITER\<rparr>, True) else (l, False))"

definition rw_wake_all :: "'a rwlock \<Rightarrow> ('a rwlock \<times> waker list) option" where
  "rw_wake_all l = do {
     (q, ws) \<leftarrow> waiters_wake_all (rw_waiters l);
     Some (l\<lparr>rw_waiters := q\<rparr>, ws)
   }"

definition release_read :: "'a rwlock \<Rightarrow> ('a rwlock \<times> waker list) option" where
  "release_read l =
     (let l' = l\<lparr>rw_state := rw_state l - 1\<rparr> in
      if rw_state l = 1 then rw_wake_all l' else Some (l', []))"

definition release_write :: "'a rwlock \<Rightarrow> ('a rwlock \<times> waker list) option" where
  "release_write l = rw_wake_all (l\<lparr>rw_state := 0\<rparr>)"

text \<open>A guard is the fact that a try succeeded; it gives access to the value until it is dropped.\<close>

datatype guard = ReadGuard | WriteGuard

definition try_read :: "'a rwlock \<Rightarrow> 'a rwlock \<times> guard option" where
  "try_read l = (case try_read_raw l of (l, ok) \<Rightarrow> (l, if ok then Some ReadGuard else None))"

definition try_write :: "'a rwlock \<Rightarrow> 'a rwlock \<times> guard option" where
  "try_write l = (case try_write_raw l of (l, ok) \<Rightarrow> (l, if ok then Some WriteGuard else None))"

definition guard_deref :: "'a rwlock \<Rightarrow> 'a" where
  "guard_deref l = rw_value l"

definition guard_deref_mut :: "'a rwlock \<Rightarrow> ('a \<Rightarrow> 'a) \<Rightarrow> 'a rwlock" where
  "guard_deref_mut l f = l\<lparr>rw_value := f (rw_value l)\<rparr>"

definition guard_drop :: "'a rwlock \<Rightarrow> guard \<Rightarrow> ('a rwlock \<times> waker list) option" where
  "guard_drop l g = (case g of ReadGuard \<Rightarrow> release_read l | WriteGuard \<Rightarrow> release_write l)"

text \<open>What \<open>Debug\<close> prints of the lock.\<close>

definition held_name :: "'a rwlock \<Rightarrow> string" where
  "held_name l =
     (if rw_state l = WRITER then ''write'' else if rw_state l = 0 then ''free'' else ''read'')"

text \<open>
  The futures of \<open>read\<close> and \<open>write\<close>; they differ in the try they make. The owned
  variants also keep the lock until they complete, and panic when polled after.
\<close>

record rw_future =
  rf_registration :: "nat option"

record rw_owned_future =
  ro_lock :: bool
  ro_registration :: "nat option"

definition rw_read :: rw_future where
  "rw_read = \<lparr>rf_registration = None\<rparr>"

definition rw_write :: rw_future where
  "rw_write = \<lparr>rf_registration = None\<rparr>"

definition rw_read_owned :: rw_owned_future where
  "rw_read_owned = \<lparr>ro_lock = True, ro_registration = None\<rparr>"

definition rw_write_owned :: rw_owned_future where
  "rw_write_owned = \<lparr>ro_lock = True, ro_registration = None\<rparr>"

definition read_poll ::
  "'a rwlock \<Rightarrow> rw_future \<Rightarrow> waker \<Rightarrow> ('a rwlock \<times> rw_future \<times> guard poll) option" where
  "read_poll l f wk =
     (let (l, got) = try_read_raw l in
      if got then do {
        (q, reg, k) \<leftarrow> waiters_remove (rw_waiters l) (rf_registration f);
        Some (l\<lparr>rw_waiters := q\<rparr>, f\<lparr>rf_registration := reg\<rparr>, Ready ReadGuard)
      }
      else do {
        (q, reg) \<leftarrow> waiters_register (rw_waiters l) (rf_registration f) wk;
        let f = f\<lparr>rf_registration := reg\<rparr>;
        let (l, got) = try_read_raw (l\<lparr>rw_waiters := q\<rparr>);
        if got then do {
          (q, reg, k) \<leftarrow> waiters_remove (rw_waiters l) (rf_registration f);
          Some (l\<lparr>rw_waiters := q\<rparr>, f\<lparr>rf_registration := reg\<rparr>, Ready ReadGuard)
        }
        else Some (l, f, Pending)
      })"

definition write_poll ::
  "'a rwlock \<Rightarrow> rw_future \<Rightarrow> waker \<Rightarrow> ('a rwlock \<times> rw_future \<times> guard poll) option" where
  "write_poll l f wk =
     (let (l, got) = try_write_raw l in
      if got then do {
        (q, reg, k) \<leftarrow> waiters_remove (rw_waiters l) (rf_registration f);
        Some (l\<lparr>rw_waiters := q\<rparr>, f\<lparr>rf_registration := reg\<rparr>, Ready WriteGuard)
      }
      else do {
        (q, reg) \<leftarrow> waiters_register (rw_waiters l) (rf_registration f) wk;
        let f = f\<lparr>rf_registration := reg\<rparr>;
        let (l, got) = try_write_raw (l\<lparr>rw_waiters := q\<rparr>);
        if got then do {
          (q, reg, k) \<leftarrow> waiters_remove (rw_waiters l) (rf_registration f);
          Some (l\<lparr>rw_waiters := q\<rparr>, f\<lparr>rf_registration := reg\<rparr>, Ready WriteGuard)
        }
        else Some (l, f, Pending)
      })"

definition read_owned_poll ::
  "'a rwlock \<Rightarrow> rw_owned_future \<Rightarrow> waker \<Rightarrow> ('a rwlock \<times> rw_owned_future \<times> guard poll) option" where
  "read_owned_poll l f wk =
     (if \<not> ro_lock f then None
      else let (l, got) = try_read_raw l in
      if got then do {
        (q, reg, k) \<leftarrow> waiters_remove (rw_waiters l) (ro_registration f);
        Some (l\<lparr>rw_waiters := q\<rparr>, \<lparr>ro_lock = False, ro_registration = reg\<rparr>, Ready ReadGuard)
      }
      else do {
        (q, reg) \<leftarrow> waiters_register (rw_waiters l) (ro_registration f) wk;
        let f = f\<lparr>ro_registration := reg\<rparr>;
        let (l, got) = try_read_raw (l\<lparr>rw_waiters := q\<rparr>);
        if got then do {
          (q, reg, k) \<leftarrow> waiters_remove (rw_waiters l) (ro_registration f);
          Some (l\<lparr>rw_waiters := q\<rparr>, \<lparr>ro_lock = False, ro_registration = reg\<rparr>, Ready ReadGuard)
        }
        else Some (l, f, Pending)
      })"

definition write_owned_poll ::
  "'a rwlock \<Rightarrow> rw_owned_future \<Rightarrow> waker \<Rightarrow> ('a rwlock \<times> rw_owned_future \<times> guard poll) option" where
  "write_owned_poll l f wk =
     (if \<not> ro_lock f then None
      else let (l, got) = try_write_raw l in
      if got then do {
        (q, reg, k) \<leftarrow> waiters_remove (rw_waiters l) (ro_registration f);
        Some (l\<lparr>rw_waiters := q\<rparr>, \<lparr>ro_lock = False, ro_registration = reg\<rparr>, Ready WriteGuard)
      }
      else do {
        (q, reg) \<leftarrow> waiters_register (rw_waiters l) (ro_registration f) wk;
        let f = f\<lparr>ro_registration := reg\<rparr>;
        let (l, got) = try_write_raw (l\<lparr>rw_waiters := q\<rparr>);
        if got then do {
          (q, reg, k) \<leftarrow> waiters_remove (rw_waiters l) (ro_registration f);
          Some (l\<lparr>rw_waiters := q\<rparr>, \<lparr>ro_lock = False, ro_registration = reg\<rparr>, Ready WriteGuard)
        }
        else Some (l, f, Pending)
      })"

definition rw_future_drop :: "'a rwlock \<Rightarrow> rw_future \<Rightarrow> 'a rwlock option" where
  "rw_future_drop l f = do {
     (q, reg, k) \<leftarrow> waiters_remove (rw_waiters l) (rf_registration f);
     Some (l\<lparr>rw_waiters := q\<rparr>)
   }"

definition rw_owned_drop :: "'a rwlock \<Rightarrow> rw_owned_future \<Rightarrow> 'a rwlock option" where
  "rw_owned_drop l f =
     (if ro_lock f then do {
        (q, reg, k) \<leftarrow> waiters_remove (rw_waiters l) (ro_registration f);
        Some (l\<lparr>rw_waiters := q\<rparr>)
      }
      else Some l)"

section \<open>Interleaved executions\<close>

text \<open>
  A future waits for a kind of guard, has its registration, and is at one of the
  points between two atomic operations of its poll. \<open>rs_readers\<close> and \<open>rs_writers\<close>
  count the guards that exist, \<open>rs_wakes\<close> the releases that have changed the state
  and are still to call \<open>wake_all\<close>.
\<close>

datatype rw_phase = RIdle | RFailed | RRegistered | RTook

record rw_task =
  rt_guard :: guard
  rt_registration :: "nat option"
  rt_phase :: rw_phase

record 'a rw_sys =
  rs_lock :: "'a rwlock"
  rs_futures :: "nat \<Rightarrow> rw_task option"
  rs_readers :: nat
  rs_writers :: nat
  rs_wakes :: nat

definition rw_start :: "'a \<Rightarrow> 'a rw_sys" where
  "rw_start v = \<lparr>rs_lock = rwlock_new v, rs_futures = (\<lambda>_. None), rs_readers = 0,
     rs_writers = 0, rs_wakes = 0\<rparr>"

datatype 'a rw_action =
  RCreate nat guard | RTryFirst nat | RRegister nat waker | RTrySecond nat | RUnregister nat |
  RDrop nat | RTry guard | RRelease guard | RStore 'a | RWakeAll

definition rw_try :: "guard \<Rightarrow> 'a rwlock \<Rightarrow> 'a rwlock \<times> bool" where
  "rw_try g l = (case g of ReadGuard \<Rightarrow> try_read_raw l | WriteGuard \<Rightarrow> try_write_raw l)"

definition count_guard :: "guard \<Rightarrow> 'a rw_sys \<Rightarrow> 'a rw_sys" where
  "count_guard g s =
     (case g of ReadGuard \<Rightarrow> s\<lparr>rs_readers := Suc (rs_readers s)\<rparr>
      | WriteGuard \<Rightarrow> s\<lparr>rs_writers := Suc (rs_writers s)\<rparr>)"

definition rw_attempt :: "nat \<Rightarrow> rw_task \<Rightarrow> rw_phase \<Rightarrow> 'a rw_sys \<Rightarrow> 'a rw_sys" where
  "rw_attempt i f failed s =
     (case rw_try (rt_guard f) (rs_lock s) of
        (l, True) \<Rightarrow> count_guard (rt_guard f)
          (s\<lparr>rs_lock := l, rs_futures := (rs_futures s)(i \<mapsto> f\<lparr>rt_phase := RTook\<rparr>)\<rparr>)
      | (l, False) \<Rightarrow> s\<lparr>rs_lock := l, rs_futures := (rs_futures s)(i \<mapsto> f\<lparr>rt_phase := failed\<rparr>)\<rparr>)"

definition rw_remove :: "nat \<Rightarrow> rw_task \<Rightarrow> 'a rw_sys \<Rightarrow> 'a rw_sys option" where
  "rw_remove i f s = do {
     (q, reg, k) \<leftarrow> waiters_remove (rw_waiters (rs_lock s)) (rt_registration f);
     Some (s\<lparr>rs_lock := (rs_lock s)\<lparr>rw_waiters := q\<rparr>, rs_futures := (rs_futures s)(i := None)\<rparr>)
   }"

fun rw_act :: "'a rw_action \<Rightarrow> 'a rw_sys \<Rightarrow> 'a rw_sys option" where
  "rw_act (RCreate i g) s =
     (if rs_futures s i = None
      then Some (s\<lparr>rs_futures := (rs_futures s)
        (i \<mapsto> \<lparr>rt_guard = g, rt_registration = None, rt_phase = RIdle\<rparr>)\<rparr>)
      else None)"
| "rw_act (RTryFirst i) s =
     (case rs_futures s i of
        Some f \<Rightarrow> if rt_phase f = RIdle then Some (rw_attempt i f RFailed s) else None
      | None \<Rightarrow> None)"
| "rw_act (RRegister i wk) s =
     (case rs_futures s i of
        Some f \<Rightarrow>
          if rt_phase f = RFailed then do {
            (q, reg) \<leftarrow> waiters_register (rw_waiters (rs_lock s)) (rt_registration f) wk;
            Some (s\<lparr>rs_lock := (rs_lock s)\<lparr>rw_waiters := q\<rparr>, rs_futures := (rs_futures s)
              (i \<mapsto> f\<lparr>rt_registration := reg, rt_phase := RRegistered\<rparr>)\<rparr>)
          } else None
      | None \<Rightarrow> None)"
| "rw_act (RTrySecond i) s =
     (case rs_futures s i of
        Some f \<Rightarrow> if rt_phase f = RRegistered then Some (rw_attempt i f RIdle s) else None
      | None \<Rightarrow> None)"
| "rw_act (RUnregister i) s =
     (case rs_futures s i of
        Some f \<Rightarrow> if rt_phase f = RTook then rw_remove i f s else None
      | None \<Rightarrow> None)"
| "rw_act (RDrop i) s =
     (case rs_futures s i of
        Some f \<Rightarrow> if rt_phase f = RIdle then rw_remove i f s else None
      | None \<Rightarrow> None)"
| "rw_act (RTry g) s =
     (case rw_try g (rs_lock s) of
        (l, True) \<Rightarrow> Some (count_guard g (s\<lparr>rs_lock := l\<rparr>))
      | (l, False) \<Rightarrow> None)"
| "rw_act (RRelease ReadGuard) s =
     (if rs_readers s = 0 then None
      else Some (s\<lparr>rs_lock := (rs_lock s)\<lparr>rw_state := rw_state (rs_lock s) - 1\<rparr>,
        rs_readers := rs_readers s - 1,
        rs_wakes := rs_wakes s + (if rw_state (rs_lock s) = 1 then 1 else 0)\<rparr>))"
| "rw_act (RRelease WriteGuard) s =
     (if rs_writers s = 0 then None
      else Some (s\<lparr>rs_lock := (rs_lock s)\<lparr>rw_state := 0\<rparr>,
        rs_writers := rs_writers s - 1, rs_wakes := Suc (rs_wakes s)\<rparr>))"
| "rw_act (RStore v) s =
     (if rs_writers s = 0 then None
      else Some (s\<lparr>rs_lock := guard_deref_mut (rs_lock s) (\<lambda>_. v)\<rparr>))"
| "rw_act RWakeAll s =
     (if rs_wakes s = 0 then None
      else do {
        (l, ws) \<leftarrow> rw_wake_all (rs_lock s);
        Some (s\<lparr>rs_lock := l, rs_wakes := rs_wakes s - 1\<rparr>)
      })"

text \<open>
  The state word cannot tell \<open>2 ^ 64 - 1\<close> readers from a writer, so executions are
  those in which fewer read guards exist at a time.
\<close>

definition rw_step :: "'a rw_sys \<Rightarrow> 'a rw_sys \<Rightarrow> bool" where
  "rw_step s t \<longleftrightarrow> (\<exists>act. rw_act act s = Some t) \<and> rs_readers t < 2 ^ 64 - 1"

abbreviation rw_reach :: "'a \<Rightarrow> 'a rw_sys \<Rightarrow> bool" where
  "rw_reach v \<equiv> reach (\<lambda>s. s = rw_start v) rw_step"

section \<open>The invariant\<close>

definition rw_regs :: "(nat \<Rightarrow> rw_task option) \<Rightarrow> nat \<Rightarrow> nat option" where
  "rw_regs fs i = (case fs i of None \<Rightarrow> None | Some f \<Rightarrow> rt_registration f)"

definition rw_parked :: "wait_queue \<Rightarrow> rw_task \<Rightarrow> bool" where
  "rw_parked q f \<longleftrightarrow> rt_phase f = RIdle \<and> slot_kind q (rt_registration f) = Some Queued"

definition blocked :: "'a rwlock \<Rightarrow> guard \<Rightarrow> bool" where
  "blocked l g \<longleftrightarrow> (case g of ReadGuard \<Rightarrow> rw_state l = WRITER | WriteGuard \<Rightarrow> rw_state l \<noteq> 0)"

definition rw_counts :: "'a rw_sys \<Rightarrow> bool" where
  "rw_counts s \<longleftrightarrow>
     rs_writers s = 0 \<and> unat (rw_state (rs_lock s)) = rs_readers s \<and> rs_readers s < 2 ^ 64 - 1 \<or>
     rs_writers s = 1 \<and> rs_readers s = 0 \<and> rw_state (rs_lock s) = WRITER"

definition rw_awake :: "'a rw_sys \<Rightarrow> bool" where
  "rw_awake s \<longleftrightarrow> (\<forall>i f. rs_futures s i = Some f \<longrightarrow> rw_parked (rw_waiters (rs_lock s)) f \<longrightarrow>
     0 < rs_wakes s \<or> blocked (rs_lock s) (rt_guard f))"

abbreviation rw_owned :: "'a rw_sys \<Rightarrow> bool" where
  "rw_owned s \<equiv> owned (rw_waiters (rs_lock s)) (rw_regs (rs_futures s))"

definition rw_inv :: "'a rw_sys \<Rightarrow> bool" where
  "rw_inv s \<longleftrightarrow> rw_owned s \<and> rw_counts s \<and> rw_awake s"

lemma rw_regs_update [simp]:
  "rw_regs (fs(i \<mapsto> f)) = (rw_regs fs)(i := rt_registration f)"
  "rw_regs (fs(i := None)) = (rw_regs fs)(i := None)"
  "rw_regs (\<lambda>_. None) = (\<lambda>_. None)"
  by (auto simp: rw_regs_def fun_eq_iff)

lemma rw_regs_Some: "fs i = Some f \<Longrightarrow> rw_regs fs i = rt_registration f"
  by (simp add: rw_regs_def)

lemma unat_WRITER: "unat WRITER = 2 ^ 64 - 1"
  by (simp add: WRITER_def usize_max_def unsigned_minus_1_eq_mask mask_eq_exp_minus_1)

lemma rw_countsD:
  assumes "rw_counts s"
  shows "rw_state (rs_lock s) = WRITER \<longleftrightarrow> rs_writers s = 1"
    "rw_state (rs_lock s) = 0 \<longleftrightarrow> rs_writers s = 0 \<and> rs_readers s = 0"
    "rs_writers s \<noteq> 0 \<Longrightarrow> rs_readers s = 0"
  using assms unat_WRITER by (auto simp: rw_counts_def unsigned_eq_0_iff)

text \<open>A try changes the state word and the guards together, or the lock is blocked.\<close>

lemma rw_try_cases:
  obtains "blocked l g" "rw_try g l = (l, False)"
  | st where "\<not> blocked l g" "rw_try g l = (l\<lparr>rw_state := st\<rparr>, True)"
      "st = (case g of ReadGuard \<Rightarrow> rw_state l + 1 | WriteGuard \<Rightarrow> WRITER)"
  by (cases g) (auto simp: blocked_def rw_try_def try_read_raw_def try_write_raw_def split: if_splits)

lemma unat_suc_word: "unat (w :: usize) < 2 ^ 64 - 1 \<Longrightarrow> unat (w + 1) = Suc (unat w)"
  by (simp add: unat_word_ariths)

lemma rw_counts_try:
  assumes c: "rw_counts s" and free: "\<not> blocked (rs_lock s) g"
    and st: "st = (case g of ReadGuard \<Rightarrow> rw_state (rs_lock s) + 1 | WriteGuard \<Rightarrow> WRITER)"
    and t: "rw_state (rs_lock t) = st" "rs_readers t = rs_readers s + (if g = ReadGuard then 1 else 0)"
      "rs_writers t = rs_writers s + (if g = WriteGuard then 1 else 0)" "rs_readers t < 2 ^ 64 - 1"
  shows "rw_counts t"
    and "blocked (rs_lock t) h \<or> \<not> blocked (rs_lock s) h"
proof -
  have "rw_counts t \<and> (blocked (rs_lock t) h \<or> \<not> blocked (rs_lock s) h)"
  proof (cases g)
    case ReadGuard
    then have w: "rs_writers s = 0" "unat (rw_state (rs_lock s)) = rs_readers s"
      using c free unat_WRITER by (auto simp: rw_counts_def blocked_def)
    then have u: "unat st = rs_readers t"
      using t(2,4) st ReadGuard unat_suc_word by simp
    have "st \<noteq> 0"
    proof
      assume "st = 0"
      then have "rs_readers t = 0" using u by simp
      then show False using t(2) ReadGuard by simp
    qed
    moreover have "rw_state (rs_lock s) \<noteq> WRITER"
      using free ReadGuard by (simp add: blocked_def)
    ultimately show ?thesis
      using w u t ReadGuard by (cases h) (auto simp: rw_counts_def blocked_def)
  next
    case WriteGuard
    then have "rw_state (rs_lock s) = 0"
      using free by (simp add: blocked_def)
    moreover from this have "rs_writers s = 0" "rs_readers s = 0"
      using rw_countsD(2) [OF c] by auto
    moreover have "WRITER \<noteq> 0"
      by (simp add: WRITER_def usize_max_def)
    ultimately show ?thesis
      using t st WriteGuard by (cases h) (auto simp: rw_counts_def blocked_def)
  qed
  then show "rw_counts t" "blocked (rs_lock t) h \<or> \<not> blocked (rs_lock s) h" by blast+
qed

lemma rw_awake_update:
  assumes "rw_awake s" "rs_wakes s \<le> rs_wakes t"
    and "\<And>j f. rs_futures t j = Some f \<Longrightarrow> rw_parked (rw_waiters (rs_lock t)) f \<Longrightarrow>
      rs_futures s j = Some f \<and> rw_parked (rw_waiters (rs_lock s)) f"
    and "\<And>g. rs_wakes s = rs_wakes t \<Longrightarrow> blocked (rs_lock s) g \<Longrightarrow> blocked (rs_lock t) g"
  shows "rw_awake t"
  unfolding rw_awake_def
proof (intro allI impI)
  fix j f
  assume "rs_futures t j = Some f" "rw_parked (rw_waiters (rs_lock t)) f"
  then have "0 < rs_wakes s \<or> blocked (rs_lock s) (rt_guard f)"
    using assms(1,3) unfolding rw_awake_def by blast
  then show "0 < rs_wakes t \<or> blocked (rs_lock t) (rt_guard f)"
    using assms(2,4) by (cases "rs_wakes s = rs_wakes t") auto
qed

lemma blocked_frame [simp]:
  "blocked (l\<lparr>rw_waiters := q\<rparr>) g = blocked l g" "blocked (l\<lparr>rw_value := v\<rparr>) g = blocked l g"
  by (cases g; simp add: blocked_def)+

lemma rw_attempt_inv:
  assumes inv: "rw_inv s" and i: "rs_futures s i = Some f"
    and t: "t = rw_attempt i f p s" and bound: "rs_readers t < 2 ^ 64 - 1"
  shows "rw_inv t"
proof (rule rw_try_cases [where l = "rs_lock s" and g = "rt_guard f"])
  assume 1: "blocked (rs_lock s) (rt_guard f)" "rw_try (rt_guard f) (rs_lock s) = (rs_lock s, False)"
  then have t': "t = s\<lparr>rs_futures := (rs_futures s)(i \<mapsto> f\<lparr>rt_phase := p\<rparr>)\<rparr>"
    using t by (simp add: rw_attempt_def)
  have "rw_awake t"
    using inv t' 1(1) by (auto simp: rw_inv_def rw_awake_def)
  moreover have "rw_regs ((rs_futures s)(i \<mapsto> f\<lparr>rt_phase := p\<rparr>)) = rw_regs (rs_futures s)"
    using i by (auto simp: rw_regs_def fun_eq_iff)
  ultimately show ?thesis
    using inv t' by (simp add: rw_inv_def rw_counts_def del: rw_regs_update)
next
  fix st
  assume 2: "\<not> blocked (rs_lock s) (rt_guard f)"
    "rw_try (rt_guard f) (rs_lock s) = ((rs_lock s)\<lparr>rw_state := st\<rparr>, True)"
    "st = (case rt_guard f of ReadGuard \<Rightarrow> rw_state (rs_lock s) + 1 | WriteGuard \<Rightarrow> WRITER)"
  let ?fs = "(rs_futures s)(i \<mapsto> f\<lparr>rt_phase := RTook\<rparr>)"
  have t': "rs_futures t = ?fs" "rs_wakes t = rs_wakes s" "rs_lock t = (rs_lock s)\<lparr>rw_state := st\<rparr>"
    "rs_readers t = rs_readers s + (if rt_guard f = ReadGuard then 1 else 0)"
    "rs_writers t = rs_writers s + (if rt_guard f = WriteGuard then 1 else 0)"
    using t 2 by (cases "rt_guard f"; simp add: rw_attempt_def count_guard_def)+
  have counts: "rw_counts s" "rw_state (rs_lock t) = st"
    using inv t'(3) by (auto simp: rw_inv_def)
  note tried = rw_counts_try [OF counts(1) 2(1,3) counts(2) t'(4,5) bound]
  have "rw_regs ?fs = rw_regs (rs_futures s)"
    using i by (auto simp: rw_regs_def fun_eq_iff)
  moreover have "rw_awake t"
    by (rule rw_awake_update [of s])
      (use inv tried(2) t' in \<open>auto simp: rw_inv_def rw_parked_def split: if_splits\<close>)
  ultimately show ?thesis
    using inv tried(1) t' by (simp add: rw_inv_def del: rw_regs_update)
qed

lemma rw_remove_inv:
  assumes inv: "rw_inv s" and i: "rs_futures s i = Some f" and t: "rw_remove i f s = Some t"
  shows "rw_inv t"
proof -
  let ?q = "rw_waiters (rs_lock s)"
  obtain q reg k where r: "waiters_remove ?q (rt_registration f) = Some (q, reg, k)"
    and t': "t = s\<lparr>rs_lock := (rs_lock s)\<lparr>rw_waiters := q\<rparr>, rs_futures := (rs_futures s)(i := None)\<rparr>"
    using t by (auto simp: rw_remove_def bind_eq_Some_conv)
  have own: "owned ?q (rw_regs (rs_futures s))"
    using inv by (simp add: rw_inv_def)
  have r': "waiters_remove ?q (rw_regs (rs_futures s) i) = Some (q, reg, k)"
    using r i by (simp add: rw_regs_Some)
  have "rw_awake t"
  proof (rule rw_awake_update [of s])
    fix j g
    assume "rs_futures t j = Some g" and p: "rw_parked (rw_waiters (rs_lock t)) g"
    then have j: "j \<noteq> i" "rs_futures s j = Some g"
      using t' by (auto split: if_splits)
    then show "rs_futures s j = Some g \<and> rw_parked (rw_waiters (rs_lock s)) g"
      using family_remove(3) [OF own r' j(1)] p t' by (simp add: rw_parked_def rw_regs_Some)
  qed (use inv t' in \<open>simp_all add: rw_inv_def\<close>)
  then show ?thesis
    using inv t' owned_waiters(2) [OF own r'] by (simp add: rw_inv_def rw_counts_def)
qed

lemma rw_register_inv:
  assumes inv: "rw_inv s" and i: "rs_futures s i = Some f"
    and r: "waiters_register (rw_waiters (rs_lock s)) (rt_registration f) wk = Some (q, reg)"
    and t: "t = s\<lparr>rs_lock := (rs_lock s)\<lparr>rw_waiters := q\<rparr>, rs_futures := (rs_futures s)
      (i \<mapsto> f\<lparr>rt_registration := reg, rt_phase := RRegistered\<rparr>)\<rparr>"
  shows "rw_inv t"
proof -
  let ?q = "rw_waiters (rs_lock s)"
  have own: "owned ?q (rw_regs (rs_futures s))"
    using inv by (simp add: rw_inv_def)
  have r': "waiters_register ?q (rw_regs (rs_futures s) i) wk = Some (q, reg)"
    using r i by (simp add: rw_regs_Some)
  have "rw_awake t"
  proof (rule rw_awake_update [of s])
    fix j g
    assume g: "rs_futures t j = Some g" and p: "rw_parked (rw_waiters (rs_lock t)) g"
    then have j: "j \<noteq> i"
      using t by (auto simp: rw_parked_def)
    moreover from this have "rs_futures s j = Some g"
      using g t by simp
    ultimately show "rs_futures s j = Some g \<and> rw_parked (rw_waiters (rs_lock s)) g"
      using family_register(2) [OF own r' j] p t by (simp add: rw_parked_def rw_regs_Some)
  qed (use inv t in \<open>simp_all add: rw_inv_def\<close>)
  then show ?thesis
    using inv t owned_waiters(1) [OF own r'] by (simp add: rw_inv_def rw_counts_def)
qed

lemma rw_release_inv:
  assumes inv: "rw_inv s" and t: "rw_act (RRelease g) s = Some t"
  shows "rw_inv t"
proof (cases g)
  case ReadGuard
  then have r: "rs_readers s \<noteq> 0" and t': "t = s\<lparr>rs_lock := (rs_lock s)\<lparr>rw_state := rw_state (rs_lock s) - 1\<rparr>,
        rs_readers := rs_readers s - 1,
        rs_wakes := rs_wakes s + (if rw_state (rs_lock s) = 1 then 1 else 0)\<rparr>"
    using t by (auto split: if_splits)
  have w: "rs_writers s = 0" "unat (rw_state (rs_lock s)) = rs_readers s" "rs_readers s < 2 ^ 64 - 1"
    using inv r by (auto simp: rw_inv_def rw_counts_def)
  then have nz: "rw_state (rs_lock s) \<noteq> 0" and nw: "rw_state (rs_lock s) \<noteq> WRITER"
    using r unat_WRITER by (auto simp: unsigned_eq_0_iff)
  then have u: "unat (rw_state (rs_lock s) - 1) = rs_readers s - 1"
    using w(2) by (simp add: unat_minus_one)
  have "rw_counts t"
    using t' w u by (simp add: rw_counts_def)
  moreover have "rw_awake t"
  proof (rule rw_awake_update [of s])
    show "blocked (rs_lock t) g" if "rs_wakes s = rs_wakes t" "blocked (rs_lock s) g" for g
      using that t' nw by (cases g) (auto simp: blocked_def split: if_splits)
  qed (use inv t' in \<open>simp_all add: rw_inv_def\<close>)
  ultimately show ?thesis
    using inv t' by (simp add: rw_inv_def)
next
  case WriteGuard
  then have r: "rs_writers s \<noteq> 0" and t': "t = s\<lparr>rs_lock := (rs_lock s)\<lparr>rw_state := 0\<rparr>,
        rs_writers := rs_writers s - 1, rs_wakes := Suc (rs_wakes s)\<rparr>"
    using t by (auto split: if_splits)
  have "rw_counts t"
    using t' inv r by (auto simp: rw_inv_def rw_counts_def)
  then show ?thesis
    using inv t' by (auto simp: rw_inv_def rw_awake_def)
qed

lemma rw_wake_inv:
  assumes inv: "rw_inv s" and t: "rw_act RWakeAll s = Some t"
  shows "rw_inv t"
proof -
  obtain q ws where q: "waiters_wake_all (rw_waiters (rs_lock s)) = Some (q, ws)"
    and t': "t = s\<lparr>rs_lock := (rs_lock s)\<lparr>rw_waiters := q\<rparr>, rs_wakes := rs_wakes s - 1\<rparr>"
    using t by (auto simp: rw_wake_all_def bind_eq_Some_conv split: if_splits)
  have own: "rw_owned s"
    using inv by (simp add: rw_inv_def)
  have "\<not> rw_parked q f" if "rs_futures s i = Some f" for i f
    using family_wake_all [OF own q, of i] that by (simp add: rw_parked_def rw_regs_def)
  then show ?thesis
    using inv t' owned_waiters(4) [OF own q] by (auto simp: rw_inv_def rw_awake_def rw_counts_def)
qed

lemma rw_try_inv:
  assumes inv: "rw_inv s" and t: "rw_act (RTry g) s = Some t" and bound: "rs_readers t < 2 ^ 64 - 1"
  shows "rw_inv t"
proof (rule rw_try_cases [where l = "rs_lock s" and g = g])
  assume "rw_try g (rs_lock s) = (rs_lock s, False)"
  then show ?thesis using t by simp
next
  fix st
  assume 2: "\<not> blocked (rs_lock s) g" "rw_try g (rs_lock s) = ((rs_lock s)\<lparr>rw_state := st\<rparr>, True)"
    "st = (case g of ReadGuard \<Rightarrow> rw_state (rs_lock s) + 1 | WriteGuard \<Rightarrow> WRITER)"
  have t': "rs_futures t = rs_futures s" "rs_wakes t = rs_wakes s" "rs_lock t = (rs_lock s)\<lparr>rw_state := st\<rparr>"
    "rs_readers t = rs_readers s + (if g = ReadGuard then 1 else 0)"
    "rs_writers t = rs_writers s + (if g = WriteGuard then 1 else 0)"
    using t 2 by (cases g; auto simp: count_guard_def)+
  have counts: "rw_counts s" "rw_state (rs_lock t) = st"
    using inv t'(3) by (auto simp: rw_inv_def)
  note tried = rw_counts_try [OF counts(1) 2(1,3) counts(2) t'(4,5) bound]
  have "rw_awake t"
  proof (rule rw_awake_update [of s])
    show "blocked (rs_lock t) h" if "blocked (rs_lock s) h" for h
      using tried(2) [of h] that by blast
  qed (use inv t'(1-3) in \<open>simp_all add: rw_inv_def\<close>)
  then show ?thesis
    using inv tried(1) t' by (simp add: rw_inv_def)
qed

lemma rw_act_inv:
  assumes inv: "rw_inv s" and t: "rw_act act s = Some t" and bound: "rs_readers t < 2 ^ 64 - 1"
  shows "rw_inv t"
proof (cases act)
  case (RCreate i g)
  then have i: "rs_futures s i = None" and t': "t = s\<lparr>rs_futures := (rs_futures s)
        (i \<mapsto> \<lparr>rt_guard = g, rt_registration = None, rt_phase = RIdle\<rparr>)\<rparr>"
    using t by (auto split: if_splits)
  have "(rw_regs (rs_futures s))(i := None) = rw_regs (rs_futures s)"
    using i by (auto simp: rw_regs_def fun_eq_iff)
  then show ?thesis
    using inv t' by (auto simp: rw_inv_def rw_counts_def rw_awake_def rw_parked_def)
next
  case (RTryFirst i)
  then show ?thesis
    using t rw_attempt_inv [OF inv _ _ bound] by (auto split: option.splits if_splits)
next
  case (RRegister i wk)
  then show ?thesis
    using t rw_register_inv [OF inv] by (auto simp: bind_eq_Some_conv split: option.splits if_splits)
next
  case (RTrySecond i)
  then show ?thesis
    using t rw_attempt_inv [OF inv _ _ bound] by (auto split: option.splits if_splits)
next
  case (RUnregister i)
  then show ?thesis
    using t rw_remove_inv [OF inv] by (auto split: option.splits if_splits)
next
  case (RDrop i)
  then show ?thesis
    using t rw_remove_inv [OF inv] by (auto split: option.splits if_splits)
next
  case (RStore v)
  then have t': "t = s\<lparr>rs_lock := (rs_lock s)\<lparr>rw_value := v\<rparr>\<rparr>"
    using t by (simp add: guard_deref_mut_def split: if_splits)
  have "rw_awake t"
    by (rule rw_awake_update [of s]) (use inv t' in \<open>simp_all add: rw_inv_def\<close>)
  then show ?thesis
    using t' inv by (simp add: rw_inv_def rw_counts_def)
qed (use t bound rw_release_inv [OF inv] rw_wake_inv [OF inv] rw_try_inv [OF inv _ bound] in blast)+

interpretation rw: invariant_system "\<lambda>s. s = rw_start v" rw_step rw_inv for v
proof unfold_locales
  show "rw_inv s" if "s = rw_start v" for s
    using that by (simp add: rw_inv_def rw_start_def rwlock_new_def owned_new rw_counts_def rw_awake_def)
  show "rw_inv t" if "rw_inv s" "rw_step s t" for s t
    using that rw_act_inv by (auto simp: rw_step_def)
qed

section \<open>Whole polls\<close>

definition rw_future_poll ::
  "guard \<Rightarrow> 'a rwlock \<Rightarrow> rw_future \<Rightarrow> waker \<Rightarrow> ('a rwlock \<times> rw_future \<times> guard poll) option" where
  "rw_future_poll g = (case g of ReadGuard \<Rightarrow> read_poll | WriteGuard \<Rightarrow> write_poll)"

definition rw_owned_poll ::
  "guard \<Rightarrow> 'a rwlock \<Rightarrow> rw_owned_future \<Rightarrow> waker \<Rightarrow> ('a rwlock \<times> rw_owned_future \<times> guard poll) option" where
  "rw_owned_poll g = (case g of ReadGuard \<Rightarrow> read_owned_poll | WriteGuard \<Rightarrow> write_owned_poll)"

primrec rw_run :: "'a rw_action list \<Rightarrow> 'a rw_sys \<Rightarrow> 'a rw_sys option" where
  "rw_run [] s = Some s"
| "rw_run (a # as) s = do { s \<leftarrow> rw_act a s; rw_run as s }"

text \<open>
  The owned futures poll and drop as the borrowing ones do, and panic when they are
  polled after completion.
\<close>

lemma rw_owned_poll_eq:
  "rw_owned_poll g l f wk =
     (if ro_lock f
      then map_option (\<lambda>(l', f', r). (l', \<lparr>ro_lock = (r = Pending), ro_registration = rf_registration f'\<rparr>, r))
        (rw_future_poll g l \<lparr>rf_registration = ro_registration f\<rparr> wk)
      else None)"
  by (cases g) (auto simp: rw_owned_poll_def rw_future_poll_def read_owned_poll_def read_poll_def
      write_owned_poll_def write_poll_def Let_def split: prod.splits bind_splits)

lemma rw_owned_drop_eq:
  "rw_owned_drop l f =
     (if ro_lock f then rw_future_drop l \<lparr>rf_registration = ro_registration f\<rparr> else Some l)"
  by (simp add: rw_owned_drop_def rw_future_drop_def)

lemma rw_future_poll_outcome:
  assumes inv: "rw_inv s" and i: "rs_futures s i = Some f" "rt_phase f = RIdle"
  shows "\<exists>t r. rw_run (if blocked (rs_lock s) (rt_guard f) then [RTryFirst i, RRegister i wk, RTrySecond i]
        else [RTryFirst i, RUnregister i]) s = Some t \<and>
    rw_future_poll (rt_guard f) (rs_lock s) \<lparr>rf_registration = rt_registration f\<rparr> wk =
      Some (rs_lock t, \<lparr>rf_registration = rw_regs (rs_futures t) i\<rparr>, r) \<and>
    (if blocked (rs_lock s) (rt_guard f)
     then r = Pending \<and> (\<exists>u. rw_regs (rs_futures t) i = Some u \<and>
       info (rw_waiters (rs_lock t)) u = Some (Queued, Some wk))
     else r = Ready (rt_guard f) \<and> rs_futures t i = None)"
proof -
  let ?q = "rw_waiters (rs_lock s)"
  have own: "rw_owned s"
    using inv by (simp add: rw_inv_def)
  have qinv: "wq_inv ?q" and live: "token_live ?q (rt_registration f)"
    using ownedD(1) [OF own] ownedD(2) [OF own, of i] i by (auto simp: rw_regs_Some)
  show ?thesis
  proof (cases "blocked (rs_lock s) (rt_guard f)")
    case True
    obtain q' u where "waiters_register ?q (rt_registration f) wk = Some (q', Some u)"
      "info q' = (info ?q)(u \<mapsto> (Queued, Some wk))"
      using waiters_register_spec [OF qinv live] by blast
    then show ?thesis
      using True i by (cases "rt_guard f") (auto simp: blocked_def rw_future_poll_def read_poll_def
          write_poll_def rw_attempt_def rw_try_def try_read_raw_def try_write_raw_def)
  next
    case False
    obtain q' k where "waiters_remove ?q (rt_registration f) = Some (q', None, k)"
      using waiters_remove_spec [OF qinv live] by blast
    then show ?thesis
      using False i by (cases "rt_guard f") (auto simp: blocked_def rw_future_poll_def read_poll_def
          write_poll_def rw_attempt_def rw_try_def try_read_raw_def try_write_raw_def rw_remove_def
          count_guard_def)
  qed
qed

section \<open>Properties\<close>

text \<open>
  C6: a writer excludes everybody. In every reachable state there is at most one
  write guard and never one beside a read guard, and the state word says which
  guards exist (so \<open>Debug\<close> prints the truth).
\<close>

theorem rwlock_exclusion:
  assumes "rw_reach v s"
  shows "rs_writers s \<le> 1 \<and> (rs_writers s = 0 \<or> rs_readers s = 0) \<and>
    held_name (rs_lock s) =
      (if rs_writers s = 1 then ''write'' else if rs_readers s = 0 then ''free'' else ''read'') \<and>
    (rs_writers s = 0 \<longrightarrow> unat (rw_state (rs_lock s)) = rs_readers s)"
proof -
  have c: "rw_counts s"
    using rw.reach_inv [OF assms] by (simp add: rw_inv_def)
  then have "rs_writers s \<le> 1" "rs_writers s = 0 \<longrightarrow> unat (rw_state (rs_lock s)) = rs_readers s"
    by (auto simp: rw_counts_def)
  then show ?thesis
    using rw_countsD [OF c] by (auto simp: held_name_def)
qed

text \<open>
  what a reader sees does not move: while a read guard exists, no step of any
  task changes the value behind the lock.
\<close>

theorem rwlock_reader_stable:
  assumes "rw_reach v s" "rw_step s t" "0 < rs_readers s"
  shows "guard_deref (rs_lock t) = guard_deref (rs_lock s)"
proof -
  obtain act where act: "rw_act act s = Some t"
    using assms(2) by (auto simp: rw_step_def)
  have w: "rs_writers s = 0"
    using rw.reach_inv [OF assms(1)] assms(3) rw_countsD(3) [of s] by (auto simp: rw_inv_def)
  have raw: "rw_value (fst (rw_try g (rs_lock s))) = rw_value (rs_lock s)" for g
    by (cases g) (simp_all add: rw_try_def try_read_raw_def try_write_raw_def)
  show ?thesis
  proof (cases act)
    case (RRelease g)
    then show ?thesis using act w by (cases g) (auto simp: guard_deref_def split: if_splits)
  next
    case (RTry g)
    then show ?thesis
      using act raw [of g] by (cases g) (auto simp: guard_deref_def count_guard_def
          split: prod.splits bool.splits)
  next
    case (RTryFirst i)
    then show ?thesis
      using act raw by (auto simp: guard_deref_def rw_attempt_def count_guard_def
          split: option.splits if_splits prod.splits bool.splits guard.splits) (metis fst_conv)+
  next
    case (RTrySecond i)
    then show ?thesis
      using act raw by (auto simp: guard_deref_def rw_attempt_def count_guard_def
          split: option.splits if_splits prod.splits bool.splits guard.splits) (metis fst_conv)+
  qed (use act w in \<open>auto simp: guard_deref_def rw_remove_def rw_wake_all_def bind_eq_Some_conv
        split: option.splits if_splits\<close>)
qed

text \<open>
  C7: no waiter sleeps beside a lock it could take. A future that is parked in the
  queue is blocked (a reader by a writer, a writer by any guard), or a release has
  happened whose \<open>wake_all\<close> is still to run.
\<close>

theorem rwlock_no_lost_wakeup:
  assumes "rw_reach v s" "rs_futures s i = Some f" "rw_parked (rw_waiters (rs_lock s)) f"
  shows "0 < rs_wakes s \<or> rs_writers s = 1 \<or> (rt_guard f = WriteGuard \<and> 0 < rs_readers s)"
proof -
  have inv: "rw_inv s"
    using rw.reach_inv [OF assms(1)] .
  then have c: "rw_counts s" and "0 < rs_wakes s \<or> blocked (rs_lock s) (rt_guard f)"
    using assms(2,3) by (auto simp: rw_inv_def rw_awake_def)
  then show ?thesis
    using rw_countsD(1,2) [OF c] c by (cases "rt_guard f") (auto simp: blocked_def rw_counts_def)
qed

text \<open>
  a poll of any of the four futures never panics before completion and is the
  sequence of atomic operations of the interleaved model: it returns the guard it
  waits for when the lock is free for it, and otherwise stays pending with its own
  waker in a queued slot. An owned future that completed panics on another poll.
\<close>

theorem rwlock_poll:
  assumes "rw_reach v s" "rs_futures s i = Some f" "rt_phase f = RIdle"
  shows "\<exists>t r. rw_run (if blocked (rs_lock s) (rt_guard f) then [RTryFirst i, RRegister i wk, RTrySecond i]
        else [RTryFirst i, RUnregister i]) s = Some t \<and>
    rw_future_poll (rt_guard f) (rs_lock s) \<lparr>rf_registration = rt_registration f\<rparr> wk =
      Some (rs_lock t, \<lparr>rf_registration = rw_regs (rs_futures t) i\<rparr>, r) \<and>
    rw_owned_poll (rt_guard f) (rs_lock s) \<lparr>ro_lock = True, ro_registration = rt_registration f\<rparr> wk =
      Some (rs_lock t, \<lparr>ro_lock = (r = Pending), ro_registration = rw_regs (rs_futures t) i\<rparr>, r) \<and>
    rw_owned_poll (rt_guard f) (rs_lock s) \<lparr>ro_lock = False, ro_registration = None\<rparr> wk = None \<and>
    (if blocked (rs_lock s) (rt_guard f)
     then r = Pending \<and> (\<exists>u. rw_regs (rs_futures t) i = Some u \<and>
       info (rw_waiters (rs_lock t)) u = Some (Queued, Some wk))
     else r = Ready (rt_guard f) \<and> rs_futures t i = None)"
  using rw_future_poll_outcome [OF rw.reach_inv [OF assms(1)] assms(2,3), of wk]
  by (elim exE conjE, intro exI conjI) (assumption | simp add: rw_owned_poll_eq)+

section \<open>A concrete run\<close>

text \<open>A read guard is taken, and a writer parks.\<close>

definition rw_run1 :: "nat rw_sys" where
  "rw_run1 = (rw_start 7)\<lparr>rs_lock := (rwlock_new 7)\<lparr>rw_state := 1\<rparr>, rs_readers := 1\<rparr>"

definition rw_run3 :: "nat rw_sys" where
  "rw_run3 = rw_run1\<lparr>rs_futures := [0 \<mapsto> \<lparr>rt_guard = WriteGuard, rt_registration = Some 0, rt_phase = RIdle\<rparr>],
     rs_lock := (rs_lock rw_run1)\<lparr>rw_waiters := \<lparr>q_slots =
       [Live \<lparr>w_previous = None, w_next = None, w_kind = Queued, w_waker = Some 10\<rparr>],
     q_free = None, q_head = Some 0, q_tail = Some 0\<rparr>\<rparr>\<rparr>"

lemma rw_act_readers: "rw_act act s = Some t \<Longrightarrow> rs_readers t \<le> Suc (rs_readers s)"
  by (cases "(act, s)" rule: rw_act.cases)
    (auto simp: rw_attempt_def count_guard_def rw_remove_def bind_eq_Some_conv
      split: option.splits if_splits prod.splits bool.splits guard.splits)

lemma rw_run_reach:
  "rw_reach v s \<Longrightarrow> rw_run as s = Some t \<Longrightarrow> rs_readers s + length as < 2 ^ 64 - 1 \<Longrightarrow> rw_reach v t"
proof (induction as arbitrary: s)
  case (Cons a as)
  then obtain u where u: "rw_act a s = Some u" "rw_run as u = Some t"
    by (auto simp: bind_eq_Some_conv)
  then have "rw_step s u" "rs_readers u + length as < 2 ^ 64 - 1"
    using Cons.prems(3) rw_act_readers [OF u(1)] by (auto simp: rw_step_def)
  then show ?case
    using Cons.IH [of u] u(2) reach.reach_step [OF Cons.prems(1)] by blast
qed simp

lemma rw_run3_run:
  "rw_run [RTry ReadGuard, RCreate 0 WriteGuard, RTryFirst 0, RRegister 0 10, RTrySecond 0] (rw_start 7) =
   Some rw_run3"
  by (simp add: rw_run3_def rw_run1_def rw_start_def rwlock_new_def rw_attempt_def rw_try_def
      try_read_raw_def try_write_raw_def count_guard_def WRITER_def usize_max_def
      waiters_register_def wq_register_def wq_alloc_def wq_new_def wq_enqueue_def wq_get_mut_def wq_get_def)

lemma rw_run3_reach: "rw_reach 7 rw_run3"
  by (rule rw_run_reach [OF _ rw_run3_run], rule reach.reach_init) (simp_all add: rw_start_def)

lemma rw_run3_future:
  "rs_futures rw_run3 0 = Some \<lparr>rt_guard = WriteGuard, rt_registration = Some 0, rt_phase = RIdle\<rparr>"
  by (simp add: rw_run3_def)

theorem rwlock_exclusion_witness: "rs_writers rw_run3 \<le> 1 \<and> held_name (rs_lock rw_run3) = ''read''"
  using rwlock_exclusion [OF rw_run3_reach] by (auto simp: rw_run3_def rw_run1_def rw_start_def)

theorem rwlock_reader_stable_witness:
  "\<exists>t. rw_step rw_run3 t \<and> 0 < rs_readers rw_run3 \<and> guard_deref (rs_lock t) = 7"
proof -
  let ?t = "rw_run3\<lparr>rs_lock := (rs_lock rw_run3)\<lparr>rw_state := 2\<rparr>, rs_readers := 2\<rparr>"
  have "rw_act (RTry ReadGuard) rw_run3 = Some ?t"
    by (simp add: rw_run3_def rw_run1_def rw_start_def rw_try_def try_read_raw_def rwlock_new_def
        WRITER_def usize_max_def count_guard_def)
  then have step: "rw_step rw_run3 ?t"
    unfolding rw_step_def by (intro conjI exI) (assumption, simp)
  have pos: "0 < rs_readers rw_run3"
    by (simp add: rw_run3_def rw_run1_def)
  show ?thesis
    using rwlock_reader_stable [OF rw_run3_reach step pos] step pos
    by (auto simp: guard_deref_def rw_run3_def rw_run1_def rwlock_new_def)
qed

theorem rwlock_no_lost_wakeup_witness:
  "rw_parked (rw_waiters (rs_lock rw_run3)) \<lparr>rt_guard = WriteGuard, rt_registration = Some 0, rt_phase = RIdle\<rparr> \<and>
   (0 < rs_wakes rw_run3 \<or> rs_writers rw_run3 = 1 \<or> 0 < rs_readers rw_run3)"
proof -
  have "rw_parked (rw_waiters (rs_lock rw_run3)) \<lparr>rt_guard = WriteGuard, rt_registration = Some 0, rt_phase = RIdle\<rparr>"
    by (simp add: rw_parked_def rw_run3_def slot_kind_def info_def wq_get_def)
  then show ?thesis
    using rwlock_no_lost_wakeup [OF rw_run3_reach rw_run3_future] by auto
qed

theorem rwlock_poll_witness:
  "\<exists>l f. rw_future_poll WriteGuard (rs_lock rw_run3) \<lparr>rf_registration = Some 0\<rparr> 11 = Some (l, f, Pending)"
proof -
  have "blocked (rs_lock rw_run3) WriteGuard"
    by (simp add: blocked_def rw_run3_def rw_run1_def)
  then show ?thesis
    using rwlock_poll [OF rw_run3_reach rw_run3_future, of 11] by auto
qed

end
