(* ===== verification/Io.thy ===== *)
theory Io
  imports Prelude
begin

text \<open>
  The input and output traits of \<open>src/src/io.rs\<close>: the errors of files and of
  streams with their conversions, the provided methods of \<open>Read\<close>, \<open>Write\<close>, \<open>Seek\<close>
  and \<open>Stream\<close>, and the implementors the file contains: \<open>HostFile\<close> and \<open>Compat\<close>
  over any lawful reader or writer, and the in-memory \<open>Ram\<close> and \<open>Pair\<close>.

  A trait is a locale: its required methods are the parameters, what its
  documentation promises of them are the assumptions, and the provided methods are
  proved correct once inside it. A buffer that a call fills is passed in and comes
  back with the bytes written to it. The futures of this file never suspend, except
  where the implementor does, so awaiting one is calling it; a panic is \<open>None\<close>.
\<close>

type_synonym u8 = "8 word"

section \<open>Errors\<close>

datatype error_kind = NotFound | PermissionDenied | UnexpectedEof | WriteZero | Interrupted | Other

datatype io_error = Error (kind: error_kind)

text \<open>
  \<open>std::io::ErrorKind\<close>: the kinds the conversion names, and every other one with
  its number.
\<close>

datatype std_kind = StdNotFound | StdPermissionDenied | StdUnexpectedEof | StdWriteZero | StdInterrupted
  | StdOther | StdKind nat

fun from_std_error :: "std_kind \<Rightarrow> io_error" where
  "from_std_error StdNotFound = Error NotFound"
| "from_std_error StdPermissionDenied = Error PermissionDenied"
| "from_std_error StdUnexpectedEof = Error UnexpectedEof"
| "from_std_error StdWriteZero = Error WriteZero"
| "from_std_error StdInterrupted = Error Interrupted"
| "from_std_error _ = Error Other"

fun to_std_error :: "io_error \<Rightarrow> std_kind" where
  "to_std_error (Error NotFound) = StdNotFound"
| "to_std_error (Error PermissionDenied) = StdPermissionDenied"
| "to_std_error (Error UnexpectedEof) = StdUnexpectedEof"
| "to_std_error (Error WriteZero) = StdWriteZero"
| "to_std_error (Error Interrupted) = StdInterrupted"
| "to_std_error (Error Other) = StdOther"

lemma from_to_std [simp]: "from_std_error (to_std_error e) = e"
  by (cases e rule: to_std_error.cases) simp_all

fun error_text :: "io_error \<Rightarrow> string" where
  "error_text (Error NotFound) = ''no such file''"
| "error_text (Error PermissionDenied) = ''permission denied''"
| "error_text (Error UnexpectedEof) = ''unexpected end of file''"
| "error_text (Error WriteZero) = ''the destination accepted no bytes''"
| "error_text (Error Interrupted) = ''interrupted''"
| "error_text (Error Other) = ''file operation failed''"

text \<open>A stream reports the platform's number; \<open>StreamError\<close> is that \<open>i32\<close>.\<close>

type_synonym errno = int

definition WOULD_BLOCK :: "bool \<Rightarrow> errno" where
  "WOULD_BLOCK linux = (if linux then 11 else 35)"

definition INTERRUPTED :: errno where
  "INTERRUPTED = 4"

definition UNEXPECTED_EOF :: errno where
  "UNEXPECTED_EOF = 32"

definition would_block :: "errno \<Rightarrow> bool" where
  "would_block e \<longleftrightarrow> e = 11 \<or> e = 35"

definition interrupted :: "errno \<Rightarrow> bool" where
  "interrupted e \<longleftrightarrow> e = INTERRUPTED"

definition io_interrupted :: "io_error \<Rightarrow> bool" where
  "io_interrupted e \<longleftrightarrow> kind e = Interrupted"

lemma error_classes [simp]:
  "would_block (WOULD_BLOCK linux)" "interrupted INTERRUPTED"
  "would_block e \<Longrightarrow> \<not> interrupted e" "\<not> interrupted UNEXPECTED_EOF" "\<not> would_block UNEXPECTED_EOF"
  by (auto simp: would_block_def WOULD_BLOCK_def interrupted_def INTERRUPTED_def UNEXPECTED_EOF_def)

section \<open>The provided methods\<close>

text \<open>
  The loop of \<open>Read::read_exact\<close> and of \<open>Stream::read_exact\<close>, which differ in the
  test for a retry and in the error for an early end. \<open>buf\<close> is the caller's buffer;
  each call of \<open>read\<close> is given the part from \<open>filled\<close> on.
\<close>

partial_function (option) fill_loop ::
  "('s \<Rightarrow> u8 list \<Rightarrow> ('s \<times> u8 list \<times> ('e + nat)) option) \<Rightarrow> ('e \<Rightarrow> bool) \<Rightarrow> 'e \<Rightarrow>
   's \<Rightarrow> u8 list \<Rightarrow> nat \<Rightarrow> ('s \<times> u8 list \<times> ('e + unit)) option" where
  "fill_loop read retry eof s buf filled =
     (if filled < length buf
      then Option.bind (read s (drop filled buf)) (\<lambda>(s', part, r).
        (case r of
           Inr n \<Rightarrow> if n = 0 then Some (s', take filled buf @ part, Inl eof)
                    else fill_loop read retry eof s' (take filled buf @ part) (filled + n)
         | Inl e \<Rightarrow> if retry e then fill_loop read retry eof s' (take filled buf @ part) filled
                    else Some (s', take filled buf @ part, Inl e)))
      else Some (s, buf, Inr ()))"

definition read_exact ::
  "('s \<Rightarrow> u8 list \<Rightarrow> ('s \<times> u8 list \<times> (io_error + nat)) option) \<Rightarrow>
   's \<Rightarrow> u8 list \<Rightarrow> ('s \<times> u8 list \<times> (io_error + unit)) option" where
  "read_exact read s buf = fill_loop read io_interrupted (Error UnexpectedEof) s buf 0"

definition stream_read_exact ::
  "('s \<Rightarrow> u8 list \<Rightarrow> ('s \<times> u8 list \<times> (errno + nat)) option) \<Rightarrow>
   's \<Rightarrow> u8 list \<Rightarrow> ('s \<times> u8 list \<times> (errno + unit)) option" where
  "stream_read_exact read s buf = fill_loop read interrupted UNEXPECTED_EOF s buf 0"

definition CHUNK :: nat where
  "CHUNK = 8192"

text \<open>
  The loop of \<open>read_to_end\<close>. The vector is extended by a chunk of zeros, read into,
  and cut back to what arrived.
\<close>

partial_function (option) read_to_end_loop ::
  "('s \<Rightarrow> u8 list \<Rightarrow> ('s \<times> u8 list \<times> (io_error + nat)) option) \<Rightarrow> nat \<Rightarrow>
   's \<Rightarrow> u8 list \<Rightarrow> ('s \<times> u8 list \<times> (io_error + nat)) option" where
  "read_to_end_loop read start s buf =
     (let filled = length buf; resized = buf @ replicate CHUNK 0 in
      Option.bind (read s (drop filled resized)) (\<lambda>(s', part, r).
        (let back = take filled resized @ part in
         case r of
           Inr n \<Rightarrow> if n = 0 then Some (s', take filled back, Inr (filled - start))
                    else read_to_end_loop read start s' (take (filled + n) back)
         | Inl e \<Rightarrow> if io_interrupted e then read_to_end_loop read start s' (take filled back)
                    else Some (s', take filled back, Inl e))))"

definition read_to_end ::
  "('s \<Rightarrow> u8 list \<Rightarrow> ('s \<times> u8 list \<times> (io_error + nat)) option) \<Rightarrow>
   's \<Rightarrow> u8 list \<Rightarrow> ('s \<times> u8 list \<times> (io_error + nat)) option" where
  "read_to_end read s buf = read_to_end_loop read (length buf) s buf"

partial_function (option) write_all_loop ::
  "('s \<Rightarrow> u8 list \<Rightarrow> ('s \<times> (io_error + nat)) option) \<Rightarrow>
   's \<Rightarrow> u8 list \<Rightarrow> nat \<Rightarrow> ('s \<times> (io_error + unit)) option" where
  "write_all_loop write s buf written =
     (if written < length buf
      then Option.bind (write s (drop written buf)) (\<lambda>(s', r).
        (case r of
           Inr n \<Rightarrow> if n = 0 then Some (s', Inl (Error WriteZero))
                    else write_all_loop write s' buf (written + n)
         | Inl e \<Rightarrow> if io_interrupted e then write_all_loop write s' buf written else Some (s', Inl e)))
      else Some (s, Inr ()))"

definition write_all ::
  "('s \<Rightarrow> u8 list \<Rightarrow> ('s \<times> (io_error + nat)) option) \<Rightarrow>
   's \<Rightarrow> u8 list \<Rightarrow> ('s \<times> (io_error + unit)) option" where
  "write_all write s buf = write_all_loop write s buf 0"

datatype seek_from = Start u64 | End i64 | Current i64

definition stream_position :: "('s \<Rightarrow> seek_from \<Rightarrow> 's \<times> (io_error + u64)) \<Rightarrow> 's \<Rightarrow> 's \<times> (io_error + u64)" where
  "stream_position seek s = seek s (Current 0)"

section \<open>A source of bytes\<close>

text \<open>
  What \<open>Read::read\<close> and \<open>Stream::read\<close> promise: a call that returns \<open>n\<close> has put the
  next \<open>n\<close> bytes at the front of the buffer, \<open>n\<close> is at most the room given, and zero
  means the end unless no room was given; a call that fails consumed nothing. A
  source may report interruptions, but not for ever.
\<close>

locale byte_source =
  fixes ok :: "'s \<Rightarrow> bool"
    and rest :: "'s \<Rightarrow> u8 list"
    and patience :: "'s \<Rightarrow> nat"
    and retry :: "'e \<Rightarrow> bool"
    and read :: "'s \<Rightarrow> u8 list \<Rightarrow> ('s \<times> u8 list \<times> ('e + nat)) option"
  assumes read_total: "ok s \<Longrightarrow> \<exists>s' part r. read s buf = Some (s', part, r) \<and> ok s' \<and> length part = length buf"
    and read_bytes: "ok s \<Longrightarrow> read s buf = Some (s', part, Inr n) \<Longrightarrow>
      n \<le> length buf \<and> n \<le> length (rest s) \<and> take n part = take n (rest s) \<and> rest s' = drop n (rest s)"
    and read_end: "ok s \<Longrightarrow> read s buf = Some (s', part, Inr 0) \<Longrightarrow> buf = [] \<or> rest s = []"
    and read_error: "ok s \<Longrightarrow> read s buf = Some (s', part, Inl e) \<Longrightarrow> rest s' = rest s"
    and read_retry: "ok s \<Longrightarrow> read s buf = Some (s', part, Inl e) \<Longrightarrow> retry e \<Longrightarrow> patience s' < patience s"
begin

definition read_fails :: "'e \<Rightarrow> bool" where
  "read_fails e \<longleftrightarrow> \<not> retry e \<and> (\<exists>s buf s' part. ok s \<and> read s buf = Some (s', part, Inl e))"

text \<open>
  The loop returns, keeps what was filled before, and ends in one of three ways: the
  buffer is full of the next bytes; the source ended first; the source failed.
\<close>

lemma fill_loop_outcome:
  assumes "ok s" "filled \<le> length buf"
  shows "\<exists>s' buf' r k. fill_loop read retry eof s buf filled = Some (s', buf', r) \<and> ok s' \<and>
    length buf' = length buf \<and> filled + k \<le> length buf \<and> k \<le> length (rest s) \<and>
    take (filled + k) buf' = take filled buf @ take k (rest s) \<and> rest s' = drop k (rest s) \<and>
    (case r of Inr _ \<Rightarrow> filled + k = length buf
     | Inl e \<Rightarrow> e = eof \<and> k = length (rest s) \<and> filled + k < length buf \<or> read_fails e)"
  using assms
proof (induction "(s, buf, filled)" arbitrary: s buf filled
    rule: wf_induct_rule [OF wf_measures [of "[\<lambda>(s, buf, filled). length buf - filled, \<lambda>(s, buf, filled). patience s]"]])
  case (1 s buf filled)
  note IH = 1(1) and prems = 1(2,3)
  show ?case
  proof (cases "filled < length buf")
    case False
    then show ?thesis
      using prems by (subst fill_loop.simps) (auto intro!: exI [of _ 0])
  next
    case more: True
    obtain s1 part r where call: "read s (drop filled buf) = Some (s1, part, r)" "ok s1"
      "length part = length buf - filled"
      using read_total [OF prems(1), of "drop filled buf"] by auto
    let ?buf = "take filled buf @ part"
    have len: "length ?buf = length buf" using more call(3) by simp
    have unfold: "fill_loop read retry eof s buf filled =
      (case r of
         Inr n \<Rightarrow> if n = 0 then Some (s1, ?buf, Inl eof) else fill_loop read retry eof s1 ?buf (filled + n)
       | Inl e \<Rightarrow> if retry e then fill_loop read retry eof s1 ?buf filled else Some (s1, ?buf, Inl e))"
      using more call(1) by (subst fill_loop.simps) simp
    show ?thesis
    proof (cases r)
      case (Inr n)
      note got = read_bytes [OF prems(1) call(1) [unfolded Inr]]
      show ?thesis
      proof (cases "n = 0")
        case True
        then have "rest s = []"
          using read_end [OF prems(1) call(1) [unfolded Inr True]] more by simp
        then show ?thesis
          using True call more len unfold Inr got by (auto intro!: exI [of _ 0])
      next
        case False
        then have less: "((s1, ?buf, filled + n), (s, buf, filled)) \<in>
            measures [\<lambda>(s, buf, filled). length buf - filled, \<lambda>(s, buf, filled). patience s]"
          using more len diff_less_mono2 [of filled "filled + n" "length buf"] by simp
        have fits: "filled + n \<le> length ?buf" using got more len by auto
        obtain s2 buf2 r2 k where h: "fill_loop read retry eof s1 ?buf (filled + n) = Some (s2, buf2, r2)" "ok s2"
          "length buf2 = length buf" "filled + n + k \<le> length buf" "k \<le> length (rest s1)"
          "take (filled + n + k) buf2 = take (filled + n) ?buf @ take k (rest s1)" "rest s2 = drop k (rest s1)"
          "case r2 of Inr _ \<Rightarrow> filled + n + k = length buf
           | Inl e \<Rightarrow> e = eof \<and> k = length (rest s1) \<and> filled + n + k < length buf \<or> read_fails e"
          using IH [OF less call(2) fits] unfolding len by blast
        have "take (filled + (n + k)) buf2 = take filled buf @ take (n + k) (rest s)"
          using h(6) got more by (simp add: add.assoc take_add [of n k "rest s"])
        moreover have "drop (n + k) (rest s) = rest s2"
          using h(7) got by (simp add: add.commute)
        ultimately show ?thesis
          using h(1-5,8) got unfold Inr False
          by (intro exI [of _ s2] exI [of _ buf2] exI [of _ r2] exI [of _ "n + k"]) (auto split: sum.splits)
      qed
    next
      case (Inl e)
      show ?thesis
      proof (cases "retry e")
        case True
        then have "((s1, ?buf, filled), (s, buf, filled)) \<in>
            measures [\<lambda>(s, buf, filled). length buf - filled, \<lambda>(s, buf, filled). patience s]"
          using read_retry [OF prems(1) call(1) [unfolded Inl]] len by simp
        from IH [OF this call(2)] prems(2) show ?thesis
          using unfold Inl True more
          unfolding len read_error [OF prems(1) call(1) [unfolded Inl]] by simp
      next
        case False
        then have "read_fails e"
          using prems(1) call(1) Inl unfolding read_fails_def by blast
        then show ?thesis
          using False call read_error [OF prems(1) call(1) [unfolded Inl]] more len unfold Inl
          by (auto intro!: exI [of _ 0])
      qed
    qed
  qed
qed

end

text \<open>The two traits: \<open>Read\<close> for files and \<open>Stream\<close> for sockets.\<close>

locale io_source = byte_source ok rest patience io_interrupted read
  for ok :: "'s \<Rightarrow> bool" and rest patience
    and read :: "'s \<Rightarrow> u8 list \<Rightarrow> ('s \<times> u8 list \<times> (io_error + nat)) option"
begin

lemma read_exact_outcome:
  assumes "ok s"
  shows "\<exists>s' buf' r k. read_exact read s buf = Some (s', buf', r) \<and> ok s' \<and> length buf' = length buf \<and>
    k \<le> length buf \<and> k \<le> length (rest s) \<and> take k buf' = take k (rest s) \<and> rest s' = drop k (rest s) \<and>
    (case r of Inr _ \<Rightarrow> k = length buf
     | Inl e \<Rightarrow> e = Error UnexpectedEof \<and> k = length (rest s) \<and> k < length buf \<or> read_fails e)"
  using fill_loop_outcome [OF assms, of 0 buf "Error UnexpectedEof"] by (simp add: read_exact_def cong: sum.case_cong)

lemma read_exact_enough:
  assumes "ok s" "length buf \<le> length (rest s)" "\<And>e. \<not> read_fails e"
  shows "\<exists>s'. read_exact read s buf = Some (s', take (length buf) (rest s), Inr ()) \<and> ok s' \<and>
    rest s' = drop (length buf) (rest s)"
proof -
  from read_exact_outcome [OF assms(1), of buf]
  obtain s' buf' r k where h: "read_exact read s buf = Some (s', buf', r)" "ok s'" "length buf' = length buf"
    "take k buf' = take k (rest s)" "rest s' = drop k (rest s)"
    "case r of Inr _ \<Rightarrow> k = length buf
     | Inl e \<Rightarrow> e = Error UnexpectedEof \<and> k = length (rest s) \<and> k < length buf \<or> read_fails e"
    by blast
  then have "r = Inr () \<and> k = length buf"
    using assms(2,3) by (cases r) simp_all
  then show ?thesis using h by simp
qed

text \<open>\<open>read_to_end\<close> returns, since a source ends, and appends what was left and no zeros.\<close>

lemma read_to_end_loop_outcome:
  assumes "ok s" "start \<le> length buf"
  shows "\<exists>s' r k. read_to_end_loop read start s buf = Some (s', buf @ take k (rest s), r) \<and> ok s' \<and>
    k \<le> length (rest s) \<and> rest s' = drop k (rest s) \<and>
    (case r of Inr n \<Rightarrow> k = length (rest s) \<and> n = length buf + k - start | Inl e \<Rightarrow> read_fails e)"
  using assms
proof (induction "(s, buf)" arbitrary: s buf
    rule: wf_induct_rule [OF wf_measures [of "[\<lambda>(s, buf). length (rest s), \<lambda>(s, buf). patience s]"]])
  case (1 s buf)
  note IH = 1(1) and prems = 1(2,3)
  let ?zeros = "replicate CHUNK (0 :: u8)"
  obtain s1 part r where call: "read s ?zeros = Some (s1, part, r)" "ok s1"
    using read_total [OF prems(1), of ?zeros] by auto
  have unfold: "read_to_end_loop read start s buf =
    (case r of
       Inr n \<Rightarrow> if n = 0 then Some (s1, buf, Inr (length buf - start))
                else read_to_end_loop read start s1 (buf @ take n part)
     | Inl e \<Rightarrow> if io_interrupted e then read_to_end_loop read start s1 buf else Some (s1, buf, Inl e))"
    using call(1) by (subst read_to_end_loop.simps) (simp add: Let_def split: sum.split)
  show ?case
  proof (cases r)
    case (Inr n)
    note got = read_bytes [OF prems(1) call(1) [unfolded Inr]]
    show ?thesis
    proof (cases "n = 0")
      case True
      then have "rest s = []"
        using read_end [OF prems(1) call(1) [unfolded Inr True]] by (simp add: CHUNK_def)
      then show ?thesis
        using True call got unfold Inr by auto
    next
      case False
      then have "((s1, buf @ take n part), (s, buf)) \<in>
          measures [\<lambda>(s, buf). length (rest s), \<lambda>(s, buf). patience s]"
        using got by auto
      from IH [OF this call(2)] prems(2) got
      obtain s2 r2 k where h: "read_to_end_loop read start s1 (buf @ take n part) =
          Some (s2, (buf @ take n part) @ take k (rest s1), r2)" "ok s2" "k \<le> length (rest s1)" "rest s2 = drop k (rest s1)"
        "case r2 of Inr m \<Rightarrow> k = length (rest s1) \<and> m = length (buf @ take n part) + k - start | Inl e \<Rightarrow> read_fails e"
        by auto
      have two: "take (n + k) (rest s) = take n (rest s) @ take k (drop n (rest s))"
        "drop (n + k) (rest s) = drop k (drop n (rest s))"
        by (rule take_add) (simp add: add.commute)
      have "length (take n part) = n"
        using got by (metis length_take min.absorb2)
      then show ?thesis
        using h got unfold Inr False
        by (intro exI [of _ s2] exI [of _ r2] exI [of _ "n + k"])
          (auto simp: two split: sum.splits)
    qed
  next
    case (Inl e)
    note kept = read_error [OF prems(1) call(1) [unfolded Inl]]
    show ?thesis
    proof (cases "io_interrupted e")
      case True
      then have "((s1, buf), (s, buf)) \<in> measures [\<lambda>(s, buf). length (rest s), \<lambda>(s, buf). patience s]"
        using read_retry [OF prems(1) call(1) [unfolded Inl]] kept by simp
      from IH [OF this call(2) prems(2)] show ?thesis
        using unfold Inl True unfolding kept by simp
    next
      case False
      then have "read_fails e"
        using prems(1) call(1) Inl unfolding read_fails_def by blast
      then show ?thesis
        using False call kept unfold Inl by (auto intro!: exI [of _ 0])
    qed
  qed
qed

lemma read_to_end_outcome:
  assumes "ok s"
  shows "\<exists>s' r k. read_to_end read s buf = Some (s', buf @ take k (rest s), r) \<and> ok s' \<and>
    k \<le> length (rest s) \<and> rest s' = drop k (rest s) \<and>
    (case r of Inr n \<Rightarrow> k = length (rest s) \<and> n = k | Inl e \<Rightarrow> read_fails e)"
  using read_to_end_loop_outcome [OF assms, of "length buf" buf] by (simp add: read_to_end_def cong: sum.case_cong)

end

locale stream_source = byte_source ok rest patience interrupted read
  for ok :: "'s \<Rightarrow> bool" and rest patience
    and read :: "'s \<Rightarrow> u8 list \<Rightarrow> ('s \<times> u8 list \<times> (errno + nat)) option"
begin

lemma stream_read_exact_outcome:
  assumes "ok s"
  shows "\<exists>s' buf' r k. stream_read_exact read s buf = Some (s', buf', r) \<and> ok s' \<and> length buf' = length buf \<and>
    k \<le> length buf \<and> k \<le> length (rest s) \<and> take k buf' = take k (rest s) \<and> rest s' = drop k (rest s) \<and>
    (case r of Inr _ \<Rightarrow> k = length buf
     | Inl e \<Rightarrow> e = UNEXPECTED_EOF \<and> k = length (rest s) \<and> k < length buf \<or> read_fails e)"
  using fill_loop_outcome [OF assms, of 0 buf UNEXPECTED_EOF] by (simp add: stream_read_exact_def cong: sum.case_cong)

end

section \<open>A destination of bytes\<close>

text \<open>
  What \<open>Write::write\<close> promises: a call that returns \<open>n\<close> took the first \<open>n\<close> bytes, at
  most all of them; one that fails took none.
\<close>

locale byte_sink =
  fixes ok :: "'s \<Rightarrow> bool"
    and taken :: "'s \<Rightarrow> u8 list"
    and patience :: "'s \<Rightarrow> nat"
    and retry :: "'e \<Rightarrow> bool"
    and put :: "'s \<Rightarrow> u8 list \<Rightarrow> ('s \<times> ('e + nat)) option"
  assumes write_total: "ok s \<Longrightarrow> \<exists>s' r. put s buf = Some (s', r) \<and> ok s'"
    and write_bytes: "ok s \<Longrightarrow> put s buf = Some (s', Inr n) \<Longrightarrow>
      n \<le> length buf \<and> taken s' = taken s @ take n buf"
    and write_error: "ok s \<Longrightarrow> put s buf = Some (s', Inl e) \<Longrightarrow> taken s' = taken s"
    and write_retry: "ok s \<Longrightarrow> put s buf = Some (s', Inl e) \<Longrightarrow> retry e \<Longrightarrow> patience s' < patience s"
begin

text \<open>The last call of a loop that did not succeed: it failed, or it took nothing.\<close>

definition write_fails :: "u8 list \<Rightarrow> 's \<Rightarrow> 'e \<Rightarrow> bool" where
  "write_fails buf s' e \<longleftrightarrow> \<not> retry e \<and> (\<exists>s. ok s \<and> taken s = taken s' \<and> put s buf = Some (s', Inl e))"

definition write_stalls :: "u8 list \<Rightarrow> 's \<Rightarrow> bool" where
  "write_stalls buf s' \<longleftrightarrow> (\<exists>s. ok s \<and> taken s = taken s' \<and> put s buf = Some (s', Inr 0))"

end

locale io_sink = byte_sink ok taken patience io_interrupted put
  for ok :: "'s \<Rightarrow> bool" and taken patience
    and put :: "'s \<Rightarrow> u8 list \<Rightarrow> ('s \<times> (io_error + nat)) option"
begin

lemma write_all_loop_outcome:
  assumes "ok s" "written \<le> length buf"
  shows "\<exists>s' r k. write_all_loop put s buf written = Some (s', r) \<and> ok s' \<and> written + k \<le> length buf \<and>
    taken s' = taken s @ take k (drop written buf) \<and>
    (case r of Inr _ \<Rightarrow> written + k = length buf
     | Inl e \<Rightarrow> written + k < length buf \<and> (e = Error WriteZero \<and> write_stalls (drop (written + k) buf) s' \<or>
         write_fails (drop (written + k) buf) s' e))"
  using assms
proof (induction "(s, written)" arbitrary: s written
    rule: wf_induct_rule [OF wf_measures [of "[\<lambda>(s, written). length buf - written, \<lambda>(s, written). patience s]"]])
  case (1 s written)
  note IH = 1(1) and prems = 1(2,3)
  show ?case
  proof (cases "written < length buf")
    case False
    then show ?thesis
      using prems by (subst write_all_loop.simps) (auto intro!: exI [of _ 0])
  next
    case more: True
    obtain s1 r where call: "put s (drop written buf) = Some (s1, r)" "ok s1"
      using write_total [OF prems(1), of "drop written buf"] by auto
    have unfold: "write_all_loop put s buf written =
      (case r of
         Inr n \<Rightarrow> if n = 0 then Some (s1, Inl (Error WriteZero)) else write_all_loop put s1 buf (written + n)
       | Inl e \<Rightarrow> if io_interrupted e then write_all_loop put s1 buf written else Some (s1, Inl e))"
      using more call(1) by (subst write_all_loop.simps) simp
    show ?thesis
    proof (cases r)
      case (Inr n)
      note got = write_bytes [OF prems(1) call(1) [unfolded Inr]]
      show ?thesis
      proof (cases "n = 0")
        case True
        then have "write_stalls (drop written buf) s1"
          using prems(1) call(1) got Inr unfolding write_stalls_def by auto
        then show ?thesis
          using True call got more unfold Inr by (auto intro!: exI [of _ 0])
      next
        case False
        then have less: "((s1, written + n), (s, written)) \<in>
            measures [\<lambda>(s, written). length buf - written, \<lambda>(s, written). patience s]"
          using more diff_less_mono2 [of written "written + n" "length buf"] by simp
        obtain s2 r2 k where h: "write_all_loop put s1 buf (written + n) = Some (s2, r2)" "ok s2"
          "written + n + k \<le> length buf" "taken s2 = taken s1 @ take k (drop (written + n) buf)"
          "case r2 of Inr _ \<Rightarrow> written + n + k = length buf
           | Inl e \<Rightarrow> written + n + k < length buf \<and> (e = Error WriteZero \<and> write_stalls (drop (written + n + k) buf) s2 \<or>
               write_fails (drop (written + n + k) buf) s2 e)"
          using IH [OF less call(2)] got more by fastforce
        have "taken s2 = taken s @ take (n + k) (drop written buf)"
          using h(4) got unfolding take_add [of n k] by (simp add: add.commute)
        then show ?thesis
          using h(1-3,5) got unfold Inr False
          by (intro exI [of _ s2] exI [of _ r2] exI [of _ "n + k"]) (auto simp: add.assoc split: sum.splits)
      qed
    next
      case (Inl e)
      note kept = write_error [OF prems(1) call(1) [unfolded Inl]]
      show ?thesis
      proof (cases "io_interrupted e")
        case True
        then have "((s1, written), (s, written)) \<in>
            measures [\<lambda>(s, written). length buf - written, \<lambda>(s, written). patience s]"
          using write_retry [OF prems(1) call(1) [unfolded Inl]] by simp
        from IH [OF this call(2) prems(2)] show ?thesis
          using unfold Inl True unfolding kept by simp
      next
        case False
        then have "write_fails (drop written buf) s1 e"
          using prems(1) call(1) Inl kept unfolding write_fails_def by metis
        then show ?thesis
          using False call kept more unfold Inl by (auto intro!: exI [of _ 0])
      qed
    qed
  qed
qed

lemma write_all_outcome:
  assumes "ok s"
  shows "\<exists>s' r k. write_all put s buf = Some (s', r) \<and> ok s' \<and> k \<le> length buf \<and>
    taken s' = taken s @ take k buf \<and>
    (case r of Inr _ \<Rightarrow> k = length buf | Inl e \<Rightarrow> k < length buf \<and> (e = Error WriteZero \<and> write_stalls (drop k buf) s' \<or> write_fails (drop k buf) s' e))"
  using write_all_loop_outcome [OF assms, of 0 buf] by (simp add: write_all_def cong: sum.case_cong)

end

section \<open>\<open>HostFile\<close> and \<open>Compat\<close>\<close>

text \<open>
  Both call the type they wrap and convert its error, so they keep its laws: an
  interruption stays one, and nothing else becomes one.
\<close>

definition map_err :: "(std_kind + 'a) \<Rightarrow> io_error + 'a" where
  "map_err r = (case r of Inl e \<Rightarrow> Inl (from_std_error e) | Inr v \<Rightarrow> Inr v)"

definition host_read ::
  "('f \<Rightarrow> u8 list \<Rightarrow> ('f \<times> u8 list \<times> (std_kind + nat)) option) \<Rightarrow>
   'f \<Rightarrow> u8 list \<Rightarrow> ('f \<times> u8 list \<times> (io_error + nat)) option" where
  "host_read inner f buf = map_option (\<lambda>(f', part, r). (f', part, map_err r)) (inner f buf)"

definition host_write ::
  "('f \<Rightarrow> u8 list \<Rightarrow> ('f \<times> (std_kind + nat)) option) \<Rightarrow> 'f \<Rightarrow> u8 list \<Rightarrow> ('f \<times> (io_error + nat)) option" where
  "host_write inner f buf = map_option (\<lambda>(f', r). (f', map_err r)) (inner f buf)"

definition host_seek :: "('f \<Rightarrow> seek_from \<Rightarrow> 'f \<times> (std_kind + u64)) \<Rightarrow> 'f \<Rightarrow> seek_from \<Rightarrow> 'f \<times> (io_error + u64)" where
  "host_seek inner f from = map_prod id map_err (inner f from)"

definition compat_read ::
  "('f \<Rightarrow> u8 list \<Rightarrow> ('f \<times> u8 list \<times> (std_kind + nat)) option) \<Rightarrow>
   'f \<Rightarrow> u8 list \<Rightarrow> ('f \<times> u8 list \<times> (io_error + nat)) option" where
  "compat_read inner f buf = map_option (\<lambda>(f', part, r). (f', part, map_err r)) (inner f buf)"

definition compat_write ::
  "('f \<Rightarrow> u8 list \<Rightarrow> ('f \<times> (std_kind + nat)) option) \<Rightarrow> 'f \<Rightarrow> u8 list \<Rightarrow> ('f \<times> (io_error + nat)) option" where
  "compat_write inner f buf = map_option (\<lambda>(f', r). (f', map_err r)) (inner f buf)"

definition compat_flush :: "('f \<Rightarrow> 'f \<times> (std_kind + unit)) \<Rightarrow> 'f \<Rightarrow> 'f \<times> (io_error + unit)" where
  "compat_flush inner f = map_prod id map_err (inner f)"

definition compat_seek :: "('f \<Rightarrow> seek_from \<Rightarrow> 'f \<times> (std_kind + u64)) \<Rightarrow> 'f \<Rightarrow> seek_from \<Rightarrow> 'f \<times> (io_error + u64)" where
  "compat_seek inner f from = map_prod id map_err (inner f from)"

lemma interrupted_from_std [simp]: "io_interrupted (from_std_error e) \<longleftrightarrow> e = StdInterrupted"
  by (cases e) (simp_all add: io_interrupted_def)

lemma map_err_simps [simp]:
  "map_err r = Inr v \<longleftrightarrow> r = Inr v"
  "map_err r = Inl e \<longleftrightarrow> (\<exists>e'. r = Inl e' \<and> e = from_std_error e')"
  by (auto simp: map_err_def split: sum.splits)

lemma host_source:
  assumes "byte_source ok rest patience (\<lambda>e. e = StdInterrupted) inner"
  shows "io_source ok rest patience (host_read inner)"
proof -
  from assms show ?thesis
    unfolding io_source_def byte_source_def host_read_def by fastforce
qed

lemma host_sink:
  assumes "byte_sink ok taken patience (\<lambda>e. e = StdInterrupted) inner"
  shows "io_sink ok taken patience (host_write inner)"
  using assms unfolding io_sink_def byte_sink_def host_write_def by fastforce

section \<open>\<open>Ram\<close>\<close>

record ram =
  ram_bytes :: "u8 list"
  ram_length :: u64
  ram_at :: u64

definition ram_new :: ram where
  "ram_new = \<lparr>ram_bytes = replicate 256 0, ram_length = 0, ram_at = 0\<rparr>"

text \<open>
  A slice whose start is past its end or whose end is past the array panics. The sum
  \<open>start + buffer.len()\<close> is a \<open>nat\<close>: it can exceed \<open>usize\<close> only with a cursor far past
  the array, where the slice panics as the addition would.
\<close>

definition slice :: "'a list \<Rightarrow> nat \<Rightarrow> nat \<Rightarrow> 'a list option" where
  "slice xs from to = (if from \<le> to \<and> to \<le> length xs then Some (take (to - from) (drop from xs)) else None)"

definition copy_from_slice :: "'a list \<Rightarrow> nat \<Rightarrow> 'a list \<Rightarrow> 'a list" where
  "copy_from_slice xs from ys = take from xs @ ys @ drop (from + length ys) xs"

definition ram_read :: "ram \<Rightarrow> u8 list \<Rightarrow> (ram \<times> u8 list \<times> (io_error + nat)) option" where
  "ram_read r buf =
     (let start = unat (ram_at r); to = min (start + length buf) (unat (ram_length r)); count = to - start in
      Option.bind (slice (ram_bytes r) start to) (\<lambda>part.
        Some (r\<lparr>ram_at := ram_at r + of_nat count\<rparr>, copy_from_slice buf 0 part, Inr count)))"

definition ram_write :: "ram \<Rightarrow> u8 list \<Rightarrow> (ram \<times> (io_error + nat)) option" where
  "ram_write r buf =
     (let start = unat (ram_at r) in
      if length (ram_bytes r) \<le> start then Some (r, Inl (Error WriteZero))
      else (let to = min (start + length buf) (length (ram_bytes r)); count = to - start; at' = ram_at r + of_nat count in
         Some (r\<lparr>ram_bytes := copy_from_slice (ram_bytes r) start (take count buf), ram_at := at',
               ram_length := max (ram_length r) at'\<rparr>, Inr count)))"

definition saturating_add_signed :: "u64 \<Rightarrow> i64 \<Rightarrow> u64" where
  "saturating_add_signed a n = word_of_int (max 0 (min (2 ^ 64 - 1) (uint a + n)))"

definition ram_seek :: "ram \<Rightarrow> seek_from \<Rightarrow> ram \<times> (io_error + u64)" where
  "ram_seek r from =
     (let at' = (case from of
          Start n \<Rightarrow> n
        | End n \<Rightarrow> saturating_add_signed (ram_length r) n
        | Current n \<Rightarrow> saturating_add_signed (ram_at r) n) in
      (r\<lparr>ram_at := at'\<rparr>, Inr at'))"

definition ram_file_length :: "ram \<Rightarrow> ram \<times> (io_error + u64)" where
  "ram_file_length r = (r, Inr (ram_length r))"

definition ram_set_length :: "ram \<Rightarrow> u64 \<Rightarrow> ram \<times> (io_error + unit)" where
  "ram_set_length r n = (r\<lparr>ram_length := n\<rparr>, Inr ())"

text \<open>The cursor is inside the file and the file inside the array.\<close>

definition ram_ok :: "ram \<Rightarrow> bool" where
  "ram_ok r \<longleftrightarrow> length (ram_bytes r) = 256 \<and> ram_at r \<le> ram_length r \<and> unat (ram_length r) \<le> 256"

definition ram_rest :: "ram \<Rightarrow> u8 list" where
  "ram_rest r = drop (unat (ram_at r)) (take (unat (ram_length r)) (ram_bytes r))"

definition ram_taken :: "ram \<Rightarrow> u8 list" where
  "ram_taken r = take (unat (ram_at r)) (ram_bytes r)"

section \<open>\<open>Pair\<close>\<close>

record pair =
  pr_incoming :: "u8 list"
  pr_outgoing :: "u8 list"

definition pair_read :: "pair \<Rightarrow> u8 list \<Rightarrow> (pair \<times> u8 list \<times> (errno + nat)) option" where
  "pair_read p buf =
     (let count = min (length (pr_incoming p)) (length buf) in
      Some (p\<lparr>pr_incoming := drop count (pr_incoming p)\<rparr>, copy_from_slice buf 0 (take count (pr_incoming p)), Inr count))"

definition pair_write_all :: "pair \<Rightarrow> u8 list \<Rightarrow> pair \<times> (errno + unit)" where
  "pair_write_all p buf = (p\<lparr>pr_outgoing := pr_outgoing p @ buf\<rparr>, Inr ())"

interpretation pair: stream_source "\<lambda>_. True" pr_incoming "\<lambda>_. 0" pair_read
  by unfold_locales (auto simp: pair_read_def Let_def copy_from_slice_def min_def split: if_splits)

section \<open>\<open>Ram\<close> keeps the contracts\<close>

lemma unat_at_add:
  fixes w :: u64
  assumes "unat w + n \<le> 256"
  shows "unat (w + of_nat n) = unat w + n"
proof -
  have "unat (of_nat n :: u64) = n"
    using assms by (simp add: unsigned_of_nat take_bit_nat_eq_self)
  then show ?thesis
    using assms by (simp add: unat_word_ariths)
qed

lemma ram_okD:
  "ram_ok r \<Longrightarrow> unat (ram_at r) \<le> unat (ram_length r)" "ram_ok r \<Longrightarrow> unat (ram_length r) \<le> 256"
  "ram_ok r \<Longrightarrow> length (ram_bytes r) = 256"
  by (simp_all add: ram_ok_def word_le_nat_alt)

lemma ram_rest_length: "ram_ok r \<Longrightarrow> length (ram_rest r) = unat (ram_length r) - unat (ram_at r)"
  using ram_okD [of r] by (simp add: ram_rest_def)

lemma ram_read_effect:
  assumes "ram_ok r" "n = min (length buf) (length (ram_rest r))"
  shows "\<exists>r'. ram_read r buf = Some (r', take n (ram_rest r) @ drop n buf, Inr n) \<and> ram_ok r' \<and>
    unat (ram_at r') = unat (ram_at r) + n \<and> ram_bytes r' = ram_bytes r \<and> ram_length r' = ram_length r"
proof -
  note ok = ram_okD [OF assms(1)]
  let ?start = "unat (ram_at r)" and ?len = "unat (ram_length r)"
  have to: "min (?start + length buf) ?len - ?start = n" "min (?start + length buf) ?len = ?start + n"
    using assms(2) ok ram_rest_length [OF assms(1)] by auto
  have "slice (ram_bytes r) ?start (?start + n) = Some (take n (ram_rest r))"
    using assms(2) ok ram_rest_length [OF assms(1)]
    by (auto simp: slice_def ram_rest_def drop_take min_def)
  moreover have "length (take n (ram_rest r)) = n" using assms(2) by simp
  ultimately show ?thesis
    using ok to assms ram_rest_length [OF assms(1)] unat_at_add [of "ram_at r" n]
    by (simp add: ram_read_def Let_def copy_from_slice_def ram_ok_def word_le_nat_alt)
qed

lemma ram_write_effect:
  assumes "ram_ok r" "unat (ram_at r) < 256" "n = min (length buf) (256 - unat (ram_at r))"
  shows "\<exists>r'. ram_write r buf = Some (r', Inr n) \<and> ram_ok r' \<and> unat (ram_at r') = unat (ram_at r) + n \<and>
    ram_bytes r' = copy_from_slice (ram_bytes r) (unat (ram_at r)) (take n buf) \<and>
    unat (ram_length r') = max (unat (ram_length r)) (unat (ram_at r) + n)"
proof -
  note ok = ram_okD [OF assms(1)]
  let ?start = "unat (ram_at r)"
  have to: "min (?start + length buf) 256 - ?start = n"
    using assms(2,3) by auto
  have at: "unat (ram_at r + of_nat n) = ?start + n"
    using assms(2,3) by (intro unat_at_add) simp
  moreover have "unat (max a b) = max (unat a) (unat b)" for a b :: u64
    by (simp add: max_def word_le_nat_alt)
  moreover have "length (copy_from_slice (ram_bytes r) ?start (take n buf)) = 256"
    using ok assms(2,3) by (simp add: copy_from_slice_def)
  moreover have "ram_write r buf = Some (r\<lparr>ram_bytes := copy_from_slice (ram_bytes r) ?start (take n buf),
      ram_at := ram_at r + of_nat n, ram_length := max (ram_length r) (ram_at r + of_nat n)\<rparr>, Inr n)"
    using ok(3) assms(2) unfolding ram_write_def Let_def by (simp add: to)
  moreover have "?start + n \<le> 256" using assms(2,3) by simp
  ultimately show ?thesis
    using ok(2) by (simp add: ram_ok_def word_le_nat_alt)
qed

interpretation ram: io_source ram_ok ram_rest "\<lambda>_. 0" ram_read
proof
  fix r :: ram and buf :: "u8 list"
  assume ok: "ram_ok r"
  define n where "n = min (length buf) (length (ram_rest r))"
  from ram_read_effect [OF ok n_def] obtain r' where
    r': "ram_read r buf = Some (r', take n (ram_rest r) @ drop n buf, Inr n)" "ram_ok r'"
      "unat (ram_at r') = unat (ram_at r) + n" "ram_bytes r' = ram_bytes r" "ram_length r' = ram_length r"
    by blast
  then show "\<exists>s' part x. ram_read r buf = Some (s', part, x) \<and> ram_ok s' \<and> length part = length buf"
    by (simp add: n_def)
  have "ram_rest r' = drop n (ram_rest r)"
    using r'(3-5) by (simp add: ram_rest_def add.commute)
  then show "m \<le> length buf \<and> m \<le> length (ram_rest r) \<and> take m part = take m (ram_rest r) \<and> ram_rest s' = drop m (ram_rest r)"
    if "ram_read r buf = Some (s', part, Inr m)" for s' part m
    using that r'(1) by (auto simp: n_def)
  show "buf = [] \<or> ram_rest r = []" if "ram_read r buf = Some (s', part, Inr 0)" for s' part
    using that r'(1) by (auto simp: n_def min_def split: if_splits)
  show "ram_rest s' = ram_rest r" if "ram_read r buf = Some (s', part, Inl e)" for s' part e
    using that r'(1) by simp
  show "(0 :: nat) < 0" if "ram_read r buf = Some (s', part, Inl e)" for s' part e
    using that r'(1) by simp
qed

interpretation ram: io_sink ram_ok ram_taken "\<lambda>_. 0" ram_write
proof
  fix r :: ram and buf :: "u8 list"
  assume ok: "ram_ok r"
  have full: "ram_write r buf = Some (r, Inl (Error WriteZero))" if "\<not> unat (ram_at r) < 256"
    using that ram_okD(3) [OF ok] by (simp add: ram_write_def)
  have room: "\<exists>r'. ram_write r buf = Some (r', Inr (min (length buf) (256 - unat (ram_at r)))) \<and> ram_ok r' \<and>
      ram_taken r' = ram_taken r @ take (min (length buf) (256 - unat (ram_at r))) buf" if "unat (ram_at r) < 256"
    using ram_write_effect [OF ok that refl, of buf] ram_okD(3) [OF ok] that
    by (auto simp: ram_taken_def copy_from_slice_def)
  show "\<exists>s' x. ram_write r buf = Some (s', x) \<and> ram_ok s'"
    using full room ok by (cases "unat (ram_at r) < 256") auto
  show "m \<le> length buf \<and> ram_taken s' = ram_taken r @ take m buf" if "ram_write r buf = Some (s', Inr m)" for s' m
    using that full room by (cases "unat (ram_at r) < 256") auto
  show "ram_taken s' = ram_taken r" if "ram_write r buf = Some (s', Inl e)" for s' e
    using that full room by (cases "unat (ram_at r) < 256") auto
  show "(0 :: nat) < 0" if "ram_write r buf = Some (s', Inl e)" "io_interrupted e" for s' e
    using that full room by (cases "unat (ram_at r) < 256") (auto simp: io_interrupted_def)
qed

lemma ram_no_read_fails [simp]: "\<not> ram.read_fails e"
proof
  assume "ram.read_fails e"
  then obtain r buf r' part where "ram_ok r" "ram_read r buf = Some (r', part, Inl e)"
    by (auto simp: ram.read_fails_def)
  then show False
    using ram_read_effect [of r _ buf] by fastforce
qed

lemma ram_taken_length: "ram_ok r \<Longrightarrow> length (ram_taken r) = unat (ram_at r)"
  using ram_okD [of r] by (simp add: ram_taken_def)

text \<open>A write of something takes something while the cursor is inside the array.\<close>

lemma ram_write_progress:
  assumes "ram_ok r" "unat (ram_at r) < 256" "buf \<noteq> []" "ram_write r buf = Some (r', x)"
  shows "\<exists>n > 0. x = Inr n"
  using ram_write_effect [OF assms(1,2) refl, of buf] assms(2,3,4) by auto

lemma ram_write_all_fits:
  assumes "ram_ok r" "unat (ram_at r) + length buf \<le> 256"
  shows "\<exists>r'. write_all ram_write r buf = Some (r', Inr ()) \<and> ram_ok r' \<and> ram_taken r' = ram_taken r @ buf"
proof -
  obtain r' x k where h: "write_all ram_write r buf = Some (r', x)" "ram_ok r'" "k \<le> length buf"
    "ram_taken r' = ram_taken r @ take k buf"
    "case x of Inr _ \<Rightarrow> k = length buf
     | Inl e \<Rightarrow> k < length buf \<and> (e = Error WriteZero \<and> ram.write_stalls (drop k buf) r' \<or> ram.write_fails (drop k buf) r' e)"
    using ram.write_all_outcome [OF assms(1), of buf] by blast
  have "x = Inr ()"
  proof (cases x)
    case (Inl e)
    then obtain r0 y where r0: "k < length buf" "ram_ok r0" "ram_taken r0 = ram_taken r'"
      "ram_write r0 (drop k buf) = Some (r', y)" "y = Inr 0 \<or> (\<exists>e. y = Inl e)"
      using h(5) unfolding ram.write_stalls_def ram.write_fails_def by auto
    have "unat (ram_at r0) = unat (ram_at r) + k"
      using arg_cong [OF h(4), of length] r0(3) ram_taken_length [OF r0(2)] ram_taken_length [OF assms(1)] h(3) by simp
    then show ?thesis
      using ram_write_progress [OF r0(2) _ _ r0(4)] r0(1,5) assms(2) by auto
  qed simp
  then show ?thesis using h by simp
qed

lemma ram_seek_back:
  assumes "ram_ok r" "ram_ok r'" "ram_taken r' = ram_taken r @ data"
  shows "\<exists>r2. ram_seek r' (Start (ram_at r)) = (r2, Inr (ram_at r)) \<and> ram_ok r2 \<and>
    length data \<le> length (ram_rest r2) \<and> take (length data) (ram_rest r2) = data"
proof -
  have at: "unat (ram_at r') = unat (ram_at r) + length data"
    using arg_cong [OF assms(3), of length] assms(1,2) by (simp add: ram_taken_length)
  let ?r2 = "r'\<lparr>ram_at := ram_at r\<rparr>"
  note ok = ram_okD [OF assms(2)]
  have "ram_rest ?r2 = drop (unat (ram_at r)) (take (unat (ram_length r')) (ram_bytes r'))"
    by (simp add: ram_rest_def)
  moreover have "take (unat (ram_at r')) (take (unat (ram_length r')) (ram_bytes r')) = ram_taken r @ data"
    using assms(3) ok(1) by (simp add: ram_taken_def min_absorb1)
  ultimately have "take (length data) (ram_rest ?r2) = drop (unat (ram_at r)) (ram_taken r @ data)"
    by (metis add_diff_cancel_left' at take_drop drop_take)
  then have "take (length data) (ram_rest ?r2) = data"
    using ram_taken_length [OF assms(1)] by simp
  moreover from this have "length data \<le> length (ram_rest ?r2)"
    by (metis length_take min.cobounded1)
  moreover have "ram_ok ?r2"
    using assms(2) at by (simp add: ram_ok_def word_le_nat_alt)
  ultimately show ?thesis
    by (simp add: ram_seek_def Let_def)
qed

section \<open>Properties\<close>

text \<open>
  C24: The provided methods of \<open>Read\<close> always return, for every reader that keeps the
  documented contract and does not report interruptions for ever. \<open>read_exact\<close>
  either fills the whole buffer with exactly the next bytes, or reports an early end
  exactly when fewer bytes were left, having copied those, or passes on an error of
  the reader; it never loses a byte before the point where it stopped.
  \<open>read_to_end\<close> appends exactly what was left and returns its length, with no zero of
  the growing buffer left behind, or passes on an error of the reader.
\<close>

theorem read_loops_return:
  assumes "io_source ok rest patience read" "ok s"
  shows "(\<exists>s' buf' r k. read_exact read s buf = Some (s', buf', r) \<and> length buf' = length buf \<and>
      take k buf' = take k (rest s) \<and> rest s' = drop k (rest s) \<and>
      (r = Inr () \<and> k = length buf \<and> length buf \<le> length (rest s) \<or>
       r = Inl (Error UnexpectedEof) \<and> k = length (rest s) \<and> length (rest s) < length buf \<or>
       (\<exists>e s0 b0 s1 b1. r = Inl e \<and> \<not> io_interrupted e \<and> read s0 b0 = Some (s1, b1, Inl e)))) \<and>
    (\<exists>s' r k. read_to_end read s buf = Some (s', buf @ take k (rest s), r) \<and> rest s' = drop k (rest s) \<and>
      (r = Inr (length (rest s)) \<and> k = length (rest s) \<or>
       (\<exists>e s0 b0 s1 b1. r = Inl e \<and> \<not> io_interrupted e \<and> read s0 b0 = Some (s1, b1, Inl e))))"
proof -
  note fails = byte_source.read_fails_def [OF io_source.axioms [OF assms(1)]]
  obtain s' buf' r k where h: "read_exact read s buf = Some (s', buf', r)" "length buf' = length buf"
    "k \<le> length (rest s)" "take k buf' = take k (rest s)" "rest s' = drop k (rest s)"
    "case r of Inr _ \<Rightarrow> k = length buf
     | Inl e \<Rightarrow> e = Error UnexpectedEof \<and> k = length (rest s) \<and> k < length buf \<or>
         byte_source.read_fails ok io_interrupted read e"
    using io_source.read_exact_outcome [OF assms] by blast
  have one: "r = Inr () \<and> k = length buf \<and> length buf \<le> length (rest s) \<or>
       r = Inl (Error UnexpectedEof) \<and> k = length (rest s) \<and> length (rest s) < length buf \<or>
       (\<exists>e s0 b0 s1 b1. r = Inl e \<and> \<not> io_interrupted e \<and> read s0 b0 = Some (s1, b1, Inl e))"
    using h(3,6) unfolding fails by (cases r) auto
  obtain t' q j where g: "read_to_end read s buf = Some (t', buf @ take j (rest s), q)" "rest t' = drop j (rest s)"
    "case q of Inr n \<Rightarrow> j = length (rest s) \<and> n = j | Inl e \<Rightarrow> byte_source.read_fails ok io_interrupted read e"
    using io_source.read_to_end_outcome [OF assms] by blast
  have two: "q = Inr (length (rest s)) \<and> j = length (rest s) \<or>
       (\<exists>e s0 b0 s1 b1. q = Inl e \<and> \<not> io_interrupted e \<and> read s0 b0 = Some (s1, b1, Inl e))"
    using g(3) unfolding fails by (cases q) auto
  show ?thesis using h(1,2,4,5) one g(1,2) two by blast
qed

text \<open>
  What is written is read back. On a device in order, \<open>write_all\<close> of bytes that
  fit succeeds and leaves the position behind them; seeking to where they were
  written reports that place, and \<open>read_exact\<close> of as many bytes returns exactly them,
  whatever the buffer held.
\<close>

theorem ram_round_trip:
  assumes "ram_ok r" "unat (ram_at r) + length data \<le> 256" "length buf = length data"
  shows "\<exists>r1 r2 r3. write_all ram_write r data = Some (r1, Inr ()) \<and>
    stream_position ram_seek r1 = (r1, Inr (ram_at r + of_nat (length data))) \<and>
    ram_seek r1 (Start (ram_at r)) = (r2, Inr (ram_at r)) \<and>
    read_exact ram_read r2 buf = Some (r3, data, Inr ())"
proof -
  obtain r1 where r1: "write_all ram_write r data = Some (r1, Inr ())" "ram_ok r1" "ram_taken r1 = ram_taken r @ data"
    using ram_write_all_fits [OF assms(1,2)] by blast
  have "unat (ram_at r1) = unat (ram_at r + of_nat (length data))"
    using arg_cong [OF r1(3), of length] assms(1,2) r1(2) by (simp add: ram_taken_length unat_at_add)
  then have at: "ram_at r1 = ram_at r + of_nat (length data)"
    by (simp add: word_unat_eq_iff)
  have "saturating_add_signed w 0 = w" for w
    using uint_lt2p [of w] by (simp add: saturating_add_signed_def)
  then have "stream_position ram_seek r1 = (r1, Inr (ram_at r1))"
    by (simp add: stream_position_def ram_seek_def)
  moreover obtain r2 where r2: "ram_seek r1 (Start (ram_at r)) = (r2, Inr (ram_at r))" "ram_ok r2"
    "length data \<le> length (ram_rest r2)" "take (length data) (ram_rest r2) = data"
    using ram_seek_back [OF assms(1) r1(2,3)] by blast
  moreover obtain r3 where "read_exact ram_read r2 buf = Some (r3, data, Inr ())"
    using ram.read_exact_enough [OF r2(2), of buf] r2(3,4) assms(3) by auto
  ultimately show ?thesis using r1(1) at by auto
qed

theorem ram_round_trip_witness:
  "\<exists>r1 r2 r3. write_all ram_write ram_new [100, 105, 115, 107] = Some (r1, Inr ()) \<and>
    stream_position ram_seek r1 = (r1, Inr 4) \<and> ram_seek r1 (Start 0) = (r2, Inr 0) \<and>
    read_exact ram_read r2 [0, 0, 0, 0] = Some (r3, [100, 105, 115, 107], Inr ())"
  using ram_round_trip [of ram_new "[100, 105, 115, 107]" "[0, 0, 0, 0]"]
  by (simp add: ram_new_def ram_ok_def)

definition demo_ram :: ram where
  "demo_ram = ram_new\<lparr>ram_bytes := [7, 8, 9] @ replicate 253 0, ram_length := 3, ram_at := 1\<rparr>"

theorem read_loops_return_witness:
  "\<exists>s' buf'. read_exact ram_read demo_ram [0, 0, 0] = Some (s', buf', Inl (Error UnexpectedEof)) \<and> take 2 buf' = [8, 9]"
proof -
  have "io_source ram_ok ram_rest (\<lambda>_. 0) ram_read"
    by (rule ram.io_source_axioms)
  moreover have "ram_ok demo_ram" "ram_rest demo_ram = [8, 9]"
    by (simp_all add: demo_ram_def ram_new_def ram_ok_def ram_rest_def)
  moreover have "\<not> (\<exists>e s0 b0 s1 b1. \<not> io_interrupted e \<and> ram_read s0 b0 = Some (s1, b1, Inl e))"
    by (auto simp: ram_read_def Let_def bind_eq_Some_conv)
  ultimately show ?thesis
    using read_loops_return [of ram_ok ram_rest "\<lambda>_. 0" ram_read demo_ram "[0, 0, 0]"] by (auto simp: numeral_2_eq_2)
qed

end
