(* ===== verification/Reactor.thy ===== *)
theory Reactor
  imports Io "HOL-Library.Multiset"
begin

text \<open>
  The reactor's registrations (\<open>src/src/reactor/driver.rs\<close>) and the events its
  poller hands it (\<open>src/src/reactor/poller.rs\<close>): interests, events and their decoding
  from epoll, tokens, slots and wakers, registration and its end, the parking of
  readers and writers, and the dispatch of a batch of events to wakers. The kernel is
  a parameter: the poller's \<open>add\<close> and \<open>remove\<close>, and the bits of the epoll interface.
  The results: a dispatch does to each live slot exactly what its own events say and
  wakes each waiter once; an event for a registration that has ended reaches nobody;
  and the tokens of live registrations are told apart.
\<close>

unbundle bit_operations_syntax

section \<open>Interests and events\<close>

record interest =
  in_readable :: bool
  in_writable :: bool

definition READABLE :: interest where
  "READABLE = \<lparr>in_readable = True, in_writable = False\<rparr>"

definition WRITABLE :: interest where
  "WRITABLE = \<lparr>in_readable = False, in_writable = True\<rparr>"

definition BOTH :: interest where
  "BOTH = \<lparr>in_readable = True, in_writable = True\<rparr>"

record event =
  ev_token :: u64
  ev_readable :: bool
  ev_writable :: bool
  ev_hangup :: bool

text \<open>The bits of the epoll interface that the poller names, from the kernel's headers.\<close>

record epoll_bits =
  EPOLLIN :: u32
  EPOLLOUT :: u32
  EPOLLERR :: u32
  EPOLLHUP :: u32
  EPOLLRDHUP :: u32
  EPOLLET :: u32

definition epoll_mask :: "epoll_bits \<Rightarrow> interest \<Rightarrow> u32" where
  "epoll_mask k i =
     (let mask = EPOLLET k;
          mask = (if in_readable i then mask OR (EPOLLIN k OR EPOLLRDHUP k) else mask)
      in if in_writable i then mask OR EPOLLOUT k else mask)"

definition WAKE_TOKEN :: u64 where
  "WAKE_TOKEN = u64_max"

definition epoll_event :: "epoll_bits \<Rightarrow> u32 \<times> u64 \<Rightarrow> event" where
  "epoll_event k e =
     (let flags = fst e; failed = (flags AND (EPOLLHUP k OR EPOLLERR k) \<noteq> 0)
      in \<lparr>ev_token = snd e, ev_readable = (failed \<or> flags AND EPOLLIN k \<noteq> 0),
          ev_writable = (failed \<or> flags AND EPOLLOUT k \<noteq> 0),
          ev_hangup = (failed \<or> flags AND EPOLLRDHUP k \<noteq> 0)\<rparr>)"

text \<open>
  The events of one \<open>epoll_wait\<close> that are handed on, and whether the wake channel was
  among them and is drained.
\<close>

definition epoll_events :: "epoll_bits \<Rightarrow> (u32 \<times> u64) list \<Rightarrow> event list \<times> bool" where
  "epoll_events k es =
     (map (epoll_event k) (filter (\<lambda>e. snd e \<noteq> WAKE_TOKEN) es), \<exists>e \<in> set es. snd e = WAKE_TOKEN)"

text \<open>The timeout of \<open>epoll_wait\<close>: milliseconds, rounded up, in a \<open>c_int\<close>; \<open>-1\<close> waits for ever.\<close>

definition epoll_timeout :: "u64 option \<Rightarrow> int" where
  "epoll_timeout timeout_ns =
     (case timeout_ns of
        None \<Rightarrow> - 1
      | Some ns \<Rightarrow> int (min ((unat ns + 999999) div 1000000) (2 ^ 31 - 1)))"

text \<open>The result of \<open>epoll_wait\<close> and of the \<open>write\<close> in \<open>wake\<close>.\<close>

definition epoll_wait_result :: "errno + 'e list \<Rightarrow> errno + 'e list" where
  "epoll_wait_result r =
     (case r of Inl e \<Rightarrow> if interrupted e then Inr [] else Inl e | Inr es \<Rightarrow> Inr es)"

definition epoll_wake_result :: "errno + unit \<Rightarrow> errno + unit" where
  "epoll_wake_result r =
     (case r of Inl e \<Rightarrow> if would_block e then Inr () else Inl e | Inr () \<Rightarrow> Inr ())"

section \<open>Tokens\<close>

definition GENERATION_SHIFT :: nat where
  "GENERATION_SHIFT = 48"

definition make_token :: "u64 \<Rightarrow> u64 \<Rightarrow> u64" where
  "make_token index generation = push_bit GENERATION_SHIFT generation OR index"

definition split_token :: "u64 \<Rightarrow> u64 \<times> u64" where
  "split_token token = (token AND (push_bit GENERATION_SHIFT 1 - 1), drop_bit GENERATION_SHIFT token)"

lemma token_mask: "push_bit GENERATION_SHIFT 1 - 1 = (mask 48 :: u64)"
  by (simp add: GENERATION_SHIFT_def mask_eq_exp_minus_1 push_bit_eq_mult)

lemma take_bit_u64_self: "n < 64 \<Longrightarrow> w < 2 ^ n \<Longrightarrow> take_bit n w = w" for w :: u64
proof (rule unsigned_word_eqI)
  assume n: "n < 64" and w: "w < 2 ^ n"
  have "unat (of_nat (2 ^ n) :: u64) = 2 ^ n"
    using n power_strict_increasing [of n 64 "2 :: nat"] by (simp only: unsigned_of_nat) (simp add: take_bit_nat_eq_self)
  then have "unat (2 ^ n :: u64) = 2 ^ n"
    by simp
  then have "unat w < 2 ^ n"
    using w by (simp add: word_less_nat_alt)
  then show "unat (take_bit n w) = unat w"
    by (simp add: unsigned_take_bit_eq take_bit_nat_eq_self)
qed

lemma split_make_token:
  assumes "index < 2 ^ 48" "generation < 2 ^ 16"
  shows "split_token (make_token index generation) = (index, generation)"
proof -
  have i: "take_bit 48 index = index"
    using assms(1) by (intro take_bit_u64_self) simp_all
  have g: "take_bit 16 generation = generation"
    using assms(2) by (intro take_bit_u64_self) simp_all
  have "take_bit 48 (make_token index generation) = index"
    using i by (simp add: make_token_def GENERATION_SHIFT_def take_bit_push_bit)
  moreover have "drop_bit 48 (make_token index generation) = generation"
  proof (rule bit_word_eqI)
    fix n assume "n < LENGTH(64)"
    have "bit index (48 + n) = False"
      using arg_cong [OF i, of "\<lambda>w. bit w (48 + n)"] by (simp add: bit_take_bit_iff)
    moreover have "bit generation n \<Longrightarrow> n < 16"
      using arg_cong [OF g, of "\<lambda>w. bit w n"] by (simp add: bit_take_bit_iff)
    ultimately show "bit (drop_bit 48 (make_token index generation)) n = bit generation n"
      using \<open>n < LENGTH(64)\<close>
      by (auto simp: make_token_def GENERATION_SHIFT_def bit_simps)
  qed
  ultimately show ?thesis
    unfolding split_token_def token_mask by (simp add: GENERATION_SHIFT_def take_bit_eq_mask)
qed

section \<open>Wakers and slots\<close>

record wakers =
  wk_reader :: "waker option"
  wk_writer :: "waker option"
  wk_readable :: bool
  wk_writable :: bool
  wk_hangup :: bool

definition wakers_new :: wakers where
  "wakers_new = \<lparr>wk_reader = None, wk_writer = None, wk_readable = True, wk_writable = True, wk_hangup = False\<rparr>"

text \<open>Each of these runs under the slot's lock.\<close>

definition park_reader :: "waker \<Rightarrow> wakers \<Rightarrow> wakers" where
  "park_reader wk w = (if wk_reader w = Some wk then w else w\<lparr>wk_reader := Some wk\<rparr>)"

definition park_writer :: "waker \<Rightarrow> wakers \<Rightarrow> wakers" where
  "park_writer wk w = (if wk_writer w = Some wk then w else w\<lparr>wk_writer := Some wk\<rparr>)"

definition take_readable_or_park :: "waker \<Rightarrow> wakers \<Rightarrow> wakers \<times> bool" where
  "take_readable_or_park wk w =
     (if wk_readable w \<or> wk_hangup w then (w\<lparr>wk_readable := False\<rparr>, True) else (park_reader wk w, False))"

definition mark_readable :: "wakers \<Rightarrow> wakers" where
  "mark_readable w = w\<lparr>wk_readable := True\<rparr>"

text \<open>The second component lists the waker when it is to be woken at once.\<close>

definition poll_readable :: "waker \<Rightarrow> wakers \<Rightarrow> wakers \<times> waker list" where
  "poll_readable wk w = (if wk_readable w \<or> wk_hangup w then (w, [wk]) else (park_reader wk w, []))"

definition take_writable_or_park :: "waker \<Rightarrow> wakers \<Rightarrow> wakers \<times> bool" where
  "take_writable_or_park wk w =
     (if wk_writable w then (w\<lparr>wk_writable := False\<rparr>, True) else (park_writer wk w, False))"

definition mark_writable :: "wakers \<Rightarrow> wakers" where
  "mark_writable w = w\<lparr>wk_writable := True\<rparr>"

definition poll_writable :: "waker \<Rightarrow> wakers \<Rightarrow> wakers \<times> waker list" where
  "poll_writable wk w = (if wk_writable w then (w, [wk]) else (park_writer wk w, []))"

definition cancel_read_wait :: "wakers \<Rightarrow> wakers" where
  "cancel_read_wait w = w\<lparr>wk_reader := None\<rparr>"

definition cancel_write_wait :: "wakers \<Rightarrow> wakers" where
  "cancel_write_wait w = w\<lparr>wk_writer := None\<rparr>"

record rslot =
  rs_generation :: u64
  rs_wakers :: wakers

definition NO_DEADLINE :: u64 where
  "NO_DEADLINE = u64_max"

record 'p reactor =
  re_poller :: 'p
  re_slots :: "u64 \<Rightarrow> rslot option"
  re_next_index :: u64
  re_running :: bool
  re_next_deadline :: u64

definition reactor_new :: "'p \<Rightarrow> 'p reactor" where
  "reactor_new poller = \<lparr>re_poller = poller, re_slots = (\<lambda>_. None), re_next_index = 0, re_running = True,
     re_next_deadline = NO_DEADLINE\<rparr>"

record registration =
  rg_fd :: int
  rg_index :: u64
  rg_token :: u64

section \<open>Registration\<close>

text \<open>\<open>Handle::register\<close>, with the poller's \<open>add\<close>.\<close>

definition register ::
  "('p \<Rightarrow> int \<Rightarrow> u64 \<Rightarrow> interest \<Rightarrow> 'p \<times> errno option) \<Rightarrow> int \<Rightarrow> interest \<Rightarrow> 'p reactor \<Rightarrow>
   'p reactor \<times> (errno + registration)" where
  "register add fd i re =
     (let index = re_next_index re;
          generation = 1;
          re = re\<lparr>re_next_index := index + 1,
                  re_slots := (re_slots re)(index \<mapsto> \<lparr>rs_generation = generation, rs_wakers = wakers_new\<rparr>)\<rparr>;
          token = make_token index generation
      in case add (re_poller re) fd token i of
           (p, Some e) \<Rightarrow> (re\<lparr>re_poller := p, re_slots := (re_slots re)(index := None)\<rparr>, Inl e)
         | (p, None) \<Rightarrow> (re\<lparr>re_poller := p\<rparr>, Inr \<lparr>rg_fd = fd, rg_index = index, rg_token = token\<rparr>))"

text \<open>Dropping a registration, with the poller's \<open>remove\<close>, whose result is ignored.\<close>

definition registration_drop ::
  "('p \<Rightarrow> int \<Rightarrow> 'p \<times> errno option) \<Rightarrow> registration \<Rightarrow> 'p reactor \<Rightarrow> 'p reactor" where
  "registration_drop remove r re =
     re\<lparr>re_poller := fst (remove (re_poller re) (rg_fd r)), re_slots := (re_slots re)(rg_index r := None)\<rparr>"

text \<open>\<open>Sharded\<close>: the shard of the next descriptor, and the shard a caller asks for.\<close>

definition next_shard :: "nat \<Rightarrow> u64 \<Rightarrow> (u64 \<times> nat) option" where
  "next_shard shards counter = (if shards = 0 then None else Some (counter + 1, unat counter mod shards))"

definition shard_for :: "nat \<Rightarrow> nat \<Rightarrow> nat option" where
  "shard_for shards shard = (if shards = 0 then None else Some (shard mod shards))"

definition sharded :: "nat \<Rightarrow> nat" where
  "sharded shards = max shards 1"

section \<open>Dispatch\<close>

definition waiters :: "u64 \<Rightarrow> waker option \<Rightarrow> (u64 \<times> waker) list" where
  "waiters index w = (case w of None \<Rightarrow> [] | Some wk \<Rightarrow> [(index, wk)])"

definition dispatch_hangup :: "event \<Rightarrow> wakers \<Rightarrow> wakers" where
  "dispatch_hangup e w = (if ev_hangup e then w\<lparr>wk_hangup := True\<rparr> else w)"

definition dispatch_read :: "event \<Rightarrow> u64 \<Rightarrow> wakers \<Rightarrow> wakers \<times> (u64 \<times> waker) list" where
  "dispatch_read e index w =
     (if ev_readable e \<or> ev_hangup e
      then (w\<lparr>wk_readable := True, wk_reader := None\<rparr>, waiters index (wk_reader w)) else (w, []))"

definition dispatch_write :: "event \<Rightarrow> u64 \<Rightarrow> wakers \<Rightarrow> wakers \<times> (u64 \<times> waker) list" where
  "dispatch_write e index w =
     (if ev_writable e
      then (w\<lparr>wk_writable := True, wk_writer := None\<rparr>, waiters index (wk_writer w)) else (w, []))"

definition dispatch_wakers :: "event \<Rightarrow> u64 \<Rightarrow> wakers \<Rightarrow> wakers \<times> (u64 \<times> waker) list" where
  "dispatch_wakers e index w =
     (case dispatch_read e index (dispatch_hangup e w) of
        (w, readers) \<Rightarrow> case dispatch_write e index w of (w, writers) \<Rightarrow> (w, readers @ writers))"

definition dispatch_event :: "event \<Rightarrow> (u64 \<Rightarrow> rslot option) \<Rightarrow> (u64 \<Rightarrow> rslot option) \<times> (u64 \<times> waker) list" where
  "dispatch_event e slots =
     (case split_token (ev_token e) of (index, generation) \<Rightarrow>
        case slots index of
          None \<Rightarrow> (slots, [])
        | Some slot \<Rightarrow>
            if rs_generation slot \<noteq> generation then (slots, [])
            else case dispatch_wakers e index (rs_wakers slot) of
                   (w, pending) \<Rightarrow> (slots(index \<mapsto> slot\<lparr>rs_wakers := w\<rparr>), pending))"

fun dispatch_loop :: "event list \<Rightarrow> (u64 \<Rightarrow> rslot option) \<Rightarrow> (u64 \<Rightarrow> rslot option) \<times> (u64 \<times> waker) list" where
  "dispatch_loop [] slots = (slots, [])"
| "dispatch_loop (e # es) slots =
     (case dispatch_event e slots of (slots, pending) \<Rightarrow>
        case dispatch_loop es slots of (slots, rest) \<Rightarrow> (slots, pending @ rest))"

text \<open>\<open>dispatch\<close>: the wakers it invokes, in order, each with the index its wake is routed by.\<close>

definition dispatch :: "event list \<Rightarrow> 'p reactor \<Rightarrow> 'p reactor \<times> (u64 \<times> waker) list" where
  "dispatch es re = (case dispatch_loop es (re_slots re) of (slots, pending) \<Rightarrow> (re\<lparr>re_slots := slots\<rparr>, pending))"

section \<open>What a dispatch does to one slot\<close>

definition events_for :: "u64 \<Rightarrow> u64 \<Rightarrow> event list \<Rightarrow> event list" where
  "events_for index generation es = filter (\<lambda>e. split_token (ev_token e) = (index, generation)) es"

definition any_read :: "event list \<Rightarrow> bool" where
  "any_read es \<longleftrightarrow> (\<exists>e \<in> set es. ev_readable e \<or> ev_hangup e)"

definition any_write :: "event list \<Rightarrow> bool" where
  "any_write es \<longleftrightarrow> (\<exists>e \<in> set es. ev_writable e)"

definition any_hangup :: "event list \<Rightarrow> bool" where
  "any_hangup es \<longleftrightarrow> (\<exists>e \<in> set es. ev_hangup e)"

text \<open>The wakers after all of a slot's own events.\<close>

definition after_events :: "event list \<Rightarrow> wakers \<Rightarrow> wakers" where
  "after_events es w =
     \<lparr>wk_reader = (if any_read es then None else wk_reader w), wk_writer = (if any_write es then None else wk_writer w),
      wk_readable = (wk_readable w \<or> any_read es), wk_writable = (wk_writable w \<or> any_write es),
      wk_hangup = (wk_hangup w \<or> any_hangup es)\<rparr>"

definition woken_by :: "event list \<Rightarrow> wakers \<Rightarrow> waker multiset" where
  "woken_by es w =
     (if any_read es then mset_set (set_option (wk_reader w)) else {#}) +
     (if any_write es then mset_set (set_option (wk_writer w)) else {#})"

definition wakes_of :: "u64 \<Rightarrow> (u64 \<times> waker) list \<Rightarrow> waker multiset" where
  "wakes_of index ps = mset (map snd (filter (\<lambda>p. fst p = index) ps))"

lemma any_simps [simp]:
  "any_read [] = False" "any_write [] = False" "any_hangup [] = False"
  "any_read (e # es) = (ev_readable e \<or> ev_hangup e \<or> any_read es)"
  "any_write (e # es) = (ev_writable e \<or> any_write es)"
  "any_hangup (e # es) = (ev_hangup e \<or> any_hangup es)"
  by (auto simp: any_read_def any_write_def any_hangup_def)

lemma wakes_of_simps [simp]:
  "wakes_of i [] = {#}" "wakes_of i (ps @ qs) = wakes_of i ps + wakes_of i qs"
  "wakes_of i (waiters j w) = (if i = j then mset_set (set_option w) else {#})"
  by (auto simp: wakes_of_def waiters_def split: option.splits)

lemma dispatch_wakers_after:
  "fst (dispatch_wakers e i w) = after_events [e] w" "wakes_of i (snd (dispatch_wakers e i w)) = woken_by [e] w"
  "j \<noteq> i \<Longrightarrow> wakes_of j (snd (dispatch_wakers e i w)) = {#}"
  by (cases w; auto simp: dispatch_wakers_def dispatch_read_def dispatch_write_def dispatch_hangup_def
      after_events_def woken_by_def)+

lemma after_events_Nil [simp]: "after_events [] w = w" "woken_by [] w = {#}"
  by (cases w; simp add: after_events_def woken_by_def)+

lemma after_events_Cons:
  "after_events es (after_events [e] w) = after_events (e # es) w"
  "woken_by [e] w + woken_by es (after_events [e] w) = woken_by (e # es) w"
  by (auto simp: after_events_def woken_by_def)

lemma dispatch_event_slot:
  assumes "dispatch_event e slots = (slots', ps)"
  shows "slots' i = (case slots i of None \<Rightarrow> None
      | Some s \<Rightarrow> Some (s\<lparr>rs_wakers := after_events (events_for i (rs_generation s) [e]) (rs_wakers s)\<rparr>))"
    "wakes_of i ps = (case slots i of None \<Rightarrow> {#} | Some s \<Rightarrow> woken_by (events_for i (rs_generation s) [e]) (rs_wakers s))"
proof -
  obtain k g where t: "split_token (ev_token e) = (k, g)" by fastforce
  let ?slot = "\<lambda>s. s\<lparr>rs_wakers := after_events (events_for i (rs_generation s) [e]) (rs_wakers s)\<rparr>"
  have "slots' i = (case slots i of None \<Rightarrow> None | Some s \<Rightarrow> Some (?slot s)) \<and>
    wakes_of i ps = (case slots i of None \<Rightarrow> {#} | Some s \<Rightarrow> woken_by (events_for i (rs_generation s) [e]) (rs_wakers s))"
  proof (cases "\<exists>s. slots k = Some s \<and> rs_generation s = g")
    case False
    then have "slots' = slots" "ps = []"
      using assms t by (auto simp: dispatch_event_def split: option.splits)
    then show ?thesis
      using False t by (auto simp: events_for_def split: option.splits)
  next
    case True
    then obtain s where s: "slots k = Some s" "rs_generation s = g" by blast
    then have r: "slots' = slots(k \<mapsto> s\<lparr>rs_wakers := after_events [e] (rs_wakers s)\<rparr>)"
      "ps = snd (dispatch_wakers e k (rs_wakers s))"
      using assms t dispatch_wakers_after(1) [of e k "rs_wakers s"] by (auto simp: dispatch_event_def split: prod.splits)
    show ?thesis
    proof (cases "i = k")
      case True
      then show ?thesis using r s t dispatch_wakers_after(2) [of k e "rs_wakers s"] by (simp add: events_for_def)
    next
      case ne: False
      then show ?thesis
        using r t dispatch_wakers_after(3) [OF ne, of e "rs_wakers s"] by (auto simp: events_for_def split: option.splits)
    qed
  qed
  then show "slots' i = (case slots i of None \<Rightarrow> None | Some s \<Rightarrow> Some (?slot s))"
    "wakes_of i ps = (case slots i of None \<Rightarrow> {#} | Some s \<Rightarrow> woken_by (events_for i (rs_generation s) [e]) (rs_wakers s))"
    by blast+
qed

lemma dispatch_loop_slot:
  assumes "dispatch_loop es slots = (slots', ps)"
  shows "slots' i = (case slots i of None \<Rightarrow> None
      | Some s \<Rightarrow> Some (s\<lparr>rs_wakers := after_events (events_for i (rs_generation s) es) (rs_wakers s)\<rparr>)) \<and>
    wakes_of i ps = (case slots i of None \<Rightarrow> {#} | Some s \<Rightarrow> woken_by (events_for i (rs_generation s) es) (rs_wakers s))"
  using assms
proof (induction es arbitrary: slots slots' ps)
  case Nil
  then show ?case using Nil by (auto simp: events_for_def split: option.splits)
next
  case (Cons e es)
  obtain s1 p1 where 1: "dispatch_event e slots = (s1, p1)" by fastforce
  obtain s2 p2 where 2: "dispatch_loop es s1 = (s2, p2)" by fastforce
  have "slots' = s2" "ps = p1 @ p2"
    using Cons.prems 1 2 by auto
  then show ?case
    using Cons.IH [OF 2] dispatch_event_slot [OF 1, of i] after_events_Cons [where e = e]
    by (auto simp: events_for_def split: option.splits)
qed

lemma make_split_token: "make_token (fst (split_token t)) (snd (split_token t)) = t"
proof (rule bit_word_eqI)
  fix n assume "n < LENGTH(64)"
  then show "bit (make_token (fst (split_token t)) (snd (split_token t))) n = bit t n"
    unfolding split_token_def token_mask make_token_def
    by (auto simp: GENERATION_SHIFT_def bit_simps)
qed

lemma split_token_iff:
  assumes "index < 2 ^ 48" "generation < 2 ^ 16"
  shows "split_token t = (index, generation) \<longleftrightarrow> t = make_token index generation"
  using split_make_token [OF assms] make_split_token [of t] by auto

section \<open>Registrations over time\<close>

text \<open>
  A reactor whose registrations come and go while events are dispatched and slots are
  used. \<open>gs_live\<close> and \<open>gs_ended\<close> are the registrations that exist and that were
  dropped, \<open>gs_count\<close> the number of calls of \<open>register\<close>.
\<close>

record 'p reg_sys =
  gs_reactor :: "'p reactor"
  gs_live :: "registration set"
  gs_ended :: "registration set"
  gs_count :: nat

inductive reg_step ::
  "('p \<Rightarrow> int \<Rightarrow> u64 \<Rightarrow> interest \<Rightarrow> 'p \<times> errno option) \<Rightarrow> ('p \<Rightarrow> int \<Rightarrow> 'p \<times> errno option) \<Rightarrow>
   'p reg_sys \<Rightarrow> 'p reg_sys \<Rightarrow> bool"
  for add :: "'p \<Rightarrow> int \<Rightarrow> u64 \<Rightarrow> interest \<Rightarrow> 'p \<times> errno option" and remove :: "'p \<Rightarrow> int \<Rightarrow> 'p \<times> errno option" where
  registered: "register add fd i (gs_reactor s) = (re, Inr r) \<Longrightarrow>
    reg_step add remove s (s\<lparr>gs_reactor := re, gs_live := insert r (gs_live s), gs_count := Suc (gs_count s)\<rparr>)"
| refused: "register add fd i (gs_reactor s) = (re, Inl e) \<Longrightarrow>
    reg_step add remove s (s\<lparr>gs_reactor := re, gs_count := Suc (gs_count s)\<rparr>)"
| ended: "r \<in> gs_live s \<Longrightarrow>
    reg_step add remove s (s\<lparr>gs_reactor := registration_drop remove r (gs_reactor s),
      gs_live := gs_live s - {r}, gs_ended := insert r (gs_ended s)\<rparr>)"
| dispatched: "dispatch es (gs_reactor s) = (re, ps) \<Longrightarrow> reg_step add remove s (s\<lparr>gs_reactor := re\<rparr>)"
| used: "r \<in> gs_live s \<Longrightarrow> re_slots (gs_reactor s) (rg_index r) = Some slot \<Longrightarrow>
    reg_step add remove s (s\<lparr>gs_reactor := (gs_reactor s)\<lparr>re_slots :=
      (re_slots (gs_reactor s))(rg_index r \<mapsto> slot\<lparr>rs_wakers := w\<rparr>)\<rparr>\<rparr>)"

definition reg_start :: "'p reg_sys \<Rightarrow> bool" where
  "reg_start s \<longleftrightarrow> (\<exists>p. s = \<lparr>gs_reactor = reactor_new p, gs_live = {}, gs_ended = {}, gs_count = 0\<rparr>)"

definition reg_ok :: "nat \<Rightarrow> registration \<Rightarrow> bool" where
  "reg_ok n r \<longleftrightarrow> unat (rg_index r) < n \<and> rg_token r = make_token (rg_index r) 1"

definition reg_inv :: "'p reg_sys \<Rightarrow> bool" where
  "reg_inv s \<longleftrightarrow> re_next_index (gs_reactor s) = of_nat (gs_count s) \<and>
     (gs_count s \<le> 2 ^ 48 \<longrightarrow>
        (\<forall>r \<in> gs_live s \<union> gs_ended s. reg_ok (gs_count s) r) \<and>
        (\<forall>r \<in> gs_live s. \<forall>q \<in> gs_ended s. rg_index r \<noteq> rg_index q) \<and> inj_on rg_index (gs_live s) \<and>
        dom (re_slots (gs_reactor s)) = rg_index ` gs_live s \<and>
        (\<forall>i slot. re_slots (gs_reactor s) i = Some slot \<longrightarrow> rs_generation slot = 1))"

lemma reg_ok_mono: "reg_ok n r \<Longrightarrow> reg_ok (Suc n) r"
  by (simp add: reg_ok_def)

lemma unat_count: "n < 2 ^ 48 \<Longrightarrow> unat (of_nat n :: u64) = n"
  by (simp add: unsigned_of_nat take_bit_nat_eq_self)

lemma register_cases:
  assumes "register add fd i re = (re', res)"
  shows "re_next_index re' = re_next_index re + 1 \<and>
    (case res of
       Inl e \<Rightarrow> re_slots re' = (re_slots re)(re_next_index re := None)
     | Inr r \<Rightarrow> r = \<lparr>rg_fd = fd, rg_index = re_next_index re, rg_token = make_token (re_next_index re) 1\<rparr> \<and>
         re_slots re' = (re_slots re)(re_next_index re \<mapsto> \<lparr>rs_generation = 1, rs_wakers = wakers_new\<rparr>))"
  using assms by (auto simp: register_def Let_def split: prod.splits option.splits)

lemma reg_fresh:
  assumes "reg_inv s" "Suc (gs_count s) \<le> 2 ^ 48"
  shows "unat (re_next_index (gs_reactor s)) = gs_count s"
    "q \<in> gs_live s \<union> gs_ended s \<Longrightarrow> rg_index q \<noteq> re_next_index (gs_reactor s)"
proof -
  show n: "unat (re_next_index (gs_reactor s)) = gs_count s"
    using assms unat_count [of "gs_count s"] by (simp add: reg_inv_def)
  assume "q \<in> gs_live s \<union> gs_ended s"
  then have "reg_ok (gs_count s) q"
    using assms unfolding reg_inv_def by simp
  then show "rg_index q \<noteq> re_next_index (gs_reactor s)"
    using n by (auto simp: reg_ok_def)
qed

lemma reg_step_inv: "reg_inv s \<Longrightarrow> reg_step add remove s t \<Longrightarrow> reg_inv t"
proof (rotate_tac, induction rule: reg_step.induct)
  case (registered fd i s re r)
  note c = register_cases [OF registered(1)]
  let ?n = "gs_count s" and ?i = "re_next_index (gs_reactor s)"
  show ?case
  proof (cases "Suc ?n \<le> 2 ^ 48")
    case True
    have inv: "?i = of_nat ?n" "\<forall>r \<in> gs_live s \<union> gs_ended s. reg_ok ?n r"
      using registered(2) True by (auto simp: reg_inv_def)
    note n = reg_fresh(1) [OF registered(2) True] and fresh = reg_fresh(2) [OF registered(2) True]
    have old: "\<forall>r \<in> gs_live s. \<forall>q \<in> gs_ended s. rg_index r \<noteq> rg_index q" "inj_on rg_index (gs_live s)"
      "dom (re_slots (gs_reactor s)) = rg_index ` gs_live s"
      "\<forall>i slot. re_slots (gs_reactor s) i = Some slot \<longrightarrow> rs_generation slot = 1"
      using registered(2) True unfolding reg_inv_def by simp_all
    have r: "rg_index r = ?i" "reg_ok (Suc ?n) r" "re_next_index re = of_nat (Suc ?n)"
      "re_slots re = (re_slots (gs_reactor s))(?i \<mapsto> \<lparr>rs_generation = 1, rs_wakers = wakers_new\<rparr>)"
      using c n inv(1) by (auto simp: reg_ok_def)
    have "\<forall>q \<in> insert r (gs_live s) \<union> gs_ended s. reg_ok (Suc ?n) q"
      using inv(2) r(2) reg_ok_mono by blast
    moreover have "\<forall>q \<in> insert r (gs_live s). \<forall>q' \<in> gs_ended s. rg_index q \<noteq> rg_index q'"
      using old(1) fresh r(1) by force
    moreover have "inj_on rg_index (insert r (gs_live s))"
      using old(2) fresh r(1) by (simp add: inj_on_insert image_iff) force
    moreover have "dom (re_slots re) = rg_index ` insert r (gs_live s)"
      using old(3) r(1,4) by simp
    moreover have "\<forall>i slot. re_slots re i = Some slot \<longrightarrow> rs_generation slot = 1"
      using old(4) r(4) by simp
    ultimately show ?thesis
      using r(3) unfolding reg_inv_def by simp
  next
    case False
    then show ?thesis using registered(2) c by (simp add: reg_inv_def)
  qed
next
  case (refused fd i s re e)
  note c = register_cases [OF refused(1)]
  let ?n = "gs_count s" and ?i = "re_next_index (gs_reactor s)"
  show ?case
  proof (cases "Suc ?n \<le> 2 ^ 48")
    case True
    have "?i \<notin> rg_index ` gs_live s"
      using reg_fresh(2) [OF refused(2) True] by (metis UnI1 imageE)
    moreover have "dom (re_slots (gs_reactor s)) = rg_index ` gs_live s"
      using refused(2) True unfolding reg_inv_def by simp
    ultimately have "re_slots (gs_reactor s) ?i = None"
      by (metis domIff)
    then have "re_slots re = re_slots (gs_reactor s)"
      using c by (auto simp: fun_eq_iff)
    then show ?thesis
      using refused(2) True c by (auto simp: reg_inv_def intro: reg_ok_mono)
  next
    case False
    then show ?thesis using refused(2) c by (simp add: reg_inv_def)
  qed
next
  case (ended r s)
  then show ?case
    by (auto simp: reg_inv_def registration_drop_def inj_on_def split: if_splits)
next
  case (dispatched es s re ps)
  then obtain slots where l: "dispatch_loop es (re_slots (gs_reactor s)) = (slots, ps)"
    "re = (gs_reactor s)\<lparr>re_slots := slots\<rparr>"
    by (auto simp: dispatch_def split: prod.splits)
  then have "dom slots = dom (re_slots (gs_reactor s))"
    "slots i = Some x \<Longrightarrow> \<exists>y. re_slots (gs_reactor s) i = Some y \<and> rs_generation x = rs_generation y" for i x
    using dispatch_loop_slot [OF l(1)] by (auto simp: dom_def split: option.splits)
  then show ?case
    using dispatched(2) l(2) by (fastforce simp: reg_inv_def)
next
  case (used r s slot w)
  then show ?case
    by (auto simp: reg_inv_def insert_absorb split: if_splits)
qed

interpretation registrations: invariant_system reg_start "reg_step add remove" reg_inv for add remove
proof unfold_locales
  show "reg_inv s" if "reg_start s" for s :: "'a reg_sys"
    using that by (auto simp: reg_start_def reg_inv_def reactor_new_def)
qed (rule reg_step_inv)

section \<open>Properties\<close>

text \<open>
  C19: Dispatching a batch of events, in every reachable state with fewer than \<open>2 ^ 48\<close>
  registrations so far: each live registration's slot is changed by exactly the
  events that carry its token, however they are ordered and mixed with others;
  exactly the reader and the writer that those events concern are woken, once each,
  and are no longer parked; and the token of a registration that was dropped finds
  no slot and wakes nobody, although other registrations came after it.
\<close>

theorem reactor_dispatch_exact:
  assumes "reach reg_start (reg_step add remove) s" "gs_count s \<le> 2 ^ 48" "dispatch es (gs_reactor s) = (re, ps)"
  shows "(\<forall>r \<in> gs_live s. \<exists>slot. re_slots (gs_reactor s) (rg_index r) = Some slot \<and>
      (let own = filter (\<lambda>e. ev_token e = rg_token r) es in
         re_slots re (rg_index r) = Some (slot\<lparr>rs_wakers := after_events own (rs_wakers slot)\<rparr>) \<and>
         wakes_of (rg_index r) ps = woken_by own (rs_wakers slot))) \<and>
    (\<forall>r \<in> gs_ended s. re_slots re (rg_index r) = None \<and> wakes_of (rg_index r) ps = {#})"
proof -
  have inv: "reg_inv s" using registrations.reach_inv [OF assms(1)] .
  obtain slots where l: "dispatch_loop es (re_slots (gs_reactor s)) = (slots, ps)" "re_slots re = slots"
    using assms(3) by (auto simp: dispatch_def split: prod.splits)
  have tok: "events_for (rg_index r) 1 es = filter (\<lambda>e. ev_token e = rg_token r) es" if "r \<in> gs_live s" for r
  proof -
    have "reg_ok (gs_count s) r"
      using inv assms(2) that unfolding reg_inv_def by blast
    then have "unat (rg_index r) < 2 ^ 48" "rg_token r = make_token (rg_index r) 1"
      using assms(2) by (auto simp: reg_ok_def)
    then show ?thesis
      using split_token_iff [of "rg_index r" 1] by (simp add: events_for_def word_less_nat_alt)
  qed
  have live: "dom (re_slots (gs_reactor s)) = rg_index ` gs_live s"
    "\<And>i slot. re_slots (gs_reactor s) i = Some slot \<Longrightarrow> rs_generation slot = 1"
    "\<And>r q. r \<in> gs_live s \<Longrightarrow> q \<in> gs_ended s \<Longrightarrow> rg_index r \<noteq> rg_index q"
    using inv assms(2) unfolding reg_inv_def by blast+
  then have "\<exists>slot. re_slots (gs_reactor s) (rg_index r) = Some slot \<and> rs_generation slot = 1" if "r \<in> gs_live s" for r
    using that by (metis domD imageI)
  moreover have "re_slots (gs_reactor s) (rg_index r) = None" if "r \<in> gs_ended s" for r
    using that live(1,3) by (metis domIff imageE)
  ultimately show ?thesis
    using dispatch_loop_slot [OF l(1)] l(2) tok by (fastforce simp: Let_def)
qed

text \<open>
  Two registrations, the first already dropped; its late event comes between two
  events of the second, whose reader is parked.
\<close>

definition demo_add :: "unit \<Rightarrow> int \<Rightarrow> u64 \<Rightarrow> interest \<Rightarrow> unit \<times> errno option" where
  "demo_add p fd token i = ((), None)"

definition demo_remove :: "unit \<Rightarrow> int \<Rightarrow> unit \<times> errno option" where
  "demo_remove p fd = ((), None)"

definition demo_reg :: "int \<Rightarrow> u64 \<Rightarrow> registration" where
  "demo_reg fd i = \<lparr>rg_fd = fd, rg_index = i, rg_token = make_token i 1\<rparr>"

definition demo_parked :: rslot where
  "demo_parked = \<lparr>rs_generation = 1, rs_wakers = wakers_new\<lparr>wk_readable := False, wk_reader := Some 9\<rparr>\<rparr>"

definition demo_sys :: "unit reg_sys" where
  "demo_sys = \<lparr>gs_reactor = \<lparr>re_poller = (), re_slots = [1 \<mapsto> demo_parked], re_next_index = 2, re_running = True,
     re_next_deadline = NO_DEADLINE\<rparr>, gs_live = {demo_reg 8 1}, gs_ended = {demo_reg 7 0}, gs_count = 2\<rparr>"

definition demo_events :: "event list" where
  "demo_events = [
     \<lparr>ev_token = make_token 1 1, ev_readable = False, ev_writable = True, ev_hangup = False\<rparr>,
     \<lparr>ev_token = make_token 0 1, ev_readable = True, ev_writable = True, ev_hangup = True\<rparr>,
     \<lparr>ev_token = make_token 1 1, ev_readable = True, ev_writable = False, ev_hangup = False\<rparr>]"

lemma demo_sys_reach: "reach reg_start (reg_step demo_add demo_remove) demo_sys"
proof -
  note go = reach.reach_step [where init = reg_start and step = "reg_step demo_add demo_remove"]
  let ?R = "reach reg_start (reg_step demo_add demo_remove)"
  let ?slot = "\<lparr>rs_generation = 1, rs_wakers = wakers_new\<rparr>"
  let ?re = "\<lambda>slots n. \<lparr>re_poller = (), re_slots = slots, re_next_index = n, re_running = True,
    re_next_deadline = NO_DEADLINE\<rparr>"
  let ?s = "\<lambda>slots (n :: u64) live ended c. \<lparr>gs_reactor = ?re slots n, gs_live = live, gs_ended = ended, gs_count = c\<rparr>"
  have "?R (?s Map.empty 0 {} {} 0)"
    by (rule reach.reach_init) (simp add: reg_start_def reactor_new_def)
  then have "?R (?s [0 \<mapsto> ?slot] 1 {demo_reg 7 0} {} 1)"
    by (rule go) (use reg_step.registered [of demo_add 7 BOTH "?s Map.empty 0 {} {} 0" "?re [0 \<mapsto> ?slot] 1" "demo_reg 7 0"] in
        \<open>simp add: register_def demo_add_def demo_reg_def\<close>)
  then have "?R (?s [0 \<mapsto> ?slot, 1 \<mapsto> ?slot] 2 {demo_reg 8 1, demo_reg 7 0} {} 2)"
    by (rule go) (use reg_step.registered [of demo_add 8 BOTH "?s [0 \<mapsto> ?slot] 1 {demo_reg 7 0} {} 1"
          "?re [0 \<mapsto> ?slot, 1 \<mapsto> ?slot] 2" "demo_reg 8 1"] in
        \<open>simp add: register_def demo_add_def demo_reg_def numeral_2_eq_2\<close>)
  then have "?R (?s [1 \<mapsto> ?slot] 2 {demo_reg 8 1} {demo_reg 7 0} 2)"
  proof (rule go)
    have "([0 :: u64 \<mapsto> ?slot, 1 \<mapsto> ?slot])(0 := None) = [1 \<mapsto> ?slot]" by (auto simp: fun_eq_iff)
    moreover have "{demo_reg 8 1, demo_reg 7 0} - {demo_reg 7 0} = {demo_reg 8 1}" by (auto simp: demo_reg_def)
    ultimately show "reg_step demo_add demo_remove (?s [0 \<mapsto> ?slot, 1 \<mapsto> ?slot] 2 {demo_reg 8 1, demo_reg 7 0} {} 2)
        (?s [1 \<mapsto> ?slot] 2 {demo_reg 8 1} {demo_reg 7 0} 2)"
      using reg_step.ended [of "demo_reg 7 0" "?s [0 \<mapsto> ?slot, 1 \<mapsto> ?slot] 2 {demo_reg 8 1, demo_reg 7 0} {} 2"
          demo_add demo_remove]
      by (simp add: registration_drop_def demo_remove_def demo_reg_def del: fun_upd_apply)
  qed
  then show ?thesis
  proof (rule go)
    show "reg_step demo_add demo_remove (?s [1 \<mapsto> ?slot] 2 {demo_reg 8 1} {demo_reg 7 0} 2) demo_sys"
      using reg_step.used [of "demo_reg 8 1" "?s [1 \<mapsto> ?slot] 2 {demo_reg 8 1} {demo_reg 7 0} 2" ?slot
          demo_add demo_remove "rs_wakers demo_parked"]
      by (simp add: demo_sys_def demo_parked_def demo_reg_def)
  qed
qed

theorem reactor_dispatch_exact_witness:
  "\<exists>re ps. dispatch demo_events (gs_reactor demo_sys) = (re, ps) \<and> wakes_of 1 ps = {#9#} \<and> wakes_of 0 ps = {#} \<and>
    re_slots re 0 = None \<and>
    re_slots re 1 = Some (demo_parked\<lparr>rs_wakers := wakers_new\<lparr>wk_readable := True, wk_reader := None\<rparr>\<rparr>)"
proof -
  obtain re ps where d: "dispatch demo_events (gs_reactor demo_sys) = (re, ps)" by fastforce
  have ne: "make_token 0 1 \<noteq> make_token 1 1"
    using split_make_token [of 0 1] split_make_token [of 1 1] by auto
  show ?thesis
    using reactor_dispatch_exact [OF demo_sys_reach _ d] d ne
    by (auto simp: demo_sys_def demo_reg_def demo_events_def demo_parked_def Let_def after_events_def woken_by_def wakers_new_def)
qed

end
