(* ===== verification/TimerHeap.thy ===== *)
theory TimerHeap
  imports Prelude "HOL-Library.Multiset"
begin

text \<open>
  The indexed binary heap of the timer registry (\<open>src/src/time.rs\<close>, \<open>Entry\<close>,
  \<open>TimerHeap\<close>): every operation with its index maintenance, proved to implement a
  priority queue of entries from which any entry can be removed through the index
  its slot stores.
\<close>

section \<open>Data and operations\<close>

text \<open>
  A slot is shared by a \<open>Sleep\<close> and its entry, so an entry refers to it by its
  number; the slots' \<open>index\<close> fields, which only the holder of the registry lock
  reads or writes, are part of the heap's state. \<open>None\<close> is \<open>NOT_QUEUED\<close>.
\<close>

record entry =
  e_deadline :: u64
  e_seq :: u64
  e_slot :: nat

record timer_heap =
  h_entries :: "entry list"
  h_index :: "nat \<Rightarrow> nat option"

text \<open>\<open>Ord\<close> for entries, reversed: the greatest entry has the earliest deadline.\<close>

definition entry_lt :: "entry \<Rightarrow> entry \<Rightarrow> bool" where
  "entry_lt a b \<longleftrightarrow> e_deadline b < e_deadline a \<or> e_deadline b = e_deadline a \<and> e_seq b < e_seq a"

definition entry_le :: "entry \<Rightarrow> entry \<Rightarrow> bool" where
  "entry_le a b \<longleftrightarrow> entry_lt a b \<or> (e_deadline a, e_seq a) = (e_deadline b, e_seq b)"

definition heap_empty :: timer_heap where
  "heap_empty = \<lparr>h_entries = [], h_index = (\<lambda>_. None)\<rparr>"

definition heap_peek :: "timer_heap \<Rightarrow> entry option" where
  "heap_peek h = first_or (h_entries h) None"

definition heap_swap :: "timer_heap \<Rightarrow> nat \<Rightarrow> nat \<Rightarrow> timer_heap option" where
  "heap_swap h a b =
     (if a < length (h_entries h) \<and> b < length (h_entries h)
      then let es = (h_entries h)[a := h_entries h ! b, b := h_entries h ! a]
           in Some \<lparr>h_entries = es,
                h_index = (h_index h)(e_slot (es ! a) := Some a, e_slot (es ! b) := Some b)\<rparr>
      else None)"

lemma heap_swap_length:
  "heap_swap h a b = Some h' \<Longrightarrow> length (h_entries h') = length (h_entries h)"
  by (auto simp: heap_swap_def Let_def split: if_splits)

lemma heap_swap_Some:
  "a < length (h_entries h) \<Longrightarrow> b < length (h_entries h) \<Longrightarrow> \<exists>h'. heap_swap h a b = Some h'"
  by (simp add: heap_swap_def Let_def)

function sift_up :: "timer_heap \<Rightarrow> nat \<Rightarrow> timer_heap option" where
  "sift_up h i =
     (if i = 0 then Some h
      else if length (h_entries h) \<le> i then None
      else let parent = (i - 1) div 2 in
        if entry_le (h_entries h ! i) (h_entries h ! parent) then Some h
        else do { h \<leftarrow> heap_swap h i parent; sift_up h parent })"
  by auto
termination
  by (relation "measure snd") auto

function sift_down :: "timer_heap \<Rightarrow> nat \<Rightarrow> timer_heap option" where
  "sift_down h i =
     (if i < length (h_entries h) div 2
      then let left = 2 * i + 1; right = left + 1;
               child = (if right < length (h_entries h) \<and>
                          entry_lt (h_entries h ! left) (h_entries h ! right) then right else left)
           in if entry_le (h_entries h ! child) (h_entries h ! i) then Some h
              else do { h \<leftarrow> heap_swap h i child; sift_down h child }
      else Some h)"
  by auto
termination
  by (relation "measure (\<lambda>(h, i). length (h_entries h) - i)") (auto dest!: heap_swap_length)

declare sift_up.simps [simp del] sift_down.simps [simp del]

definition heap_push :: "timer_heap \<Rightarrow> entry \<Rightarrow> timer_heap option" where
  "heap_push h e =
     (let i = length (h_entries h) in
      sift_up \<lparr>h_entries = h_entries h @ [e], h_index = (h_index h)(e_slot e := Some i)\<rparr> i)"

text \<open>\<open>Vec::swap_remove\<close>: the last element takes the place of the removed one.\<close>

definition swap_remove :: "'a list \<Rightarrow> nat \<Rightarrow> 'a list" where
  "swap_remove xs i = butlast (xs[i := last xs])"

definition heap_remove :: "timer_heap \<Rightarrow> nat \<Rightarrow> (timer_heap \<times> entry) option" where
  "heap_remove h i =
     (if i < length (h_entries h)
      then let e = h_entries h ! i;
               es = swap_remove (h_entries h) i;
               h = \<lparr>h_entries = es, h_index = (h_index h)(e_slot e := None)\<rparr>
           in do {
             h \<leftarrow> (if i < length es
                   then let h = h\<lparr>h_index := (h_index h)(e_slot (es ! i) := Some i)\<rparr> in
                     if 0 < i \<and> entry_lt (es ! ((i - 1) div 2)) (es ! i) then sift_up h i else sift_down h i
                   else Some h);
             Some (h, e)
           }
      else None)"

definition heap_pop :: "timer_heap \<Rightarrow> (timer_heap \<times> entry option) option" where
  "heap_pop h =
     (if h_entries h = [] then Some (h, None)
      else do { (h, e) \<leftarrow> heap_remove h 0; Some (h, Some e) })"

section \<open>Order\<close>

text \<open>Deadline first, then registration order, as one number.\<close>

definition prio :: "entry \<Rightarrow> nat" where
  "prio e = unat (e_deadline e) * 2 ^ 64 + unat (e_seq e)"

lemma lex_number:
  fixes a b c d :: nat
  assumes "b < N" "d < N"
  shows "a * N + b < c * N + d \<longleftrightarrow> a < c \<or> a = c \<and> b < d"
proof -
  have "a * N + b < c * N + d" if "a < c"
  proof -
    have "Suc a * N \<le> c * N" using that by (intro mult_le_mono1) simp
    then show ?thesis using assms(1) by simp
  qed
  moreover have "c * N + d < a * N + b" if "c < a"
  proof -
    have "Suc c * N \<le> a * N" using that by (intro mult_le_mono1) simp
    then show ?thesis using assms(2) by simp
  qed
  ultimately show ?thesis
    by (metis add_less_cancel_left linorder_neqE_nat not_less_iff_gr_or_eq)
qed

lemma unat_u64_less: "unat (w :: u64) < 2 ^ 64"
  using unsigned_less [of w] by simp

lemma entry_lt_prio: "entry_lt a b \<longleftrightarrow> prio b < prio a"
  unfolding entry_lt_def prio_def lex_number [OF unat_u64_less unat_u64_less]
  by (auto simp: word_less_nat_alt word_unat_eq_iff)

lemma entry_le_prio: "entry_le a b \<longleftrightarrow> prio b \<le> prio a"
proof -
  have "\<not> entry_lt b a \<longleftrightarrow> entry_le a b"
    by (auto simp: entry_le_def entry_lt_def)
  then show ?thesis
    by (auto simp: entry_lt_prio)
qed

lemma prio_deadline: "prio a \<le> prio b \<Longrightarrow> e_deadline a \<le> e_deadline b"
  using entry_le_prio [of b a] by (auto simp: entry_le_def entry_lt_def)

section \<open>Well-formed heaps\<close>

text \<open>Every slot with a stored index is the slot of the entry there, and every entry's slot has its index.\<close>

definition indexed :: "timer_heap \<Rightarrow> bool" where
  "indexed h \<longleftrightarrow>
     (\<forall>i < length (h_entries h). h_index h (e_slot (h_entries h ! i)) = Some i) \<and>
     (\<forall>s i. h_index h s = Some i \<longrightarrow> i < length (h_entries h) \<and> e_slot (h_entries h ! i) = s)"

definition ordered_at :: "entry list \<Rightarrow> nat \<Rightarrow> bool" where
  "ordered_at es i \<longleftrightarrow> prio (es ! ((i - 1) div 2)) \<le> prio (es ! i)"

definition heap_ordered :: "entry list \<Rightarrow> bool" where
  "heap_ordered es \<longleftrightarrow> (\<forall>i. 0 < i \<longrightarrow> i < length es \<longrightarrow> ordered_at es i)"

definition heap_inv :: "timer_heap \<Rightarrow> bool" where
  "heap_inv h \<longleftrightarrow> indexed h \<and> heap_ordered (h_entries h)"

lemma indexed_swap:
  assumes "indexed h" "heap_swap h a b = Some h'"
  shows "indexed h'" "mset (h_entries h') = mset (h_entries h)"
    "h_entries h' = (h_entries h)[a := h_entries h ! b, b := h_entries h ! a]"
proof -
  let ?es = "h_entries h"
  let ?fs = "?es[a := ?es ! b, b := ?es ! a]"
  have ab: "a < length ?es" "b < length ?es"
    and h': "h' = \<lparr>h_entries = ?fs, h_index = (h_index h)(e_slot (?fs ! a) := Some a, e_slot (?fs ! b) := Some b)\<rparr>"
    using assms(2) by (auto simp: heap_swap_def Let_def split: if_splits)
  then show "mset (h_entries h') = mset ?es" "h_entries h' = ?fs"
    by (simp_all add: mset_swap)
  have fs: "?fs ! a = ?es ! b" "?fs ! b = ?es ! a" "\<And>i. i \<noteq> a \<Longrightarrow> i \<noteq> b \<Longrightarrow> ?fs ! i = ?es ! i"
    using ab by (auto simp: nth_list_update)
  have inj: "e_slot (?es ! i) = e_slot (?es ! j) \<longleftrightarrow> i = j" if "i < length ?es" "j < length ?es" for i j
    using assms(1) that by (metis indexed_def option.inject)
  show "indexed h'"
    unfolding indexed_def
  proof (intro conjI allI impI)
    fix i
    assume "i < length (h_entries h')"
    then have i: "i < length ?es" using h' by simp
    consider "i = a" | "i = b" "i \<noteq> a" | "i \<noteq> a" "i \<noteq> b" by blast
    then show "h_index h' (e_slot (h_entries h' ! i)) = Some i"
    proof cases
      case 3
      then show ?thesis
        using assms(1) h' i ab inj [OF i ab(1)] inj [OF i ab(2)] fs by (simp add: indexed_def)
    qed (use h' ab inj fs in auto)
  next
    fix s i
    assume si: "h_index h' s = Some i"
    consider "s = e_slot (?es ! a)" | "s = e_slot (?es ! b)" "s \<noteq> e_slot (?es ! a)"
      | "s \<noteq> e_slot (?es ! a)" "s \<noteq> e_slot (?es ! b)" by blast
    then have "i < length ?es \<and> e_slot (?fs ! i) = s"
    proof cases
      case 3
      then have "h_index h s = Some i" using si h' fs by simp
      then have "i < length ?es" "e_slot (?es ! i) = s" using assms(1) by (auto simp: indexed_def)
      then show "i < length ?es \<and> e_slot (?fs ! i) = s" using 3 fs by metis
    qed (use si h' ab fs in \<open>auto split: if_splits\<close>)
    then show "i < length (h_entries h')" "e_slot (h_entries h' ! i) = s"
      using h' by simp_all
  qed
qed

text \<open>
  A heap except that the entry at \<open>k\<close> may be too early for its parent, or too late
  for its children; in both cases the children of \<open>k\<close> are in order with its parent.
\<close>

definition grand_ok :: "entry list \<Rightarrow> nat \<Rightarrow> bool" where
  "grand_ok es k \<longleftrightarrow> (\<forall>c. 0 < k \<longrightarrow> 0 < c \<longrightarrow> c < length es \<longrightarrow> (c - 1) div 2 = k \<longrightarrow>
     prio (es ! ((k - 1) div 2)) \<le> prio (es ! c))"

definition up_ok :: "entry list \<Rightarrow> nat \<Rightarrow> bool" where
  "up_ok es k \<longleftrightarrow> (\<forall>i. 0 < i \<longrightarrow> i < length es \<longrightarrow> i \<noteq> k \<longrightarrow> ordered_at es i) \<and> grand_ok es k"

definition down_ok :: "entry list \<Rightarrow> nat \<Rightarrow> bool" where
  "down_ok es k \<longleftrightarrow> (\<forall>i. 0 < i \<longrightarrow> i < length es \<longrightarrow> (i - 1) div 2 \<noteq> k \<longrightarrow> ordered_at es i) \<and> grand_ok es k"

lemma up_ok_done: "up_ok es k \<Longrightarrow> k = 0 \<or> ordered_at es k \<Longrightarrow> heap_ordered es"
  by (auto simp: up_ok_def heap_ordered_def)

lemma up_ok_swap:
  assumes up: "up_ok es k" and k: "0 < k" "k < length es" and bad: "\<not> ordered_at es k"
  shows "up_ok (es[k := es ! ((k - 1) div 2), (k - 1) div 2 := es ! k]) ((k - 1) div 2)" (is "up_ok ?fs ?p")
proof -
  have p: "?p < k" "?p < length es" using k by auto
  have fs: "?fs ! k = es ! ?p" "?fs ! ?p = es ! k" "\<And>i. i \<noteq> k \<Longrightarrow> i \<noteq> ?p \<Longrightarrow> ?fs ! i = es ! i"
    using k p by (auto simp: nth_list_update)
  have less: "prio (es ! k) < prio (es ! ?p)" using bad by (simp add: ordered_at_def)
  have ord: "ordered_at es i" if "0 < i" "i < length es" "i \<noteq> k" for i
    using up that by (auto simp: up_ok_def)
  have "ordered_at ?fs i" if i: "0 < i" "i < length es" "i \<noteq> ?p" for i
  proof (cases "i = k")
    case True
    then show ?thesis using fs less by (simp add: ordered_at_def)
  next
    case False
    note old = ord [OF i(1,2) False]
    consider "(i - 1) div 2 = k" | "(i - 1) div 2 = ?p" | "(i - 1) div 2 \<noteq> k" "(i - 1) div 2 \<noteq> ?p" by blast
    then show ?thesis
    proof cases
      case 1
      then have "prio (es ! ?p) \<le> prio (es ! i)"
        using up k(1) i by (auto simp: up_ok_def grand_ok_def)
      then show ?thesis using 1 fs False i(3) by (simp add: ordered_at_def)
    next
      case 2
      then have "prio (es ! ?p) \<le> prio (es ! i)" using old by (simp add: ordered_at_def)
      then show ?thesis using 2 fs False i(3) less by (simp add: ordered_at_def)
    next
      case 3
      then show ?thesis using old fs False i(3) by (simp add: ordered_at_def)
    qed
  qed
  moreover have "grand_ok ?fs ?p"
    unfolding grand_ok_def
  proof (intro allI impI)
    fix c
    assume c: "0 < ?p" "0 < c" "c < length ?fs" "(c - 1) div 2 = ?p"
    let ?g = "(?p - 1) div 2"
    have "?g \<noteq> k" "?g \<noteq> ?p" using c(1) p by linarith+
    then have g: "?fs ! ?g = es ! ?g" using fs(3) by blast
    have gp: "prio (es ! ?g) \<le> prio (es ! ?p)"
      using ord [of ?p] c(1) p by (simp add: ordered_at_def)
    show "prio (?fs ! ?g) \<le> prio (?fs ! c)"
    proof (cases "c = k")
      case True
      then show ?thesis using fs g gp by simp
    next
      case False
      then have "prio (es ! ?p) \<le> prio (es ! c)"
        using ord [of c] c by (simp add: ordered_at_def)
      moreover have "c \<noteq> ?p" using c(2,4) by linarith
      then have "?fs ! c = es ! c" using fs(3) False by blast
      ultimately show ?thesis using g gp by simp
    qed
  qed
  ultimately show ?thesis by (simp add: up_ok_def)
qed

lemma sift_up_correct:
  assumes "indexed h" "up_ok (h_entries h) i" "i = 0 \<or> i < length (h_entries h)"
  shows "\<exists>h'. sift_up h i = Some h' \<and> heap_inv h' \<and> mset (h_entries h') = mset (h_entries h)"
  using assms
proof (induction h i rule: sift_up.induct)
  case (1 h i)
  let ?p = "(i - 1) div 2"
  show ?case
  proof (cases "i = 0 \<or> entry_le (h_entries h ! i) (h_entries h ! ?p)")
    case True
    then have "heap_ordered (h_entries h)"
      using up_ok_done [OF 1(3)] by (auto simp: ordered_at_def entry_le_prio)
    then show ?thesis
      using True 1(2,4) by (auto simp: sift_up.simps [of h i] heap_inv_def)
  next
    case False
    then have i: "0 < i" "i < length (h_entries h)" "\<not> entry_le (h_entries h ! i) (h_entries h ! ?p)"
      using 1(4) by auto
    have "?p < length (h_entries h)"
      using i by linarith
    then obtain h1 where h1: "heap_swap h i ?p = Some h1"
      using heap_swap_Some [OF i(2)] by blast
    note sw = indexed_swap [OF 1(2) h1]
    have "up_ok (h_entries h1) ?p"
      using up_ok_swap [OF 1(3) i(1,2)] i(3) sw(3) by (simp add: ordered_at_def entry_le_prio)
    moreover have "?p < length (h_entries h1)"
      using heap_swap_length [OF h1] i by simp
    ultimately obtain h' where "sift_up h1 ?p = Some h'" "heap_inv h'"
      "mset (h_entries h') = mset (h_entries h1)"
      using 1(1) [of ?p h1] i h1 sw(1) by auto
    then show ?thesis
      using i h1 sw(2) by (simp add: sift_up.simps [of h i] Let_def)
  qed
qed

lemma down_ok_done:
  assumes "down_ok es k"
    and "\<And>c. 0 < c \<Longrightarrow> c < length es \<Longrightarrow> (c - 1) div 2 = k \<Longrightarrow> prio (es ! k) \<le> prio (es ! c)"
  shows "heap_ordered es"
  unfolding heap_ordered_def
proof (intro allI impI)
  fix i
  assume "0 < i" "i < length es"
  then show "ordered_at es i"
    using assms by (cases "(i - 1) div 2 = k") (auto simp: down_ok_def ordered_at_def)
qed

lemma child_cases: "0 < c \<Longrightarrow> (c - 1) div 2 = k \<longleftrightarrow> c = 2 * k + 1 \<or> c = 2 * k + 2" for c k :: nat
  by auto

lemma down_ok_swap:
  assumes dn: "down_ok es k" and c: "0 < c" "c < length es" "(c - 1) div 2 = k"
    and small: "prio (es ! c) < prio (es ! k)"
    and least: "\<And>d. 0 < d \<Longrightarrow> d < length es \<Longrightarrow> (d - 1) div 2 = k \<Longrightarrow> prio (es ! c) \<le> prio (es ! d)"
  shows "down_ok (es[k := es ! c, c := es ! k]) c" (is "down_ok ?fs c")
proof -
  have k: "k < c" "k < length es" using c by auto
  have fs: "?fs ! k = es ! c" "?fs ! c = es ! k" "\<And>i. i \<noteq> k \<Longrightarrow> i \<noteq> c \<Longrightarrow> ?fs ! i = es ! i"
    using k c by (auto simp: nth_list_update)
  have ord: "ordered_at es i" if "0 < i" "i < length es" "(i - 1) div 2 \<noteq> k" for i
    using dn that by (auto simp: down_ok_def)
  have "ordered_at ?fs i" if i: "0 < i" "i < length es" "(i - 1) div 2 \<noteq> c" for i
  proof -
    consider "i = c" | "i = k" "i \<noteq> c" | "i \<noteq> k" "i \<noteq> c" "(i - 1) div 2 = k" | "i \<noteq> k" "i \<noteq> c" "(i - 1) div 2 \<noteq> k"
      by blast
    then show ?thesis
    proof cases
      case 1
      then show ?thesis using fs c(3) small by (simp add: ordered_at_def)
    next
      case 2
      have "(k - 1) div 2 \<noteq> k" "(k - 1) div 2 \<noteq> c" using 2 i(1) k(1) by auto
      moreover have "prio (es ! ((k - 1) div 2)) \<le> prio (es ! c)"
        using dn c 2 i(1) by (auto simp: down_ok_def grand_ok_def)
      ultimately show ?thesis using 2 fs by (simp add: ordered_at_def)
    next
      case 3
      then show ?thesis using fs least [of i] i by (simp add: ordered_at_def)
    next
      case 4
      then show ?thesis using ord [of i] fs i by (simp add: ordered_at_def)
    qed
  qed
  moreover have "grand_ok ?fs c"
    unfolding grand_ok_def
  proof (intro allI impI)
    fix d
    assume d: "0 < c" "0 < d" "d < length ?fs" "(d - 1) div 2 = c"
    then have "d \<noteq> c" "d \<noteq> k" "(d - 1) div 2 \<noteq> k" using k by auto
    then have "prio (es ! c) \<le> prio (es ! d)" "?fs ! d = es ! d"
      using ord [of d] d fs(3) by (simp_all add: ordered_at_def)
    then show "prio (?fs ! ((c - 1) div 2)) \<le> prio (?fs ! d)"
      using c(3) fs(1) by simp
  qed
  ultimately show ?thesis by (simp add: down_ok_def)
qed

lemma sift_down_correct:
  assumes "indexed h" "down_ok (h_entries h) i"
  shows "\<exists>h'. sift_down h i = Some h' \<and> heap_inv h' \<and> mset (h_entries h') = mset (h_entries h)"
  using assms
proof (induction h i rule: sift_down.induct)
  case (1 h i)
  let ?es = "h_entries h"
  define c where "c = (if 2 * i + 1 + 1 < length ?es \<and> entry_lt (?es ! (2 * i + 1)) (?es ! (2 * i + 1 + 1))
    then 2 * i + 1 + 1 else 2 * i + 1)"
  have eq: "sift_down h i = (if i < length ?es div 2 then
      (if entry_le (?es ! c) (?es ! i) then Some h else do { h \<leftarrow> heap_swap h i c; sift_down h c }) else Some h)"
    unfolding sift_down.simps [of h i] c_def by (simp add: Let_def)
  show ?case
  proof (cases "i < length ?es div 2")
    case False
    have "heap_ordered ?es"
      using False by (intro down_ok_done [OF 1(3)]) auto
    then show ?thesis
      using eq False 1(2) by (simp add: heap_inv_def)
  next
    case True
    have c: "0 < c" "c < length ?es" "(c - 1) div 2 = i"
      using True by (auto simp: c_def)
    have least: "prio (?es ! c) \<le> prio (?es ! d)" if "0 < d" "d < length ?es" "(d - 1) div 2 = i" for d
    proof -
      have "d = 2 * i + 1 \<or> d = 2 * i + 2"
        using that child_cases by blast
      then show ?thesis
        using that(2) by (auto simp: c_def entry_lt_prio not_less)
    qed
    show ?thesis
    proof (cases "entry_le (?es ! c) (?es ! i)")
      case stop: True
      have "heap_ordered ?es"
        by (rule down_ok_done [OF 1(3)])
          (metis stop entry_le_prio least order_trans)
      then show ?thesis
        using eq True stop 1(2) by (simp add: heap_inv_def)
    next
      case go: False
      have "i < length ?es"
        using True by linarith
      then obtain h1 where h1: "heap_swap h i c = Some h1"
        using heap_swap_Some [OF _ c(2)] by blast
      note sw = indexed_swap [OF 1(2) h1]
      have "down_ok (h_entries h1) c"
        using down_ok_swap [OF 1(3) c _ least] go sw(3) by (simp add: entry_le_prio)
      then obtain h' where "sift_down h1 c = Some h'" "heap_inv h'"
        "mset (h_entries h') = mset (h_entries h1)"
        using 1(1) [OF True refl refl c_def go h1 sw(1)] by blast
      then show ?thesis
        using eq True go h1 sw(2) by simp
    qed
  qed
qed

section \<open>The operations\<close>

lemma heap_push_correct:
  assumes inv: "heap_inv h" and fresh: "h_index h (e_slot e) = None"
  shows "\<exists>h'. heap_push h e = Some h' \<and> heap_inv h' \<and>
    mset (h_entries h') = add_mset e (mset (h_entries h))"
proof -
  let ?es = "h_entries h"
  let ?h = "\<lparr>h_entries = ?es @ [e], h_index = (h_index h)(e_slot e := Some (length ?es))\<rparr>"
  have new: "e_slot (?es ! i) \<noteq> e_slot e" if "i < length ?es" for i
    using inv fresh that unfolding heap_inv_def indexed_def by (metis option.distinct(1))
  have "indexed ?h"
    using inv new by (auto simp: heap_inv_def indexed_def nth_append less_Suc_eq)
  moreover have "up_ok (?es @ [e]) (length ?es)"
    using inv by (auto simp: up_ok_def grand_ok_def heap_inv_def heap_ordered_def ordered_at_def nth_append)
  ultimately obtain h' where "sift_up ?h (length ?es) = Some h'" "heap_inv h'"
    "mset (h_entries h') = mset (?es @ [e])"
    using sift_up_correct [of ?h "length ?es"] by auto
  then show ?thesis
    by (simp add: heap_push_def)
qed

lemma swap_remove_simps:
  assumes "i < length xs"
  shows "length (swap_remove xs i) = length xs - 1"
    and "j < length xs - 1 \<Longrightarrow> swap_remove xs i ! j = (if j = i then last xs else xs ! j)"
    and "add_mset (xs ! i) (mset (swap_remove xs i)) = mset xs"
proof -
  show "length (swap_remove xs i) = length xs - 1"
    by (simp add: swap_remove_def)
  show "j < length xs - 1 \<Longrightarrow> swap_remove xs i ! j = (if j = i then last xs else xs ! j)"
    by (auto simp: swap_remove_def nth_butlast nth_list_update)
  obtain ys z where xs: "xs = ys @ [z]"
    using assms by (cases xs rule: rev_cases) auto
  show "add_mset (xs ! i) (mset (swap_remove xs i)) = mset xs"
  proof (cases "i < length ys")
    case True
    then have "swap_remove xs i = ys[i := z]"
      by (simp add: swap_remove_def xs list_update_append butlast_append)
    moreover have "add_mset (ys ! i) (mset (ys[i := z])) = add_mset z (mset ys)"
      using True by (simp add: mset_update)
    ultimately show ?thesis
      using True by (simp add: xs nth_append)
  next
    case False
    then have "i = length ys" using assms xs by simp
    then show ?thesis by (simp add: swap_remove_def xs list_update_append)
  qed
qed

lemma indexed_remove:
  assumes ind: "indexed h" and i: "i < length (h_entries h)"
  shows "indexed \<lparr>h_entries = swap_remove (h_entries h) i,
    h_index = (if i < length (h_entries h) - 1
      then (h_index h)(e_slot (h_entries h ! i) := None, e_slot (swap_remove (h_entries h) i ! i) := Some i)
      else (h_index h)(e_slot (h_entries h ! i) := None))\<rparr>" (is "indexed ?h")
proof -
  let ?es = "h_entries h" and ?fs = "swap_remove (h_entries h) i" and ?n = "length (h_entries h) - 1"
  note sr = swap_remove_simps [OF i]
  have last: "last ?es = ?es ! ?n" using i by (intro last_conv_nth) auto
  have inj: "e_slot (?es ! a) = e_slot (?es ! b) \<longleftrightarrow> a = b" if "a < length ?es" "b < length ?es" for a b
    using ind that by (metis indexed_def option.inject)
  have at: "h_index h (e_slot (?es ! a)) = Some a" if "a < length ?es" for a
    using ind that by (simp add: indexed_def)
  have n: "?n < length ?es" using i by simp
  show ?thesis
    unfolding indexed_def
  proof (intro conjI allI impI)
    fix j
    assume "j < length (h_entries ?h)"
    then have j: "j < ?n" using sr(1) by simp
    then have jl: "j < length ?es" by simp
    show "h_index ?h (e_slot (h_entries ?h ! j)) = Some j"
    proof (cases "j = i")
      case True
      then show ?thesis using j by simp
    next
      case False
      have "i < ?n \<Longrightarrow> ?fs ! i = ?es ! ?n" using sr(2) [of i] last by simp
      then show ?thesis
        using False j jl i n sr(2) [OF j] at [OF jl] inj [OF jl i] inj [OF jl n] by auto
    qed
  next
    fix s j
    assume sj: "h_index ?h s = Some j"
    have "j < ?n \<and> e_slot (?fs ! j) = s"
    proof (cases "i < ?n \<and> s = e_slot (?fs ! i)")
      case True
      then show ?thesis using sj by simp
    next
      case False
      then have "h_index h s = Some j" "s \<noteq> e_slot (?es ! i)"
        using sj by (auto split: if_splits)
      then have j: "j < length ?es" "e_slot (?es ! j) = s" "j \<noteq> i"
        using ind by (auto simp: indexed_def)
      moreover have "j \<noteq> ?n"
      proof
        assume "j = ?n"
        then have "i < ?n" "e_slot (?fs ! i) = s"
          using j i sr(2) [of i] last by auto
        then show False using False by simp
      qed
      ultimately show ?thesis using sr(2) [of j] by simp
    qed
    then show "j < length (h_entries ?h)" "e_slot (h_entries ?h ! j) = s"
      using sr(1) by simp_all
  qed
qed

text \<open>After the hole is filled with the last entry, only the place of the hole is out of order.\<close>

lemma swap_remove_order:
  assumes ord: "heap_ordered es" and i: "i < length es - 1"
  shows "\<And>j. 0 < j \<Longrightarrow> j < length es - 1 \<Longrightarrow> j \<noteq> i \<Longrightarrow> (j - 1) div 2 \<noteq> i \<Longrightarrow> ordered_at (swap_remove es i) j"
    and "grand_ok (swap_remove es i) i"
proof -
  have il: "i < length es" using i by simp
  note sr = swap_remove_simps(1,2) [OF il]
  have o: "prio (es ! ((j - 1) div 2)) \<le> prio (es ! j)" if "0 < j" "j < length es" for j
    using ord that by (simp add: heap_ordered_def ordered_at_def)
  show "ordered_at (swap_remove es i) j" if "0 < j" "j < length es - 1" "j \<noteq> i" "(j - 1) div 2 \<noteq> i" for j
  proof -
    have "(j - 1) div 2 < length es - 1" using that by linarith
    then show ?thesis
      using that sr(2) [of j] sr(2) [of "(j - 1) div 2"] o [of j] by (simp add: ordered_at_def)
  qed
  show "grand_ok (swap_remove es i) i"
    unfolding grand_ok_def
  proof (intro allI impI)
    fix c
    assume c: "0 < i" "0 < c" "c < length (swap_remove es i)" "(c - 1) div 2 = i"
    have "prio (es ! ((i - 1) div 2)) \<le> prio (es ! c)"
    proof -
      have "c < length es" using c(3) sr(1) by simp
      then show ?thesis using o [OF c(2)] o [OF c(1) il] c(4) by simp
    qed
    moreover have "(i - 1) div 2 \<noteq> i" "c \<noteq> i" "(i - 1) div 2 < length es - 1" "c < length es - 1"
      using c i sr(1) by auto
    ultimately show "prio (swap_remove es i ! ((i - 1) div 2)) \<le> prio (swap_remove es i ! c)"
      using sr(2) by simp
  qed
qed

lemma heap_remove_correct:
  assumes inv: "heap_inv h" and i: "i < length (h_entries h)"
  shows "\<exists>h'. heap_remove h i = Some (h', h_entries h ! i) \<and> heap_inv h' \<and>
    add_mset (h_entries h ! i) (mset (h_entries h')) = mset (h_entries h)"
proof -
  let ?es = "h_entries h"
  let ?fs = "swap_remove ?es i"
  let ?x = "(h_index h)(e_slot (?es ! i) := None)"
  have ind: "indexed h" and ord: "heap_ordered ?es"
    using inv by (auto simp: heap_inv_def)
  note sr = swap_remove_simps(1,3) [OF i]
  show ?thesis
  proof (cases "i < length ?es - 1")
    case False
    let ?h = "\<lparr>h_entries = ?fs, h_index = ?x\<rparr>"
    have "?fs = butlast ?es"
    proof -
      have "i = length ?es - 1" using False i by simp
      then have "?es[i := last ?es] = ?es" using i by (metis last_conv_nth length_0_conv less_zeroE list_update_id)
      then show ?thesis by (simp add: swap_remove_def)
    qed
    then have "heap_ordered ?fs"
      using ord by (auto simp: heap_ordered_def ordered_at_def nth_butlast)
    then have "heap_inv ?h"
      using indexed_remove [OF ind i] False by (simp add: heap_inv_def)
    moreover have "heap_remove h i = Some (?h, ?es ! i)"
      using False i sr(1) by (simp add: heap_remove_def Let_def)
    ultimately show ?thesis
      using sr(2) by simp
  next
    case True
    let ?h = "\<lparr>h_entries = ?fs, h_index = ?x(e_slot (?fs ! i) := Some i)\<rparr>"
    let ?up = "0 < i \<and> entry_lt (?fs ! ((i - 1) div 2)) (?fs ! i)"
    note so = swap_remove_order [OF ord True]
    have ind': "indexed ?h"
      using indexed_remove [OF ind i] True by simp
    have eq: "heap_remove h i = do { h' \<leftarrow> (if ?up then sift_up ?h i else sift_down ?h i); Some (h', ?es ! i) }"
      using i True sr(1) by (simp add: heap_remove_def Let_def)
    have "\<exists>h'. (if ?up then sift_up ?h i else sift_down ?h i) = Some h' \<and> heap_inv h' \<and>
        mset (h_entries h') = mset ?fs"
    proof (cases ?up)
      case up: True
      have "ordered_at ?fs j" if "0 < j" "j < length ?fs" "j \<noteq> i" for j
      proof (cases "(j - 1) div 2 = i")
        case True
        then have "prio (?fs ! ((i - 1) div 2)) \<le> prio (?fs ! j)"
          using so(2) that up by (auto simp: grand_ok_def)
        then show ?thesis
          using up True by (simp add: ordered_at_def entry_lt_prio)
      next
        case False
        then show ?thesis using so(1) that sr(1) by simp
      qed
      then have "up_ok ?fs i"
        using so(2) by (simp add: up_ok_def)
      then show ?thesis
        using sift_up_correct [OF ind'] True up sr(1) by simp
    next
      case down: False
      have "ordered_at ?fs j" if "0 < j" "j < length ?fs" "(j - 1) div 2 \<noteq> i" for j
        using so(1) [of j] that sr(1) down by (cases "j = i") (auto simp: ordered_at_def entry_lt_prio)
      then have "down_ok ?fs i"
        using so(2) by (simp add: down_ok_def)
      then show ?thesis
        using sift_down_correct [OF ind'] down by auto
    qed
    then show ?thesis
      using eq sr(2) by auto
  qed
qed

text \<open>The root of a heap is an earliest entry.\<close>

lemma heap_root_least:
  assumes "heap_ordered es" "i < length es"
  shows "prio (es ! 0) \<le> prio (es ! i)"
  using assms(2)
proof (induction i rule: less_induct)
  case (less i)
  show ?case
  proof (cases "i = 0")
    case False
    then have "prio (es ! 0) \<le> prio (es ! ((i - 1) div 2))" "ordered_at es i"
      using less assms(1) by (auto simp: heap_ordered_def)
    then show ?thesis by (simp add: ordered_at_def)
  qed simp
qed

section \<open>The interface of the registry's queue\<close>

text \<open>
  The driver drains what is due and asks for the next deadline; \<open>drained\<close> is the
  sequence of pops it makes, whatever implements the queue.
\<close>

inductive drained ::
  "('h \<Rightarrow> entry option) \<Rightarrow> ('h \<Rightarrow> ('h \<times> entry option) option) \<Rightarrow> u64 \<Rightarrow> 'h \<Rightarrow> entry list \<Rightarrow> 'h \<Rightarrow> bool"
  for peek :: "'h \<Rightarrow> entry option" and pop :: "'h \<Rightarrow> ('h \<times> entry option) option" and now :: u64 where
  drained_stop: "(\<And>e. peek h = Some e \<Longrightarrow> now < e_deadline e) \<Longrightarrow> drained peek pop now h [] h"
| drained_more: "peek h = Some e \<Longrightarrow> e_deadline e \<le> now \<Longrightarrow> pop h = Some (h1, Some e) \<Longrightarrow>
    drained peek pop now h1 es h2 \<Longrightarrow> drained peek pop now h (e # es) h2"

locale deadline_queue =
  fixes inv :: "'h \<Rightarrow> bool"
    and content :: "'h \<Rightarrow> entry multiset"
    and position :: "'h \<Rightarrow> nat \<Rightarrow> nat option"
    and empty :: 'h
    and peek :: "'h \<Rightarrow> entry option"
    and push :: "'h \<Rightarrow> entry \<Rightarrow> 'h option"
    and pop :: "'h \<Rightarrow> ('h \<times> entry option) option"
    and remove :: "'h \<Rightarrow> nat \<Rightarrow> ('h \<times> entry) option"
  assumes empty_inv: "inv empty" "content empty = {#}"
    and position_iff: "inv h \<Longrightarrow> position h s \<noteq> None \<longleftrightarrow> (\<exists>e \<in># content h. e_slot e = s)"
    and slots_unique: "inv h \<Longrightarrow> a \<in># content h \<Longrightarrow> b \<in># content h - {#a#} \<Longrightarrow> e_slot a \<noteq> e_slot b"
    and peek_None: "inv h \<Longrightarrow> peek h = None \<longleftrightarrow> content h = {#}"
    and peek_least: "inv h \<Longrightarrow> peek h = Some e \<Longrightarrow>
      e \<in># content h \<and> (\<forall>x \<in># content h. prio e \<le> prio x)"
    and push_fresh: "inv h \<Longrightarrow> position h (e_slot e) = None \<Longrightarrow>
      \<exists>h'. push h e = Some h' \<and> inv h' \<and> content h' = add_mset e (content h)"
    and pop_least: "inv h \<Longrightarrow> peek h = Some e \<Longrightarrow>
      \<exists>h'. pop h = Some (h', Some e) \<and> inv h' \<and> content h = add_mset e (content h')"
    and remove_at: "inv h \<Longrightarrow> position h s = Some i \<Longrightarrow>
      \<exists>h' e. remove h i = Some (h', e) \<and> e_slot e = s \<and> inv h' \<and> content h = add_mset e (content h')"
begin

text \<open>A drain that stops has taken exactly the due entries, earliest first.\<close>

lemma drained_due:
  assumes "drained peek pop now h es h'" "inv h"
  shows "inv h' \<and> mset es = filter_mset (\<lambda>e. e_deadline e \<le> now) (content h) \<and>
    content h' = filter_mset (\<lambda>e. now < e_deadline e) (content h) \<and>
    sorted (map prio es) \<and> (\<forall>e \<in> set es. e \<in># content h)"
  using assms
proof (induction rule: drained.induct)
  case (drained_stop h)
  have late: "now < e_deadline x" if "x \<in># content h" for x
  proof (cases "peek h")
    case None
    then show ?thesis using that peek_None [OF drained_stop(2)] by simp
  next
    case (Some e)
    then have "e_deadline e \<le> e_deadline x"
      using peek_least [OF drained_stop(2) Some] that prio_deadline by blast
    then show ?thesis using drained_stop(1) [OF Some] by simp
  qed
  then have "filter_mset (\<lambda>e. e_deadline e \<le> now) (content h) = {#}"
    "filter_mset (\<lambda>e. now < e_deadline e) (content h) = content h"
    by (auto simp: filter_mset_eq_mempty_iff filter_mset_eq_conv not_le)
  then show ?case
    using drained_stop by simp
next
  case (drained_more h e h1 es h2)
  have h1: "inv h1" "content h = add_mset e (content h1)"
    using pop_least [OF drained_more(6,1)] drained_more(3) by auto
  then have ih: "inv h2" "mset es = filter_mset (\<lambda>e. e_deadline e \<le> now) (content h1)"
    "content h2 = filter_mset (\<lambda>e. now < e_deadline e) (content h1)"
    "sorted (map prio es)" "\<forall>x \<in> set es. x \<in># content h1"
    using drained_more(5) by blast+
  have "\<forall>x \<in> set es. prio e \<le> prio x"
    using ih(5) h1(2) peek_least [OF drained_more(6,1)] by simp
  then show ?case
    using ih h1(2) drained_more(2) by (auto simp: not_le)
qed

end

lemma heap_contents_unique:
  assumes "heap_inv h" "a \<in># mset (h_entries h)" "b \<in># mset (h_entries h) - {#a#}"
  shows "e_slot a \<noteq> e_slot b"
proof -
  let ?es = "h_entries h"
  have "distinct (map e_slot ?es)"
    unfolding distinct_conv_nth
  proof (intro allI impI)
    fix i j
    assume "i < length (map e_slot ?es)" "j < length (map e_slot ?es)" "i \<noteq> j"
    moreover have "h_index h (e_slot (?es ! k)) = Some k" if "k < length ?es" for k
      using assms(1) that by (simp add: heap_inv_def indexed_def)
    ultimately show "map e_slot ?es ! i \<noteq> map e_slot ?es ! j"
      by (metis length_map nth_map option.inject)
  qed
  moreover obtain ys zs where split: "?es = ys @ a # zs"
    using assms(2) by (metis set_mset_mset split_list)
  moreover have "b \<in> set ys \<or> b \<in> set zs"
    using assms(3) split by simp
  ultimately show ?thesis by auto
qed

lemma heap_index_iff:
  assumes "heap_inv h"
  shows "h_index h s \<noteq> None \<longleftrightarrow> (\<exists>e \<in># mset (h_entries h). e_slot e = s)"
proof
  assume "h_index h s \<noteq> None"
  then obtain i where "h_index h s = Some i" by blast
  then have "i < length (h_entries h)" "e_slot (h_entries h ! i) = s"
    using assms by (auto simp: heap_inv_def indexed_def)
  then show "\<exists>e \<in># mset (h_entries h). e_slot e = s"
    by (metis nth_mem set_mset_mset)
next
  assume "\<exists>e \<in># mset (h_entries h). e_slot e = s"
  then obtain i where "i < length (h_entries h)" "e_slot (h_entries h ! i) = s"
    by (auto simp: in_set_conv_nth)
  then show "h_index h s \<noteq> None"
    using assms by (auto simp: heap_inv_def indexed_def)
qed

interpretation heap: deadline_queue heap_inv "\<lambda>h. mset (h_entries h)" h_index heap_empty heap_peek
  heap_push heap_pop heap_remove
proof unfold_locales
  show "heap_inv heap_empty" "mset (h_entries heap_empty) = {#}"
    by (simp_all add: heap_empty_def heap_inv_def indexed_def heap_ordered_def)
  fix h e s i and a b :: entry
  assume inv: "heap_inv h"
  show "h_index h s \<noteq> None \<longleftrightarrow> (\<exists>e \<in># mset (h_entries h). e_slot e = s)"
    using inv by (rule heap_index_iff)
  show "e_slot a \<noteq> e_slot b" if "a \<in># mset (h_entries h)" "b \<in># mset (h_entries h) - {#a#}"
    using heap_contents_unique inv that .
  show "heap_peek h = None \<longleftrightarrow> mset (h_entries h) = {#}"
    by (simp add: heap_peek_def)
  show "\<exists>h'. heap_push h e = Some h' \<and> heap_inv h' \<and> mset (h_entries h') = add_mset e (mset (h_entries h))"
    if "h_index h (e_slot e) = None"
    using heap_push_correct inv that .
  show "e \<in># mset (h_entries h) \<and> (\<forall>x \<in># mset (h_entries h). prio e \<le> prio x)" if "heap_peek h = Some e"
  proof -
    have e: "h_entries h \<noteq> []" "e = h_entries h ! 0"
      using that by (cases "h_entries h"; simp add: heap_peek_def)+
    then show ?thesis
      using inv heap_root_least by (auto simp: heap_inv_def in_set_conv_nth)
  qed
  show "\<exists>h'. heap_pop h = Some (h', Some e) \<and> heap_inv h' \<and> mset (h_entries h) = add_mset e (mset (h_entries h'))"
    if "heap_peek h = Some e"
  proof -
    have e: "0 < length (h_entries h)" "e = h_entries h ! 0"
      using that by (cases "h_entries h"; simp add: heap_peek_def)+
    then show ?thesis
      using heap_remove_correct [OF inv e(1)] by (auto simp: heap_pop_def)
  qed
  show "\<exists>h' e. heap_remove h i = Some (h', e) \<and> e_slot e = s \<and> heap_inv h' \<and>
      mset (h_entries h) = add_mset e (mset (h_entries h'))" if "h_index h s = Some i"
  proof -
    have "i < length (h_entries h)" "e_slot (h_entries h ! i) = s"
      using inv that by (auto simp: heap_inv_def indexed_def)
    then show ?thesis
      using heap_remove_correct [OF inv] by metis
  qed
qed

text \<open>The sifts only permute, so removal always shrinks the heap by one.\<close>

lemma sift_length:
  "sift_up h i = Some h' \<Longrightarrow> length (h_entries h') = length (h_entries h)"
  "sift_down h i = Some h' \<Longrightarrow> length (h_entries h') = length (h_entries h)"
proof -
  show "sift_up h i = Some h' \<Longrightarrow> length (h_entries h') = length (h_entries h)"
  proof (induction h i rule: sift_up.induct)
    case (1 h i)
    consider "h' = h" | h1 where "i \<noteq> 0" "\<not> length (h_entries h) \<le> i"
      "\<not> entry_le (h_entries h ! i) (h_entries h ! ((i - 1) div 2))"
      "heap_swap h i ((i - 1) div 2) = Some h1" "sift_up h1 ((i - 1) div 2) = Some h'"
      using 1(2) by (auto simp: sift_up.simps [of h i] Let_def bind_eq_Some_conv split: if_splits)
    then show ?case
      using 1(1) [OF _ _ refl] by cases (auto simp: heap_swap_length)
  qed
  show "sift_down h i = Some h' \<Longrightarrow> length (h_entries h') = length (h_entries h)"
  proof (induction h i rule: sift_down.induct)
    case (1 h i)
    define c where "c = (if 2 * i + 1 + 1 < length (h_entries h) \<and>
      entry_lt (h_entries h ! (2 * i + 1)) (h_entries h ! (2 * i + 1 + 1)) then 2 * i + 1 + 1 else 2 * i + 1)"
    have eq: "sift_down h i = (if i < length (h_entries h) div 2 then
      (if entry_le (h_entries h ! c) (h_entries h ! i) then Some h
       else do { h \<leftarrow> heap_swap h i c; sift_down h c }) else Some h)"
      unfolding sift_down.simps [of h i] c_def by (simp add: Let_def)
    consider "h' = h" | h1 where "i < length (h_entries h) div 2"
      "\<not> entry_le (h_entries h ! c) (h_entries h ! i)" "heap_swap h i c = Some h1" "sift_down h1 c = Some h'"
      using 1(2) unfolding eq by (auto simp: bind_eq_Some_conv split: if_splits)
    then show ?case
      using 1(1) [OF _ refl refl c_def] by cases (auto simp: heap_swap_length)
  qed
qed

lemma heap_pop_length:
  assumes "heap_pop h = Some (h', x)" "h_entries h \<noteq> []"
  shows "length (h_entries h') < length (h_entries h)"
proof -
  obtain e where "heap_remove h 0 = Some (h', e)"
    using assms by (auto simp: heap_pop_def bind_eq_Some_conv)
  then have "length (h_entries h') = length (swap_remove (h_entries h) 0)"
    by (auto simp: heap_remove_def Let_def bind_eq_Some_conv sift_length split: if_splits)
  then show ?thesis
    using assms(2) by (simp add: swap_remove_def)
qed

section \<open>Properties\<close>

text \<open>
  arming and cancelling a timer is a round trip. On a well-formed heap, pushing
  an entry of a slot that is not queued succeeds, keeps the heap well formed and
  the earliest entry at the front, and stores in the slot an index from which
  \<open>remove\<close> takes out exactly that entry, leaving the other timers as they were.
\<close>

theorem timer_heap_push_remove:
  assumes "heap_inv h" "h_index h (e_slot e) = None"
  shows "\<exists>h1 i h2 top. heap_push h e = Some h1 \<and> heap_inv h1 \<and>
    mset (h_entries h1) = add_mset e (mset (h_entries h)) \<and>
    heap_peek h1 = Some top \<and> (\<forall>x \<in># mset (h_entries h1). entry_le x top) \<and>
    h_index h1 (e_slot e) = Some i \<and> heap_remove h1 i = Some (h2, e) \<and> heap_inv h2 \<and>
    mset (h_entries h2) = mset (h_entries h) \<and> h_index h2 (e_slot e) = None"
proof -
  obtain h1 where h1: "heap_push h e = Some h1" "heap_inv h1"
    "mset (h_entries h1) = add_mset e (mset (h_entries h))"
    using heap.push_fresh [OF assms] by blast
  have e: "e \<in># mset (h_entries h1)"
    using h1(3) by simp
  then obtain top where top: "heap_peek h1 = Some top"
    using heap.peek_None [OF h1(2)] by (metis empty_iff not_Some_eq set_mset_empty)
  have "\<exists>x \<in># mset (h_entries h1). e_slot x = e_slot e"
    using e by blast
  then obtain i where i: "h_index h1 (e_slot e) = Some i"
    using heap.position_iff [OF h1(2)] by blast
  then obtain h2 x where h2: "heap_remove h1 i = Some (h2, x)" "e_slot x = e_slot e" "heap_inv h2"
    "mset (h_entries h1) = add_mset x (mset (h_entries h2))"
    using heap.remove_at [OF h1(2)] by blast
  have "x = e"
  proof (rule ccontr)
    assume "x \<noteq> e"
    moreover have "e \<in># add_mset x (mset (h_entries h2))"
      using e h2(4) by metis
    ultimately have "e \<in># mset (h_entries h2)"
      by simp
    then show False
      using heap.slots_unique [OF h1(2), of x e] h2(2,4) by simp
  qed
  then have "mset (h_entries h2) = mset (h_entries h)"
    using h2(4) h1(3) by simp
  moreover have "h_index h2 (e_slot e) = None"
    using calculation assms(2) heap.position_iff [OF assms(1), of "e_slot e"]
      heap.position_iff [OF h2(3), of "e_slot e"] by auto
  moreover have "\<forall>x \<in># mset (h_entries h1). entry_le x top"
    using heap.peek_least [OF h1(2) top] by (simp add: entry_le_prio)
  ultimately show ?thesis
    using h1 top i h2(1,3) unfolding \<open>x = e\<close> by blast
qed

theorem timer_heap_push_remove_witness:
  "\<exists>h1 i h2. heap_push heap_empty \<lparr>e_deadline = 5, e_seq = 0, e_slot = 3\<rparr> = Some h1 \<and>
     h_index h1 3 = Some i \<and> heap_remove h1 i = Some (h2, \<lparr>e_deadline = 5, e_seq = 0, e_slot = 3\<rparr>)"
proof -
  have "heap_inv heap_empty"
    by (simp add: heap_empty_def heap_inv_def indexed_def heap_ordered_def)
  then show ?thesis
    using timer_heap_push_remove [of heap_empty "\<lparr>e_deadline = 5, e_seq = 0, e_slot = 3\<rparr>"]
    by (auto simp: heap_empty_def)
qed

end
