(* ===== verification/Timer.thy ===== *)
theory Timer
  imports TimerHeap
begin

text \<open>
  Timers (\<open>src/src/time.rs\<close>): the clock, the registry of pending timers, \<open>Sleep\<close>,
  \<open>Timeout\<close> and the dedicated driver thread. The operations come first, each as
  one function; then a step relation in which polls, drops, the driver's drain and
  the nudges interleave at the granularity of their atomic operations. The results:
  a drain fires exactly the due timers in deadline order; a sleep never completes
  early; a pending sleep is registered with its newest waker or its wake is on the
  way; and the driver never sleeps past the earliest deadline.
\<close>

section \<open>Data and operations\<close>

record slot =
  sl_fired :: bool
  sl_waker :: "waker option"

text \<open>
  The statics \<open>PENDING\<close> and \<open>SEQ\<close>, and the slots that some \<open>Arc\<close> keeps alive;
  \<open>t_next\<close> is the name of the next allocation.
\<close>

record timers =
  t_pending :: "timer_heap option"
  t_seq :: u64
  t_slots :: "nat \<Rightarrow> slot option"
  t_next :: nat

definition timers_new :: timers where
  "timers_new = \<lparr>t_pending = None, t_seq = 0, t_slots = (\<lambda>_. None), t_next = 0\<rparr>"

text \<open>
  \<open>CLOCK\<close> holds the clock chosen first. Reading it installs the default clock when
  the crate is built with \<open>std\<close>, and panics otherwise.
\<close>

definition set_clock :: "'c option \<Rightarrow> 'c \<Rightarrow> 'c option" where
  "set_clock clock c = (if clock = None then Some c else clock)"

definition now_ns :: "'c option \<Rightarrow> 'c option \<Rightarrow> ('c \<Rightarrow> u64) \<Rightarrow> ('c option \<times> u64) option" where
  "now_ns clock std_clock read =
     (let clock = (if clock = None then (case std_clock of None \<Rightarrow> None | Some c \<Rightarrow> set_clock clock c)
                   else clock)
      in case clock of None \<Rightarrow> None | Some c \<Rightarrow> Some (clock, read c))"

function fire_loop ::
  "u64 \<Rightarrow> timer_heap \<Rightarrow> (nat \<Rightarrow> slot option) \<Rightarrow> waker list \<Rightarrow>
   (timer_heap \<times> (nat \<Rightarrow> slot option) \<times> waker list) option" where
  "fire_loop now h slots due =
     (case heap_peek h of
        None \<Rightarrow> Some (h, slots, due)
      | Some entry \<Rightarrow>
          if now < e_deadline entry then Some (h, slots, due)
          else do {
            (h, popped) \<leftarrow> heap_pop h;
            entry \<leftarrow> popped;
            slot \<leftarrow> slots (e_slot entry);
            fire_loop now h (slots(e_slot entry \<mapsto> \<lparr>sl_fired = True, sl_waker = None\<rparr>))
              (due @ (case sl_waker slot of Some w \<Rightarrow> [w] | None \<Rightarrow> []))
          })"
  by pat_completeness auto
termination
proof (relation "measure (\<lambda>(now, h, slots, due). length (h_entries h))")
  fix now :: u64 and h :: timer_heap and slots :: "nat \<Rightarrow> slot option" and due :: "waker list"
    and entry p h' popped e s
  assume "heap_peek h = Some entry" "heap_pop h = Some p" "(h', popped) = p"
  moreover from this have "h_entries h \<noteq> []"
    by (auto simp: heap_peek_def)
  ultimately show "((now, h', slots(e_slot e \<mapsto> \<lparr>sl_fired = True, sl_waker = None\<rparr>),
      due @ (case sl_waker s of Some w \<Rightarrow> [w] | None \<Rightarrow> [])), now, h, slots, due)
    \<in> measure (\<lambda>(now, h, slots, due). length (h_entries h))"
    using heap_pop_length [of h h' popped] by auto
qed simp

declare fire_loop.simps [simp del]

definition fire_due :: "timers \<Rightarrow> u64 \<Rightarrow> (timers \<times> (u64 option \<times> bool) \<times> waker list) option" where
  "fire_due t now =
     (case t_pending t of
        None \<Rightarrow> Some (t, (None, False), [])
      | Some h \<Rightarrow> do {
          (h, slots, due) \<leftarrow> fire_loop now h (t_slots t) [];
          let nxt = map_option e_deadline (heap_peek h);
          Some (t\<lparr>t_pending := Some h, t_slots := slots\<rparr>, (nxt, due \<noteq> []), due)
        })"

definition timer_poll :: "timers \<Rightarrow> u64 \<Rightarrow> (timers \<times> u64 option \<times> waker list) option" where
  "timer_poll t now = do {
     (t, (nxt, woke), due) \<leftarrow> fire_due t now;
     Some (t, nxt, due)
   }"

definition arm :: "timers \<Rightarrow> u64 \<Rightarrow> nat \<Rightarrow> (timers \<times> bool) option" where
  "arm t deadline slot =
     (let h = (case t_pending t of None \<Rightarrow> heap_empty | Some h \<Rightarrow> h);
          earliest = (case heap_peek h of None \<Rightarrow> True | Some entry \<Rightarrow> deadline < e_deadline entry)
      in do {
        h \<leftarrow> heap_push h \<lparr>e_deadline = deadline, e_seq = t_seq t, e_slot = slot\<rparr>;
        Some (t\<lparr>t_pending := Some h, t_seq := t_seq t + 1\<rparr>, earliest)
      })"

record sleep =
  sp_deadline :: u64
  sp_slot :: "nat option"

definition sleep_until :: "u64 \<Rightarrow> sleep" where
  "sleep_until deadline = \<lparr>sp_deadline = deadline, sp_slot = None\<rparr>"

text \<open>The duration is given by its \<open>as_nanos\<close>, a \<open>u128\<close> that need not fit a \<open>u64\<close>.\<close>

definition nanos_u64 :: "nat \<Rightarrow> u64" where
  "nanos_u64 nanos = (if nanos < 2 ^ 64 then of_nat nanos else u64_max)"

definition sleep_for :: "u64 \<Rightarrow> nat \<Rightarrow> sleep" where
  "sleep_for now nanos = sleep_until (u64_saturating_add now (nanos_u64 nanos))"

text \<open>
  \<open>Sleep::poll\<close>, with the clock reading it makes; the last component is the
  deadline handed to \<open>driver::nudge\<close> when the new timer is the earliest.
\<close>

definition sleep_poll ::
  "timers \<Rightarrow> u64 \<Rightarrow> sleep \<Rightarrow> waker \<Rightarrow> (timers \<times> sleep \<times> unit poll \<times> u64 option) option" where
  "sleep_poll t now s wk =
     (case sp_slot s of
        Some i \<Rightarrow> do {
          slot \<leftarrow> t_slots t i;
          if sl_fired slot then Some (t, s, Ready (), None)
          else let slot = slot\<lparr>sl_waker := Some wk\<rparr> in
            Some (t\<lparr>t_slots := (t_slots t)(i \<mapsto> slot)\<rparr>, s,
                  if sl_fired slot then Ready () else Pending, None)
        }
      | None \<Rightarrow>
          if sp_deadline s \<le> now then Some (t, s, Ready (), None)
          else do {
            let i = t_next t;
            let t = t\<lparr>t_slots := (t_slots t)(i \<mapsto> \<lparr>sl_fired = False, sl_waker = Some wk\<rparr>),
                      t_next := i + 1\<rparr>;
            (t, earliest) \<leftarrow> arm t (sp_deadline s) i;
            Some (t, s\<lparr>sp_slot := Some i\<rparr>, Pending, if earliest then Some (sp_deadline s) else None)
          })"

definition slot_position :: "timers \<Rightarrow> nat \<Rightarrow> nat option" where
  "slot_position t i = (case t_pending t of None \<Rightarrow> None | Some h \<Rightarrow> h_index h i)"

definition sleep_drop :: "timers \<Rightarrow> sleep \<Rightarrow> timers option" where
  "sleep_drop t s =
     (case sp_slot s of
        None \<Rightarrow> Some t
      | Some i \<Rightarrow> do {
          t \<leftarrow> (case slot_position t i of
                 None \<Rightarrow> Some t
               | Some k \<Rightarrow> do {
                   h \<leftarrow> t_pending t;
                   (h, entry) \<leftarrow> heap_remove h k;
                   Some (t\<lparr>t_pending := Some h\<rparr>)
                 });
          Some (t\<lparr>t_slots := (t_slots t)(i := None)\<rparr>)
        })"

datatype elapsed = Elapsed

record 'f timeout =
  to_future :: 'f
  to_sleep :: sleep

definition timeout_new :: "u64 \<Rightarrow> nat \<Rightarrow> 'f \<Rightarrow> 'f timeout" where
  "timeout_new now nanos f = \<lparr>to_future = f, to_sleep = sleep_for now nanos\<rparr>"

text \<open>\<open>Timeout::poll\<close>; the inner future is a parameter, a function of its own state.\<close>

definition timeout_poll ::
  "('f \<Rightarrow> 'f \<times> 'a poll) \<Rightarrow> timers \<Rightarrow> u64 \<Rightarrow> 'f timeout \<Rightarrow> waker \<Rightarrow>
   (timers \<times> 'f timeout \<times> (elapsed + 'a) poll \<times> u64 option) option" where
  "timeout_poll inner t now f wk =
     (case inner (to_future f) of
        (g, Ready out) \<Rightarrow> Some (t, f\<lparr>to_future := g\<rparr>, Ready (Inr out), None)
      | (g, Pending) \<Rightarrow> do {
          (t, s, r, nudge) \<leftarrow> sleep_poll t now (to_sleep f) wk;
          Some (t, f\<lparr>to_future := g, to_sleep := s\<rparr>,
            (case r of Ready _ \<Rightarrow> Ready (Inl Elapsed) | Pending \<Rightarrow> Pending), nudge)
        })"

section \<open>A drain fires what is due\<close>

definition slots_live :: "timer_heap \<Rightarrow> (nat \<Rightarrow> slot option) \<Rightarrow> bool" where
  "slots_live h slots \<longleftrightarrow> (\<forall>e \<in> set (h_entries h). slots (e_slot e) \<noteq> None)"

definition fire_slots :: "entry list \<Rightarrow> (nat \<Rightarrow> slot option) \<Rightarrow> nat \<Rightarrow> slot option" where
  "fire_slots es slots i =
     (if i \<in> e_slot ` set es then Some \<lparr>sl_fired = True, sl_waker = None\<rparr> else slots i)"

definition entry_wakers :: "(nat \<Rightarrow> slot option) \<Rightarrow> entry list \<Rightarrow> waker list" where
  "entry_wakers slots es = List.map_filter (\<lambda>e. slots (e_slot e) \<bind> sl_waker) es"

lemma entry_wakers_simps [simp]:
  "entry_wakers slots [] = []"
  "entry_wakers slots (e # es) =
     (case slots (e_slot e) \<bind> sl_waker of Some w \<Rightarrow> [w] | None \<Rightarrow> []) @ entry_wakers slots es"
  by (simp_all add: entry_wakers_def map_filter_simps split: option.splits)

lemma entry_wakers_frame:
  "e \<notin> e_slot ` set es \<Longrightarrow> entry_wakers (slots(e := x)) es = entry_wakers slots es"
  by (induction es) auto

text \<open>The loop is the drain of the queue's interface, firing each slot it takes.\<close>

lemma fire_loop_drained:
  assumes "heap_inv h" "slots_live h slots"
  shows "\<exists>es h'. drained heap_peek heap_pop now h es h' \<and>
    fire_loop now h slots due = Some (h', fire_slots es slots, due @ entry_wakers slots es)"
  using assms
proof (induction "length (h_entries h)" arbitrary: h slots due rule: less_induct)
  case less
  show ?case
  proof (cases "\<exists>e. heap_peek h = Some e \<and> e_deadline e \<le> now")
    case False
    then have "drained heap_peek heap_pop now h [] h"
      by (intro drained.drained_stop) (auto simp: not_le)
    moreover have "fire_loop now h slots due = Some (h, slots, due)"
      using False by (subst fire_loop.simps) (auto split: option.splits)
    ultimately show ?thesis
      by (intro exI [of _ "[]"] exI [of _ h]) (simp add: fire_slots_def [abs_def])
  next
    case True
    then obtain e where e: "heap_peek h = Some e" "e_deadline e \<le> now" by blast
    obtain h1 where h1: "heap_pop h = Some (h1, Some e)" "heap_inv h1"
      "mset (h_entries h) = add_mset e (mset (h_entries h1))"
      using heap.pop_least [OF less(2) e(1)] by blast
    have set: "set (h_entries h) = insert e (set (h_entries h1))"
      using arg_cong [OF h1(3), of set_mset] by simp
    then obtain sl where sl: "slots (e_slot e) = Some sl"
      using less(3) by (auto simp: slots_live_def)
    let ?slots = "slots(e_slot e \<mapsto> \<lparr>sl_fired = True, sl_waker = None\<rparr>)"
    let ?due = "due @ (case sl_waker sl of Some w \<Rightarrow> [w] | None \<Rightarrow> [])"
    have "length (h_entries h1) < length (h_entries h)"
      using arg_cong [OF h1(3), of size] by simp
    moreover have "slots_live h1 ?slots"
      using less(3) set by (auto simp: slots_live_def)
    ultimately obtain es h' where ih: "drained heap_peek heap_pop now h1 es h'"
      "fire_loop now h1 ?slots ?due = Some (h', fire_slots es ?slots, ?due @ entry_wakers ?slots es)"
      using less(1) [OF _ h1(2)] by blast
    have "e_slot e \<notin> e_slot ` set es"
    proof
      assume "e_slot e \<in> e_slot ` set es"
      then obtain x where "x \<in> set es" "e_slot x = e_slot e" by force
      moreover from this have "x \<in># mset (h_entries h1)"
        using heap.drained_due [OF ih(1) h1(2)] by blast
      ultimately show False
        using heap.slots_unique [OF less(2), of e x] h1(3) by simp
    qed
    then have "entry_wakers ?slots es = entry_wakers slots es"
      "fire_slots es ?slots = fire_slots (e # es) slots"
      by (auto simp: entry_wakers_frame fire_slots_def fun_eq_iff)
    moreover have "fire_loop now h slots due = fire_loop now h1 ?slots ?due"
      by (subst fire_loop.simps) (use e h1(1) sl in \<open>simp add: not_less [THEN iffD2]\<close>)
    ultimately show ?thesis
      using drained.drained_more [OF e h1(1) ih(1)] ih(2) sl
      by (intro exI [of _ "e # es"] exI [of _ h']) simp
  qed
qed

lemma fire_due_effect:
  assumes "t_pending t = Some h" "heap_inv h" "slots_live h (t_slots t)"
  shows "\<exists>t' h' es. fire_due t now =
      Some (t', (map_option e_deadline (heap_peek h'), entry_wakers (t_slots t) es \<noteq> []),
        entry_wakers (t_slots t) es) \<and>
    t_pending t' = Some h' \<and> heap_inv h' \<and> t_slots t' = fire_slots es (t_slots t) \<and>
    mset es = filter_mset (\<lambda>e. e_deadline e \<le> now) (mset (h_entries h)) \<and>
    mset (h_entries h') = filter_mset (\<lambda>e. now < e_deadline e) (mset (h_entries h)) \<and>
    sorted (map prio es) \<and>
    (\<forall>d. map_option e_deadline (heap_peek h') = Some d \<longrightarrow>
       now < d \<and> (\<forall>e \<in> set (h_entries h'). d \<le> e_deadline e))"
proof -
  obtain es h' where l: "drained heap_peek heap_pop now h es h'"
    "fire_loop now h (t_slots t) [] = Some (h', fire_slots es (t_slots t), entry_wakers (t_slots t) es)"
    using fire_loop_drained [OF assms(2,3), of now "[]"] by auto
  note d = heap.drained_due [OF l(1) assms(2)]
  have "now < e_deadline e \<and> (\<forall>x \<in> set (h_entries h'). e_deadline e \<le> e_deadline x)"
    if "heap_peek h' = Some e" for e
  proof -
    have "e \<in># mset (h_entries h')" "\<forall>x \<in># mset (h_entries h'). prio e \<le> prio x"
      using heap.peek_least [of h' e] d that by auto
    moreover have "now < e_deadline x" if "x \<in># mset (h_entries h')" for x
      using d that by (metis (no_types, lifting) mem_Collect_eq set_mset_filter)
    ultimately show ?thesis
      using prio_deadline by simp
  qed
  then show ?thesis
    using l(2) d assms(1) by (auto simp: fire_due_def)
qed

text \<open>
  C9: a drain fires exactly what is due, in order. It never panics; the entries it
  takes are those with a deadline at or before \<open>now\<close>, earliest deadline first and
  equal deadlines in registration order; each of their slots is fired and its waker
  woken; the rest stays pending, and the reported next deadline is the earliest of it.
\<close>

theorem fire_due_exact:
  assumes "t_pending t = Some h" "heap_inv h" "slots_live h (t_slots t)"
  shows "\<exists>t' h' es. fire_due t now =
      Some (t', (map_option e_deadline (heap_peek h'), entry_wakers (t_slots t) es \<noteq> []),
        entry_wakers (t_slots t) es) \<and>
    t_pending t' = Some h' \<and> heap_inv h' \<and> t_slots t' = fire_slots es (t_slots t) \<and>
    mset es = filter_mset (\<lambda>e. e_deadline e \<le> now) (mset (h_entries h)) \<and>
    mset (h_entries h') = filter_mset (\<lambda>e. now < e_deadline e) (mset (h_entries h)) \<and>
    sorted (map prio es) \<and>
    (\<forall>d. map_option e_deadline (heap_peek h') = Some d \<longrightarrow>
       now < d \<and> (\<forall>e \<in> set (h_entries h'). d \<le> e_deadline e))"
  using fire_due_effect [OF assms] .

section \<open>Sleeps, the driver and the clock together\<close>

text \<open>
  A sleep that nobody is polling is new, pending (with the waker of the poll that
  returned) or done. During a poll it is about to arm, has read \<open>fired\<close> as false,
  or has stored its waker and is about to read \<open>fired\<close> again.
\<close>

datatype sleep_phase =
  SNew | SArming waker | SLoaded waker | SStored waker | SPending waker | SDone

text \<open>
  The driver thread: about to read the clock, draining (it holds the registry lock
  and has read the given time), drained with the next deadline, waiting for it.
\<close>

datatype driver_state =
  DLooping | DDraining u64 | DDrained "u64 option" | DWaiting "u64 option"

text \<open>
  \<open>ts_taking\<close> is a slot marked fired whose waker the drain is about to take,
  \<open>ts_due\<close> what it has collected, \<open>ts_woken\<close> the wakes made so far; \<open>ts_nudges\<close>
  counts the polls that armed an earliest timer and are about to nudge the driver.
\<close>

record tsys =
  ts_timers :: timers
  ts_clock :: u64
  ts_sleeps :: "nat \<Rightarrow> (sleep \<times> sleep_phase) option"
  ts_driver :: driver_state
  ts_taking :: "nat option"
  ts_due :: "(nat \<times> waker) list"
  ts_woken :: "(nat \<times> waker) set"
  ts_nudges :: nat
  ts_nudged :: bool

definition tsys_start :: "u64 \<Rightarrow> tsys" where
  "tsys_start c = \<lparr>ts_timers = timers_new, ts_clock = c, ts_sleeps = (\<lambda>_. None), ts_driver = DLooping,
     ts_taking = None, ts_due = [], ts_woken = {}, ts_nudges = 0, ts_nudged = False\<rparr>"

definition unlocked :: "tsys \<Rightarrow> bool" where
  "unlocked s \<longleftrightarrow> (case ts_driver s of DDraining _ \<Rightarrow> False | _ \<Rightarrow> True)"

definition set_sleep :: "tsys \<Rightarrow> nat \<Rightarrow> (sleep \<times> sleep_phase) option \<Rightarrow> tsys" where
  "set_sleep s i x = s\<lparr>ts_sleeps := (ts_sleeps s)(i := x)\<rparr>"

abbreviation slot_at :: "tsys \<Rightarrow> nat \<Rightarrow> slot option" where
  "slot_at s \<equiv> t_slots (ts_timers s)"

definition set_slot :: "tsys \<Rightarrow> nat \<Rightarrow> slot \<Rightarrow> tsys" where
  "set_slot s k sl = s\<lparr>ts_timers := (ts_timers s)\<lparr>t_slots := (slot_at s)(k \<mapsto> sl)\<rparr>\<rparr>"

inductive timer_step :: "tsys \<Rightarrow> tsys \<Rightarrow> bool" where
  tick: "ts_clock s \<le> c \<Longrightarrow> timer_step s (s\<lparr>ts_clock := c\<rparr>)"
| create: "ts_sleeps s i = None \<Longrightarrow> timer_step s (set_sleep s i (Some (sleep_until d, SNew)))"
| first_ready: "ts_sleeps s i = Some (f, SNew) \<Longrightarrow> sp_deadline f \<le> ts_clock s \<Longrightarrow>
    timer_step s (set_sleep s i (Some (f, SDone)))"
| first_late: "ts_sleeps s i = Some (f, SNew) \<Longrightarrow> ts_clock s < sp_deadline f \<Longrightarrow>
    timer_step s (set_sleep s i (Some (f, SArming wk)))"
| armed: "ts_sleeps s i = Some (f, SArming wk) \<Longrightarrow> unlocked s \<Longrightarrow> k = t_next (ts_timers s) \<Longrightarrow>
    arm ((ts_timers s)\<lparr>t_slots := (slot_at s)(k \<mapsto> \<lparr>sl_fired = False, sl_waker = Some wk\<rparr>),
        t_next := k + 1\<rparr>) (sp_deadline f) k = Some (t, earliest) \<Longrightarrow>
    timer_step s ((set_sleep s i (Some (f\<lparr>sp_slot := Some k\<rparr>, SPending wk)))
      \<lparr>ts_timers := t, ts_nudges := ts_nudges s + (if earliest then 1 else 0)\<rparr>)"
| load: "ts_sleeps s i = Some (f, SPending w) \<Longrightarrow> sp_slot f = Some k \<Longrightarrow> slot_at s k = Some sl \<Longrightarrow>
    timer_step s (set_sleep s i (Some (f, if sl_fired sl then SDone else SLoaded wk)))"
| store: "ts_sleeps s i = Some (f, SLoaded wk) \<Longrightarrow> sp_slot f = Some k \<Longrightarrow> slot_at s k = Some sl \<Longrightarrow>
    timer_step s (set_slot (set_sleep s i (Some (f, SStored wk))) k (sl\<lparr>sl_waker := Some wk\<rparr>))"
| recheck: "ts_sleeps s i = Some (f, SStored wk) \<Longrightarrow> sp_slot f = Some k \<Longrightarrow> slot_at s k = Some sl \<Longrightarrow>
    timer_step s (set_sleep s i (Some (f, if sl_fired sl then SDone else SPending wk)))"
| cancel: "ts_sleeps s i = Some (f, p) \<Longrightarrow> p = SNew \<or> p = SDone \<or> (\<exists>w. p = SPending w) \<Longrightarrow> unlocked s \<Longrightarrow>
    sleep_drop (ts_timers s) f = Some t \<Longrightarrow>
    timer_step s ((set_sleep s i None)\<lparr>ts_timers := t\<rparr>)"
| nudge: "ts_nudges s = Suc n \<Longrightarrow> timer_step s (s\<lparr>ts_nudges := n, ts_nudged := True\<rparr>)"
| drain: "ts_driver s = DLooping \<Longrightarrow> timer_step s (s\<lparr>ts_driver := DDraining (ts_clock s)\<rparr>)"
| fire: "ts_driver s = DDraining now \<Longrightarrow> ts_taking s = None \<Longrightarrow> t_pending (ts_timers s) = Some h \<Longrightarrow>
    heap_peek h = Some e \<Longrightarrow> e_deadline e \<le> now \<Longrightarrow> heap_pop h = Some (h', Some e) \<Longrightarrow>
    slot_at s (e_slot e) = Some sl \<Longrightarrow>
    timer_step s ((set_slot s (e_slot e) (sl\<lparr>sl_fired := True\<rparr>))
      \<lparr>ts_timers := (ts_timers (set_slot s (e_slot e) (sl\<lparr>sl_fired := True\<rparr>)))\<lparr>t_pending := Some h'\<rparr>,
       ts_taking := Some (e_slot e)\<rparr>)"
| take: "ts_taking s = Some k \<Longrightarrow> slot_at s k = Some sl \<Longrightarrow>
    timer_step s ((set_slot s k (sl\<lparr>sl_waker := None\<rparr>))
      \<lparr>ts_taking := None,
       ts_due := ts_due s @ (case sl_waker sl of Some w \<Rightarrow> [(k, w)] | None \<Rightarrow> [])\<rparr>)"
| drained: "ts_driver s = DDraining now \<Longrightarrow> ts_taking s = None \<Longrightarrow>
    nxt = (case t_pending (ts_timers s) of None \<Rightarrow> None | Some h \<Rightarrow> map_option e_deadline (heap_peek h)) \<Longrightarrow>
    (\<And>d. nxt = Some d \<Longrightarrow> now < d) \<Longrightarrow>
    timer_step s (s\<lparr>ts_driver := DDrained nxt\<rparr>)"
| wake: "ts_driver s = DDrained nxt \<Longrightarrow> ts_due s = x # xs \<Longrightarrow>
    timer_step s (s\<lparr>ts_due := xs, ts_woken := insert x (ts_woken s)\<rparr>)"
| again: "ts_driver s = DDrained nxt \<Longrightarrow> ts_due s = [] \<Longrightarrow> ts_nudged s \<Longrightarrow>
    timer_step s (s\<lparr>ts_driver := DLooping, ts_nudged := False\<rparr>)"
| passed: "ts_driver s = DDrained (Some d) \<Longrightarrow> ts_due s = [] \<Longrightarrow> \<not> ts_nudged s \<Longrightarrow> d \<le> ts_clock s \<Longrightarrow>
    timer_step s (s\<lparr>ts_driver := DLooping\<rparr>)"
| sleeps: "ts_driver s = DDrained nxt \<Longrightarrow> ts_due s = [] \<Longrightarrow> \<not> ts_nudged s \<Longrightarrow>
    (\<And>d. nxt = Some d \<Longrightarrow> ts_clock s < d) \<Longrightarrow>
    timer_step s (s\<lparr>ts_driver := DWaiting nxt\<rparr>)"
| woken: "ts_driver s = DWaiting nxt \<Longrightarrow>
    timer_step s (s\<lparr>ts_driver := DLooping, ts_nudged := False\<rparr>)"

abbreviation timer_reach :: "u64 \<Rightarrow> tsys \<Rightarrow> bool" where
  "timer_reach c \<equiv> reach (\<lambda>s. s = tsys_start c) timer_step"

subsection \<open>The invariant\<close>

definition heap_of :: "timers \<Rightarrow> timer_heap" where
  "heap_of t = (case t_pending t of None \<Rightarrow> heap_empty | Some h \<Rightarrow> h)"

abbreviation entries :: "tsys \<Rightarrow> entry set" where
  "entries s \<equiv> set (h_entries (heap_of (ts_timers s)))"

text \<open>What is known of the slot \<open>k\<close> of a sleep with deadline \<open>d\<close> in phase \<open>p\<close>.\<close>

definition slot_ok :: "tsys \<Rightarrow> nat \<Rightarrow> u64 \<Rightarrow> sleep_phase \<Rightarrow> slot \<Rightarrow> bool" where
  "slot_ok s k d p sl \<longleftrightarrow>
     (if sl_fired sl then d \<le> ts_clock s \<and> (\<forall>e \<in> entries s. e_slot e \<noteq> k)
      else (\<exists>e \<in> entries s. e_slot e = k \<and> e_deadline e = d)) \<and>
     (p = SDone \<longrightarrow> sl_fired sl) \<and>
     (\<forall>w. p = SPending w \<longrightarrow>
        (if sl_fired sl \<and> ts_taking s \<noteq> Some k then (k, w) \<in> set (ts_due s) \<union> ts_woken s
         else sl_waker sl = Some w)) \<and>
     (\<forall>w. p = SStored w \<longrightarrow> \<not> sl_fired sl \<longrightarrow> sl_waker sl = Some w)"

definition armed_phase :: "sleep_phase \<Rightarrow> bool" where
  "armed_phase p \<longleftrightarrow> p \<noteq> SNew \<and> (\<forall>w. p \<noteq> SArming w)"

definition sleep_ok :: "tsys \<Rightarrow> sleep \<Rightarrow> sleep_phase \<Rightarrow> bool" where
  "sleep_ok s f p \<longleftrightarrow>
     (case sp_slot f of
        None \<Rightarrow> (armed_phase p \<longrightarrow> p = SDone \<and> sp_deadline f \<le> ts_clock s)
      | Some k \<Rightarrow> armed_phase p \<and> (\<exists>sl. slot_at s k = Some sl \<and> slot_ok s k (sp_deadline f) p sl))"

definition registry_inv :: "tsys \<Rightarrow> bool" where
  "registry_inv s \<longleftrightarrow>
     heap_inv (heap_of (ts_timers s)) \<and>
     (\<forall>i f p. ts_sleeps s i = Some (f, p) \<longrightarrow> sleep_ok s f p) \<and>
     (\<forall>i j f p g q k. ts_sleeps s i = Some (f, p) \<longrightarrow> ts_sleeps s j = Some (g, q) \<longrightarrow>
        sp_slot f = Some k \<longrightarrow> sp_slot g = Some k \<longrightarrow> i = j) \<and>
     (\<forall>e \<in> entries s. slot_at s (e_slot e) \<noteq> None) \<and>
     (\<forall>k. ts_taking s = Some k \<longrightarrow> \<not> unlocked s \<and> (\<forall>e \<in> entries s. e_slot e \<noteq> k)) \<and>
     (\<forall>now. ts_driver s = DDraining now \<longrightarrow> now \<le> ts_clock s) \<and>
     (\<forall>k. slot_at s k \<noteq> None \<longrightarrow> k < t_next (ts_timers s) \<and>
        (\<exists>i f p. ts_sleeps s i = Some (f, p) \<and> sp_slot f = Some k))"

definition driver_inv :: "tsys \<Rightarrow> bool" where
  "driver_inv s \<longleftrightarrow>
     (\<forall>nxt. ts_driver s = DDrained nxt \<or> ts_driver s = DWaiting nxt \<longrightarrow>
        ts_nudged s \<or> 0 < ts_nudges s \<or>
        (\<forall>e \<in> entries s. \<exists>d. nxt = Some d \<and> d \<le> e_deadline e))"

lemma registryD:
  assumes "registry_inv s"
  shows "heap_inv (heap_of (ts_timers s))" "ts_sleeps s i = Some (f, p) \<Longrightarrow> sleep_ok s f p"
    "ts_sleeps s i = Some (f, p) \<Longrightarrow> ts_sleeps s j = Some (g, q) \<Longrightarrow> sp_slot f = Some k \<Longrightarrow>
      sp_slot g = Some k \<Longrightarrow> i = j"
    "e \<in> entries s \<Longrightarrow> slot_at s (e_slot e) \<noteq> None"
    "ts_taking s = Some k \<Longrightarrow> \<not> unlocked s" "ts_taking s = Some k \<Longrightarrow> e \<in> entries s \<Longrightarrow> e_slot e \<noteq> k"
    "ts_driver s = DDraining now \<Longrightarrow> now \<le> ts_clock s"
    "slot_at s k = Some sl \<Longrightarrow> k < t_next (ts_timers s)"
    "slot_at s k = Some sl \<Longrightarrow> \<exists>i f p. ts_sleeps s i = Some (f, p) \<and> sp_slot f = Some k"
  using assms unfolding registry_inv_def by (blast | metis option.distinct(1))+

lemma sleep_okD:
  assumes "registry_inv s" "ts_sleeps s i = Some (f, p)" "sp_slot f = Some k"
  obtains sl where "slot_at s k = Some sl" "slot_ok s k (sp_deadline f) p sl" "armed_phase p"
  using registryD(2) [OF assms(1,2)] assms(3) by (auto simp: sleep_ok_def)

text \<open>A sleep whose slot, entry and wake are left alone keeps what is known of it.\<close>

lemma sleep_ok_frame:
  assumes "sleep_ok s f p" "ts_clock s \<le> ts_clock t"
    and "\<And>k. sp_slot f = Some k \<Longrightarrow> slot_at t k = slot_at s k \<and>
      {e \<in> entries t. e_slot e = k} = {e \<in> entries s. e_slot e = k} \<and>
      (ts_taking t = Some k \<longleftrightarrow> ts_taking s = Some k)"
    and "set (ts_due s) \<union> ts_woken s \<subseteq> set (ts_due t) \<union> ts_woken t"
  shows "sleep_ok t f p"
proof (cases "sp_slot f")
  case None
  then show ?thesis
    using assms(1,2) by (auto simp: sleep_ok_def)
next
  case (Some k)
  then obtain sl where sl: "slot_at s k = Some sl" "slot_ok s k (sp_deadline f) p sl" "armed_phase p"
    using assms(1) by (auto simp: sleep_ok_def)
  have e: "e \<in> entries t \<longleftrightarrow> e \<in> entries s" if "e_slot e = k" for e
    using assms(3) [OF Some] that by auto
  have "slot_ok t k (sp_deadline f) p sl"
    unfolding slot_ok_def
  proof (intro conjI allI impI)
    show "if sl_fired sl then sp_deadline f \<le> ts_clock t \<and> (\<forall>e \<in> entries t. e_slot e \<noteq> k)
      else \<exists>e \<in> entries t. e_slot e = k \<and> e_deadline e = sp_deadline f"
      using sl(2) e assms(2) by (auto simp: slot_ok_def split: if_splits)
    show "if sl_fired sl \<and> ts_taking t \<noteq> Some k then (k, w) \<in> set (ts_due t) \<union> ts_woken t
        else sl_waker sl = Some w" if "p = SPending w" for w
      using sl(2) that assms(3) [OF Some] assms(4) by (auto simp: slot_ok_def split: if_splits)
  qed (use sl(2) in \<open>auto simp: slot_ok_def\<close>)
  then show ?thesis
    using sl(1,3) assms(3) [OF Some] Some by (simp add: sleep_ok_def)
qed

text \<open>The steps that leave the registry, the slots and the sleeps alone.\<close>

lemma registry_rest:
  assumes inv: "registry_inv s" and t: "ts_timers t = ts_timers s" "ts_sleeps t = ts_sleeps s"
      "ts_taking t = ts_taking s" "ts_clock s \<le> ts_clock t"
      "set (ts_due s) \<union> ts_woken s \<subseteq> set (ts_due t) \<union> ts_woken t"
    and lock: "\<And>k. ts_taking s = Some k \<Longrightarrow> \<not> unlocked t"
    and now: "\<And>now. ts_driver t = DDraining now \<Longrightarrow> now \<le> ts_clock t"
  shows "registry_inv t"
proof -
  have "sleep_ok t f p" if "ts_sleeps s i = Some (f, p)" for i f p
    by (rule sleep_ok_frame [OF registryD(2) [OF inv that] t(4)]) (use t in auto)
  then show ?thesis
    using inv t(1-3) lock now unfolding registry_inv_def by auto
qed

text \<open>The steps that change the owner \<open>i\<close> of slot \<open>k\<close>, that slot and its entry.\<close>

lemma registry_slot:
  assumes inv: "registry_inv s" and i: "ts_sleeps s i = Some (f, p)" "sp_slot f = Some k"
    and t: "ts_sleeps t = (ts_sleeps s)(i \<mapsto> (f, q))" "slot_at t = (slot_at s)(k \<mapsto> sl)"
      "t_next (ts_timers t) = t_next (ts_timers s)" "ts_clock t = ts_clock s" "ts_driver t = ts_driver s"
      "set (ts_due s) \<union> ts_woken s \<subseteq> set (ts_due t) \<union> ts_woken t"
    and heap: "heap_inv (heap_of (ts_timers t))"
      "{e \<in> entries t. e_slot e \<noteq> k} = {e \<in> entries s. e_slot e \<noteq> k}"
    and taking: "\<And>l. l \<noteq> k \<Longrightarrow> ts_taking t = Some l \<longleftrightarrow> ts_taking s = Some l"
      "ts_taking t = Some k \<Longrightarrow> \<not> unlocked s \<and> (\<forall>e \<in> entries t. e_slot e \<noteq> k)"
    and ok: "armed_phase q" "slot_ok t k (sp_deadline f) q sl"
  shows "registry_inv t"
proof -
  have tasks: "(\<exists>r. ts_sleeps t j = Some (g, r)) \<longleftrightarrow> (\<exists>r. ts_sleeps s j = Some (g, r))" for j g
    using i t(1) by simp
  have same: "e \<in> entries t \<longleftrightarrow> e \<in> entries s" if "e_slot e \<noteq> k" for e
    using heap(2) that by auto
  have "sleep_ok t g r" if g: "ts_sleeps t j = Some (g, r)" for j g r
  proof (cases "j = i")
    case True
    then show ?thesis using g t(1,2) i(2) ok by (simp add: sleep_ok_def)
  next
    case False
    then have s: "ts_sleeps s j = Some (g, r)" using g t(1) by simp
    have ne: "sp_slot g \<noteq> Some k"
      using registryD(3) [OF inv s i(1) _ i(2)] False by blast
    show ?thesis
    proof (rule sleep_ok_frame [OF registryD(2) [OF inv s]])
      fix l
      assume l: "sp_slot g = Some l"
      then have lk: "l \<noteq> k" using ne by auto
      then show "slot_at t l = slot_at s l \<and> {e \<in> entries t. e_slot e = l} = {e \<in> entries s. e_slot e = l} \<and>
        (ts_taking t = Some l \<longleftrightarrow> ts_taking s = Some l)"
        using t(2) same taking(1) by auto
    qed (use t in simp_all)
  qed
  moreover have "\<forall>j l g r h u m. ts_sleeps t j = Some (g, r) \<longrightarrow> ts_sleeps t l = Some (h, u) \<longrightarrow>
      sp_slot g = Some m \<longrightarrow> sp_slot h = Some m \<longrightarrow> j = l"
    using registryD(3) [OF inv] tasks by meson
  moreover have "slot_at t (e_slot e) \<noteq> None" if "e \<in> entries t" for e
    using that t(2) same registryD(4) [OF inv] by (cases "e_slot e = k") auto
  moreover have "\<not> unlocked t \<and> (\<forall>e \<in> entries t. e_slot e \<noteq> l)" if "ts_taking t = Some l" for l
  proof (cases "l = k")
    case True
    then show ?thesis using that taking(2) t(5) by (simp add: unlocked_def)
  next
    case False
    then have "ts_taking s = Some l" using that taking(1) by blast
    then show ?thesis
      using registryD(5,6) [OF inv] same False t(5) by (auto simp: unlocked_def)
  qed
  moreover have "l < t_next (ts_timers t) \<and> (\<exists>j g r. ts_sleeps t j = Some (g, r) \<and> sp_slot g = Some l)"
    if "slot_at t l \<noteq> None" for l
  proof -
    have "slot_at s l \<noteq> None"
      using that t(2) registryD(2) [OF inv i(1)] i(2) by (auto simp: sleep_ok_def split: if_splits)
    then show ?thesis
      using registryD(8,9) [OF inv] t(3) tasks by (metis option.exhaust)
  qed
  ultimately show ?thesis
    using heap(1) registryD(7) [OF inv] t(4,5) unfolding registry_inv_def by simp
qed

text \<open>One sleep changes its phase, and nothing else changes.\<close>

lemma registry_phase:
  assumes inv: "registry_inv s" and i: "ts_sleeps s i = Some (f, p)" and ok: "sleep_ok s f q"
  shows "registry_inv (set_sleep s i (Some (f, q)))"
proof -
  let ?t = "set_sleep s i (Some (f, q))"
  have same: "sleep_ok ?t g r = sleep_ok s g r" for g r
    by (simp add: sleep_ok_def slot_ok_def set_sleep_def split: option.splits)
  have tasks: "(\<exists>r. ts_sleeps ?t j = Some (g, r)) \<longleftrightarrow> (\<exists>r. ts_sleeps s j = Some (g, r))" for j g
    using i by (simp add: set_sleep_def)
  show ?thesis
    unfolding registry_inv_def same
  proof (intro conjI)
    show "\<forall>j g r. ts_sleeps ?t j = Some (g, r) \<longrightarrow> sleep_ok s g r"
      using registryD(2) [OF inv] ok by (simp add: set_sleep_def)
    show "\<forall>j l g r h u k. ts_sleeps ?t j = Some (g, r) \<longrightarrow> ts_sleeps ?t l = Some (h, u) \<longrightarrow>
        sp_slot g = Some k \<longrightarrow> sp_slot h = Some k \<longrightarrow> j = l"
      using registryD(3) [OF inv] tasks by meson
    show "\<forall>k. slot_at ?t k \<noteq> None \<longrightarrow> k < t_next (ts_timers ?t) \<and>
        (\<exists>j g r. ts_sleeps ?t j = Some (g, r) \<and> sp_slot g = Some k)"
    proof (intro allI impI)
      fix k
      assume "slot_at ?t k \<noteq> None"
      then obtain sl where "slot_at s k = Some sl" by (auto simp: set_sleep_def)
      then show "k < t_next (ts_timers ?t) \<and> (\<exists>j g r. ts_sleeps ?t j = Some (g, r) \<and> sp_slot g = Some k)"
        using registryD(8,9) [OF inv] tasks by (simp add: set_sleep_def)
    qed
  qed (use inv in \<open>auto simp: registry_inv_def set_sleep_def unlocked_def\<close>)
qed

lemma registry_create:
  assumes inv: "registry_inv s" and i: "ts_sleeps s i = None"
  shows "registry_inv (set_sleep s i (Some (sleep_until d, SNew)))" (is "registry_inv ?t")
proof -
  have same: "sleep_ok ?t g r = sleep_ok s g r" for g r
    by (simp add: sleep_ok_def slot_ok_def set_sleep_def split: option.splits)
  have new: "sleep_ok s (sleep_until d) SNew"
    by (simp add: sleep_ok_def sleep_until_def armed_phase_def)
  have old: "ts_sleeps ?t j = Some (g, r) \<and> sp_slot g = Some k \<longleftrightarrow> ts_sleeps s j = Some (g, r) \<and> sp_slot g = Some k"
    for j g r k
    using i by (auto simp: set_sleep_def sleep_until_def)
  show ?thesis
    unfolding registry_inv_def same old
  proof (intro conjI)
    show "\<forall>j g r. ts_sleeps ?t j = Some (g, r) \<longrightarrow> sleep_ok s g r"
      using registryD(2) [OF inv] new by (auto simp: set_sleep_def)
    show "\<forall>j l g r h u k. ts_sleeps ?t j = Some (g, r) \<longrightarrow> ts_sleeps ?t l = Some (h, u) \<longrightarrow>
        sp_slot g = Some k \<longrightarrow> sp_slot h = Some k \<longrightarrow> j = l"
      using registryD(3) [OF inv] old by meson
  qed (use inv in \<open>auto simp: registry_inv_def set_sleep_def unlocked_def\<close>)
qed

lemma arm_effect:
  assumes inv: "heap_inv (heap_of t)" and fresh: "\<forall>e \<in> set (h_entries (heap_of t)). e_slot e \<noteq> k"
  obtains t' where "arm t d k = Some (t', \<forall>e \<in> set (h_entries (heap_of t)). d < e_deadline e)"
    "heap_inv (heap_of t')" "t_slots t' = t_slots t" "t_next t' = t_next t"
    "set (h_entries (heap_of t')) =
      insert \<lparr>e_deadline = d, e_seq = t_seq t, e_slot = k\<rparr> (set (h_entries (heap_of t)))"
proof -
  let ?h = "heap_of t" and ?e = "\<lparr>e_deadline = d, e_seq = t_seq t, e_slot = k\<rparr>"
  have "h_index ?h k = None"
    using heap.position_iff [OF inv, of k] fresh by auto
  then obtain h' where h': "heap_push ?h ?e = Some h'" "heap_inv h'"
    "mset (h_entries h') = add_mset ?e (mset (h_entries ?h))"
    using heap.push_fresh [OF inv, of ?e] by auto
  have "(case heap_peek ?h of None \<Rightarrow> True | Some e \<Rightarrow> d < e_deadline e) =
      (\<forall>e \<in> set (h_entries ?h). d < e_deadline e)"
  proof (cases "heap_peek ?h")
    case None
    then show ?thesis using heap.peek_None [OF inv] by simp
  next
    case (Some e)
    then have "e \<in> set (h_entries ?h)" "\<forall>x \<in> set (h_entries ?h). e_deadline e \<le> e_deadline x"
      using heap.peek_least [OF inv Some] prio_deadline by auto
    then show ?thesis using Some by auto
  qed
  then have "arm t d k = Some (t\<lparr>t_pending := Some h', t_seq := t_seq t + 1\<rparr>,
      \<forall>e \<in> set (h_entries ?h). d < e_deadline e)"
    using h'(1) by (simp add: arm_def heap_of_def Let_def)
  moreover have "heap_of (t\<lparr>t_pending := Some h', t_seq := t_seq t + 1\<rparr>) = h'"
    by (simp add: heap_of_def)
  moreover have "set (h_entries h') = insert ?e (set (h_entries ?h))"
    using arg_cong [OF h'(3), of set_mset] by simp
  ultimately show thesis
    using that h'(2) by simp
qed

lemma registry_armed:
  assumes inv: "registry_inv s" and i: "ts_sleeps s i = Some (f, SArming wk)"
    and k: "k = t_next (ts_timers s)" and lock: "unlocked s"
    and r: "arm ((ts_timers s)\<lparr>t_slots := (slot_at s)(k \<mapsto> \<lparr>sl_fired = False, sl_waker = Some wk\<rparr>),
        t_next := k + 1\<rparr>) (sp_deadline f) k = Some (tm, earliest)" (is "arm ?tm _ _ = _")
    and t: "t = (set_sleep s i (Some (f\<lparr>sp_slot := Some k\<rparr>, SPending wk)))
      \<lparr>ts_timers := tm, ts_nudges := n\<rparr>"
  shows "registry_inv t" "earliest = (\<forall>e \<in> entries s. sp_deadline f < e_deadline e)"
    "entries t = insert \<lparr>e_deadline = sp_deadline f, e_seq = t_seq (ts_timers s), e_slot = k\<rparr> (entries s)"
proof -
  let ?e = "\<lparr>e_deadline = sp_deadline f, e_seq = t_seq (ts_timers s), e_slot = k\<rparr>"
  have none: "slot_at s k = None"
    using registryD(8) [OF inv, of k] k by (cases "slot_at s k") auto
  have fresh: "\<forall>e \<in> entries s. e_slot e \<noteq> k"
    using registryD(4) [OF inv] none by metis
  have ho: "heap_of ?tm = heap_of (ts_timers s)"
    by (simp add: heap_of_def)
  have a: "heap_inv (heap_of tm)" "t_slots tm = (slot_at s)(k \<mapsto> \<lparr>sl_fired = False, sl_waker = Some wk\<rparr>)"
    "t_next tm = k + 1" "set (h_entries (heap_of tm)) = insert ?e (entries s)"
    "earliest = (\<forall>e \<in> entries s. sp_deadline f < e_deadline e)"
    using arm_effect [of ?tm k "sp_deadline f"] r ho fresh registryD(1) [OF inv] by auto
  show "earliest = (\<forall>e \<in> entries s. sp_deadline f < e_deadline e)" "entries t = insert ?e (entries s)"
    using a t by simp_all
  have taking: "ts_taking s = None"
    using registryD(5) [OF inv] lock by (cases "ts_taking s") auto
  have tf: "ts_sleeps t = (ts_sleeps s)(i \<mapsto> (f\<lparr>sp_slot := Some k\<rparr>, SPending wk))" "ts_timers t = tm"
    "ts_taking t = None" "ts_clock t = ts_clock s" "ts_due t = ts_due s" "ts_woken t = ts_woken s"
    "ts_driver t = ts_driver s"
    using t taking by (simp_all add: set_sleep_def)
  have ne: "sp_slot g \<noteq> Some k" if "ts_sleeps s j = Some (g, q)" for j g q
    using registryD(2) [OF inv that] none by (auto simp: sleep_ok_def)
  show "registry_inv t"
    unfolding registry_inv_def
  proof (intro conjI allI impI ballI)
    fix j g q
    assume g: "ts_sleeps t j = Some (g, q)"
    show "sleep_ok t g q"
    proof (cases "j = i")
      case True
      then show ?thesis
        using g tf(1) a(2,4) tf(2,3) by (auto simp: sleep_ok_def slot_ok_def armed_phase_def)
    next
      case False
      then have "ts_sleeps s j = Some (g, q)" using g tf(1) by simp
      then show ?thesis
        using tf a(2,4) ne taking
        by (intro sleep_ok_frame [OF registryD(2) [OF inv]]) auto
    qed
  next
    fix j l g q h u m
    assume "ts_sleeps t j = Some (g, q)" "ts_sleeps t l = Some (h, u)" "sp_slot g = Some m" "sp_slot h = Some m"
    then show "j = l"
      using tf(1) ne registryD(3) [OF inv] by (auto split: if_splits)
  next
    fix m
    assume "slot_at t m \<noteq> None"
    then have "m = k \<or> m \<noteq> k \<and> slot_at s m \<noteq> None"
      using a(2) tf(2) by (auto split: if_splits)
    then show "m < t_next (ts_timers t)" "\<exists>j g q. ts_sleeps t j = Some (g, q) \<and> sp_slot g = Some m"
    proof -
      have "\<exists>j g q. j \<noteq> i \<and> ts_sleeps s j = Some (g, q) \<and> sp_slot g = Some m" "m < k"
        if live: "m \<noteq> k" "slot_at s m \<noteq> None"
      proof -
        obtain j g q where j: "ts_sleeps s j = Some (g, q)" "sp_slot g = Some m"
          using live registryD(9) [OF inv, of m] by blast
        moreover have "j \<noteq> i"
        proof
          assume "j = i"
          then have "g = f" "q = SArming wk" using j i by auto
          then show False
            using registryD(2) [OF inv i] j by (auto simp: sleep_ok_def armed_phase_def)
        qed
        ultimately show "\<exists>j g q. j \<noteq> i \<and> ts_sleeps s j = Some (g, q) \<and> sp_slot g = Some m" by blast
        show "m < k" using live registryD(8) [OF inv, of m] k by auto
      qed
      then show "m < t_next (ts_timers t)" "\<exists>j g q. ts_sleeps t j = Some (g, q) \<and> sp_slot g = Some m"
        using \<open>m = k \<or> m \<noteq> k \<and> slot_at s m \<noteq> None\<close> tf(1,2) a(3) by (auto 4 4)
    qed
  qed (use a(1,2,4) tf registryD(4,7) [OF inv] in \<open>auto\<close>)
qed

lemma sleep_drop_effect:
  assumes inv: "registry_inv s" and i: "ts_sleeps s i = Some (f, p)" "sp_slot f = Some k"
    and d: "sleep_drop (ts_timers s) f = Some tm"
  shows "heap_inv (heap_of tm)" "t_slots tm = (slot_at s)(k := None)" "t_next tm = t_next (ts_timers s)"
    "set (h_entries (heap_of tm)) = {e \<in> entries s. e_slot e \<noteq> k}"
proof -
  let ?h = "heap_of (ts_timers s)"
  have hinv: "heap_inv ?h"
    using registryD(1) [OF inv] .
  have pos: "slot_position (ts_timers s) k = h_index ?h k"
    by (simp add: slot_position_def heap_of_def heap_empty_def split: option.splits)
  have "heap_inv (heap_of tm) \<and> t_slots tm = (slot_at s)(k := None) \<and> t_next tm = t_next (ts_timers s) \<and>
    set (h_entries (heap_of tm)) = {e \<in> entries s. e_slot e \<noteq> k}"
  proof (cases "h_index ?h k")
    case None
    then have "tm = (ts_timers s)\<lparr>t_slots := (slot_at s)(k := None)\<rparr>"
      using d i(2) pos by (simp add: sleep_drop_def)
    moreover have "\<forall>e \<in> entries s. e_slot e \<noteq> k"
      using None heap.position_iff [OF hinv, of k] by auto
    ultimately show ?thesis
      using hinv by (auto simp: heap_of_def)
  next
    case (Some m)
    then obtain h where h: "t_pending (ts_timers s) = Some h" "?h = h"
      by (auto simp: heap_of_def heap_empty_def split: option.splits)
    obtain h' e where h': "heap_remove h m = Some (h', e)" "e_slot e = k" "heap_inv h'"
      "mset (h_entries h) = add_mset e (mset (h_entries h'))"
      using heap.remove_at [OF hinv Some] h(2) by auto
    have tm: "tm = (ts_timers s)\<lparr>t_pending := Some h', t_slots := (slot_at s)(k := None)\<rparr>"
      using d i(2) pos Some h h'(1) by (simp add: sleep_drop_def)
    have "set (h_entries h) = insert e (set (h_entries h'))"
      using arg_cong [OF h'(4), of set_mset] by simp
    moreover have "e_slot x \<noteq> k" if "x \<in> set (h_entries h')" for x
      using heap.slots_unique [OF hinv, of e x] h(2) h'(2,4) that by auto
    ultimately have "set (h_entries h') = {e \<in> entries s. e_slot e \<noteq> k}"
      using h(2) h'(2) by auto
    then show ?thesis
      using tm h'(3) by (simp add: heap_of_def)
  qed
  then show "heap_inv (heap_of tm)" "t_slots tm = (slot_at s)(k := None)" "t_next tm = t_next (ts_timers s)"
    "set (h_entries (heap_of tm)) = {e \<in> entries s. e_slot e \<noteq> k}" by blast+
qed

lemma registry_cancel:
  assumes inv: "registry_inv s" and i: "ts_sleeps s i = Some (f, p)" and lock: "unlocked s"
    and d: "sleep_drop (ts_timers s) f = Some tm" and t: "t = (set_sleep s i None)\<lparr>ts_timers := tm\<rparr>"
  shows "registry_inv t" "entries t \<subseteq> entries s"
proof -
  have taking: "ts_taking s = None"
    using registryD(5) [OF inv] lock by (cases "ts_taking s") auto
  have tf: "ts_sleeps t = (ts_sleeps s)(i := None)" "ts_timers t = tm"
    "ts_taking t = None" "ts_clock t = ts_clock s" "ts_due t = ts_due s" "ts_woken t = ts_woken s"
    "ts_driver t = ts_driver s"
    using t taking by (simp_all add: set_sleep_def)
  have "\<exists>K. heap_inv (heap_of tm) \<and> t_slots tm = (\<lambda>l. if l \<in> K then None else slot_at s l) \<and>
    t_next tm = t_next (ts_timers s) \<and> set (h_entries (heap_of tm)) = {e \<in> entries s. e_slot e \<notin> K} \<and>
    (\<forall>l. l \<in> K \<longleftrightarrow> sp_slot f = Some l)"
  proof (cases "sp_slot f")
    case None
    then show ?thesis
      using d registryD(1) [OF inv] by (intro exI [of _ "{}"]) (simp add: sleep_drop_def)
  next
    case (Some k)
    then show ?thesis
      using sleep_drop_effect [OF inv i Some d] by (intro exI [of _ "{k}"]) (auto simp: fun_eq_iff)
  qed
  then obtain K where K: "heap_inv (heap_of tm)" "t_slots tm = (\<lambda>l. if l \<in> K then None else slot_at s l)"
    "t_next tm = t_next (ts_timers s)" "set (h_entries (heap_of tm)) = {e \<in> entries s. e_slot e \<notin> K}"
    "\<And>l. l \<in> K \<longleftrightarrow> sp_slot f = Some l"
    by blast
  then show "entries t \<subseteq> entries s"
    using tf(2) by auto
  have ne: "l \<notin> K" if "ts_sleeps s j = Some (g, q)" "j \<noteq> i" "sp_slot g = Some l" for j g q l
    using registryD(3) [OF inv that(1) i that(3)] that(2) K(5) by blast
  show "registry_inv t"
    unfolding registry_inv_def
  proof (intro conjI allI impI ballI)
    fix j g q
    assume "ts_sleeps t j = Some (g, q)"
    then have j: "ts_sleeps s j = Some (g, q)" "j \<noteq> i" using tf(1) by (auto split: if_splits)
    show "sleep_ok t g q"
      using tf K(2,4) ne [OF j] taking by (intro sleep_ok_frame [OF registryD(2) [OF inv j(1)]]) auto
  next
    fix j l g q h u m
    assume "ts_sleeps t j = Some (g, q)" "ts_sleeps t l = Some (h, u)" "sp_slot g = Some m" "sp_slot h = Some m"
    then show "j = l"
      using tf(1) registryD(3) [OF inv] by (auto split: if_splits)
  next
    fix m
    assume m: "slot_at t m \<noteq> None"
    then have live: "m \<notin> K" "slot_at s m \<noteq> None"
      using K(2) tf(2) by (auto split: if_splits)
    then obtain j g q where j: "ts_sleeps s j = Some (g, q)" "sp_slot g = Some m"
      using registryD(9) [OF inv, of m] by blast
    moreover have "j \<noteq> i"
    proof
      assume "j = i"
      then have "g = f" using j(1) i by simp
      then show False using j(2) live(1) K(5) by simp
    qed
    ultimately show "\<exists>j g q. ts_sleeps t j = Some (g, q) \<and> sp_slot g = Some m"
      using tf(1) by auto
    show "m < t_next (ts_timers t)"
      using live(2) registryD(8) [OF inv, of m] K(3) tf(2) by auto
  qed (use K(1,2,4) tf registryD(4,7) [OF inv] in auto)
qed

lemma registry_fire:
  assumes inv: "registry_inv s" and dr: "ts_driver s = DDraining now" and tk: "ts_taking s = None"
    and h: "t_pending (ts_timers s) = Some h" "heap_peek h = Some e" "e_deadline e \<le> now"
      "heap_pop h = Some (h', Some e)" and sl: "slot_at s (e_slot e) = Some sl"
    and t: "t = (set_slot s (e_slot e) (sl\<lparr>sl_fired := True\<rparr>))
      \<lparr>ts_timers := (ts_timers (set_slot s (e_slot e) (sl\<lparr>sl_fired := True\<rparr>)))\<lparr>t_pending := Some h'\<rparr>,
       ts_taking := Some (e_slot e)\<rparr>"
  shows "registry_inv t" "entries t \<subseteq> entries s"
proof -
  let ?k = "e_slot e"
  have hs: "heap_of (ts_timers s) = h" "heap_of (ts_timers t) = h'"
    using h(1) t by (simp_all add: heap_of_def)
  have hinv: "heap_inv h" using registryD(1) [OF inv] hs by simp
  have h': "heap_inv h'" "mset (h_entries h) = add_mset e (mset (h_entries h'))"
    using heap.pop_least [OF hinv h(2)] h(4) by auto
  have set: "set (h_entries h) = insert e (set (h_entries h'))"
    using arg_cong [OF h'(2), of set_mset] by simp
  then show "entries t \<subseteq> entries s"
    using hs by auto
  have gone: "e_slot x \<noteq> ?k" if "x \<in> set (h_entries h')" for x
    using heap.slots_unique [OF hinv, of e x] h'(2) that by auto
  obtain i f p where i: "ts_sleeps s i = Some (f, p)" "sp_slot f = Some ?k"
    using registryD(9) [OF inv sl] by blast
  have ok: "slot_ok s ?k (sp_deadline f) p sl" "armed_phase p"
    using registryD(2) [OF inv i(1)] i(2) sl by (auto simp: sleep_ok_def)
  have nf: "\<not> sl_fired sl"
    using ok(1) set hs(1) by (auto simp: slot_ok_def split: if_splits)
  then obtain x where x: "x \<in> set (h_entries h)" "e_slot x = ?k" "e_deadline x = sp_deadline f"
    using ok(1) hs(1) by (auto simp: slot_ok_def)
  then have "x = e" using set gone by auto
  then have dl: "sp_deadline f \<le> ts_clock s"
    using x(3) h(3) registryD(7) [OF inv dr] by simp
  have tf: "ts_sleeps t = (ts_sleeps s)(i \<mapsto> (f, p))" "slot_at t = (slot_at s)(?k \<mapsto> sl\<lparr>sl_fired := True\<rparr>)"
    "t_next (ts_timers t) = t_next (ts_timers s)" "ts_clock t = ts_clock s" "ts_driver t = ts_driver s"
    "set (ts_due s) \<union> ts_woken s \<subseteq> set (ts_due t) \<union> ts_woken t" "ts_taking t = Some ?k"
    using t i(1) by (simp_all add: set_slot_def fun_upd_idem)
  have "slot_ok t ?k (sp_deadline f) p (sl\<lparr>sl_fired := True\<rparr>)"
    using ok(1) nf dl gone hs tf(4,7) by (auto simp: slot_ok_def)
  moreover have "{x \<in> entries t. e_slot x \<noteq> ?k} = {x \<in> entries s. e_slot x \<noteq> ?k}"
    using set hs by auto
  ultimately show "registry_inv t"
    using ok(2) h'(1) hs(2) tk gone tf(7) dr
    by (intro registry_slot [OF inv i tf(1-6)]) (auto simp: unlocked_def)
qed

lemma registry_take:
  assumes inv: "registry_inv s" and tk: "ts_taking s = Some k" and sl: "slot_at s k = Some sl"
    and t: "t = (set_slot s k (sl\<lparr>sl_waker := None\<rparr>))
      \<lparr>ts_taking := None,
       ts_due := ts_due s @ (case sl_waker sl of Some w \<Rightarrow> [(k, w)] | None \<Rightarrow> [])\<rparr>"
  shows "registry_inv t" "entries t = entries s"
proof -
  obtain i f p where i: "ts_sleeps s i = Some (f, p)" "sp_slot f = Some k"
    using registryD(9) [OF inv sl] by blast
  have ok: "slot_ok s k (sp_deadline f) p sl" "armed_phase p"
    using registryD(2) [OF inv i(1)] i(2) sl by (auto simp: sleep_ok_def)
  have tf: "ts_sleeps t = (ts_sleeps s)(i \<mapsto> (f, p))" "slot_at t = (slot_at s)(k \<mapsto> sl\<lparr>sl_waker := None\<rparr>)"
    "t_next (ts_timers t) = t_next (ts_timers s)" "ts_clock t = ts_clock s" "ts_driver t = ts_driver s"
    "set (ts_due s) \<union> ts_woken s \<subseteq> set (ts_due t) \<union> ts_woken t" "ts_taking t = None"
    using t i(1) by (auto simp: set_slot_def fun_upd_idem)
  show same: "entries t = entries s"
    using t by (simp add: set_slot_def heap_of_def)
  have fired: "sl_fired sl"
  proof (rule ccontr)
    assume "\<not> sl_fired sl"
    then obtain e where "e \<in> entries s" "e_slot e = k"
      using ok(1) by (auto simp: slot_ok_def)
    then show False using registryD(6) [OF inv tk] by blast
  qed
  have "slot_ok t k (sp_deadline f) p (sl\<lparr>sl_waker := None\<rparr>)"
    using ok(1) fired same tf(4,7) tk t by (auto simp: slot_ok_def set_slot_def)
  moreover have "heap_of (ts_timers t) = heap_of (ts_timers s)"
    using t by (simp add: set_slot_def heap_of_def)
  ultimately show "registry_inv t"
    using ok(2) registryD(1) [OF inv] tk tf(7)
    by (intro registry_slot [OF inv i tf(1-6)]) auto
qed

lemma registry_store:
  assumes inv: "registry_inv s" and i: "ts_sleeps s i = Some (f, SLoaded wk)" "sp_slot f = Some k"
    and sl: "slot_at s k = Some sl"
    and t: "t = set_slot (set_sleep s i (Some (f, SStored wk))) k (sl\<lparr>sl_waker := Some wk\<rparr>)"
  shows "registry_inv t" "entries t = entries s"
proof -
  have ok: "slot_ok s k (sp_deadline f) (SLoaded wk) sl"
    using registryD(2) [OF inv i(1)] i(2) sl by (auto simp: sleep_ok_def)
  have tf: "ts_sleeps t = (ts_sleeps s)(i \<mapsto> (f, SStored wk))" "slot_at t = (slot_at s)(k \<mapsto> sl\<lparr>sl_waker := Some wk\<rparr>)"
    "t_next (ts_timers t) = t_next (ts_timers s)" "ts_clock t = ts_clock s" "ts_driver t = ts_driver s"
    "set (ts_due s) \<union> ts_woken s \<subseteq> set (ts_due t) \<union> ts_woken t" "ts_taking t = ts_taking s"
    using t by (simp_all add: set_slot_def set_sleep_def)
  have ho: "heap_of (ts_timers t) = heap_of (ts_timers s)"
    using t by (simp add: set_slot_def set_sleep_def heap_of_def)
  then show "entries t = entries s" by simp
  have "slot_ok t k (sp_deadline f) (SStored wk) (sl\<lparr>sl_waker := Some wk\<rparr>)"
    using ok ho tf(4) by (auto simp: slot_ok_def)
  then show "registry_inv t"
    using registryD(1) [OF inv] registryD(5,6) [OF inv, of k] ho tf(7)
    by (intro registry_slot [OF inv i tf(1-6)]) (auto simp: armed_phase_def)
qed

lemma registry_phase_ok:
  assumes inv: "registry_inv s" and i: "ts_sleeps s i = Some (f, p)" "sp_slot f = Some k"
    and sl: "slot_at s k = Some sl"
    and q: "armed_phase q" "q = SDone \<Longrightarrow> sl_fired sl"
      "\<And>w. q = SPending w \<Longrightarrow> \<not> sl_fired sl \<and> sl_waker sl = Some w" "\<And>w. q \<noteq> SStored w"
  shows "registry_inv (set_sleep s i (Some (f, q)))"
proof -
  have "slot_ok s k (sp_deadline f) p sl"
    using registryD(2) [OF inv i(1)] i(2) sl by (auto simp: sleep_ok_def)
  then have "slot_ok s k (sp_deadline f) q sl"
    using q by (auto simp: slot_ok_def)
  then show ?thesis
    using registry_phase [OF inv i(1)] i(2) sl q(1) by (simp add: sleep_ok_def)
qed

lemma timer_step_registry:
  assumes "timer_step s t" "registry_inv s"
  shows "registry_inv t"
  using assms
proof (induction rule: timer_step.induct)
  case (create s i d)
  then show ?case by (rule registry_create [rotated])
next
  case (first_ready s i f)
  then have "sleep_ok s f SDone"
    using registryD(2) [OF first_ready(3,1)] by (auto simp: sleep_ok_def armed_phase_def split: option.splits)
  then show ?case using registry_phase first_ready by blast
next
  case (first_late s i f wk)
  then have "sleep_ok s f (SArming wk)"
    using registryD(2) [OF first_late(3,1)] by (auto simp: sleep_ok_def armed_phase_def split: option.splits)
  then show ?case using registry_phase first_late by blast
next
  case (armed s i f wk k t earliest)
  then show ?case using registry_armed(1) by blast
next
  case (load s i f w k sl wk)
  then show ?case
    by (intro registry_phase_ok [OF load(4,1,2,3)]) (auto simp: armed_phase_def split: if_splits)
next
  case (store s i f wk k sl)
  then show ?case using registry_store(1) by blast
next
  case (recheck s i f wk k sl)
  have "slot_ok s k (sp_deadline f) (SStored wk) sl"
    using registryD(2) [OF recheck(4,1)] recheck(2,3) by (auto simp: sleep_ok_def)
  then show ?case
    by (intro registry_phase_ok [OF recheck(4,1,2,3)]) (auto simp: armed_phase_def slot_ok_def split: if_splits)
next
  case (cancel s i f p t)
  then show ?case using registry_cancel(1) by blast
next
  case (fire s now h e h' sl)
  then show ?case using registry_fire(1) by blast
next
  case (take s k sl)
  then show ?case using registry_take(1) by blast
next
  case (tick s c)
  have "unlocked (s\<lparr>ts_clock := c\<rparr>) = unlocked s" by (simp add: unlocked_def)
  then show ?case
    using tick(1) registryD(5,7) [OF tick(2)] by (intro registry_rest [OF tick(2)]) (auto intro: order_trans)
next
  case (nudge s n)
  have "unlocked (s\<lparr>ts_nudges := n, ts_nudged := True\<rparr>) = unlocked s" by (simp add: unlocked_def)
  then show ?case
    using registryD(5,7) [OF nudge(2)] by (intro registry_rest [OF nudge(2)]) auto
next
  case (drain s)
  then show ?case by (intro registry_rest [OF drain(2)]) (auto simp: unlocked_def)
next
  case (drained s now nxt)
  then show ?case by (intro registry_rest [OF drained(5)]) auto
next
  case (wake s nxt x xs)
  then have "ts_taking s = None"
    using registryD(5) [OF wake(3)] by (cases "ts_taking s") (auto simp: unlocked_def)
  then show ?case
    using wake by (intro registry_rest [OF wake(3)]) auto
next
  case (again s nxt)
  then have "ts_taking s = None"
    using registryD(5) [OF again(4)] by (cases "ts_taking s") (auto simp: unlocked_def)
  then show ?case by (intro registry_rest [OF again(4)]) auto
next
  case (passed s d)
  then have "ts_taking s = None"
    using registryD(5) [OF passed(5)] by (cases "ts_taking s") (auto simp: unlocked_def)
  then show ?case by (intro registry_rest [OF passed(5)]) auto
next
  case (sleeps s nxt)
  then have "ts_taking s = None"
    using registryD(5) [OF sleeps(5)] by (cases "ts_taking s") (auto simp: unlocked_def)
  then show ?case by (intro registry_rest [OF sleeps(5)]) auto
next
  case (woken s nxt)
  then have "ts_taking s = None"
    using registryD(5) [OF woken(2)] by (cases "ts_taking s") (auto simp: unlocked_def)
  then show ?case by (intro registry_rest [OF woken(2)]) auto
qed

lemma timer_step_driver:
  assumes "timer_step s t" "registry_inv s" "driver_inv s"
  shows "driver_inv t"
  using assms
proof (induction rule: timer_step.induct)
  case (armed s i f wk k tm earliest)
  let ?t = "(set_sleep s i (Some (f\<lparr>sp_slot := Some k\<rparr>, SPending wk)))
      \<lparr>ts_timers := tm, ts_nudges := ts_nudges s + (if earliest then 1 else 0)\<rparr>"
  note a = registry_armed(2,3) [OF armed(5,1,3,2,4) refl]
  show ?case
  proof (cases earliest)
    case True
    then show ?thesis by (simp add: driver_inv_def)
  next
    case False
    then obtain e where e: "e \<in> entries s" "e_deadline e \<le> sp_deadline f"
      using a(1) by (auto simp: not_less)
    show ?thesis
      unfolding driver_inv_def
    proof (intro allI impI)
      fix nxt
      assume "ts_driver ?t = DDrained nxt \<or> ts_driver ?t = DWaiting nxt"
      then have old: "ts_nudged s \<or> 0 < ts_nudges s \<or> (\<forall>e \<in> entries s. \<exists>d. nxt = Some d \<and> d \<le> e_deadline e)"
        using armed(6) unfolding driver_inv_def by (simp add: set_sleep_def) blast
      then show "ts_nudged ?t \<or> 0 < ts_nudges ?t \<or> (\<forall>e \<in> entries ?t. \<exists>d. nxt = Some d \<and> d \<le> e_deadline e)"
      proof (elim disjE)
        assume all: "\<forall>e \<in> entries s. \<exists>d. nxt = Some d \<and> d \<le> e_deadline e"
        then obtain d where d: "nxt = Some d" "d \<le> e_deadline e"
          using e(1) by blast
        have "d \<le> e_deadline x" if "x \<in> entries ?t" for x
          using that all d order_trans [OF d(2) e(2)] unfolding a(2) by auto
        then show ?thesis using d(1) by blast
      qed (simp_all add: set_sleep_def)
    qed
  qed
next
  case (cancel s i f p t)
  then show ?case
    using registry_cancel(2) [OF cancel(5,1,3,4) refl]
    by (simp add: driver_inv_def set_sleep_def subset_iff) blast
next
  case (store s i f wk k sl)
  then show ?case
    using registry_store(2) [OF store(4,1,2,3) refl]
    by (simp add: driver_inv_def set_sleep_def set_slot_def)
next
  case (take s k sl)
  then have "\<not> unlocked s"
    using registryD(5) by blast
  then show ?case
    by (auto simp: driver_inv_def unlocked_def set_slot_def split: driver_state.splits)
next
  case (fire s now h e h' sl)
  then show ?case by (simp add: driver_inv_def set_slot_def)
next
  case (drained s now nxt)
  note inv = registryD(1) [OF drained(5)]
  have "\<exists>d. nxt = Some d \<and> d \<le> e_deadline e" if e: "e \<in> entries s" for e
  proof -
    have ne: "mset (h_entries (heap_of (ts_timers s))) \<noteq> {#}"
      using e by (cases "h_entries (heap_of (ts_timers s))") auto
    then obtain x where x: "heap_peek (heap_of (ts_timers s)) = Some x"
      using heap.peek_None [OF inv] by fastforce
    then have "nxt = Some (e_deadline x)"
      using drained(3) ne by (auto simp: heap_of_def heap_empty_def split: option.splits)
    then show ?thesis
      using heap.peek_least [OF inv x] e prio_deadline by simp
  qed
  then show ?case
    by (auto simp: driver_inv_def)
qed (auto simp: driver_inv_def set_sleep_def)

definition timer_inv :: "tsys \<Rightarrow> bool" where
  "timer_inv s \<longleftrightarrow> registry_inv s \<and> driver_inv s"

interpretation timer: invariant_system "\<lambda>s. s = tsys_start c" timer_step timer_inv for c
proof unfold_locales
  show "timer_inv s" if "s = tsys_start c" for s
    using that heap.empty_inv
    by (simp add: timer_inv_def registry_inv_def driver_inv_def tsys_start_def timers_new_def heap_of_def)
  show "timer_inv t" if "timer_inv s" "timer_step s t" for s t
    using that timer_step_registry timer_step_driver by (auto simp: timer_inv_def)
qed

section \<open>Properties\<close>

text \<open>
  a sleep never completes early: in every interleaving of polls, cancellations,
  the driver and the clock, a sleep that is done has a deadline the clock has reached.
\<close>

theorem sleep_never_early:
  assumes "timer_reach c s" "ts_sleeps s i = Some (f, SDone)"
  shows "sp_deadline f \<le> ts_clock s"
  using registryD(2) [of s i f SDone] timer.reach_inv [OF assms(1)] assms(2)
  by (auto simp: timer_inv_def sleep_ok_def slot_ok_def armed_phase_def split: option.splits)

text \<open>
  C10: a pending sleep cannot be forgotten. A sleep whose last poll returned pending
  is in the registry with its own deadline and the waker of that poll, or it has
  fired and that waker is about to be taken by the driver, collected, or woken.
\<close>

theorem sleep_pending_is_woken:
  assumes "timer_reach c s" "ts_sleeps s i = Some (f, SPending w)"
  shows "\<exists>k sl. sp_slot f = Some k \<and> slot_at s k = Some sl \<and>
    (if sl_fired sl
     then ts_taking s = Some k \<and> sl_waker sl = Some w \<or> (k, w) \<in> set (ts_due s) \<or> (k, w) \<in> ts_woken s
     else sl_waker sl = Some w \<and> (\<exists>e \<in> entries s. e_slot e = k \<and> e_deadline e = sp_deadline f))"
proof -
  have inv: "registry_inv s"
    using timer.reach_inv [OF assms(1)] by (simp add: timer_inv_def)
  have "sp_slot f \<noteq> None"
    using registryD(2) [OF inv assms(2)] by (cases "sp_slot f") (auto simp: sleep_ok_def armed_phase_def)
  then obtain k where k: "sp_slot f = Some k" by blast
  obtain sl where "slot_at s k = Some sl" "slot_ok s k (sp_deadline f) (SPending w) sl"
    using sleep_okD [OF inv assms(2) k] by blast
  then show ?thesis
    using k by (auto simp: slot_ok_def split: if_splits)
qed

text \<open>
  dropped timers leave nothing behind: every entry of the registry belongs to
  exactly one sleep that still exists, has its deadline, and has not fired.
\<close>

theorem registry_no_leak:
  assumes "timer_reach c s" "e \<in> entries s"
  shows "\<exists>!i. \<exists>f p sl. ts_sleeps s i = Some (f, p) \<and> sp_slot f = Some (e_slot e) \<and>
    sp_deadline f = e_deadline e \<and> slot_at s (e_slot e) = Some sl \<and> \<not> sl_fired sl"
proof -
  have inv: "registry_inv s"
    using timer.reach_inv [OF assms(1)] by (simp add: timer_inv_def)
  obtain sl where sl: "slot_at s (e_slot e) = Some sl"
    using registryD(4) [OF inv assms(2)] by blast
  obtain i f p where i: "ts_sleeps s i = Some (f, p)" "sp_slot f = Some (e_slot e)"
    using registryD(9) [OF inv sl] by blast
  have ok: "slot_ok s (e_slot e) (sp_deadline f) p sl"
    using registryD(2) [OF inv i(1)] i(2) sl by (auto simp: sleep_ok_def)
  then have nf: "\<not> sl_fired sl"
    using assms(2) by (auto simp: slot_ok_def split: if_splits)
  then obtain x where x: "x \<in> entries s" "e_slot x = e_slot e" "e_deadline x = sp_deadline f"
    using ok by (auto simp: slot_ok_def)
  have "x = e"
  proof (rule ccontr)
    assume "x \<noteq> e"
    let ?m = "mset (h_entries (heap_of (ts_timers s)))"
    have "x \<in># ?m" "e \<in># ?m" using x(1) assms(2) by simp_all
    then have "x \<in># ?m - {#e#}" using \<open>x \<noteq> e\<close> by (metis insert_DiffM insert_noteq_member)
    then show False
      using heap.slots_unique [OF registryD(1) [OF inv], of e x] \<open>e \<in># ?m\<close> x(2) by simp
  qed
  then have "ts_sleeps s i = Some (f, p) \<and> sp_slot f = Some (e_slot e) \<and> sp_deadline f = e_deadline e \<and>
      slot_at s (e_slot e) = Some sl \<and> \<not> sl_fired sl"
    using i x(3) sl nf by simp
  moreover have "j = i" if "ts_sleeps s j = Some (g, q)" "sp_slot g = Some (e_slot e)" for j g q
    using registryD(3) [OF inv that(1) i(1) that(2) i(2)] .
  ultimately show ?thesis by blast
qed

text \<open>
  C11: the driver thread never oversleeps. While it waits with no nudge given or
  about to be given, it waits for a deadline no later than that of every pending
  timer; in particular it waits without a deadline only when nothing is pending.
\<close>

theorem driver_never_oversleeps:
  assumes "timer_reach c s" "ts_driver s = DWaiting nxt" "\<not> ts_nudged s" "ts_nudges s = 0" "e \<in> entries s"
  shows "\<exists>d. nxt = Some d \<and> d \<le> e_deadline e"
  using timer.reach_inv [OF assms(1)] assms(2-5) by (auto simp: timer_inv_def driver_inv_def)

lemma unat_nanos: "unat (nanos_u64 n) = min n (2 ^ 64 - 1)"
proof (cases "n < 2 ^ 64")
  case True
  then show ?thesis by (simp add: nanos_u64_def take_bit_nat_eq_self unsigned_of_nat)
next
  case False
  then show ?thesis
    by (simp add: nanos_u64_def u64_max_def unsigned_minus_1_eq_mask mask_eq_exp_minus_1)
qed

lemma unat_saturating_add: "unat (u64_saturating_add a b) = min (unat a + unat b) (2 ^ 64 - 1)"
proof (cases "unat a + unat b < 2 ^ 64")
  case True
  then show ?thesis by (simp add: u64_saturating_add_def unat_word_ariths)
next
  case False
  then show ?thesis
    by (simp add: u64_saturating_add_def u64_max_def unsigned_minus_1_eq_mask mask_eq_exp_minus_1)
qed

text \<open>
  a timeout of \<open>n\<close> nanoseconds made at \<open>now0\<close> gives its inner future the first
  word: when that is ready its result is returned whatever the time; otherwise a
  first poll elapses exactly from \<open>now0 + n\<close> on, saturated at the end of time, and
  before that arms a timer for that moment.
\<close>

theorem timeout_first_poll:
  assumes "timer_reach c s" "inner f = (g, r)"
  shows "\<exists>t' to' res nudge. timeout_poll inner (ts_timers s) now (timeout_new now0 n f) wk = Some (t', to', res, nudge) \<and>
    (case r of
       Ready out \<Rightarrow> res = Ready (Inr out) \<and> t' = ts_timers s
     | Pending \<Rightarrow>
        (if min (unat now0 + n) (2 ^ 64 - 1) \<le> unat now
         then res = Ready (Inl Elapsed) \<and> t' = ts_timers s
         else res = Pending \<and> (\<exists>e \<in> set (h_entries (heap_of t')). sp_slot (to_sleep to') = Some (e_slot e) \<and>
           unat (e_deadline e) = min (unat now0 + n) (2 ^ 64 - 1))))"
proof -
  let ?d = "u64_saturating_add now0 (nanos_u64 n)" and ?k = "t_next (ts_timers s)"
  have d: "unat ?d = min (unat now0 + n) (2 ^ 64 - 1)"
    unfolding unat_saturating_add unat_nanos by simp
  have le: "?d \<le> now \<longleftrightarrow> min (unat now0 + n) (2 ^ 64 - 1) \<le> unat now"
    unfolding word_le_nat_alt d ..
  let ?tm = "(ts_timers s)\<lparr>t_slots := (slot_at s)(?k \<mapsto> \<lparr>sl_fired = False, sl_waker = Some wk\<rparr>), t_next := ?k + 1\<rparr>"
  have ho: "heap_of ?tm = heap_of (ts_timers s)" by (simp add: heap_of_def)
  have inv: "registry_inv s"
    using timer.reach_inv [OF assms(1)] by (simp add: timer_inv_def)
  have "slot_at s ?k = None"
    using registryD(8) [OF inv, of ?k] by (cases "slot_at s ?k") auto
  then have fresh: "\<forall>e \<in> set (h_entries (heap_of ?tm)). e_slot e \<noteq> ?k"
    using registryD(4) [OF inv] ho by metis
  have hinv: "heap_inv (heap_of ?tm)"
    using registryD(1) [OF inv] ho by simp
  obtain t' b where t': "arm ?tm ?d ?k = Some (t', b)"
    "set (h_entries (heap_of t')) = insert \<lparr>e_deadline = ?d, e_seq = t_seq ?tm, e_slot = ?k\<rparr> (set (h_entries (heap_of ?tm)))"
    using arm_effect [OF hinv fresh, of ?d] by blast
  show ?thesis
  proof (cases r)
    case (Ready out)
    then show ?thesis
      using assms(2) by (simp add: timeout_poll_def timeout_new_def)
  next
    case Pending
    show ?thesis
    proof (cases "?d \<le> now")
      case True
      then show ?thesis
        using Pending assms(2) le
        by (simp add: timeout_poll_def timeout_new_def sleep_for_def sleep_until_def sleep_poll_def)
    next
      case False
      let ?to = "\<lparr>to_future = g, to_sleep = \<lparr>sp_deadline = ?d, sp_slot = Some ?k\<rparr>\<rparr>"
      have "timeout_poll inner (ts_timers s) now (timeout_new now0 n f) wk =
          Some (t', ?to, Pending, if b then Some ?d else None)"
        using Pending False assms(2) t'(1)
        by (simp add: timeout_poll_def timeout_new_def sleep_for_def sleep_until_def sleep_poll_def)
      moreover have "\<not> min (unat now0 + n) (2 ^ 64 - 1) \<le> unat now"
        using False le by blast
      ultimately show ?thesis
        using Pending t'(2) d by (intro exI conjI) (assumption, simp)
    qed
  qed
qed

section \<open>Concrete runs\<close>

text \<open>A sleep whose deadline has passed when it is first polled.\<close>

definition done_run :: tsys where
  "done_run = (tsys_start 3)\<lparr>ts_sleeps := [0 \<mapsto> (sleep_until 2, SDone)]\<rparr>"

lemma done_run_reach: "timer_reach 3 done_run"
proof -
  let ?s = "set_sleep (tsys_start 3) 0 (Some (sleep_until 2, SNew))"
  have "timer_reach 3 (tsys_start 3)"
    by (rule reach.reach_init) simp
  then have "timer_reach 3 ?s"
    by (rule reach.reach_step) (rule timer_step.create, simp add: tsys_start_def)
  then have "timer_reach 3 (set_sleep ?s 0 (Some (sleep_until 2, SDone)))"
    by (rule reach.reach_step) (rule timer_step.first_ready,
      simp_all add: set_sleep_def tsys_start_def sleep_until_def word_le_nat_alt)
  then show ?thesis
    by (simp add: done_run_def set_sleep_def tsys_start_def)
qed

theorem sleep_never_early_witness: "sp_deadline (sleep_until 2) \<le> ts_clock done_run"
  by (rule sleep_never_early [OF done_run_reach, of 0]) (simp add: done_run_def)

text \<open>A sleep until 5 that is polled at 0, arms itself and is pending.\<close>

definition pend_entry :: entry where
  "pend_entry = \<lparr>e_deadline = 5, e_seq = 0, e_slot = 0\<rparr>"

definition pend_timers :: timers where
  "pend_timers = \<lparr>t_pending = Some \<lparr>h_entries = [pend_entry], h_index = [0 \<mapsto> 0]\<rparr>, t_seq = 1,
     t_slots = [0 \<mapsto> \<lparr>sl_fired = False, sl_waker = Some 7\<rparr>], t_next = 1\<rparr>"

definition pend_run :: tsys where
  "pend_run = (tsys_start 0)\<lparr>ts_timers := pend_timers, ts_nudges := 1,
     ts_sleeps := [0 \<mapsto> (\<lparr>sp_deadline = 5, sp_slot = Some 0\<rparr>, SPending 7)]\<rparr>"

lemma pend_run_reach: "timer_reach 0 pend_run"
proof -
  let ?s = "set_sleep (tsys_start 0) 0 (Some (sleep_until 5, SNew))"
  let ?u = "set_sleep ?s 0 (Some (sleep_until 5, SArming 7))"
  have "timer_reach 0 (tsys_start 0)"
    by (rule reach.reach_init) simp
  then have "timer_reach 0 ?s"
    by (rule reach.reach_step) (rule timer_step.create, simp add: tsys_start_def)
  then have "timer_reach 0 ?u"
    by (rule reach.reach_step) (rule timer_step.first_late,
      simp_all add: set_sleep_def tsys_start_def sleep_until_def word_less_nat_alt)
  moreover have "timer_step ?u pend_run"
    using timer_step.armed [of ?u 0 "sleep_until 5" 7 0 pend_timers True]
    by (simp add: set_sleep_def tsys_start_def unlocked_def timers_new_def arm_def heap_peek_def
        heap_empty_def heap_push_def sift_up.simps sleep_until_def pend_run_def pend_timers_def pend_entry_def)
  ultimately show ?thesis
    by (rule reach.reach_step)
qed

theorem sleep_pending_is_woken_witness:
  "ts_sleeps pend_run 0 = Some (\<lparr>sp_deadline = 5, sp_slot = Some 0\<rparr>, SPending 7) \<and>
   (\<exists>sl. slot_at pend_run 0 = Some sl \<and> sl_waker sl = Some 7)"
proof -
  have i: "ts_sleeps pend_run 0 = Some (\<lparr>sp_deadline = 5, sp_slot = Some 0\<rparr>, SPending 7)"
    by (simp add: pend_run_def)
  moreover have "slot_at pend_run 0 = Some \<lparr>sl_fired = False, sl_waker = Some 7\<rparr>"
    by (simp add: pend_run_def pend_timers_def)
  ultimately show ?thesis
    using sleep_pending_is_woken [OF pend_run_reach i] by auto
qed

lemma pend_entries: "entries pend_run = {pend_entry}"
  by (simp add: pend_run_def pend_timers_def heap_of_def)

theorem registry_no_leak_witness:
  "\<exists>!i. \<exists>f p sl. ts_sleeps pend_run i = Some (f, p) \<and> sp_slot f = Some (e_slot pend_entry) \<and>
    sp_deadline f = e_deadline pend_entry \<and> slot_at pend_run (e_slot pend_entry) = Some sl \<and> \<not> sl_fired sl"
  by (rule registry_no_leak [OF pend_run_reach]) (simp add: pend_entries)

theorem timeout_first_poll_witness:
  "\<exists>t' to' nudge. timeout_poll (\<lambda>n::nat. (n, Pending :: nat poll)) (ts_timers pend_run) 9 (timeout_new 2 4 0) 8 =
     Some (t', to', Ready (Inl Elapsed), nudge)"
  using timeout_first_poll [OF pend_run_reach, of "\<lambda>n::nat. (n, Pending :: nat poll)" 0 0 Pending 9 2 4 8]
  by auto

text \<open>The driver is nudged, drains, and waits for that sleep.\<close>

definition wait_run :: tsys where
  "wait_run = pend_run\<lparr>ts_nudges := 0, ts_driver := DWaiting (Some 5)\<rparr>"

lemma drain_pend:
  assumes "timer_reach 0 s" "ts_driver s = DLooping" "ts_taking s = None" "ts_clock s = 0"
    "ts_timers s = pend_timers"
  shows "timer_reach 0 (s\<lparr>ts_driver := DDrained (Some 5)\<rparr>)"
proof -
  have "timer_reach 0 (s\<lparr>ts_driver := DDraining 0\<rparr>)"
    using reach.reach_step [OF assms(1) timer_step.drain] assms(2,4) by simp
  then have "timer_reach 0 (s\<lparr>ts_driver := DDraining 0\<rparr>\<lparr>ts_driver := DDrained (Some 5)\<rparr>)"
    by (rule reach.reach_step) (rule timer_step.drained [where now = 0],
      simp_all add: assms(3,5) pend_timers_def heap_peek_def pend_entry_def word_less_nat_alt)
  then show ?thesis by simp
qed

lemma wait_run_reach: "timer_reach 0 wait_run"
proof -
  let ?a = "pend_run\<lparr>ts_nudges := 0, ts_nudged := True\<rparr>"
  have pr: "ts_driver pend_run = DLooping" "ts_taking pend_run = None" "ts_clock pend_run = 0"
    "ts_timers pend_run = pend_timers" "ts_nudges pend_run = 1" "\<not> ts_nudged pend_run" "ts_due pend_run = []"
    by (simp_all add: pend_run_def tsys_start_def)
  have "timer_reach 0 ?a"
    by (rule reach.reach_step [OF pend_run_reach]) (rule timer_step.nudge, simp add: pr)
  then have "timer_reach 0 (?a\<lparr>ts_driver := DDrained (Some 5)\<rparr>)"
    by (rule drain_pend) (simp_all add: pr)
  then have "timer_reach 0 (?a\<lparr>ts_driver := DDrained (Some 5)\<rparr>\<lparr>ts_driver := DLooping, ts_nudged := False\<rparr>)"
    by (rule reach.reach_step) (rule timer_step.again, simp_all add: pr)
  then have "timer_reach 0 (pend_run\<lparr>ts_nudges := 0\<rparr>)"
    by (simp add: pend_run_def tsys_start_def)
  then have "timer_reach 0 (pend_run\<lparr>ts_nudges := 0, ts_driver := DDrained (Some 5)\<rparr>)"
    by (rule drain_pend) (simp_all add: pr)
  then have "timer_reach 0 (pend_run\<lparr>ts_nudges := 0, ts_driver := DDrained (Some 5)\<rparr>\<lparr>ts_driver := DWaiting (Some 5)\<rparr>)"
    by (rule reach.reach_step) (rule timer_step.sleeps, simp_all add: pr word_less_nat_alt)
  then show ?thesis
    by (simp add: wait_run_def)
qed

theorem driver_never_oversleeps_witness:
  "ts_driver wait_run = DWaiting (Some 5) \<and> (\<exists>d. Some 5 = Some d \<and> d \<le> e_deadline pend_entry)"
proof
  show w: "ts_driver wait_run = DWaiting (Some 5)"
    by (simp add: wait_run_def)
  show "\<exists>d. Some 5 = Some d \<and> d \<le> e_deadline pend_entry"
    by (rule driver_never_oversleeps [OF wait_run_reach w])
      (simp_all add: wait_run_def pend_run_def tsys_start_def pend_timers_def heap_of_def)
qed

theorem fire_due_exact_witness:
  "\<exists>t' h' es. fire_due pend_timers 9 = Some (t', (map_option e_deadline (heap_peek h'), True), [7]) \<and>
     t_pending t' = Some h' \<and> h_entries h' = [] \<and> es = [pend_entry] \<and> t_slots t' = fire_slots es (t_slots pend_timers)"
proof -
  have inv: "heap_inv \<lparr>h_entries = [pend_entry], h_index = [0 \<mapsto> 0]\<rparr>"
    by (auto simp: heap_inv_def indexed_def heap_ordered_def pend_entry_def split: if_splits)
  have live: "slots_live \<lparr>h_entries = [pend_entry], h_index = [0 \<mapsto> 0]\<rparr> (t_slots pend_timers)"
    by (simp add: slots_live_def pend_timers_def pend_entry_def)
  have p: "t_pending pend_timers = Some \<lparr>h_entries = [pend_entry], h_index = [0 \<mapsto> 0]\<rparr>"
    by (simp add: pend_timers_def)
  obtain t' h' es where r: "fire_due pend_timers 9 =
      Some (t', (map_option e_deadline (heap_peek h'), entry_wakers (t_slots pend_timers) es \<noteq> []),
        entry_wakers (t_slots pend_timers) es)" "t_pending t' = Some h'" "t_slots t' = fire_slots es (t_slots pend_timers)"
    "mset es = filter_mset (\<lambda>e. e_deadline e \<le> 9) {#pend_entry#}"
    "mset (h_entries h') = filter_mset (\<lambda>e. 9 < e_deadline e) {#pend_entry#}"
    using fire_due_exact [OF p inv live, of 9] by auto
  have "es = [pend_entry]" "h_entries h' = []"
    using r(4,5) by (auto simp: pend_entry_def word_le_nat_alt word_less_nat_alt)
  then show ?thesis
    using r(1-3) by (auto simp: pend_timers_def pend_entry_def)
qed

end
