(* ===== verification/ReactorTimer.thy ===== *)
theory ReactorTimer
  imports Reactor Timer
begin

text \<open>
  The reactor as the driver of timers (\<open>src/src/reactor/driver.rs\<close>): the cached next
  deadline, \<open>timer_armed\<close>, \<open>service_timers\<close>, one pass of the loop and of \<open>poll_once\<close>.
  What the reactor needs of the timer registry is a locale, which the registry of
  theory Timer interprets. A step relation interleaves the atomic operations of the
  reactor thread with timers being armed, cancelled and announced from anywhere; the
  result is that the reactor never sleeps past a deadline it has been told of.
\<close>

section \<open>The registry the reactor drains\<close>

text \<open>
  Draining removes exactly what is due and tells the earliest deadline that is left;
  arming adds one deadline and tells whether it is the earliest.
\<close>

locale deadline_source =
  fixes inv :: "'r \<Rightarrow> bool"
    and deadlines :: "'r \<Rightarrow> u64 set"
    and fire :: "'r \<Rightarrow> u64 \<Rightarrow> ('r \<times> (u64 option \<times> bool) \<times> waker list) option"
    and add :: "'r \<Rightarrow> u64 \<Rightarrow> nat \<Rightarrow> ('r \<times> bool) option"
    and fresh :: "'r \<Rightarrow> nat \<Rightarrow> bool"
  assumes fire_due: "inv r \<Longrightarrow> \<exists>r' nxt woke ws. fire r now = Some (r', (nxt, woke), ws) \<and> inv r' \<and>
      deadlines r' = {d \<in> deadlines r. now < d} \<and> (nxt = None \<longleftrightarrow> deadlines r' = {}) \<and>
      (\<forall>d. nxt = Some d \<longrightarrow> d \<in> deadlines r' \<and> (\<forall>x \<in> deadlines r'. d \<le> x)) \<and> (woke \<longleftrightarrow> ws \<noteq> [])"
    and add_one: "inv r \<Longrightarrow> fresh r slot \<Longrightarrow> \<exists>r' earliest. add r d slot = Some (r', earliest) \<and> inv r' \<and>
      deadlines r' = insert d (deadlines r) \<and> (\<not> earliest \<longrightarrow> (\<exists>x \<in> deadlines r. x \<le> d))"

section \<open>The operations\<close>

text \<open>
  \<open>Handle::timer_armed\<close>, the effect of its compare-and-swap loop; the second
  component tells whether the poller is to be woken.
\<close>

definition timer_armed :: "u64 \<Rightarrow> u64 \<Rightarrow> u64 \<times> bool" where
  "timer_armed deadline cached = (if cached \<le> deadline then (cached, False) else (deadline, True))"

text \<open>
  \<open>service_timers\<close> without interference: the cache after it, the registry after it,
  how long the next wait may block, and whether a waker was fired.
\<close>

definition service_timers ::
  "('r \<Rightarrow> u64 \<Rightarrow> ('r \<times> (u64 option \<times> bool) \<times> waker list) option) \<Rightarrow> u64 \<Rightarrow> 'r \<Rightarrow> u64 \<Rightarrow>
   ('r \<times> u64 \<times> (u64 option \<times> bool) \<times> waker list) option" where
  "service_timers fire now r cached =
     (if cached \<noteq> NO_DEADLINE \<and> now < cached then Some (r, cached, (Some (cached - now), False), [])
      else do {
        let cached = NO_DEADLINE;
        (r, (nxt, woke), ws) \<leftarrow> fire r now;
        let cached = min cached (case nxt of None \<Rightarrow> NO_DEADLINE | Some d \<Rightarrow> d);
        let wait = (if cached \<noteq> NO_DEADLINE then Some (u64_saturating_sub cached now) else None);
        Some (r, cached, (wait, woke), ws)
      })"

text \<open>The timeout of \<open>poll_once_timeout\<close>, given what \<open>service_timers\<close> says unless the cap is zero.\<close>

definition poll_once_cap :: "u64 option \<Rightarrow> u64 option \<times> bool \<Rightarrow> u64 option" where
  "poll_once_cap cap serviced =
     (if cap = Some 0 then Some 0
      else case serviced of (due, woke) \<Rightarrow>
        if woke then Some 0
        else case (cap, due) of
               (Some c, Some d) \<Rightarrow> Some (min c d)
             | (Some c, None) \<Rightarrow> Some c
             | (None, d) \<Rightarrow> d)"

text \<open>
  One call of \<open>poll_once_timeout\<close>: the kernel's wait is a parameter that yields the
  events or an error; nothing is dispatched after an error.
\<close>

definition poll_once_timeout ::
  "('r \<Rightarrow> u64 \<Rightarrow> ('r \<times> (u64 option \<times> bool) \<times> waker list) option) \<Rightarrow> (u64 option \<Rightarrow> errno + event list) \<Rightarrow>
   u64 option \<Rightarrow> u64 \<Rightarrow> 'r \<Rightarrow> 'p reactor \<Rightarrow> ('r \<times> 'p reactor \<times> waker list \<times> (errno + unit)) option" where
  "poll_once_timeout fire wait cap now r re = do {
     (r, cached, serviced, fired) \<leftarrow>
       (if cap = Some 0 then Some (r, re_next_deadline re, (None, False), [])
        else service_timers fire now r (re_next_deadline re));
     let re = re\<lparr>re_next_deadline := cached\<rparr>;
     (case wait (poll_once_cap cap serviced) of
        Inl e \<Rightarrow> Some (r, re, fired, Inl e)
      | Inr events \<Rightarrow>
          (case dispatch events re of (re, pending) \<Rightarrow> Some (r, re, fired @ map snd pending, Inr ())))
   }"

text \<open>
  One pass of \<open>run\<close>: \<open>None\<close> in the last component when the loop ends, because it was
  stopped before or the wait failed.
\<close>

definition run_pass ::
  "('r \<Rightarrow> u64 \<Rightarrow> ('r \<times> (u64 option \<times> bool) \<times> waker list) option) \<Rightarrow> (u64 option \<Rightarrow> errno + event list) \<Rightarrow>
   u64 \<Rightarrow> 'r \<Rightarrow> 'p reactor \<Rightarrow> ('r \<times> 'p reactor \<times> waker list \<times> bool) option" where
  "run_pass fire wait now r re =
     (if \<not> re_running re then Some (r, re, [], False)
      else do {
        (r, cached, (timeout, woke), fired) \<leftarrow> service_timers fire now r (re_next_deadline re);
        let re = re\<lparr>re_next_deadline := cached\<rparr>;
        (case wait timeout of
           Inl e \<Rightarrow> Some (r, re, fired, False)
         | Inr events \<Rightarrow>
             (case dispatch events re of (re, pending) \<Rightarrow> Some (r, re, fired @ map snd pending, True)))
      })"

definition reactor_stop :: "'p reactor \<Rightarrow> 'p reactor" where
  "reactor_stop re = re\<lparr>re_running := False\<rparr>"

section \<open>The reactor thread among arming tasks\<close>

text \<open>
  The reactor thread: about to look at the cache; past the test that something is
  due, at the exchange; at the drain; with the next deadline to publish; at the second
  look; and in the kernel's wait, with the deadline it waits for (\<open>NO_DEADLINE\<close> is for
  ever). \<open>rt_armed\<close> holds the deadlines whose task has put them in the registry and
  not yet called \<open>timer_armed\<close> (only the earliest is announced), \<open>rt_waking\<close> counts calls between lowering the cache
  and waking the poller, and \<open>rt_wake\<close> is the poller's pending wake. The rule \<open>forget\<close>
  is any change of the registry that adds no deadline: a timer cancelled, a slot made.
\<close>

datatype reactor_phase =
    Looking
  | Exchanging u64
  | Draining u64
  | Publishing u64 "u64 option"
  | Rereading u64
  | Waiting u64

record 'r rtsys =
  rt_registry :: 'r
  rt_cache :: u64
  rt_phase :: reactor_phase
  rt_armed :: "u64 set"
  rt_waking :: nat
  rt_wake :: bool

inductive rt_step ::
  "('r \<Rightarrow> u64 set) \<Rightarrow> ('r \<Rightarrow> bool) \<Rightarrow> ('r \<Rightarrow> u64 \<Rightarrow> ('r \<times> (u64 option \<times> bool) \<times> waker list) option) \<Rightarrow>
   ('r \<Rightarrow> u64 \<Rightarrow> nat \<Rightarrow> ('r \<times> bool) option) \<Rightarrow> ('r \<Rightarrow> nat \<Rightarrow> bool) \<Rightarrow> 'r rtsys \<Rightarrow> 'r rtsys \<Rightarrow> bool"
  for deadlines :: "'r \<Rightarrow> u64 set" and inv :: "'r \<Rightarrow> bool"
    and fire :: "'r \<Rightarrow> u64 \<Rightarrow> ('r \<times> (u64 option \<times> bool) \<times> waker list) option"
    and add :: "'r \<Rightarrow> u64 \<Rightarrow> nat \<Rightarrow> ('r \<times> bool) option" and fresh :: "'r \<Rightarrow> nat \<Rightarrow> bool" where
  look: "rt_phase s = Looking \<Longrightarrow>
    rt_step deadlines inv fire add fresh s (s\<lparr>rt_phase :=
      (if rt_cache s \<noteq> NO_DEADLINE \<and> now < rt_cache s then Waiting (rt_cache s) else Exchanging now)\<rparr>)"
| exchange: "rt_phase s = Exchanging now \<Longrightarrow>
    rt_step deadlines inv fire add fresh s (s\<lparr>rt_cache := NO_DEADLINE, rt_phase := Draining now\<rparr>)"
| drain: "rt_phase s = Draining now \<Longrightarrow> fire (rt_registry s) now = Some (r, (nxt, woke), ws) \<Longrightarrow>
    rt_step deadlines inv fire add fresh s (s\<lparr>rt_registry := r, rt_phase := Publishing now nxt\<rparr>)"
| publish: "rt_phase s = Publishing now nxt \<Longrightarrow>
    rt_step deadlines inv fire add fresh s
      (s\<lparr>rt_cache := min (rt_cache s) (case nxt of None \<Rightarrow> NO_DEADLINE | Some d \<Rightarrow> d), rt_phase := Rereading now\<rparr>)"
| reread: "rt_phase s = Rereading now \<Longrightarrow>
    rt_step deadlines inv fire add fresh s (s\<lparr>rt_phase := Waiting (rt_cache s)\<rparr>)"
| return: "rt_phase s = Waiting d \<Longrightarrow>
    rt_step deadlines inv fire add fresh s (s\<lparr>rt_phase := Looking, rt_wake := False\<rparr>)"
| arm: "fresh (rt_registry s) slot \<Longrightarrow> add (rt_registry s) d slot = Some (r, earliest) \<Longrightarrow>
    rt_step deadlines inv fire add fresh s
      (s\<lparr>rt_registry := r, rt_armed := (if earliest then insert d (rt_armed s) else rt_armed s)\<rparr>)"
| forget: "inv r \<Longrightarrow> deadlines r \<subseteq> deadlines (rt_registry s) \<Longrightarrow>
    rt_step deadlines inv fire add fresh s (s\<lparr>rt_registry := r\<rparr>)"
| announce: "d \<in> rt_armed s \<Longrightarrow> timer_armed d (rt_cache s) = (c, wake) \<Longrightarrow>
    rt_step deadlines inv fire add fresh s
      (s\<lparr>rt_armed := rt_armed s - {d}, rt_cache := c, rt_waking := rt_waking s + (if wake then 1 else 0)\<rparr>)"
| wake: "0 < rt_waking s \<Longrightarrow>
    rt_step deadlines inv fire add fresh s (s\<lparr>rt_waking := rt_waking s - 1, rt_wake := True\<rparr>)"

definition rt_start :: "'r \<Rightarrow> 'r rtsys \<Rightarrow> bool" where
  "rt_start r s \<longleftrightarrow> s = \<lparr>rt_registry = r, rt_cache = NO_DEADLINE, rt_phase = Looking, rt_armed = {}, rt_waking = 0,
     rt_wake = False\<rparr>"

text \<open>
  A deadline is known: announced to come, in the cache, still to be drained, or about
  to be published.
\<close>

fun known :: "reactor_phase \<Rightarrow> u64 \<Rightarrow> u64 \<Rightarrow> bool" where
  "known (Exchanging now) cache x \<longleftrightarrow> True"
| "known (Draining now) cache x \<longleftrightarrow> True"
| "known (Publishing now nxt) cache x \<longleftrightarrow> cache \<le> x \<or> (\<exists>d. nxt = Some d \<and> d \<le> x)"
| "known _ cache x \<longleftrightarrow> cache \<le> x"

definition rt_inv :: "('r \<Rightarrow> bool) \<Rightarrow> ('r \<Rightarrow> u64 set) \<Rightarrow> 'r rtsys \<Rightarrow> bool" where
  "rt_inv ok deadlines s \<longleftrightarrow> ok (rt_registry s) \<and>
     (\<forall>x \<in> deadlines (rt_registry s). known (rt_phase s) (rt_cache s) x \<or> (\<exists>d \<in> rt_armed s. d \<le> x)) \<and>
     (\<forall>w. rt_phase s = Waiting w \<longrightarrow> w \<le> rt_cache s \<or> 0 < rt_waking s \<or> rt_wake s)"

lemma known_mono: "known p c x \<Longrightarrow> x \<le> y \<Longrightarrow> known p c y"
  by (cases "(p, c, x)" rule: known.cases) (auto intro: order_trans)

lemma known_lower: "known p c x \<Longrightarrow> c' \<le> c \<Longrightarrow> known p c' x"
  by (cases "(p, c, x)" rule: known.cases) (auto intro: order_trans)

lemma known_cache: "c \<le> x \<Longrightarrow> known p c x"
  by (cases "(p, c, x)" rule: known.cases) auto

context deadline_source
begin

abbreviation step :: "'r rtsys \<Rightarrow> 'r rtsys \<Rightarrow> bool" where
  "step \<equiv> rt_step deadlines inv fire add fresh"

lemma rt_step_inv: "rt_inv inv deadlines s \<Longrightarrow> step s t \<Longrightarrow> rt_inv inv deadlines t"
proof (rotate_tac, induction rule: rt_step.induct)
  case (drain s now r nxt woke ws)
  then have r: "inv r" "deadlines r = {d \<in> deadlines (rt_registry s). now < d}" "nxt = None \<longleftrightarrow> deadlines r = {}"
    "\<And>d x. nxt = Some d \<Longrightarrow> x \<in> deadlines r \<Longrightarrow> d \<le> x"
    using fire_due [of "rt_registry s" now] by (auto simp: rt_inv_def)
  then have "known (Publishing now nxt) (rt_cache s) x" if "x \<in> deadlines r" for x
    using that by (cases nxt) auto
  then show ?case using r(1) by (simp add: rt_inv_def)
next
  case (publish s now nxt)
  then show ?case
    by (auto simp: rt_inv_def min_def split: option.splits)
next
  case (arm s slot d r earliest)
  then have r: "inv r" "deadlines r = insert d (deadlines (rt_registry s))"
    "\<not> earliest \<Longrightarrow> \<exists>x \<in> deadlines (rt_registry s). x \<le> d"
    using add_one [of "rt_registry s" slot d] by (auto simp: rt_inv_def)
  have old: "known (rt_phase s) (rt_cache s) x \<or> (\<exists>d \<in> rt_armed s. d \<le> x)" if "x \<in> deadlines (rt_registry s)" for x
    using arm(3) that by (simp add: rt_inv_def)
  have "known (rt_phase s) (rt_cache s) d \<or> (\<exists>d' \<in> rt_armed s. d' \<le> d)" if "\<not> earliest"
    using r(3) [OF that] old known_mono by (meson order_trans)
  then show ?case
    using arm(3) r old by (auto simp: rt_inv_def)
next
  case (announce d s c wake)
  have c: "c \<le> rt_cache s" "c \<le> d" "wake \<or> c = rt_cache s"
    using announce(2) by (auto simp: timer_armed_def split: if_splits)
  have "known (rt_phase s) c x \<or> (\<exists>e \<in> rt_armed s - {d}. e \<le> x)" if "x \<in> deadlines (rt_registry s)" for x
  proof -
    have "known (rt_phase s) (rt_cache s) x \<or> (\<exists>e \<in> rt_armed s. e \<le> x)"
      using announce(3) that by (simp add: rt_inv_def)
    then show ?thesis
      using known_lower [OF _ c(1)] known_cache [OF order_trans [OF c(2)]] by blast
  qed
  then show ?case
    using announce(3) c by (auto simp: rt_inv_def)
qed (auto simp: rt_inv_def)

lemma reach_rt_inv:
  assumes "inv r" "deadlines r = {}" "reach (rt_start r) step s"
  shows "rt_inv inv deadlines s"
  using assms(3)
proof (induction rule: reach.induct)
  case (reach_init s)
  then show ?case using assms(1,2) by (simp add: rt_start_def rt_inv_def)
next
  case (reach_step s t)
  then show ?case using rt_step_inv by blast
qed

lemma never_oversleeps:
  assumes "inv r" "deadlines r = {}" "reach (rt_start r) step s" "rt_phase s = Waiting w"
    "rt_armed s = {}" "rt_waking s = 0" "\<not> rt_wake s" "x \<in> deadlines (rt_registry s)"
  shows "w \<le> x"
proof -
  have "rt_cache s \<le> x" "w \<le> rt_cache s"
    using reach_rt_inv [OF assms(1-3)] assms(4-) by (auto simp: rt_inv_def)
  then show ?thesis by simp
qed

end

section \<open>The registry of theory Timer\<close>

definition registry_ok :: "timers \<Rightarrow> bool" where
  "registry_ok t \<longleftrightarrow> heap_inv (heap_of t) \<and> slots_live (heap_of t) (t_slots t)"

definition registry_deadlines :: "timers \<Rightarrow> u64 set" where
  "registry_deadlines t = e_deadline ` set (h_entries (heap_of t))"

definition slot_unused :: "timers \<Rightarrow> nat \<Rightarrow> bool" where
  "slot_unused t i \<longleftrightarrow> t_slots t i \<noteq> None \<and> h_index (heap_of t) i = None"

interpretation registry: deadline_source registry_ok registry_deadlines fire_due arm slot_unused
proof unfold_locales
  fix t now
  assume ok: "registry_ok t"
  show "\<exists>r' nxt woke ws. fire_due t now = Some (r', (nxt, woke), ws) \<and> registry_ok r' \<and>
      registry_deadlines r' = {d \<in> registry_deadlines t. now < d} \<and> (nxt = None \<longleftrightarrow> registry_deadlines r' = {}) \<and>
      (\<forall>d. nxt = Some d \<longrightarrow> d \<in> registry_deadlines r' \<and> (\<forall>x \<in> registry_deadlines r'. d \<le> x)) \<and> (woke \<longleftrightarrow> ws \<noteq> [])"
  proof (cases "t_pending t")
    case None
    then show ?thesis
      using ok by (auto simp: fire_due_def registry_deadlines_def heap_of_def heap_empty_def)
  next
    case (Some h)
    then have h: "heap_inv h" "slots_live h (t_slots t)" "heap_of t = h"
      using ok by (auto simp: registry_ok_def heap_of_def)
    obtain t' h' es where f: "fire_due t now =
        Some (t', (map_option e_deadline (heap_peek h'), entry_wakers (t_slots t) es \<noteq> []), entry_wakers (t_slots t) es)"
      "t_pending t' = Some h'" "heap_inv h'" "t_slots t' = fire_slots es (t_slots t)"
      "mset (h_entries h') = filter_mset (\<lambda>e. now < e_deadline e) (mset (h_entries h))"
      "\<And>d. map_option e_deadline (heap_peek h') = Some d \<Longrightarrow> \<forall>e \<in> set (h_entries h'). d \<le> e_deadline e"
      using fire_due_effect [OF Some h(1,2), of now] by blast
    have set': "set (h_entries h') = {e \<in> set (h_entries h). now < e_deadline e}"
      using arg_cong [OF f(5), of set_mset] by simp
    have t': "heap_of t' = h'" using f(2) by (simp add: heap_of_def)
    have "registry_ok t'"
      using f(3,4) h(2) set' t' by (auto simp: registry_ok_def slots_live_def fire_slots_def)
    moreover have "registry_deadlines t' = {d \<in> registry_deadlines t. now < d}"
      using set' t' h(3) by (auto simp: registry_deadlines_def)
    moreover have "heap_peek h' = None \<longleftrightarrow> registry_deadlines t' = {}"
      using heap.peek_None [OF f(3)] t' by (simp add: registry_deadlines_def)
    moreover have "e_deadline e \<in> registry_deadlines t'" if "heap_peek h' = Some e" for e
      using heap.peek_least [OF f(3) that] t' by (auto simp: registry_deadlines_def)
    moreover have "d \<le> x" if "map_option e_deadline (heap_peek h') = Some d" "x \<in> registry_deadlines t'" for d x
      using f(6) [OF that(1)] that(2) t' by (auto simp: registry_deadlines_def)
    ultimately show ?thesis
      using f(1) by (intro exI conjI) (assumption | fastforce)+
  qed
next
  fix t slot d
  assume ok: "registry_ok t" and fresh: "slot_unused t slot"
  let ?h = "heap_of t" and ?e = "\<lparr>e_deadline = d, e_seq = t_seq t, e_slot = slot\<rparr>"
  obtain h' where h': "heap_push ?h ?e = Some h'" "heap_inv h'" "mset (h_entries h') = add_mset ?e (mset (h_entries ?h))"
    using heap.push_fresh [of ?h ?e] ok fresh by (auto simp: registry_ok_def slot_unused_def)
  have set': "set (h_entries h') = insert ?e (set (h_entries ?h))"
    using arg_cong [OF h'(3), of set_mset] by simp
  let ?t = "t\<lparr>t_pending := Some h', t_seq := t_seq t + 1\<rparr>"
  let ?earliest = "case heap_peek ?h of None \<Rightarrow> True | Some entry \<Rightarrow> d < e_deadline entry"
  have "arm t d slot = Some (?t, ?earliest)"
    using h'(1) by (simp add: arm_def heap_of_def Let_def)
  moreover have "registry_ok ?t"
    using h'(2) ok fresh set' by (auto simp: registry_ok_def heap_of_def slots_live_def slot_unused_def)
  moreover have "registry_deadlines ?t = insert d (registry_deadlines t)"
    using set' by (simp add: registry_deadlines_def heap_of_def)
  moreover have "\<exists>x \<in> registry_deadlines t. x \<le> d" if late: "\<not> ?earliest"
  proof -
    obtain e where e: "heap_peek ?h = Some e" "e_deadline e \<le> d"
      using late by (auto split: option.splits)
    then show ?thesis
      using heap.peek_least [of ?h e] ok by (auto simp: registry_deadlines_def registry_ok_def)
  qed
  ultimately show "\<exists>r' earliest. arm t d slot = Some (r', earliest) \<and> registry_ok r' \<and>
      registry_deadlines r' = insert d (registry_deadlines t) \<and> (\<not> earliest \<longrightarrow> (\<exists>x \<in> registry_deadlines t. x \<le> d))"
    by blast
qed

section \<open>Properties\<close>

text \<open>
  C20: The reactor never sleeps past a timer. In every interleaving of its loop with
  timers being armed, cancelled and announced: while it waits in the kernel for the
  deadline \<open>w\<close>, with no wake pending and no announcement under way, every pending timer
  has a deadline no earlier than \<open>w\<close>.
\<close>

theorem reactor_never_oversleeps:
  assumes "reach (rt_start timers_new) (rt_step registry_deadlines registry_ok fire_due arm slot_unused) s"
    "rt_phase s = Waiting w" "rt_armed s = {}" "rt_waking s = 0" "\<not> rt_wake s"
    "e \<in> set (h_entries (heap_of (rt_registry s)))"
  shows "w \<le> e_deadline e"
proof -
  have "registry_ok timers_new" "registry_deadlines timers_new = {}"
    using heap.empty_inv by (simp_all add: registry_ok_def registry_deadlines_def timers_new_def heap_of_def
        slots_live_def heap_empty_def)
  from registry.never_oversleeps [OF this assms(1-5), of "e_deadline e"] assms(6)
  show ?thesis by (simp add: registry_deadlines_def)
qed

text \<open>
  The wait that \<open>service_timers\<close> asks for, without interference: it never
  panics on a registry in order; when the cached deadline is still ahead it waits for
  exactly that one and leaves the timers alone; otherwise it fires what is due and
  waits for ever if nothing is left, and else for exactly the time until the earliest
  timer left, which is not due. The cache is then the deadline waited for.
\<close>

theorem service_timers_waits_exactly:
  assumes "registry_ok t"
  shows "\<exists>t' cached' wait woke ws. service_timers fire_due now t cached = Some (t', cached', (wait, woke), ws) \<and>
    registry_ok t' \<and>
    (if cached \<noteq> NO_DEADLINE \<and> now < cached
     then t' = t \<and> cached' = cached \<and> wait = Some (cached - now) \<and> \<not> woke
     else registry_deadlines t' = {d \<in> registry_deadlines t. now < d} \<and>
       (wait = None \<longleftrightarrow> registry_deadlines t' \<subseteq> {NO_DEADLINE}) \<and>
       (\<forall>d. wait = Some d \<longrightarrow> 0 < d \<and> now + d = cached' \<and> cached' \<in> registry_deadlines t' \<and>
          (\<forall>x \<in> registry_deadlines t'. cached' \<le> x)))"
proof (cases "cached \<noteq> NO_DEADLINE \<and> now < cached")
  case True
  then show ?thesis using assms by (auto simp: service_timers_def)
next
  case False
  obtain t' nxt woke ws where f: "fire_due t now = Some (t', (nxt, woke), ws)" "registry_ok t'"
    "registry_deadlines t' = {d \<in> registry_deadlines t. now < d}" "nxt = None \<longleftrightarrow> registry_deadlines t' = {}"
    "\<And>d. nxt = Some d \<Longrightarrow> d \<in> registry_deadlines t' \<and> (\<forall>x \<in> registry_deadlines t'. d \<le> x)"
    using registry.fire_due [OF assms, of now] by blast
  have top: "x \<le> NO_DEADLINE" for x :: u64
    by (simp add: NO_DEADLINE_def u64_max_def)
  let ?c = "case nxt of None \<Rightarrow> NO_DEADLINE | Some d \<Rightarrow> d"
  let ?wait = "if ?c \<noteq> NO_DEADLINE then Some (u64_saturating_sub ?c now) else None"
  have "service_timers fire_due now t cached = Some (t', ?c, (?wait, woke), ws)"
    using f(1) top unfolding service_timers_def if_not_P [OF False] by (simp add: Let_def min_absorb2)
  moreover have "?c = NO_DEADLINE \<longleftrightarrow> registry_deadlines t' \<subseteq> {NO_DEADLINE}"
    using f(4,5) top by (cases nxt) (auto simp: order.antisym)
  moreover have "0 < d \<and> now + d = ?c \<and> ?c \<in> registry_deadlines t' \<and> (\<forall>x \<in> registry_deadlines t'. ?c \<le> x)"
    if wait: "?wait = Some d" for d
  proof -
    obtain c where c: "nxt = Some c" "c \<in> registry_deadlines t'" "\<forall>x \<in> registry_deadlines t'. c \<le> x"
      using wait f(5) by (cases nxt) auto
    then have "now < c" "d = c - now"
      using f(3) wait by (auto simp: u64_saturating_sub_def split: if_splits)
    then show ?thesis using c by (simp add: word_gt_0)
  qed
  ultimately show ?thesis using False f(2,3) by auto
qed

section \<open>A concrete run\<close>

text \<open>A timer for 50 is armed and announced while the reactor is about to wait for ever.\<close>

definition demo_empty :: timers where
  "demo_empty = timers_new\<lparr>t_slots := [0 \<mapsto> \<lparr>sl_fired = False, sl_waker = Some 3\<rparr>]\<rparr>"

definition demo_armed :: timers where
  "demo_armed = demo_empty\<lparr>t_pending := Some \<lparr>h_entries = [\<lparr>e_deadline = 50, e_seq = 0, e_slot = 0\<rparr>],
     h_index = [0 \<mapsto> 0]\<rparr>, t_seq := 1\<rparr>"

lemma demo_arm: "arm demo_empty 50 0 = Some (demo_armed, True)"
  by (simp add: arm_def demo_empty_def demo_armed_def timers_new_def heap_push_def heap_empty_def heap_peek_def sift_up.simps)

abbreviation demo_step :: "timers rtsys \<Rightarrow> timers rtsys \<Rightarrow> bool" where
  "demo_step \<equiv> rt_step registry_deadlines registry_ok fire_due arm slot_unused"

lemma demo_waiting_reach:
  "reach (rt_start timers_new) demo_step \<lparr>rt_registry = demo_armed, rt_cache = 50, rt_phase = Waiting 50, rt_armed = {},
     rt_waking = 0, rt_wake = False\<rparr>"
proof -
  note go = reach.reach_step [where init = "rt_start timers_new" and step = demo_step]
  let ?R = "reach (rt_start timers_new) demo_step"
  let ?s = "\<lambda>r c p a n w. \<lparr>rt_registry = r, rt_cache = c, rt_phase = p, rt_armed = a, rt_waking = n, rt_wake = w\<rparr>"
  have no: "(50 :: u64) \<noteq> NO_DEADLINE" "\<not> NO_DEADLINE \<le> 50"
    by (simp_all add: NO_DEADLINE_def u64_max_def word_le_nat_alt unsigned_minus_1_eq_mask mask_eq_exp_minus_1)
  have ok: "registry_ok demo_empty" "registry_deadlines demo_empty = {}"
    using heap.empty_inv by (simp_all add: registry_ok_def registry_deadlines_def demo_empty_def timers_new_def
        heap_of_def slots_live_def heap_empty_def)
  have "?R (?s timers_new NO_DEADLINE Looking {} 0 False)"
    by (rule reach.reach_init) (simp add: rt_start_def)
  then have "?R (?s demo_empty NO_DEADLINE Looking {} 0 False)"
    by (rule go) (use rt_step.forget [of registry_ok demo_empty registry_deadlines
          "?s timers_new NO_DEADLINE Looking {} 0 False"] ok in simp)
  then have "?R (?s demo_armed NO_DEADLINE Looking {50} 0 False)"
  proof (rule go)
    have "slot_unused demo_empty 0"
      by (simp add: slot_unused_def demo_empty_def timers_new_def heap_of_def heap_empty_def)
    then show "demo_step (?s demo_empty NO_DEADLINE Looking {} 0 False) (?s demo_armed NO_DEADLINE Looking {50} 0 False)"
      using rt_step.arm [of slot_unused "?s demo_empty NO_DEADLINE Looking {} 0 False" 0 arm 50 demo_armed True] demo_arm
      by simp
  qed
  then have "?R (?s demo_armed 50 Looking {} 1 False)"
    by (rule go) (use rt_step.announce [of 50 "?s demo_armed NO_DEADLINE Looking {50} 0 False" 50 True] no in
        \<open>simp add: timer_armed_def\<close>)
  then have "?R (?s demo_armed 50 Looking {} 0 True)"
    by (rule go) (use rt_step.wake [of "?s demo_armed 50 Looking {} 1 False"] in simp)
  then have "?R (?s demo_armed 50 (Waiting 50) {} 0 True)"
    by (rule go) (use rt_step.look [of "?s demo_armed 50 Looking {} 0 True" registry_deadlines registry_ok fire_due arm
          slot_unused 7] no in simp)
  then have "?R (?s demo_armed 50 Looking {} 0 False)"
    by (rule go) (use rt_step.return [of "?s demo_armed 50 (Waiting 50) {} 0 True"] in simp)
  then show ?thesis
    by (rule go) (use rt_step.look [of "?s demo_armed 50 Looking {} 0 False" registry_deadlines registry_ok fire_due arm
          slot_unused 8] no in simp)
qed

theorem reactor_never_oversleeps_witness:
  "\<exists>e. e \<in> set (h_entries (heap_of demo_armed)) \<and> 50 \<le> e_deadline e"
proof -
  let ?e = "\<lparr>e_deadline = 50, e_seq = 0, e_slot = 0\<rparr>"
  have e: "?e \<in> set (h_entries (heap_of demo_armed))"
    by (simp add: demo_armed_def heap_of_def)
  show ?thesis
    using reactor_never_oversleeps [OF demo_waiting_reach, of 50 ?e] e by auto
qed

theorem service_timers_waits_exactly_witness:
  "\<exists>t' ws. service_timers fire_due 10 demo_empty NO_DEADLINE = Some (t', NO_DEADLINE, (None, False), ws)"
proof -
  have ok: "registry_ok demo_empty" "registry_deadlines demo_empty = {}"
    using heap.empty_inv by (simp_all add: registry_ok_def registry_deadlines_def demo_empty_def timers_new_def
        heap_of_def slots_live_def heap_empty_def)
  have "fire_due demo_empty 10 = Some (demo_empty, (None, False), [])"
    by (simp add: fire_due_def demo_empty_def timers_new_def)
  then show ?thesis
    using service_timers_waits_exactly [OF ok(1), of 10 NO_DEADLINE] by (simp add: service_timers_def)
qed

end
