(* ===== verification/Credits.thy ===== *)
theory Credits
  imports Notify
begin

text \<open>
  CPU credits (\<open>src/src/credits.rs\<close>): accounts, reservations, settlement and the
  rollback of a refused reservation. The balance is an \<open>i64\<close> with its saturation
  written out, the job count a \<open>usize\<close>. The whole operations come first; then a
  system of jobs on one account whose actions are the single compare-and-swaps of
  those operations (the broadcasts that follow a rollback, a settlement and a refill
  change only \<open>ca_changed\<close>, which those swaps do not read). The results: the balance
  and the job count stay within their bounds, and CPU time spent is covered by the
  credits granted.
\<close>

section \<open>Data and operations\<close>

record credit_account =
  ca_capacity :: i64
  ca_balance :: i64
  ca_in_flight :: usize
  ca_parallelism :: usize
  ca_changed :: notify

definition account_new :: "u64 \<Rightarrow> usize \<Rightarrow> credit_account option" where
  "account_new capacity parallelism = do {
     capacity \<leftarrow> i64_try_from capacity;
     Some \<lparr>ca_capacity = capacity, ca_balance = capacity, ca_in_flight = 0,
           ca_parallelism = parallelism, ca_changed = notify_new\<rparr>
   }"

text \<open>
  \<open>update_i64\<close> and \<open>update_usize\<close>: a compare-and-swap loop that applies \<open>f\<close> to the
  value it replaces, or leaves the cell alone where \<open>f\<close> gives none.
\<close>

definition update_cell :: "'a \<Rightarrow> ('a \<Rightarrow> 'a option) \<Rightarrow> 'a \<times> bool" where
  "update_cell current f = (case f current of None \<Rightarrow> (current, False) | Some nxt \<Rightarrow> (nxt, True))"

definition account_adjust :: "credit_account \<Rightarrow> i64 \<Rightarrow> credit_account" where
  "account_adjust a credits =
     a\<lparr>ca_balance := fst (update_cell (ca_balance a)
         (\<lambda>balance. Some (min (i64_saturating_add balance credits) (ca_capacity a))))\<rparr>"

definition account_notify :: "credit_account \<Rightarrow> (credit_account \<times> waker list) option" where
  "account_notify a = do {
     (n, ws) \<leftarrow> notify_waiters (ca_changed a);
     Some (a\<lparr>ca_changed := n\<rparr>, ws)
   }"

definition or_i64_max :: "i64 option \<Rightarrow> i64" where
  "or_i64_max x = (case x of Some v \<Rightarrow> v | None \<Rightarrow> i64_max)"

definition account_replenish :: "credit_account \<Rightarrow> u64 \<Rightarrow> (credit_account \<times> waker list) option" where
  "account_replenish a credits = account_notify (account_adjust a (or_i64_max (i64_try_from credits)))"

datatype wait_check = TooLarge | Admissible | Blocked

text \<open>The conditions of \<open>wait_for\<close>: refused at once, returns, or awaits a change.\<close>

definition account_wait_for :: "credit_account \<Rightarrow> u64 \<Rightarrow> wait_check" where
  "account_wait_for a credits =
     (case i64_try_from credits of
        None \<Rightarrow> TooLarge
      | Some c \<Rightarrow>
          if ca_capacity a < c then TooLarge
          else if c \<le> ca_balance a \<and> ca_in_flight a < ca_parallelism a then Admissible
          else Blocked)"

record reservation =
  cr_reserved :: i64
  cr_started :: "u64 option"
  cr_done :: bool

definition valid_credits :: "u64 \<Rightarrow> i64 option" where
  "valid_credits credits = do {
     v \<leftarrow> i64_try_from credits;
     if v > 0 then Some v else None
   }"

definition count_job :: "credit_account \<Rightarrow> credit_account \<times> bool" where
  "count_job a =
     (case update_cell (ca_in_flight a)
        (\<lambda>count. if count < ca_parallelism a then Some (count + 1) else None) of
        (count, ok) \<Rightarrow> (a\<lparr>ca_in_flight := count\<rparr>, ok))"

definition take_credits :: "credit_account \<Rightarrow> i64 \<Rightarrow> credit_account \<times> bool" where
  "take_credits a reserved =
     (case update_cell (ca_balance a)
        (\<lambda>balance. if reserved \<le> balance then Some (balance - reserved) else None) of
        (balance, ok) \<Rightarrow> (a\<lparr>ca_balance := balance\<rparr>, ok))"

definition uncount_job :: "credit_account \<Rightarrow> credit_account" where
  "uncount_job a = a\<lparr>ca_in_flight := ca_in_flight a - 1\<rparr>"

definition credits_reserve ::
  "credit_account \<Rightarrow> u64 \<Rightarrow> (credit_account \<times> reservation option) option" where
  "credits_reserve a credits =
     (case valid_credits credits of
        None \<Rightarrow> Some (a, None)
      | Some reserved \<Rightarrow>
          (case count_job a of
             (a, False) \<Rightarrow> Some (a, None)
           | (a, True) \<Rightarrow>
               (case take_credits a reserved of
                  (a, True) \<Rightarrow> Some (a, Some \<lparr>cr_reserved = reserved, cr_started = None, cr_done = False\<rparr>)
                | (a, False) \<Rightarrow> do {
                    (a, ws) \<leftarrow> account_notify (uncount_job a);
                    Some (a, None)
                  })))"

definition permit_enter :: "u64 \<Rightarrow> reservation \<Rightarrow> reservation option" where
  "permit_enter now p =
     (if \<not> cr_done p \<and> cr_started p = None then Some (p\<lparr>cr_started := Some now\<rparr>) else None)"

text \<open>What a reservation has consumed when it is settled at \<open>now\<close>.\<close>

definition consumed :: "u64 \<Rightarrow> u64 option \<Rightarrow> i64" where
  "consumed now started =
     (case started of
        None \<Rightarrow> 0
      | Some start \<Rightarrow> or_i64_max (i64_try_from (u64_saturating_sub now start)))"

definition settle_balance :: "credit_account \<Rightarrow> u64 \<Rightarrow> reservation \<Rightarrow> credit_account" where
  "settle_balance a now p =
     account_adjust a (i64_saturating_sub (cr_reserved p) (consumed now (cr_started p)))"

definition permit_settle ::
  "credit_account \<Rightarrow> u64 \<Rightarrow> reservation \<Rightarrow> (credit_account \<times> reservation) option" where
  "permit_settle a now p =
     (if cr_done p then Some (a, p)
      else do {
        (a, ws) \<leftarrow> account_notify (uncount_job (settle_balance a now p));
        Some (a, p\<lparr>cr_done := True\<rparr>)
      })"

section \<open>Interleaved executions\<close>

text \<open>
  A job on one account: counted but without credits yet; refused, its count still
  to be undone; holding a reservation, entered or not; settled, its count still to
  be undone. \<open>cs_spent\<close> and \<open>cs_refilled\<close> add up the CPU time measured and the
  credits replenished.
\<close>

datatype job = Counted i64 | Refused | Holding reservation | Settled

record csys =
  cs_account :: credit_account
  cs_jobs :: "nat \<Rightarrow> job option"
  cs_spent :: int
  cs_refilled :: int

inductive credit_step :: "csys \<Rightarrow> csys \<Rightarrow> bool" where
  count: "cs_jobs s i = None \<Longrightarrow> valid_credits credits = Some reserved \<Longrightarrow>
    count_job (cs_account s) = (a, True) \<Longrightarrow>
    credit_step s (s\<lparr>cs_account := a, cs_jobs := (cs_jobs s)(i \<mapsto> Counted reserved)\<rparr>)"
| take: "cs_jobs s i = Some (Counted reserved) \<Longrightarrow> take_credits (cs_account s) reserved = (a, ok) \<Longrightarrow>
    credit_step s (s\<lparr>cs_account := a, cs_jobs := (cs_jobs s)(i \<mapsto>
      (if ok then Holding \<lparr>cr_reserved = reserved, cr_started = None, cr_done = False\<rparr> else Refused))\<rparr>)"
| rollback: "cs_jobs s i = Some Refused \<Longrightarrow>
    credit_step s (s\<lparr>cs_account := uncount_job (cs_account s), cs_jobs := (cs_jobs s)(i := None)\<rparr>)"
| enter: "cs_jobs s i = Some (Holding p) \<Longrightarrow> permit_enter now p = Some p' \<Longrightarrow>
    credit_step s (s\<lparr>cs_jobs := (cs_jobs s)(i \<mapsto> Holding p')\<rparr>)"
| settle: "cs_jobs s i = Some (Holding p) \<Longrightarrow>
    credit_step s (s\<lparr>cs_account := settle_balance (cs_account s) now p,
      cs_jobs := (cs_jobs s)(i \<mapsto> Settled), cs_spent := cs_spent s + consumed now (cr_started p)\<rparr>)"
| leave: "cs_jobs s i = Some Settled \<Longrightarrow>
    credit_step s (s\<lparr>cs_account := uncount_job (cs_account s), cs_jobs := (cs_jobs s)(i := None)\<rparr>)"
| refill: "c = or_i64_max (i64_try_from credits) \<Longrightarrow>
    credit_step s (s\<lparr>cs_account := account_adjust (cs_account s) c, cs_refilled := cs_refilled s + c\<rparr>)"

definition credit_start :: "credit_account \<Rightarrow> csys \<Rightarrow> bool" where
  "credit_start a s \<longleftrightarrow> (\<exists>c p. account_new c p = Some a) \<and>
     s = \<lparr>cs_account = a, cs_jobs = (\<lambda>_. None), cs_spent = 0, cs_refilled = 0\<rparr>"

abbreviation credit_reach :: "credit_account \<Rightarrow> csys \<Rightarrow> bool" where
  "credit_reach a \<equiv> reach (credit_start a) credit_step"

section \<open>Accounting\<close>

fun job_reserved :: "job \<Rightarrow> int" where
  "job_reserved (Holding p) = cr_reserved p"
| "job_reserved _ = 0"

definition outstanding :: "(nat \<Rightarrow> job option) \<Rightarrow> int" where
  "outstanding js = dom_sum job_reserved js"

text \<open>
  The facts that hold at any time: the bounds, the count, and that balance, debt
  and reservations never exceed what was granted; with nothing refilled they are
  exactly that.
\<close>

definition credit_inv :: "credit_account \<Rightarrow> csys \<Rightarrow> bool" where
  "credit_inv a s \<longleftrightarrow>
     ca_capacity (cs_account s) = ca_capacity a \<and> ca_parallelism (cs_account s) = ca_parallelism a \<and>
     finite (dom (cs_jobs s)) \<and>
     (\<forall>i j. cs_jobs s i = Some j \<longrightarrow>
        0 \<le> job_reserved j \<and> job_reserved j \<le> i64_max \<and> (\<forall>r. j = Counted r \<longrightarrow> 0 < r \<and> r \<le> i64_max)) \<and>
     ca_balance (cs_account s) \<le> ca_capacity a \<and> is_i64 (ca_balance (cs_account s)) \<and>
     unat (ca_in_flight (cs_account s)) = card (dom (cs_jobs s)) \<and>
     ca_in_flight (cs_account s) \<le> ca_parallelism a \<and>
     0 \<le> cs_spent s \<and> 0 \<le> cs_refilled s \<and>
     (cs_spent s \<le> 2 ^ 63 \<longrightarrow>
        - cs_spent s \<le> ca_balance (cs_account s) \<and>
        ca_balance (cs_account s) + outstanding (cs_jobs s) + cs_spent s \<le> ca_capacity a + cs_refilled s \<and>
        (cs_refilled s = 0 \<longrightarrow>
           ca_balance (cs_account s) + outstanding (cs_jobs s) + cs_spent s = ca_capacity a))"

lemma outstanding_update:
  assumes "finite (dom js)"
  shows "outstanding (js(i := x)) = outstanding js - opt_weight job_reserved (js i) + opt_weight job_reserved x"
  using dom_sum_update [OF assms, of job_reserved i x] by (simp add: outstanding_def)

lemma card_dom_update:
  assumes "finite (dom js)"
  shows "js i = None \<Longrightarrow> card (dom (js(i \<mapsto> x))) = Suc (card (dom js))"
    "js i \<noteq> None \<Longrightarrow> card (dom (js(i \<mapsto> x))) = card (dom js)"
    "js i \<noteq> None \<Longrightarrow> card (dom (js(i := None))) = card (dom js) - 1"
    "js i \<noteq> None \<Longrightarrow> 0 < card (dom js)"
  using assms by (auto simp: domIff insert_absorb card_gt_0_iff)

lemma outstanding_nonneg:
  assumes "\<And>i j. js i = Some j \<Longrightarrow> 0 \<le> job_reserved j"
  shows "0 \<le> outstanding js"
  unfolding outstanding_def dom_sum_def by (rule sum_nonneg) (use assms in auto)

lemma outstanding_member:
  assumes "finite (dom js)" "\<And>i j. js i = Some j \<Longrightarrow> 0 \<le> job_reserved j" "js i = Some j"
  shows "job_reserved j \<le> outstanding js"
proof -
  have "job_reserved (the (js i)) \<le> outstanding js"
    unfolding outstanding_def dom_sum_def by (rule member_le_sum) (use assms in auto)
  then show ?thesis using assms(3) by simp
qed

lemma adjust_balance:
  "ca_balance (account_adjust a c) = min (clamp_i64 (ca_balance a + c)) (ca_capacity a)"
  "ca_capacity (account_adjust a c) = ca_capacity a" "ca_parallelism (account_adjust a c) = ca_parallelism a"
  "ca_in_flight (account_adjust a c) = ca_in_flight a"
  by (simp_all add: account_adjust_def update_cell_def i64_saturating_add_def)

lemma consumed_bounds: "0 \<le> consumed now st \<and> consumed now st \<le> i64_max"
  by (auto simp: consumed_def or_i64_max_def i64_try_from_def i64_max_def split: option.splits)

lemma or_i64_max_bounds: "0 \<le> or_i64_max (i64_try_from w) \<and> or_i64_max (i64_try_from w) \<le> i64_max"
  by (auto simp: or_i64_max_def i64_try_from_def i64_max_def split: option.splits)

lemma valid_credits_bounds: "valid_credits w = Some r \<Longrightarrow> 0 < r \<and> r \<le> i64_max"
  by (auto simp: valid_credits_def bind_eq_Some_conv i64_try_from_def split: if_splits)

lemma count_job_True:
  assumes "count_job a = (a', True)"
  shows "ca_in_flight a < ca_parallelism a" "a' = a\<lparr>ca_in_flight := ca_in_flight a + 1\<rparr>"
    "unat (ca_in_flight a + 1) = Suc (unat (ca_in_flight a))"
proof -
  show lt: "ca_in_flight a < ca_parallelism a" and "a' = a\<lparr>ca_in_flight := ca_in_flight a + 1\<rparr>"
    using assms by (auto simp: count_job_def update_cell_def split: if_splits)
  have "unat (ca_parallelism a) < 2 ^ LENGTH(64)"
    by (rule unsigned_less)
  then have "unat (ca_in_flight a) < 2 ^ 64 - 1"
    using lt by (simp add: word_less_nat_alt)
  then show "unat (ca_in_flight a + 1) = Suc (unat (ca_in_flight a))"
    by (simp add: unat_word_ariths)
qed

lemma clamp_bounds:
  "i64_min \<le> x \<Longrightarrow> clamp_i64 x \<le> x" "min x i64_max \<le> clamp_i64 x" "x \<le> i64_max \<Longrightarrow> i64_min \<le> x \<Longrightarrow> clamp_i64 x = x"
  by (auto simp: clamp_i64_def i64_min_def i64_max_def)

lemma account_new_bounds:
  "account_new c p = Some a \<Longrightarrow> 0 \<le> ca_capacity a \<and> ca_capacity a \<le> i64_max \<and> ca_balance a = ca_capacity a \<and>
    ca_in_flight a = 0 \<and> ca_parallelism a = p"
  by (auto simp: account_new_def bind_eq_Some_conv i64_try_from_def split: if_splits)

lemma min_is_i64: "is_i64 x \<Longrightarrow> is_i64 y \<Longrightarrow> is_i64 (min x y)"
  by (simp add: is_i64_def min_def)

text \<open>The effect of an adjustment on the bounds of the balance.\<close>

lemma adjust_bounds:
  assumes "0 \<le> cap" "cap \<le> i64_max"
  shows "is_i64 (min (clamp_i64 x) cap)" "min (clamp_i64 x) cap \<le> cap"
    "i64_min \<le> x \<Longrightarrow> min (clamp_i64 x) cap \<le> x"
    "i64_min \<le> x \<Longrightarrow> x \<le> cap \<Longrightarrow> min (clamp_i64 x) cap = x"
    "l \<le> 0 \<Longrightarrow> l \<le> x \<Longrightarrow> l \<le> min (clamp_i64 x) cap"
proof -
  have "is_i64 cap" using assms by (simp add: is_i64_def i64_min_def)
  then show "is_i64 (min (clamp_i64 x) cap)" by (intro min_is_i64) simp_all
  show "min (clamp_i64 x) cap \<le> cap" by simp
  show "i64_min \<le> x \<Longrightarrow> min (clamp_i64 x) cap \<le> x"
    using clamp_bounds(1) [of x] by simp
  show "i64_min \<le> x \<Longrightarrow> x \<le> cap \<Longrightarrow> min (clamp_i64 x) cap = x"
    using clamp_bounds(3) [of x] assms(2) by simp
  show "l \<le> 0 \<Longrightarrow> l \<le> x \<Longrightarrow> l \<le> min (clamp_i64 x) cap"
    using clamp_bounds(2) [of x] assms by (auto simp: i64_max_def min_def split: if_splits)
qed

text \<open>Undoing the count of a job that holds no credits.\<close>

lemma uncount_inv:
  assumes inv: "credit_inv a s" and i: "cs_jobs s i = Some j" "job_reserved j = 0"
  shows "credit_inv a (s\<lparr>cs_account := uncount_job (cs_account s), cs_jobs := (cs_jobs s)(i := None)\<rparr>)"
proof -
  note fin = inv [unfolded credit_inv_def]
  let ?n = "ca_in_flight (cs_account s)"
  have card: "card (dom ((cs_jobs s)(i := None))) = card (dom (cs_jobs s)) - 1" "0 < card (dom (cs_jobs s))"
    using card_dom_update(3,4) [of "cs_jobs s" i] fin i by simp_all
  then have "?n \<noteq> 0"
    using fin by auto
  then have "unat (?n - 1) = unat ?n - 1"
    by (rule unat_minus_one)
  moreover have "outstanding ((cs_jobs s)(i := None)) = outstanding (cs_jobs s)"
    using outstanding_update [of "cs_jobs s" i None] fin i by simp
  ultimately show ?thesis
    using fin card by (auto simp: credit_inv_def uncount_job_def word_le_nat_alt)
qed

lemma credit_step_inv:
  assumes new: "account_new c0 p0 = Some a" and step: "credit_step s t" and inv: "credit_inv a s"
  shows "credit_inv a t"
proof -
  have cap: "0 \<le> ca_capacity a" "ca_capacity a \<le> i64_max"
    using account_new_bounds [OF new] by auto
  have i64: "i64_min = - (2 ^ 63)" "i64_max = 2 ^ 63 - 1"
    by (simp_all add: i64_min_def i64_max_def)
  from step inv show ?thesis
  proof (induction rule: credit_step.induct)
    case (count s i credits reserved b)
    note fin = count.prems [unfolded credit_inv_def]
    have "unat (ca_in_flight (cs_account s) + 1) \<le> unat (ca_parallelism a)"
      using count_job_True [OF count(3)] fin by (simp add: word_less_nat_alt)
    moreover have "outstanding ((cs_jobs s)(i \<mapsto> Counted reserved)) = outstanding (cs_jobs s)"
      using outstanding_update [of "cs_jobs s" i "Some (Counted reserved)"] fin count(1) by simp
    ultimately show ?case
      using fin count_job_True [OF count(3)] card_dom_update(1) [of "cs_jobs s" i] count(1)
        valid_credits_bounds [OF count(2)]
      by (auto simp: credit_inv_def word_le_nat_alt i64)
  next
    case (take s i reserved b ok)
    note fin = take.prems [unfolded credit_inv_def]
    have r: "0 < reserved" "reserved \<le> i64_max"
      using fin take(1) by auto
    have b: "b = (cs_account s)\<lparr>ca_balance := ca_balance (cs_account s) - (if ok then reserved else 0)\<rparr>"
      "ok \<Longrightarrow> reserved \<le> ca_balance (cs_account s)"
      using take(2) by (auto simp: take_credits_def update_cell_def split: if_splits)
    let ?j = "if ok then Holding \<lparr>cr_reserved = reserved, cr_started = None, cr_done = False\<rparr> else Refused"
    have "outstanding ((cs_jobs s)(i \<mapsto> ?j)) = outstanding (cs_jobs s) + (if ok then reserved else 0)"
      using outstanding_update [of "cs_jobs s" i "Some ?j"] fin take(1) by simp
    moreover have "card (dom ((cs_jobs s)(i \<mapsto> ?j))) = card (dom (cs_jobs s))"
      using card_dom_update(2) [of "cs_jobs s" i] fin take(1) by simp
    ultimately show ?case
      using fin b r by (auto simp: credit_inv_def is_i64_def i64)
  next
    case (rollback s i)
    then show ?case using uncount_inv [of a s i Refused] by simp
  next
    case (leave s i)
    then show ?case using uncount_inv [of a s i Settled] by simp
  next
    case (enter s i p now p')
    note fin = enter.prems [unfolded credit_inv_def]
    have p': "cr_reserved p' = cr_reserved p"
      using enter(2) by (auto simp: permit_enter_def split: if_splits)
    moreover have "outstanding ((cs_jobs s)(i \<mapsto> Holding p')) = outstanding (cs_jobs s)"
      using outstanding_update [of "cs_jobs s" i "Some (Holding p')"] fin enter(1) p' by simp
    moreover have "card (dom ((cs_jobs s)(i \<mapsto> Holding p'))) = card (dom (cs_jobs s))"
      using card_dom_update(2) [of "cs_jobs s" i] fin enter(1) by simp
    ultimately show ?case
      using fin enter(1) by (fastforce simp: credit_inv_def)
  next
    case (settle s i p now)
    note fin = settle.prems [unfolded credit_inv_def]
    let ?u = "consumed now (cr_started p)" and ?b = "ca_balance (cs_account s)"
    let ?x = "?b + (cr_reserved p - ?u)"
    have r: "0 \<le> cr_reserved p" "cr_reserved p \<le> i64_max"
      using fin settle(1) by (auto dest!: spec)
    have u: "0 \<le> ?u" "?u \<le> i64_max" using consumed_bounds by auto
    have "i64_saturating_sub (cr_reserved p) ?u = cr_reserved p - ?u"
      using r u i64 by (simp add: i64_saturating_sub_def clamp_i64_def)
    then have bal: "ca_balance (settle_balance (cs_account s) now p) = min (clamp_i64 ?x) (ca_capacity a)"
      using fin by (simp add: settle_balance_def adjust_balance)
    have out: "outstanding ((cs_jobs s)(i \<mapsto> Settled)) = outstanding (cs_jobs s) - cr_reserved p"
      using outstanding_update [of "cs_jobs s" i "Some Settled"] fin settle(1) by simp
    have ge: "cr_reserved p \<le> outstanding (cs_jobs s)"
      using outstanding_member [of "cs_jobs s" i "Holding p"] fin settle(1) by auto
    have crd: "card (dom ((cs_jobs s)(i \<mapsto> Settled))) = card (dom (cs_jobs s))"
      using card_dom_update(2) [of "cs_jobs s" i] fin settle(1) by simp
    note adj = adjust_bounds [OF cap, of ?x]
    have acc: "- (cs_spent s + ?u) \<le> min (clamp_i64 ?x) (ca_capacity a) \<and>
        min (clamp_i64 ?x) (ca_capacity a) + (outstanding (cs_jobs s) - cr_reserved p) + (cs_spent s + ?u) \<le>
          ca_capacity a + cs_refilled s \<and>
        (cs_refilled s = 0 \<longrightarrow>
          min (clamp_i64 ?x) (ca_capacity a) + (outstanding (cs_jobs s) - cr_reserved p) + (cs_spent s + ?u) = ca_capacity a)"
      if big: "cs_spent s + ?u \<le> 2 ^ 63"
    proof -
      have sp: "0 \<le> cs_spent s" "cs_spent s \<le> 2 ^ 63" using fin big u by auto
      then have old: "- cs_spent s \<le> ?b" "?b + outstanding (cs_jobs s) + cs_spent s \<le> ca_capacity a + cs_refilled s"
        "cs_refilled s = 0 \<longrightarrow> ?b + outstanding (cs_jobs s) + cs_spent s = ca_capacity a"
        using fin by auto
      have low: "i64_min \<le> ?x" using old(1) big r(1) i64 by linarith
      have "- (cs_spent s + ?u) \<le> min (clamp_i64 ?x) (ca_capacity a)"
        by (rule adjust_bounds(5) [OF cap]) (use old(1) r u sp in linarith)+
      moreover have "?x \<le> ca_capacity a" if "cs_refilled s = 0"
        using old(3) that ge u sp by linarith
      ultimately show ?thesis
        using adj(3) [OF low] adj(4) [OF low] old(2,3) by auto
    qed
    show ?case
      unfolding credit_inv_def
    proof (intro conjI)
      show "\<forall>k j. cs_jobs (s\<lparr>cs_account := settle_balance (cs_account s) now p,
        cs_jobs := (cs_jobs s)(i \<mapsto> Settled), cs_spent := cs_spent s + ?u\<rparr>) k = Some j \<longrightarrow>
        0 \<le> job_reserved j \<and> job_reserved j \<le> i64_max \<and> (\<forall>r. j = Counted r \<longrightarrow> 0 < r \<and> r \<le> i64_max)"
        using fin i64 by auto
    qed (use fin bal adj(1) crd out acc u in \<open>auto simp: settle_balance_def adjust_balance\<close>)
  next
    case (refill c credits s)
    note fin = refill.prems [unfolded credit_inv_def]
    let ?b = "ca_balance (cs_account s)"
    have c: "0 \<le> c" using or_i64_max_bounds refill(1) by auto
    note adj = adjust_bounds [OF cap, of "?b + c"]
    have b: "i64_min \<le> ?b" "?b \<le> ca_capacity a" using fin by (auto simp: is_i64_def)
    have "min (clamp_i64 ?b) (ca_capacity a) = ?b"
      using adjust_bounds(4) [OF cap b] .
    moreover have "min (clamp_i64 (?b + c)) (ca_capacity a) \<le> ?b + c"
      using adj(3) b(1) c by linarith
    moreover have "- cs_spent s \<le> min (clamp_i64 (?b + c)) (ca_capacity a)" if "- cs_spent s \<le> ?b"
      by (rule adjust_bounds(5) [OF cap]) (use fin that c in linarith)+
    ultimately show ?case
      using fin adj(1) c by (cases "c = 0") (auto simp: credit_inv_def adjust_balance)
  qed
qed

lemma credit_start_inv:
  assumes "account_new c0 p0 = Some a" "credit_start a s"
  shows "credit_inv a s"
  using account_new_bounds [OF assms(1)] assms(2) unfolding credit_start_def
  by (auto simp: credit_inv_def outstanding_def is_i64_def i64_min_def)

interpretation credits: invariant_system "credit_start a" credit_step
  "\<lambda>s. (\<exists>c p. account_new c p = Some a) \<and> credit_inv a s" for a
proof unfold_locales
  show "(\<exists>c p. account_new c p = Some a) \<and> credit_inv a s" if "credit_start a s" for s
    using that credit_start_inv unfolding credit_start_def by blast
  show "(\<exists>c p. account_new c p = Some a) \<and> credit_inv a t"
    if "(\<exists>c p. account_new c p = Some a) \<and> credit_inv a s" "credit_step s t" for s t
    using that credit_step_inv by blast
qed

section \<open>Properties\<close>

text \<open>
  C12: the bounds of an account. In every interleaving of reservations, rollbacks,
  settlements and refills, the number of jobs counted is the number that exist and
  never exceeds the account's parallelism, and the balance is an \<open>i64\<close> that never
  exceeds the capacity.
\<close>

theorem credit_bounds:
  assumes "account_new capacity parallelism = Some a" "credit_reach a s"
  shows "card (dom (cs_jobs s)) = unat (ca_in_flight (cs_account s)) \<and>
    ca_in_flight (cs_account s) \<le> parallelism \<and>
    ca_balance (cs_account s) \<le> int (unat capacity) \<and> is_i64 (ca_balance (cs_account s))"
proof -
  have "ca_capacity a = int (unat capacity)" "ca_parallelism a = parallelism"
    using assms(1) by (auto simp: account_new_def bind_eq_Some_conv i64_try_from_def split: if_splits)
  then show ?thesis
    using credits.reach_inv [OF assms(2)] by (simp add: credit_inv_def)
qed

text \<open>
  CPU time is paid for. As long as the CPU time measured in total fits the
  debt representation, what was spent, what running jobs have reserved and what is
  left (debt counted negatively) never exceed the capacity plus the refills; and
  without refills they are exactly the capacity, so a cancelled job gets back all
  it had reserved and a job that overshoots leaves exactly its overshoot as debt.
\<close>

theorem credits_conserved:
  assumes "account_new capacity parallelism = Some a" "credit_reach a s" "cs_spent s \<le> 2 ^ 63"
  shows "ca_balance (cs_account s) + outstanding (cs_jobs s) + cs_spent s \<le> int (unat capacity) + cs_refilled s \<and>
    (cs_refilled s = 0 \<longrightarrow>
       ca_balance (cs_account s) + outstanding (cs_jobs s) + cs_spent s = int (unat capacity))"
proof -
  have "ca_capacity a = int (unat capacity)"
    using assms(1) by (auto simp: account_new_def bind_eq_Some_conv i64_try_from_def split: if_splits)
  then show ?thesis
    using credits.reach_inv [OF assms(2)] assms(3) by (simp add: credit_inv_def)
qed

section \<open>A concrete run\<close>

text \<open>An account of 100 with room for one job, which reserves 30, runs for 50 and leaves.\<close>

definition demo_account :: credit_account where
  "demo_account = \<lparr>ca_capacity = 100, ca_balance = 100, ca_in_flight = 0, ca_parallelism = 1,
     ca_changed = notify_new\<rparr>"

definition demo_state :: "i64 \<Rightarrow> usize \<Rightarrow> (nat \<Rightarrow> job option) \<Rightarrow> int \<Rightarrow> csys" where
  "demo_state b n js sp = \<lparr>cs_account = demo_account\<lparr>ca_balance := b, ca_in_flight := n\<rparr>, cs_jobs = js,
     cs_spent = sp, cs_refilled = 0\<rparr>"

lemma demo_account_new: "account_new 100 1 = Some demo_account"
  by (simp add: account_new_def i64_try_from_def i64_max_def demo_account_def)

lemma demo_steps:
  "credit_step (demo_state 100 0 (\<lambda>_. None) 0) (demo_state 100 1 [0 \<mapsto> Counted 30] 0)"
  "credit_step (demo_state 100 1 [0 \<mapsto> Counted 30] 0)
     (demo_state 70 1 [0 \<mapsto> Holding \<lparr>cr_reserved = 30, cr_started = None, cr_done = False\<rparr>] 0)"
  "credit_step (demo_state 70 1 [0 \<mapsto> Holding \<lparr>cr_reserved = 30, cr_started = None, cr_done = False\<rparr>] 0)
     (demo_state 70 1 [0 \<mapsto> Holding \<lparr>cr_reserved = 30, cr_started = Some 1000, cr_done = False\<rparr>] 0)"
  "credit_step (demo_state 70 1 [0 \<mapsto> Holding \<lparr>cr_reserved = 30, cr_started = Some 1000, cr_done = False\<rparr>] 0)
     (demo_state 50 1 [0 \<mapsto> Settled] 50)"
proof -
  show "credit_step (demo_state 100 0 (\<lambda>_. None) 0) (demo_state 100 1 [0 \<mapsto> Counted 30] 0)"
    using credit_step.count [of "demo_state 100 0 (\<lambda>_. None) 0" 0 30 30 "demo_account\<lparr>ca_in_flight := 1\<rparr>"]
    by (simp add: demo_state_def demo_account_def valid_credits_def i64_try_from_def i64_max_def
        count_job_def update_cell_def)
  show "credit_step (demo_state 100 1 [0 \<mapsto> Counted 30] 0)
     (demo_state 70 1 [0 \<mapsto> Holding \<lparr>cr_reserved = 30, cr_started = None, cr_done = False\<rparr>] 0)"
    using credit_step.take [of "demo_state 100 1 [0 \<mapsto> Counted 30] 0" 0 30
        "demo_account\<lparr>ca_in_flight := 1, ca_balance := 70\<rparr>" True]
    by (simp add: demo_state_def demo_account_def take_credits_def update_cell_def)
  show "credit_step (demo_state 70 1 [0 \<mapsto> Holding \<lparr>cr_reserved = 30, cr_started = None, cr_done = False\<rparr>] 0)
     (demo_state 70 1 [0 \<mapsto> Holding \<lparr>cr_reserved = 30, cr_started = Some 1000, cr_done = False\<rparr>] 0)"
    using credit_step.enter [of "demo_state 70 1 [0 \<mapsto> Holding \<lparr>cr_reserved = 30, cr_started = None, cr_done = False\<rparr>] 0"
        0 "\<lparr>cr_reserved = 30, cr_started = None, cr_done = False\<rparr>" 1000
        "\<lparr>cr_reserved = 30, cr_started = Some 1000, cr_done = False\<rparr>"]
    by (simp add: demo_state_def permit_enter_def)
  have "consumed 1050 (Some 1000) = 50"
    by (simp add: consumed_def u64_saturating_sub_def word_le_nat_alt or_i64_max_def i64_try_from_def i64_max_def)
  then show "credit_step (demo_state 70 1 [0 \<mapsto> Holding \<lparr>cr_reserved = 30, cr_started = Some 1000, cr_done = False\<rparr>] 0)
     (demo_state 50 1 [0 \<mapsto> Settled] 50)"
    using credit_step.settle [of "demo_state 70 1 [0 \<mapsto> Holding \<lparr>cr_reserved = 30, cr_started = Some 1000, cr_done = False\<rparr>] 0"
        0 "\<lparr>cr_reserved = 30, cr_started = Some 1000, cr_done = False\<rparr>" 1050]
    by (simp add: demo_state_def demo_account_def settle_balance_def account_adjust_def update_cell_def
        i64_saturating_add_def i64_saturating_sub_def clamp_i64_def i64_min_def i64_max_def)
qed

lemma demo_reach: "credit_reach demo_account (demo_state 50 1 [0 \<mapsto> Settled] 50)"
proof -
  note go = reach.reach_step [where init = "credit_start demo_account" and step = credit_step]
  have "credit_reach demo_account (demo_state 100 0 (\<lambda>_. None) 0)"
    using demo_account_new
    by (intro reach.reach_init) (auto simp: credit_start_def demo_state_def demo_account_def)
  from go [OF go [OF go [OF go [OF this demo_steps(1)] demo_steps(2)] demo_steps(3)] demo_steps(4)]
  show ?thesis .
qed

theorem credit_bounds_witness:
  "card (dom (cs_jobs (demo_state 50 1 [0 \<mapsto> Settled] 50))) = 1 \<and>
   ca_in_flight (cs_account (demo_state 50 1 [0 \<mapsto> Settled] 50)) \<le> 1"
  using credit_bounds [OF demo_account_new demo_reach] by (simp add: demo_state_def)

theorem credits_conserved_witness:
  "ca_balance (cs_account (demo_state 50 1 [0 \<mapsto> Settled] 50)) +
     outstanding (cs_jobs (demo_state 50 1 [0 \<mapsto> Settled] 50)) + 50 = 100"
  using credits_conserved [OF demo_account_new demo_reach] by (simp add: demo_state_def)

end
