(* ===== verification/Owner.thy ===== *)
theory Owner
  imports Credits
begin

text \<open>
  Exclusive turns (\<open>src/src/owner.rs\<close>): the admission gate and its lease, dispatch
  with admission before submission, and the job a dispatch submits, over any CPU
  budget; the interface of a budget is a locale and \<open>CpuCredits\<close> its instance. A
  step relation interleaves the atomic operations of many dispatches on one owner:
  the owned value is never in two hands and never lost, and turns take effect one
  after the other.
\<close>

section \<open>Data and operations\<close>

record 't owner_state =
  os_admitted :: bool
  os_value :: "'t option"

datatype dispatch_denied = Busy | Budget | Worker

definition owner_new :: "'t \<Rightarrow> 't owner_state" where
  "owner_new v = \<lparr>os_admitted = False, os_value = Some v\<rparr>"

text \<open>\<open>Lease::drop\<close>: the value goes back before the gate opens.\<close>

definition lease_drop :: "'t owner_state \<Rightarrow> 't option \<Rightarrow> 't owner_state" where
  "lease_drop o1 v = o1\<lparr>os_value := v, os_admitted := False\<rparr>"

text \<open>
  \<open>Owner::dispatch_to\<close> up to the submission: the budget's \<open>reserve\<close> is a parameter.
  A denial is reported with the state after it; an admitted turn comes with its
  lease and permit. \<open>None\<close> is the panic \<open>ExclusiveOwnerDuplicateAdmission\<close>, or one
  of the budget's.
\<close>

definition dispatch_to ::
  "('b \<Rightarrow> u64 \<Rightarrow> ('b \<times> 'p option) option) \<Rightarrow> nat \<Rightarrow> 't owner_state \<Rightarrow> 'b \<Rightarrow> nat option \<Rightarrow> u64 \<Rightarrow>
   ('t owner_state \<times> 'b \<times> (dispatch_denied + 't \<times> 'p)) option" where
  "dispatch_to reserve workers o1 b worker credits =
     (if (case worker of None \<Rightarrow> False | Some w \<Rightarrow> workers \<le> w) then Some (o1, b, Inl Worker)
      else if os_admitted o1 then Some (o1, b, Inl Busy)
      else do {
        let o1 = o1\<lparr>os_admitted := True\<rparr>;
        v \<leftarrow> os_value o1;
        let o1 = o1\<lparr>os_value := None\<rparr>;
        (b, permit) \<leftarrow> reserve b credits;
        (case permit of
           None \<Rightarrow> Some (lease_drop o1 (Some v), b, Inl Budget)
         | Some p \<Rightarrow> Some (o1, b, Inr (v, p)))
      })"

definition dispatch ::
  "('b \<Rightarrow> u64 \<Rightarrow> ('b \<times> 'p option) option) \<Rightarrow> nat \<Rightarrow> 't owner_state \<Rightarrow> 'b \<Rightarrow> u64 \<Rightarrow>
   ('t owner_state \<times> 'b \<times> (dispatch_denied + 't \<times> 'p)) option" where
  "dispatch reserve workers o1 b credits = dispatch_to reserve workers o1 b None credits"

text \<open>
  The submitted job, run to completion between two readings of the CPU clock: the
  turn gets the value, the permit is finished and dropped, the lease returned.
\<close>

definition run_turn ::
  "(u64 \<Rightarrow> 'p \<Rightarrow> 'p option) \<Rightarrow> ('b \<Rightarrow> u64 \<Rightarrow> 'p \<Rightarrow> ('b \<times> 'p) option) \<Rightarrow> ('t \<Rightarrow> 't \<times> 'r) \<Rightarrow> u64 \<Rightarrow> u64 \<Rightarrow>
   't owner_state \<Rightarrow> 'b \<Rightarrow> 't \<times> 'p \<Rightarrow> ('t owner_state \<times> 'b \<times> 'r) option" where
  "run_turn enter settle turn start finish o1 b job = do {
     let (v, p) = job;
     p \<leftarrow> enter start p;
     let (v, output) = turn v;
     (b, p) \<leftarrow> settle b finish p;
     (b, p) \<leftarrow> settle b finish p;
     Some (lease_drop o1 (Some v), b, output)
   }"

text \<open>A job that is cancelled before it runs drops its permit and its lease.\<close>

definition cancel_turn ::
  "('b \<Rightarrow> u64 \<Rightarrow> 'p \<Rightarrow> ('b \<times> 'p) option) \<Rightarrow> u64 \<Rightarrow> 't owner_state \<Rightarrow> 'b \<Rightarrow> 't \<times> 'p \<Rightarrow>
   ('t owner_state \<times> 'b) option" where
  "cancel_turn settle now o1 b job = do {
     (b, p) \<leftarrow> settle b now (snd job);
     Some (lease_drop o1 (Some (fst job)), b)
   }"

text \<open>
  \<open>CpuCredits::dispatch\<close>: a helper job that is admitted by the budget alone, and its
  body; the permit is dropped at the end of the job.
\<close>

definition helper_dispatch ::
  "('b \<Rightarrow> u64 \<Rightarrow> ('b \<times> 'p option) option) \<Rightarrow> 'b \<Rightarrow> u64 \<Rightarrow> ('b \<times> (dispatch_denied + 'p)) option" where
  "helper_dispatch reserve b credits = do {
     (b, permit) \<leftarrow> reserve b credits;
     Some (b, case permit of None \<Rightarrow> Inl Budget | Some p \<Rightarrow> Inr p)
   }"

definition helper_run ::
  "(u64 \<Rightarrow> 'p \<Rightarrow> 'p option) \<Rightarrow> ('b \<Rightarrow> u64 \<Rightarrow> 'p \<Rightarrow> ('b \<times> 'p) option) \<Rightarrow> (unit \<Rightarrow> 'r) \<Rightarrow> u64 \<Rightarrow> u64 \<Rightarrow>
   'b \<Rightarrow> 'p \<Rightarrow> ('b \<times> 'r) option" where
  "helper_run enter settle work start finish b p = do {
     p \<leftarrow> enter start p;
     let output = work ();
     (b, p) \<leftarrow> settle b finish p;
     (b, p) \<leftarrow> settle b finish p;
     Some (b, output)
   }"

section \<open>The interface of a CPU budget\<close>

text \<open>
  What \<open>CpuBudget\<close> and \<open>CpuPermit\<close> promise a caller: a reservation takes one unit
  of in-flight capacity or changes nothing; a fresh permit can be entered; settling
  (\<open>finish\<close> or \<open>drop\<close>) gives that unit back once and does nothing a second time.
  \<open>fresh\<close>, \<open>active\<close> and \<open>settled\<close> are the states of a permit.
\<close>

locale cpu_budget =
  fixes inv :: "'b \<Rightarrow> bool"
    and in_flight :: "'b \<Rightarrow> nat"
    and fresh :: "'p \<Rightarrow> bool"
    and active :: "'p \<Rightarrow> bool"
    and settled :: "'p \<Rightarrow> bool"
    and reserve :: "'b \<Rightarrow> u64 \<Rightarrow> ('b \<times> 'p option) option"
    and enter :: "u64 \<Rightarrow> 'p \<Rightarrow> 'p option"
    and settle :: "'b \<Rightarrow> u64 \<Rightarrow> 'p \<Rightarrow> ('b \<times> 'p) option"
  assumes reserve_total: "inv b \<Longrightarrow> \<exists>b' p. reserve b c = Some (b', p) \<and> inv b' \<and>
      (case p of None \<Rightarrow> in_flight b' = in_flight b | Some p \<Rightarrow> in_flight b' = Suc (in_flight b) \<and> fresh p)"
    and fresh_active: "fresh p \<Longrightarrow> active p"
    and enter_fresh: "fresh p \<Longrightarrow> \<exists>p'. enter now p = Some p' \<and> active p'"
    and settle_active: "inv b \<Longrightarrow> active p \<Longrightarrow> 0 < in_flight b \<Longrightarrow>
      \<exists>b' p'. settle b now p = Some (b', p') \<and> inv b' \<and> Suc (in_flight b') = in_flight b \<and> settled p'"
    and settle_settled: "settled p \<Longrightarrow> settle b now p = Some (b, p)"
begin

lemma run_turn_returns:
  assumes "inv b" "fresh p" "0 < in_flight b"
  shows "\<exists>b'. run_turn enter settle turn t1 t2 o1 b (v, p) =
      Some (lease_drop o1 (Some (fst (turn v))), b', snd (turn v)) \<and> inv b' \<and> Suc (in_flight b') = in_flight b"
proof -
  obtain p1 where p1: "enter t1 p = Some p1" "active p1"
    using enter_fresh [OF assms(2)] by blast
  obtain b' p2 where "settle b t2 p1 = Some (b', p2)" "inv b'" "Suc (in_flight b') = in_flight b" "settled p2"
    using settle_active [OF assms(1) p1(2) assms(3)] by blast
  then show ?thesis
    using p1(1) settle_settled [of p2 b' t2] by (simp add: run_turn_def split: prod.splits)
qed

lemma helper_round_trip:
  assumes "inv b"
  shows "\<exists>b2 r. helper_dispatch reserve b c = Some (b2, r) \<and> inv b2 \<and>
    (case r of
       Inl d \<Rightarrow> d = Budget \<and> in_flight b2 = in_flight b
     | Inr p \<Rightarrow> \<exists>b3. helper_run enter settle work t1 t2 b2 p = Some (b3, work ()) \<and> inv b3 \<and> in_flight b3 = in_flight b)"
proof -
  obtain b2 x where x: "reserve b c = Some (b2, x)" "inv b2"
    "case x of None \<Rightarrow> in_flight b2 = in_flight b | Some p \<Rightarrow> in_flight b2 = Suc (in_flight b) \<and> fresh p"
    using reserve_total [OF assms] by blast
  show ?thesis
  proof (cases x)
    case None
    then show ?thesis using x by (simp add: helper_dispatch_def)
  next
    case (Some p)
    then have p: "fresh p" "in_flight b2 = Suc (in_flight b)" using x(3) by auto
    obtain p1 where p1: "enter t1 p = Some p1" "active p1"
      using enter_fresh [OF p(1)] by blast
    obtain b3 p2 where "settle b2 t2 p1 = Some (b3, p2)" "inv b3" "Suc (in_flight b3) = in_flight b2" "settled p2"
      using settle_active [OF x(2) p1(2), of t2] p(2) by auto
    then have "helper_run enter settle work t1 t2 b2 p = Some (b3, work ())" "inv b3" "in_flight b3 = in_flight b"
      using p1(1) p(2) settle_settled [of p2 b3 t2] by (simp_all add: helper_run_def)
    then show ?thesis
      using x Some by (auto simp: helper_dispatch_def)
  qed
qed

lemma cancel_turn_returns:
  assumes "inv b" "fresh p" "0 < in_flight b"
  shows "\<exists>b'. cancel_turn settle now o1 b (v, p) = Some (lease_drop o1 (Some v), b') \<and>
    inv b' \<and> Suc (in_flight b') = in_flight b"
proof -
  obtain b' p2 where "settle b now p = Some (b', p2)" "inv b'" "Suc (in_flight b') = in_flight b" "settled p2"
    using settle_active [OF assms(1) fresh_active [OF assms(2)] assms(3), of now] by blast
  then show ?thesis by (simp add: cancel_turn_def)
qed

text \<open>
  On an idle owner a dispatch is denied leaving everything as it was, or admitted;
  then running or cancelling the job returns the value and the in-flight capacity.
\<close>

lemma dispatch_round_trip:
  assumes "inv b"
  shows "\<exists>o2 b2 r. dispatch_to reserve n (owner_new v) b worker c = Some (o2, b2, r) \<and> inv b2 \<and>
    (case r of
       Inl d \<Rightarrow> o2 = owner_new v \<and> in_flight b2 = in_flight b \<and> d \<noteq> Busy
     | Inr (w, p) \<Rightarrow> w = v \<and> os_admitted o2 \<and> os_value o2 = None \<and> in_flight b2 = Suc (in_flight b) \<and>
         dispatch_to reserve n o2 b2 None c = Some (o2, b2, Inl Busy) \<and>
         (\<exists>b3. run_turn enter settle turn t1 t2 o2 b2 (w, p) = Some (owner_new (fst (turn v)), b3, snd (turn v)) \<and>
            inv b3 \<and> in_flight b3 = in_flight b) \<and>
         (\<exists>b3. cancel_turn settle t1 o2 b2 (w, p) = Some (owner_new v, b3) \<and> inv b3 \<and> in_flight b3 = in_flight b))"
proof (cases "case worker of None \<Rightarrow> False | Some w \<Rightarrow> n \<le> w")
  case True
  then show ?thesis
    using assms by (auto simp: dispatch_to_def)
next
  case False
  obtain b2 x where x: "reserve b c = Some (b2, x)" "inv b2"
    "case x of None \<Rightarrow> in_flight b2 = in_flight b | Some p \<Rightarrow> in_flight b2 = Suc (in_flight b) \<and> fresh p"
    using reserve_total [OF assms] by blast
  show ?thesis
  proof (cases x)
    case None
    then show ?thesis
      using False x by (auto simp: dispatch_to_def owner_new_def lease_drop_def)
  next
    case (Some p)
    let ?o = "\<lparr>os_admitted = True, os_value = None\<rparr>"
    have p: "fresh p" "in_flight b2 = Suc (in_flight b)"
      using x(3) Some by auto
    have "dispatch_to reserve n (owner_new v) b worker c = Some (?o, b2, Inr (v, p))"
      using False x(1) Some by (simp add: dispatch_to_def owner_new_def)
    moreover have "dispatch_to reserve n ?o b2 None c = Some (?o, b2, Inl Busy)"
      by (simp add: dispatch_to_def)
    ultimately show ?thesis
      using run_turn_returns [OF x(2) p(1), of turn t1 t2 ?o v] cancel_turn_returns [OF x(2) p(1), of t1 ?o v] p(2) x(2)
      by (auto simp: lease_drop_def owner_new_def)
  qed
qed

end

text \<open>The budget of \<open>CpuCredits\<close>.\<close>

definition account_ok :: "credit_account \<Rightarrow> bool" where
  "account_ok a \<longleftrightarrow> ncore (ca_changed a) (\<lambda>_. None) \<and> ca_in_flight a \<le> ca_parallelism a"

definition permit_fresh :: "reservation \<Rightarrow> bool" where
  "permit_fresh p \<longleftrightarrow> \<not> cr_done p \<and> cr_started p = None"

lemma ncore_notify_new: "ncore notify_new (\<lambda>_. None)"
  by (simp add: ncore_def notify_new_def owned_new)

lemma account_notify_ok:
  assumes "ncore (ca_changed a) (\<lambda>_. None)"
  shows "\<exists>a' ws. account_notify a = Some (a', ws) \<and> ncore (ca_changed a') (\<lambda>_. None) \<and>
    ca_in_flight a' = ca_in_flight a \<and> ca_parallelism a' = ca_parallelism a"
proof -
  obtain n ws where "notify_waiters (ca_changed a) = Some (n, ws)"
    using notify_waiters_no_panic [OF assms] by auto
  then show ?thesis
    using notify_waiters_effect(1) [OF assms] by (simp add: account_notify_def)
qed

interpretation cpu_credits: cpu_budget account_ok "\<lambda>a. unat (ca_in_flight a)" permit_fresh
  "\<lambda>p :: reservation. \<not> cr_done p" "cr_done :: reservation \<Rightarrow> bool" credits_reserve permit_enter permit_settle
proof unfold_locales
  fix b c
  assume inv: "account_ok b"
  show "\<exists>b' p. credits_reserve b c = Some (b', p) \<and> account_ok b' \<and>
      (case p of None \<Rightarrow> unat (ca_in_flight b') = unat (ca_in_flight b)
       | Some p \<Rightarrow> unat (ca_in_flight b') = Suc (unat (ca_in_flight b)) \<and> permit_fresh p)"
  proof (cases "valid_credits c")
    case None
    then show ?thesis using inv by (simp add: credits_reserve_def)
  next
    case (Some r)
    show ?thesis
    proof (cases "count_job b")
      case (Pair b1 ok)
      show ?thesis
      proof (cases ok)
        case False
        then have "b1 = b"
          using Pair by (auto simp: count_job_def update_cell_def split: if_splits)
        then show ?thesis using inv Pair Some False by (simp add: credits_reserve_def)
      next
        case True
        then have b1: "ca_in_flight b < ca_parallelism b" "b1 = b\<lparr>ca_in_flight := ca_in_flight b + 1\<rparr>"
          "unat (ca_in_flight b + 1) = Suc (unat (ca_in_flight b))"
          using count_job_True [of b b1] Pair by auto
        show ?thesis
        proof (cases "r \<le> ca_balance b")
          case yes: True
          then have "credits_reserve b c = Some (b1\<lparr>ca_balance := ca_balance b - r\<rparr>,
              Some \<lparr>cr_reserved = r, cr_started = None, cr_done = False\<rparr>)"
            using Some Pair True b1 by (simp add: credits_reserve_def take_credits_def update_cell_def)
          then show ?thesis
            using inv b1 by (simp add: account_ok_def permit_fresh_def word_le_nat_alt word_less_nat_alt)
        next
          case no: False
          have "uncount_job b1 = b" using b1(2) by (simp add: uncount_job_def)
          moreover obtain b' ws where "account_notify b = Some (b', ws)" "ncore (ca_changed b') (\<lambda>_. None)"
            "ca_in_flight b' = ca_in_flight b" "ca_parallelism b' = ca_parallelism b"
            using account_notify_ok [of b] inv by (auto simp: account_ok_def)
          ultimately show ?thesis
            using Some Pair True b1 no inv
            by (simp add: credits_reserve_def take_credits_def update_cell_def account_ok_def)
        qed
      qed
    qed
  qed
next
  fix b now and p :: reservation
  assume inv: "account_ok b" and p: "\<not> cr_done p" and n: "0 < unat (ca_in_flight b)"
  let ?b = "uncount_job (settle_balance b now p)"
  have "ca_in_flight ?b = ca_in_flight b - 1" "ca_changed ?b = ca_changed b" "ca_parallelism ?b = ca_parallelism b"
    by (simp_all add: uncount_job_def settle_balance_def account_adjust_def)
  moreover have "unat (ca_in_flight b - 1) = unat (ca_in_flight b) - 1"
    using n by (intro unat_minus_one) auto
  moreover obtain b' ws where "account_notify ?b = Some (b', ws)" "ncore (ca_changed b') (\<lambda>_. None)"
    "ca_in_flight b' = ca_in_flight ?b" "ca_parallelism b' = ca_parallelism ?b"
    using account_notify_ok [of ?b] calculation(2) inv by (auto simp: account_ok_def)
  ultimately show "\<exists>b' p'. permit_settle b now p = Some (b', p') \<and> account_ok b' \<and>
      Suc (unat (ca_in_flight b')) = unat (ca_in_flight b) \<and> cr_done p'"
    using p n inv by (auto simp: permit_settle_def account_ok_def word_le_nat_alt)
qed (auto simp: permit_fresh_def permit_enter_def permit_settle_def)

section \<open>Interleaved dispatches\<close>

text \<open>
  A dispatch on an owner between its atomic actions: past the compare-and-swap on
  \<open>admitted\<close>; holding the lease before the budget answers; submitted to the pool;
  about to store the value back; about to open the gate. A turn that unwinds leaves
  the value as far as it got, so it is a \<open>run\<close> too. \<open>ow_log\<close> lists the turns that ran.
\<close>

datatype 't turn_state = Admitted | Leased 't | Submitted 't | Returning 't | Returned

record 't osys =
  ow_state :: "'t owner_state"
  ow_turns :: "nat \<Rightarrow> 't turn_state option"
  ow_log :: "('t \<Rightarrow> 't) list"

inductive owner_step :: "'t osys \<Rightarrow> 't osys \<Rightarrow> bool" where
  admit: "ow_turns s i = None \<Longrightarrow> \<not> os_admitted (ow_state s) \<Longrightarrow>
    owner_step s (s\<lparr>ow_state := (ow_state s)\<lparr>os_admitted := True\<rparr>, ow_turns := (ow_turns s)(i \<mapsto> Admitted)\<rparr>)"
| take: "ow_turns s i = Some Admitted \<Longrightarrow> os_value (ow_state s) = Some v \<Longrightarrow>
    owner_step s (s\<lparr>ow_state := (ow_state s)\<lparr>os_value := None\<rparr>, ow_turns := (ow_turns s)(i \<mapsto> Leased v)\<rparr>)"
| deny: "ow_turns s i = Some (Leased v) \<Longrightarrow> owner_step s (s\<lparr>ow_turns := (ow_turns s)(i \<mapsto> Returning v)\<rparr>)"
| grant: "ow_turns s i = Some (Leased v) \<Longrightarrow> owner_step s (s\<lparr>ow_turns := (ow_turns s)(i \<mapsto> Submitted v)\<rparr>)"
| run: "ow_turns s i = Some (Submitted v) \<Longrightarrow>
    owner_step s (s\<lparr>ow_turns := (ow_turns s)(i \<mapsto> Returning (f v)), ow_log := ow_log s @ [f]\<rparr>)"
| cancel: "ow_turns s i = Some (Submitted v) \<Longrightarrow> owner_step s (s\<lparr>ow_turns := (ow_turns s)(i \<mapsto> Returning v)\<rparr>)"
| put_back: "ow_turns s i = Some (Returning v) \<Longrightarrow>
    owner_step s (s\<lparr>ow_state := (ow_state s)\<lparr>os_value := Some v\<rparr>, ow_turns := (ow_turns s)(i \<mapsto> Returned)\<rparr>)"
| open_gate: "ow_turns s i = Some Returned \<Longrightarrow>
    owner_step s (s\<lparr>ow_state := (ow_state s)\<lparr>os_admitted := False\<rparr>, ow_turns := (ow_turns s)(i := None)\<rparr>)"

definition owner_start :: "'t \<Rightarrow> 't osys \<Rightarrow> bool" where
  "owner_start v s \<longleftrightarrow> s = \<lparr>ow_state = owner_new v, ow_turns = (\<lambda>_. None), ow_log = []\<rparr>"

abbreviation owner_reach :: "'t \<Rightarrow> 't osys \<Rightarrow> bool" where
  "owner_reach v \<equiv> reach (owner_start v) owner_step"

text \<open>The value the owner would have after the turns so far, applied in order.\<close>

definition replayed :: "'t \<Rightarrow> ('t \<Rightarrow> 't) list \<Rightarrow> 't" where
  "replayed v log = fold (\<lambda>f x. f x) log v"

lemma replayed_snoc [simp]: "replayed v (log @ [f]) = f (replayed v log)" "replayed v [] = v"
  by (simp_all add: replayed_def)

text \<open>Where the value is while a dispatch is in a given state: in its hands or in the cell.\<close>

fun turn_ok :: "'t \<Rightarrow> 't option \<Rightarrow> 't turn_state \<Rightarrow> bool" where
  "turn_ok v cell Admitted \<longleftrightarrow> cell = Some v"
| "turn_ok v cell (Leased w) \<longleftrightarrow> cell = None \<and> w = v"
| "turn_ok v cell (Submitted w) \<longleftrightarrow> cell = None \<and> w = v"
| "turn_ok v cell (Returning w) \<longleftrightarrow> cell = None \<and> w = v"
| "turn_ok v cell Returned \<longleftrightarrow> cell = Some v"

definition owner_inv :: "'t \<Rightarrow> 't osys \<Rightarrow> bool" where
  "owner_inv v0 s \<longleftrightarrow>
     (if os_admitted (ow_state s) then
        \<exists>i t. ow_turns s = [i \<mapsto> t] \<and> turn_ok (replayed v0 (ow_log s)) (os_value (ow_state s)) t
      else ow_turns s = Map.empty \<and> os_value (ow_state s) = Some (replayed v0 (ow_log s)))"

lemma owner_inv_turn:
  assumes "owner_inv v0 s" "ow_turns s i = Some t"
  shows "os_admitted (ow_state s)" "ow_turns s = [i \<mapsto> t]"
    "turn_ok (replayed v0 (ow_log s)) (os_value (ow_state s)) t"
  using assms by (auto simp: owner_inv_def split: if_splits)

lemma owner_inv_single:
  "os_admitted (ow_state s) \<Longrightarrow> ow_turns s = [i \<mapsto> t] \<Longrightarrow>
    turn_ok (replayed v0 (ow_log s)) (os_value (ow_state s)) t \<Longrightarrow> owner_inv v0 s"
  by (auto simp: owner_inv_def)

lemma owner_step_inv: "owner_inv v0 s \<Longrightarrow> owner_step s t \<Longrightarrow> owner_inv v0 t"
proof (rotate_tac, induction rule: owner_step.induct)
  case (admit s i)
  then show ?case by (intro owner_inv_single [where i = i and t = Admitted]) (auto simp: owner_inv_def)
next
  case (open_gate s i)
  then show ?case using owner_inv_turn [OF open_gate(2,1)] by (simp add: owner_inv_def)
next
  case (take s i v)
  then show ?case using owner_inv_turn [OF take(3,1)] by (intro owner_inv_single [where i = i]) auto
next
  case (deny s i v)
  then show ?case using owner_inv_turn [OF deny(2,1)] by (intro owner_inv_single [where i = i]) auto
next
  case (grant s i v)
  then show ?case using owner_inv_turn [OF grant(2,1)] by (intro owner_inv_single [where i = i]) auto
next
  case (run s i v f)
  then show ?case using owner_inv_turn [OF run(2,1)] by (intro owner_inv_single [where i = i]) auto
next
  case (cancel s i v)
  then show ?case using owner_inv_turn [OF cancel(2,1)] by (intro owner_inv_single [where i = i]) auto
next
  case (put_back s i v)
  then show ?case using owner_inv_turn [OF put_back(2,1)] by (intro owner_inv_single [where i = i]) auto
qed

interpretation owners: invariant_system "owner_start v0" owner_step "owner_inv v0" for v0
  by unfold_locales (simp add: owner_start_def owner_inv_def owner_new_def, rule owner_step_inv)

section \<open>Properties\<close>

text \<open>
  C13: In every interleaving of dispatches on one owner, at most one dispatch is past
  the gate; one that has just passed it finds the value in its cell, so the
  \<open>ExclusiveOwnerDuplicateAdmission\<close> panic is unreachable; the gate is closed exactly
  while some dispatch is past it, and when it is open the cell holds the first value
  with every turn that ran applied in turn, so that no turn is lost or doubled.
\<close>

theorem owner_exclusive:
  assumes "owner_reach v0 s"
  shows "(ow_turns s i \<noteq> None \<and> ow_turns s j \<noteq> None \<longrightarrow> i = j) \<and>
    (ow_turns s i = Some Admitted \<longrightarrow> os_value (ow_state s) = Some (replayed v0 (ow_log s))) \<and>
    (os_admitted (ow_state s) \<longleftrightarrow> (\<exists>k. ow_turns s k \<noteq> None)) \<and>
    (\<not> os_admitted (ow_state s) \<longrightarrow> os_value (ow_state s) = Some (replayed v0 (ow_log s)))"
proof -
  have inv: "owner_inv v0 s"
    using owners.reach_inv [OF assms] .
  show ?thesis
  proof (cases "os_admitted (ow_state s)")
    case True
    then obtain k t where "ow_turns s = [k \<mapsto> t]" "turn_ok (replayed v0 (ow_log s)) (os_value (ow_state s)) t"
      using inv by (auto simp: owner_inv_def)
    then show ?thesis using True by auto
  next
    case False
    then show ?thesis using inv by (simp add: owner_inv_def)
  qed
qed

text \<open>
  On an idle owner whose account is in order, a dispatch never panics. It is
  denied, for its worker or its budget, leaving the value in the owner and the job
  count as it was; or it is admitted, and then a second dispatch is refused as busy,
  and both running the job and cancelling it put the value, after the turn or
  untouched, back in an idle owner and give the job count back.
\<close>

theorem owner_dispatch_round_trip:
  assumes "account_ok b"
  shows "\<exists>o2 b2 r. dispatch_to credits_reserve n (owner_new v) b worker c = Some (o2, b2, r) \<and> account_ok b2 \<and>
    (case r of
       Inl d \<Rightarrow> o2 = owner_new v \<and> ca_in_flight b2 = ca_in_flight b \<and> d \<noteq> Busy
     | Inr (w, p) \<Rightarrow> w = v \<and> dispatch credits_reserve n o2 b2 c = Some (o2, b2, Inl Busy) \<and>
         (\<exists>b3. run_turn permit_enter permit_settle turn t1 t2 o2 b2 (w, p) =
            Some (owner_new (fst (turn v)), b3, snd (turn v)) \<and> account_ok b3 \<and> ca_in_flight b3 = ca_in_flight b) \<and>
         (\<exists>b3. cancel_turn permit_settle t1 o2 b2 (w, p) = Some (owner_new v, b3) \<and>
            account_ok b3 \<and> ca_in_flight b3 = ca_in_flight b))"
proof -
  obtain o2 b2 r where "dispatch_to credits_reserve n (owner_new v) b worker c = Some (o2, b2, r)" "account_ok b2"
    and "case r of
       Inl d \<Rightarrow> o2 = owner_new v \<and> unat (ca_in_flight b2) = unat (ca_in_flight b) \<and> d \<noteq> Busy
     | Inr (w, p) \<Rightarrow> w = v \<and> os_admitted o2 \<and> os_value o2 = None \<and>
         unat (ca_in_flight b2) = Suc (unat (ca_in_flight b)) \<and>
         dispatch_to credits_reserve n o2 b2 None c = Some (o2, b2, Inl Busy) \<and>
         (\<exists>b3. run_turn permit_enter permit_settle turn t1 t2 o2 b2 (w, p) =
            Some (owner_new (fst (turn v)), b3, snd (turn v)) \<and> account_ok b3 \<and>
            unat (ca_in_flight b3) = unat (ca_in_flight b)) \<and>
         (\<exists>b3. cancel_turn permit_settle t1 o2 b2 (w, p) = Some (owner_new v, b3) \<and> account_ok b3 \<and>
            unat (ca_in_flight b3) = unat (ca_in_flight b))"
    using cpu_credits.dispatch_round_trip [OF assms, of n v worker c turn t1 t2] by blast
  then show ?thesis
    by (intro exI [of _ o2] exI [of _ b2] exI [of _ r])
      (auto simp: dispatch_def unsigned_word_eqI dest: unsigned_word_eqI split: sum.splits)
qed

theorem owner_exclusive_witness:
  "\<exists>s :: int osys. owner_reach 5 s \<and> ow_turns s 1 = Some Admitted \<and> os_value (ow_state s) = Some 6 \<and>
    (\<forall>k. (ow_turns s k \<noteq> None) = (k = 1))"
proof -
  let ?s0 = "\<lparr>ow_state = owner_new (5 :: int), ow_turns = (\<lambda>_. None), ow_log = []\<rparr>"
  let ?st = "\<lambda>ad (v :: int option) ts l. \<lparr>ow_state = \<lparr>os_admitted = ad, os_value = v\<rparr>, ow_turns = ts, ow_log = l\<rparr>"
  let ?f = "\<lambda>x :: int. x + 1"
  note go = reach.reach_step [where init = "owner_start (5 :: int)" and step = owner_step]
  have "owner_reach 5 ?s0"
    by (rule reach.reach_init) (simp add: owner_start_def)
  then have "owner_reach 5 (?st True (Some 5) [0 \<mapsto> Admitted] [])"
    by (rule go) (use owner_step.admit [of ?s0 0] in \<open>simp add: owner_new_def\<close>)
  then have "owner_reach 5 (?st True None [0 \<mapsto> Leased 5] [])"
    by (rule go) (use owner_step.take [of "?st True (Some 5) [0 \<mapsto> Admitted] []" 0 5] in simp)
  then have "owner_reach 5 (?st True None [0 \<mapsto> Submitted 5] [])"
    by (rule go) (use owner_step.grant [of "?st True None [0 \<mapsto> Leased 5] []" 0 5] in simp)
  then have "owner_reach 5 (?st True None [0 \<mapsto> Returning 6] [?f])"
    by (rule go) (use owner_step.run [of "?st True None [0 \<mapsto> Submitted 5] []" 0 5 ?f] in simp)
  then have "owner_reach 5 (?st True (Some 6) [0 \<mapsto> Returned] [?f])"
    by (rule go) (use owner_step.put_back [of "?st True None [0 \<mapsto> Returning 6] [?f]" 0 6] in simp)
  then have "owner_reach 5 (?st False (Some 6) Map.empty [?f])"
    by (rule go) (use owner_step.open_gate [of "?st True (Some 6) [0 \<mapsto> Returned] [?f]" 0] in simp)
  then have r: "owner_reach 5 (?st True (Some 6) [1 \<mapsto> Admitted] [?f])"
    by (rule go) (use owner_step.admit [of "?st False (Some 6) Map.empty [?f]" 1] in simp)
  show ?thesis
    using owner_exclusive [OF r, of 1 1] r by (intro exI [of _ "?st True (Some 6) [1 \<mapsto> Admitted] [?f]"]) simp
qed

theorem owner_dispatch_round_trip_witness:
  "\<exists>b o2 b2 p. account_new 100 2 = Some b \<and>
    dispatch_to credits_reserve 4 (owner_new (7 :: int)) b (Some 3) 40 = Some (o2, b2, Inr (7, p)) \<and>
    ca_balance b2 = 60 \<and>
    (\<exists>b3. run_turn permit_enter permit_settle (\<lambda>x. (x * 2, x)) 1000 1010 o2 b2 (7, p) = Some (owner_new 14, b3, 7) \<and>
      ca_in_flight b3 = 0)"
proof -
  let ?b = "\<lparr>ca_capacity = 100, ca_balance = 100, ca_in_flight = 0, ca_parallelism = 2, ca_changed = notify_new\<rparr>"
  let ?p = "\<lparr>cr_reserved = 40, cr_started = None, cr_done = False\<rparr>"
  let ?o = "\<lparr>os_admitted = True, os_value = None :: int option\<rparr>"
  have new: "account_new 100 2 = Some ?b"
    by (simp add: account_new_def i64_try_from_def i64_max_def)
  have ok: "account_ok ?b"
    by (simp add: account_ok_def ncore_notify_new)
  have d: "dispatch_to credits_reserve 4 (owner_new (7 :: int)) ?b (Some 3) 40 =
      Some (?o, ?b\<lparr>ca_balance := 60, ca_in_flight := 1\<rparr>, Inr (7, ?p))"
    by (simp add: dispatch_to_def owner_new_def credits_reserve_def valid_credits_def i64_try_from_def i64_max_def
        count_job_def take_credits_def update_cell_def)
  show ?thesis
    using owner_dispatch_round_trip [OF ok, of 4 "7 :: int" "Some 3" 40 "\<lambda>x. (x * 2, x)" 1000 1010] new d by auto
qed

end
