(* ===== verification/Readiness.thy ===== *)
theory Readiness
  imports Notify
begin

text \<open>
  Retained wake reasons (\<open>src/src/readiness.rs\<close>) and the cooperative yield
  (\<open>src/src/yield_now.rs\<close>). The deadline rounding is proved equal to its
  arithmetical specification. Producers and the one consumer of a \<open>ReadySource\<close> are
  a step relation on the model of \<open>Notify\<close>, whose futures the consumer awaits: every
  reason that was posted is in the next result of \<open>wait\<close>, and a consumer is never
  left asleep while a reason is pending.
\<close>

section \<open>Coarse deadlines\<close>

datatype deadline_overflow = DeadlineOverflow

definition coarse_deadline :: "u64 \<Rightarrow> u64 \<Rightarrow> deadline_overflow + u64" where
  "coarse_deadline deadline quantum =
     (let remainder = deadline mod quantum;
          extra = (if remainder = 0 then 0 else quantum - remainder)
      in case u64_checked_add deadline extra of
           None \<Rightarrow> Inl DeadlineOverflow
         | Some value \<Rightarrow> if value \<noteq> u64_max then Inr value else Inl DeadlineOverflow)"

text \<open>\<open>wake_at\<close>: the deadline the spawned task sleeps until, and the reasons it posts then.\<close>

definition wake_at :: "u64 \<Rightarrow> u64 \<Rightarrow> u64 \<Rightarrow> deadline_overflow + u64 \<times> u64" where
  "wake_at deadline quantum reasons =
     (case coarse_deadline deadline quantum of Inl e \<Rightarrow> Inl e | Inr d \<Rightarrow> Inr (d, reasons))"

text \<open>The next multiple of the quantum.\<close>

definition round_up :: "nat \<Rightarrow> nat \<Rightarrow> nat" where
  "round_up x q = (if x mod q = 0 then x else x + (q - x mod q))"

lemma round_up_least:
  assumes "0 < q"
  shows "q dvd round_up x q" "x \<le> round_up x q" "round_up x q < x + q" "q dvd m \<Longrightarrow> x \<le> m \<Longrightarrow> round_up x q \<le> m"
proof -
  have lt: "x mod q < q" using assms by simp
  have eq: "round_up x q = q * (x div q) + q" if "x mod q \<noteq> 0"
  proof -
    have "round_up x q = (q * (x div q) + x mod q) + (q - x mod q)"
      using that by (simp add: round_up_def)
    also have "\<dots> = q * (x div q) + (x mod q + (q - x mod q))" by (simp only: add.assoc)
    also have "x mod q + (q - x mod q) = q" using lt by (simp only: le_add_diff_inverse less_imp_le)
    finally show ?thesis .
  qed
  show "q dvd round_up x q"
    using eq by (cases "x mod q = 0") (auto simp: round_up_def dvd_eq_mod_eq_0)
  have "x \<le> x + (q - x mod q)" "x mod q \<noteq> 0 \<Longrightarrow> x + (q - x mod q) < x + q"
    using lt by simp_all
  then show "x \<le> round_up x q" "round_up x q < x + q"
    using assms unfolding round_up_def by (simp_all only: split: if_splits) simp_all
  assume m: "q dvd m" "x \<le> m"
  show "round_up x q \<le> m"
  proof (cases "x mod q = 0")
    case True
    then show ?thesis using m by (simp add: round_up_def)
  next
    case False
    have "x \<noteq> m" using m False by auto
    then have "x div q < m div q"
      using m by (metis False div_mult_mod_eq div_le_mono dvd_div_mult_self le_add1 le_antisym not_less add_0_right dvd_imp_mod_0 nat_less_le)
    then have "Suc (x div q) * q \<le> m div q * q"
      by (intro mult_le_mono1) simp
    also have "\<dots> = m" using m(1) by simp
    finally show ?thesis using eq False by (simp add: algebra_simps)
  qed
qed

section \<open>Yielding\<close>

text \<open>\<open>YieldNow\<close>: the first poll wakes its own task and is pending, the next is ready.\<close>

record yield_now =
  yn_yielded :: bool

definition yield_now :: yield_now where
  "yield_now = \<lparr>yn_yielded = False\<rparr>"

definition yield_poll :: "yield_now \<Rightarrow> waker \<Rightarrow> yield_now \<times> waker list \<times> unit poll" where
  "yield_poll y wk =
     (if yn_yielded y then (y, [], Ready ()) else (y\<lparr>yn_yielded := True\<rparr>, [wk], Pending))"

lemma yield_polls_twice:
  "yield_poll yield_now wk = (y, ws, r) \<Longrightarrow> ws = [wk] \<and> r = Pending \<and> yield_poll y wk' = (y, [], Ready ())"
  by (auto simp: yield_poll_def yield_now_def)

section \<open>Signals\<close>

record signals =
  sg_reasons :: u64
  sg_notify :: notify

definition signals_new :: signals where
  "signals_new = \<lparr>sg_reasons = 0, sg_notify = notify_new\<rparr>"

text \<open>
  The two atomic actions of \<open>wake\<close>: retaining the reasons, which tells whether to
  notify, and the notification. The exchange of \<open>wait\<close> takes all reasons at once.
\<close>

definition retain_reasons :: "signals \<Rightarrow> u64 \<Rightarrow> signals \<times> bool" where
  "retain_reasons sg reasons =
     (if reasons = 0 then (sg, False)
      else (sg\<lparr>sg_reasons := or (sg_reasons sg) reasons\<rparr>, sg_reasons sg = 0))"

definition signals_notify :: "signals \<Rightarrow> (signals \<times> waker list) option" where
  "signals_notify sg = do {
     (n, ws) \<leftarrow> notify_one (sg_notify sg);
     Some (sg\<lparr>sg_notify := n\<rparr>, ws)
   }"

definition ready_wake :: "signals \<Rightarrow> u64 \<Rightarrow> (signals \<times> waker list) option" where
  "ready_wake sg reasons =
     (case retain_reasons sg reasons of
        (sg, True) \<Rightarrow> signals_notify sg
      | (sg, False) \<Rightarrow> Some (sg, []))"

definition take_reasons :: "signals \<Rightarrow> signals \<times> u64" where
  "take_reasons sg = (sg\<lparr>sg_reasons := 0\<rparr>, sg_reasons sg)"

section \<open>Producers and the consumer\<close>

text \<open>
  The position of the consumer in \<open>wait\<close>: outside or at the head of the loop; with a
  future created; with it enabled; awaiting it; and about to drop it, after the
  exchange found reasons or the future completed. \<open>rs_notifying\<close> counts the calls of
  \<open>wake\<close> between their two actions; \<open>rs_log\<close> lists what was posted and returned.
\<close>

datatype wait_phase = Idle | Created | Enabled | Awaiting | Leaving

datatype reason_event = Posted u64 | Took u64

record rsys =
  rs_signals :: signals
  rs_future :: "notified option"
  rs_phase :: wait_phase
  rs_notifying :: nat
  rs_log :: "reason_event list"

inductive ready_step :: "rsys \<Rightarrow> rsys \<Rightarrow> bool" where
  post: "retain_reasons (rs_signals s) r = (sg, first) \<Longrightarrow>
    ready_step s (s\<lparr>rs_signals := sg, rs_notifying := rs_notifying s + (if first then 1 else 0),
      rs_log := rs_log s @ [Posted r]\<rparr>)"
| notify: "0 < rs_notifying s \<Longrightarrow> signals_notify (rs_signals s) = Some (sg, ws) \<Longrightarrow>
    ready_step s (s\<lparr>rs_signals := sg, rs_notifying := rs_notifying s - 1\<rparr>)"
| create: "rs_phase s = Idle \<Longrightarrow>
    ready_step s (s\<lparr>rs_future := Some (notify_notified (sg_notify (rs_signals s))), rs_phase := Created\<rparr>)"
| enable: "rs_phase s = Created \<Longrightarrow> rs_future s = Some f \<Longrightarrow>
    ready_part (sg_notify (rs_signals s)) f None (n, f', r) \<Longrightarrow>
    ready_step s (s\<lparr>rs_signals := (rs_signals s)\<lparr>sg_notify := n\<rparr>, rs_future := Some f', rs_phase := Enabled\<rparr>)"
| swap: "rs_phase s = Enabled \<Longrightarrow> take_reasons (rs_signals s) = (sg, w) \<Longrightarrow>
    ready_step s (s\<lparr>rs_signals := sg, rs_phase := (if w \<noteq> 0 then Leaving else Awaiting),
      rs_log := rs_log s @ (if w \<noteq> 0 then [Took w] else [])\<rparr>)"
| poll: "rs_phase s = Awaiting \<Longrightarrow> rs_future s = Some f \<Longrightarrow>
    ready_part (sg_notify (rs_signals s)) f (Some wk) (n, f', r) \<Longrightarrow>
    ready_step s (s\<lparr>rs_signals := (rs_signals s)\<lparr>sg_notify := n\<rparr>,
      rs_future := Some (fst (notified_deliver (f', r))), rs_phase := (if r then Leaving else Awaiting)\<rparr>)"
| drop: "rs_phase s = Leaving \<or> rs_phase s = Awaiting \<Longrightarrow> rs_future s = Some f \<Longrightarrow>
    notified_drop (sg_notify (rs_signals s)) f = Some (n, ws) \<Longrightarrow>
    ready_step s (s\<lparr>rs_signals := (rs_signals s)\<lparr>sg_notify := n\<rparr>, rs_future := None, rs_phase := Idle\<rparr>)"

definition ready_start :: "rsys \<Rightarrow> bool" where
  "ready_start s \<longleftrightarrow> s = \<lparr>rs_signals = signals_new, rs_future = None, rs_phase = Idle, rs_notifying = 0, rs_log = []\<rparr>"

abbreviation ready_reach :: "rsys \<Rightarrow> bool" where
  "ready_reach \<equiv> reach ready_start ready_step"

text \<open>
  The reasons pending after a history, given that each result was exactly the union
  of the reasons posted since the one before; \<open>None\<close> when some result was not.
\<close>

fun replay :: "u64 \<Rightarrow> reason_event list \<Rightarrow> u64 option" where
  "replay acc [] = Some acc"
| "replay acc (Posted r # es) = replay (or acc r) es"
| "replay acc (Took w # es) = (if w = acc then replay 0 es else None)"

lemma replay_append: "replay acc (es @ fs) = Option.bind (replay acc es) (\<lambda>a. replay a fs)"
  by (induction acc es rule: replay.induct) auto

section \<open>The invariant\<close>

definition futures_of :: "notified option \<Rightarrow> nat \<Rightarrow> notified option" where
  "futures_of fo = (\<lambda>i. if i = 0 then fo else None)"

lemma futures_of_simps [simp]:
  "futures_of None = (\<lambda>_. None)" "futures_of (Some f) = [0 \<mapsto> f]" "futures_of fo 0 = fo"
  "(futures_of fo)(0 := x) = futures_of x" "finite (dom (futures_of fo))"
proof -
  have "dom (futures_of fo) \<subseteq> {0}" by (auto simp: futures_of_def split: if_splits)
  then show "finite (dom (futures_of fo))" using finite_subset by blast
qed (auto simp: futures_of_def)

abbreviation r_core :: "signals \<Rightarrow> notified option \<Rightarrow> bool" where
  "r_core sg fo \<equiv> ncore (sg_notify sg) (futures_of fo)"

abbreviation r_flying :: "signals \<Rightarrow> notified option \<Rightarrow> nat" where
  "r_flying sg fo \<equiv> in_flight (sg_notify sg) (futures_of fo)"

definition ready_inv :: "rsys \<Rightarrow> bool" where
  "ready_inv s \<longleftrightarrow>
     r_core (rs_signals s) (rs_future s) \<and> (rs_future s = None \<longleftrightarrow> rs_phase s = Idle) \<and>
     replay 0 (rs_log s) = Some (sg_reasons (rs_signals s)) \<and>
     (rs_phase s = Awaiting \<longrightarrow> sg_reasons (rs_signals s) \<noteq> 0 \<longrightarrow>
        0 < rs_notifying s \<or> 0 < r_flying (rs_signals s) (rs_future s))"

lemma retain_reasons_effect:
  assumes "retain_reasons sg r = (sg', first)"
  shows "sg_notify sg' = sg_notify sg" "sg_reasons sg' = or (sg_reasons sg) r"
    "sg_reasons sg' \<noteq> 0 \<Longrightarrow> sg_reasons sg \<noteq> 0 \<or> first"
  using assms by (auto simp: retain_reasons_def split: if_splits)

lemma notify_one_flying:
  assumes core: "ncore n fs" and "finite (dom fs)" and one: "notify_one n = Some (n', ws)"
  shows "ncore n' fs" "0 < in_flight n' fs"
proof -
  obtain wk where g: "notify_grant_one n = Some (n', wk)"
    using one by (auto simp: notify_one_def bind_eq_Some_conv)
  show "ncore n' fs" using notify_grant_one_effect(1) [OF core g] .
  show "0 < in_flight n' fs"
    using notify_grant_one_effect(2) [OF core g] finite_holders [OF assms(2)]
    by (auto simp: in_flight_def card_gt_0_iff)
qed

lemma poll_not_ready:
  assumes core: "ncore n fs" and "finite (dom fs)" and f: "fs i = Some f" and r: "ready_part n f wk (n', f', r)"
  shows "ncore n' (fs(i \<mapsto> f'))" "in_flight n' (fs(i \<mapsto> f')) = in_flight n fs"
  using ready_part_effect(1) [OF core f r] in_flight_ready [OF core assms(2) f r] .

text \<open>A single future is ready at its next poll when a notification is in flight.\<close>

lemma single_future_ready:
  assumes core: "ncore n (futures_of (Some f))" and fl: "0 < in_flight n (futures_of (Some f))"
  shows "\<exists>n' f'. notified_poll n f wk = Some (n', f', Ready ())"
proof -
  have f: "futures_of (Some f) 0 = Some f" by simp
  obtain n' f' r where r: "ready_or_register n f (Some wk) = Some (n', f', r)"
    using ready_or_register_no_panic [OF core f, of "Some wk"] by auto
  then have part: "ready_part n f (Some wk) (n', f', r)"
    by (simp add: ready_part_def)
  from core f part have "r"
  proof (cases rule: ready_part_cases)
    case (register q' t' x)
    have "\<not> f_reserved_one f"
      using ncoreD(4) [OF core f] register(1) by (auto simp: future_ok_def)
    then have "\<not> holds n f"
      using register(4) wq.queue_iff [OF ncoreD(2) [OF core]] by (fastforce simp: holds_def)
    then have "holders n (futures_of (Some f)) = {}"
      by (auto simp: holders_def futures_of_def)
    then show ?thesis using fl register(2) by (simp add: in_flight_def)
  qed
  with r show ?thesis by (simp add: notified_poll_def notified_deliver_def)
qed

text \<open>The source as a system of \<open>Notify\<close>, to use its preservation lemma.\<close>

definition view :: "notify \<Rightarrow> notified option \<Rightarrow> nsys" where
  "view n fo = \<lparr>ns_notify = n, ns_futures = futures_of fo, ns_sent = in_flight n (futures_of fo), ns_delivered = 0\<rparr>"

lemma view_core:
  assumes "ncore n (futures_of fo)" "notify_step (view n fo) t"
  shows "ncore (ns_notify t) (ns_futures t)"
    "0 < in_flight n (futures_of fo) \<Longrightarrow> ns_delivered t = 0 \<Longrightarrow> 0 < in_flight (ns_notify t) (ns_futures t)"
proof -
  have "notify_inv (view n fo)"
    using assms(1) by (simp add: notify_inv_def view_def)
  from notify_step_preserves [OF assms(2) this]
  show "ncore (ns_notify t) (ns_futures t)"
    "0 < in_flight n (futures_of fo) \<Longrightarrow> ns_delivered t = 0 \<Longrightarrow> 0 < in_flight (ns_notify t) (ns_futures t)"
    by (auto simp: notify_inv_def view_def)
qed

lemma create_core: "ncore n (futures_of None) \<Longrightarrow> ncore n (futures_of (Some (notify_notified n)))"
  using view_core(1) [OF _ notify_step.create [of "view n None" 0]] by (simp add: view_def)

lemma poll_core:
  assumes "ncore n (futures_of (Some f))" "ready_part n f (Some wk) (n', f', r)"
  shows "ncore n' (futures_of (Some (fst (notified_deliver (f', r)))))"
    "0 < in_flight n (futures_of (Some f)) \<Longrightarrow> \<not> r \<Longrightarrow>
      0 < in_flight n' (futures_of (Some (fst (notified_deliver (f', r)))))"
  using view_core [OF assms(1) notify_step.poll [of "view n (Some f)" 0 f wk n' f' r]] assms(2)
  by (simp_all add: view_def)

lemma enable_core:
  assumes "ncore n (futures_of (Some f))" "ready_part n f None (n', f', r)"
  shows "ncore n' (futures_of (Some f'))"
  using view_core(1) [OF assms(1) notify_step.enable [of "view n (Some f)" 0 f n' f' r]] assms(2)
  by (simp add: view_def)

lemma drop_core:
  assumes "ncore n (futures_of (Some f))" "notified_drop n f = Some (n', ws)"
  shows "ncore n' (\<lambda>_. None)"
  using view_core(1) [OF assms(1) notify_step.drop [of "view n (Some f)" 0 f n' ws]] assms(2)
  by (simp add: view_def)

lemma ready_step_inv: "ready_inv s \<Longrightarrow> ready_step s t \<Longrightarrow> ready_inv t"
proof (rotate_tac, induction rule: ready_step.induct)
  case (post s r sg first)
  note eff = retain_reasons_effect [OF post(1)]
  show ?case
    using post(2) eff by (auto simp: ready_inv_def replay_append)
next
  case (notify s sg ws)
  then obtain n where "notify_one (sg_notify (rs_signals s)) = Some (n, ws)" "sg = (rs_signals s)\<lparr>sg_notify := n\<rparr>"
    by (auto simp: signals_notify_def bind_eq_Some_conv)
  then show ?case
    using notify(3) notify_one_flying [of "sg_notify (rs_signals s)" "futures_of (rs_future s)" n ws]
    by (simp add: ready_inv_def)
next
  case (create s)
  then show ?case
    using create_core [of "sg_notify (rs_signals s)"] by (auto simp: ready_inv_def)
next
  case (enable s f n f' r)
  then show ?case
    using enable_core [of "sg_notify (rs_signals s)" f n f' r] by (simp add: ready_inv_def)
next
  case (swap s sg w)
  then show ?case
    by (auto simp: ready_inv_def take_reasons_def replay_append)
next
  case (poll s f wk n f' r)
  then show ?case
    using poll_core [of "sg_notify (rs_signals s)" f wk n f' r] by (cases r) (auto simp: ready_inv_def)
next
  case (drop s f n ws)
  then show ?case
    using drop_core [of "sg_notify (rs_signals s)" f n ws] by (simp add: ready_inv_def)
qed

interpretation ready_source: invariant_system ready_start ready_step ready_inv
proof unfold_locales
  fix s
  assume "ready_start s"
  then show "ready_inv s"
    by (simp add: ready_start_def ready_inv_def signals_new_def ncore_def notify_new_def owned_new)
qed (rule ready_step_inv)

section \<open>Properties\<close>

text \<open>
  C16: No wake reason is lost. In every interleaving of producers with the consumer,
  each result of \<open>wait\<close> is exactly the union of the reasons posted since the result
  before, the posted reasons not yet returned are in the word, and a consumer that
  awaits while reasons are pending is ready at its next poll, or a producer is about
  to notify it.
\<close>

theorem readiness_no_lost_reason:
  assumes "ready_reach s"
  shows "replay 0 (rs_log s) = Some (sg_reasons (rs_signals s)) \<and>
    (\<forall>f. rs_phase s = Awaiting \<longrightarrow> rs_future s = Some f \<longrightarrow> sg_reasons (rs_signals s) \<noteq> 0 \<longrightarrow> rs_notifying s = 0 \<longrightarrow>
       (\<exists>n' f'. notified_poll (sg_notify (rs_signals s)) f wk = Some (n', f', Ready ())))"
proof -
  have inv: "ready_inv s"
    using ready_source.reach_inv [OF assms] .
  then show ?thesis
    using single_future_ready [of "sg_notify (rs_signals s)" _ wk] by (auto simp: ready_inv_def)
qed

text \<open>
  The rounding of a deadline to a quantum: the result is the least multiple of
  the quantum that is not before the deadline, and the call fails exactly when that
  multiple is not below \<open>u64::MAX\<close>, the value reserved for an unarmed deadline.
\<close>

theorem coarse_deadline_rounds_up:
  assumes "quantum \<noteq> 0"
  shows "coarse_deadline deadline quantum =
      (if round_up (unat deadline) (unat quantum) < 2 ^ 64 - 1
       then Inr (of_nat (round_up (unat deadline) (unat quantum))) else Inl DeadlineOverflow) \<and>
    unat quantum dvd round_up (unat deadline) (unat quantum) \<and>
    unat deadline \<le> round_up (unat deadline) (unat quantum) \<and>
    (\<forall>m. unat quantum dvd m \<and> unat deadline \<le> m \<longrightarrow> round_up (unat deadline) (unat quantum) \<le> m)"
proof -
  have q: "0 < unat quantum"
    using assms by (simp add: unat_gt_0)
  let ?r = "deadline mod quantum" and ?R = "round_up (unat deadline) (unat quantum)"
  let ?e = "if ?r = 0 then 0 else quantum - ?r"
  have mod: "unat ?r = unat deadline mod unat quantum"
    by (simp add: unat_mod)
  have "?r = 0 \<longleftrightarrow> unat deadline mod unat quantum = 0"
    using mod by (metis unsigned_0 unsigned_word_eqI)
  moreover have "unat (quantum - ?r) = unat quantum - unat ?r"
    using q mod by (intro unat_sub) (simp add: word_le_nat_alt less_imp_le)
  ultimately have R: "?R = unat deadline + unat ?e"
    using mod by (auto simp: round_up_def)
  have max: "unat u64_max = 2 ^ 64 - 1"
    by (simp add: u64_max_def unsigned_minus_1_eq_mask mask_eq_exp_minus_1)
  have "coarse_deadline deadline quantum = (if ?R < 2 ^ 64 - 1 then Inr (of_nat ?R) else Inl DeadlineOverflow)"
  proof (cases "?R < 2 ^ 64")
    case True
    then have add: "u64_checked_add deadline ?e = Some (deadline + ?e)"
      using R by (simp add: u64_checked_add_def)
    then have u: "unat (deadline + ?e) = ?R"
      using R u64_checked_add_Some [of deadline ?e] by simp
    then have "deadline + ?e = of_nat ?R"
      using word_arith_nat_add [of deadline ?e] by (simp only: R)
    moreover have "deadline + ?e = u64_max \<longleftrightarrow> ?R = 2 ^ 64 - 1"
      using u max by (metis unsigned_word_eqI)
    ultimately show ?thesis
      using add True by (auto simp: coarse_deadline_def Let_def)
  next
    case False
    then have "u64_checked_add deadline ?e = None"
      using R by (simp add: u64_checked_add_def)
    then show ?thesis using False by (simp add: coarse_deadline_def Let_def)
  qed
  then show ?thesis
    using round_up_least(1,2) [OF q, of "unat deadline"] round_up_least(4) [OF q] by blast
qed

theorem coarse_deadline_rounds_up_witness:
  "coarse_deadline 1001 250 = Inr 1250 \<and> coarse_deadline 1000 250 = Inr 1000 \<and>
   coarse_deadline (2 ^ 64 - 2) 4 = Inl DeadlineOverflow"
  using coarse_deadline_rounds_up [of 250 1001] coarse_deadline_rounds_up [of 250 1000]
    coarse_deadline_rounds_up [of 4 "2 ^ 64 - 2"]
  by (simp add: round_up_def)

text \<open>
  A run in which reasons 1 and 4 arrive while the consumer is between its exchange
  and its first poll.
\<close>

definition demo_future :: notified where
  "demo_future = \<lparr>f_generation = 0, f_registration = Some 0, f_done = False, f_reserved_one = False\<rparr>"

definition demo_queue :: wait_queue where
  "demo_queue = fst (the (wq_register wq_new None None))"

definition demo_ready :: "u64 \<Rightarrow> wait_phase \<Rightarrow> nat \<Rightarrow> reason_event list \<Rightarrow> rsys" where
  "demo_ready r p k l = \<lparr>rs_signals = \<lparr>sg_reasons = r, sg_notify = notify_new\<lparr>n_waiters := demo_queue\<rparr>\<rparr>,
     rs_future = Some demo_future, rs_phase = p, rs_notifying = k, rs_log = l\<rparr>"

lemma demo_enable:
  "ready_part notify_new (notify_notified notify_new) None (notify_new\<lparr>n_waiters := demo_queue\<rparr>, demo_future, False)"
  unfolding ready_part_def by (rule disjI1) code_simp

definition demo_granted :: notify where
  "demo_granted = fst (the (notify_one (notify_new\<lparr>n_waiters := demo_queue\<rparr>)))"

lemma demo_grant: "notify_one (notify_new\<lparr>n_waiters := demo_queue\<rparr>) = Some (demo_granted, [])"
  by code_simp

lemma demo_ready_reach:
  "ready_reach ((demo_ready 5 Awaiting 0 [Posted 1, Posted 4])
     \<lparr>rs_signals := \<lparr>sg_reasons = 5, sg_notify = demo_granted\<rparr>\<rparr>)"
proof -
  let ?s0 = "\<lparr>rs_signals = signals_new, rs_future = None, rs_phase = Idle, rs_notifying = 0, rs_log = []\<rparr>"
  let ?s1 = "?s0\<lparr>rs_future := Some (notify_notified notify_new), rs_phase := Created\<rparr>"
  note go = reach.reach_step [where init = ready_start and step = ready_step]
  have "ready_reach ?s0"
    by (rule reach.reach_init) (simp add: ready_start_def)
  then have "ready_reach ?s1"
    by (rule go) (use ready_step.create [of ?s0] in \<open>simp add: signals_new_def\<close>)
  then have "ready_reach (demo_ready 0 Enabled 0 [])"
    by (rule go) (use ready_step.enable [of ?s1 "notify_notified notify_new" "notify_new\<lparr>n_waiters := demo_queue\<rparr>" demo_future False]
        demo_enable in \<open>simp add: signals_new_def demo_ready_def\<close>)
  then have "ready_reach (demo_ready 0 Awaiting 0 [])"
    by (rule go) (use ready_step.swap [of "demo_ready 0 Enabled 0 []"] in \<open>simp add: take_reasons_def demo_ready_def\<close>)
  then have "ready_reach (demo_ready 1 Awaiting 1 [Posted 1])"
    by (rule go) (use ready_step.post [of "demo_ready 0 Awaiting 0 []" 1 _ True] in \<open>simp add: retain_reasons_def demo_ready_def\<close>)
  then have "ready_reach (demo_ready 5 Awaiting 1 [Posted 1, Posted 4])"
    by (rule go) (use ready_step.post [of "demo_ready 1 Awaiting 1 [Posted 1]" 4 _ False] in
        \<open>simp add: retain_reasons_def demo_ready_def\<close>)
  then show ?thesis
    by (rule go) (use ready_step.notify [of "demo_ready 5 Awaiting 1 [Posted 1, Posted 4]"] demo_grant in
        \<open>simp add: signals_notify_def demo_ready_def\<close>)
qed

theorem readiness_no_lost_reason_witness:
  "replay 0 [Posted 1, Posted 4] = Some 5 \<and> (\<exists>n f. notified_poll demo_granted demo_future 9 = Some (n, f, Ready ()))"
  using readiness_no_lost_reason [OF demo_ready_reach, of 9] by (simp add: demo_ready_def)

end
