(* ===== verification/BlockOn.thy ===== *)
theory BlockOn
  imports Prelude
begin

text \<open>
  Driving one future on the calling thread (\<open>src/src/block_on.rs\<close>). What a thread
  or a host promises about parking is a locale; the two loops, \<open>block_on\<close> with its
  \<open>Signal\<close> and \<open>block_on_with_host\<close>, are step relations over it, in which wakes come
  from any thread at any time. A wake that arrives during or after a poll leads to
  another poll, and polls are paid for by wakes.
\<close>

section \<open>Parking\<close>

text \<open>
  A park slot: \<open>unpark\<close> leaves a state in which \<open>park\<close> returns, also when it was
  called before \<open>park\<close>. A call of \<open>park\<close> may return spuriously as well.
\<close>

locale park_slot =
  fixes unpark :: "'h \<Rightarrow> 'h"
    and returns :: "'h \<Rightarrow> bool"
  assumes unpark_returns: "returns (unpark h)"

text \<open>The token of \<open>std::thread\<close>: set by \<open>unpark\<close>, taken by the return of \<open>park\<close>.\<close>

record thread =
  th_token :: bool

definition thread_unpark :: "thread \<Rightarrow> thread" where
  "thread_unpark t = t\<lparr>th_token := True\<rparr>"

definition thread_parked :: "thread \<Rightarrow> thread" where
  "thread_parked t = t\<lparr>th_token := False\<rparr>"

section \<open>\<open>Signal\<close> and \<open>block_on\<close>\<close>

record 'h signal =
  sig_woken :: bool
  sig_thread :: 'h

definition signal_new :: "'h \<Rightarrow> 'h signal" where
  "signal_new thread = \<lparr>sig_woken = False, sig_thread = thread\<rparr>"

text \<open>The two actions of \<open>Signal::wake\<close>, and the exchange that \<open>Signal::wait\<close> repeats.\<close>

definition signal_store :: "'h signal \<Rightarrow> 'h signal" where
  "signal_store g = g\<lparr>sig_woken := True\<rparr>"

definition signal_unpark :: "('h \<Rightarrow> 'h) \<Rightarrow> 'h signal \<Rightarrow> 'h signal" where
  "signal_unpark unpark g = g\<lparr>sig_thread := unpark (sig_thread g)\<rparr>"

definition signal_swap :: "'h signal \<Rightarrow> 'h signal \<times> bool" where
  "signal_swap g = (g\<lparr>sig_woken := False\<rparr>, sig_woken g)"

text \<open>
  The loop of \<open>block_on\<close>: polling the future, testing the signal in \<open>wait\<close>, parked,
  or returned. \<open>bl_waking\<close> counts the wakers between their two actions, \<open>bl_unseen\<close>
  tells whether one has stored its wake since the current poll began, \<open>bl_polls\<close> and
  \<open>bl_wakes\<close> count polls and wakes.
\<close>

datatype block_phase = Polling | Testing | Parked | Finished

record 'h blocked =
  bl_signal :: "'h signal"
  bl_phase :: block_phase
  bl_waking :: nat
  bl_unseen :: bool
  bl_polls :: nat
  bl_wakes :: nat

inductive block_step :: "('h \<Rightarrow> 'h) \<Rightarrow> ('h \<Rightarrow> 'h) \<Rightarrow> 'h blocked \<Rightarrow> 'h blocked \<Rightarrow> bool"
  for unpark :: "'h \<Rightarrow> 'h" and parked :: "'h \<Rightarrow> 'h" where
  ready: "bl_phase s = Polling \<Longrightarrow> block_step unpark parked s (s\<lparr>bl_phase := Finished\<rparr>)"
| pending: "bl_phase s = Polling \<Longrightarrow> block_step unpark parked s (s\<lparr>bl_phase := Testing\<rparr>)"
| woken: "bl_phase s = Testing \<Longrightarrow> signal_swap (bl_signal s) = (g, True) \<Longrightarrow>
    block_step unpark parked s (s\<lparr>bl_signal := g, bl_phase := Polling, bl_unseen := False, bl_polls := Suc (bl_polls s)\<rparr>)"
| park: "bl_phase s = Testing \<Longrightarrow> signal_swap (bl_signal s) = (g, False) \<Longrightarrow>
    block_step unpark parked s (s\<lparr>bl_signal := g, bl_phase := Parked\<rparr>)"
| unparked: "bl_phase s = Parked \<Longrightarrow>
    block_step unpark parked s
      (s\<lparr>bl_signal := (bl_signal s)\<lparr>sig_thread := parked (sig_thread (bl_signal s))\<rparr>, bl_phase := Testing\<rparr>)"
| store: "block_step unpark parked s
    (s\<lparr>bl_signal := signal_store (bl_signal s), bl_waking := Suc (bl_waking s), bl_unseen := True,
       bl_wakes := Suc (bl_wakes s)\<rparr>)"
| unpark: "0 < bl_waking s \<Longrightarrow> block_step unpark parked s
    (s\<lparr>bl_signal := signal_unpark unpark (bl_signal s), bl_waking := bl_waking s - 1\<rparr>)"

definition block_start :: "'h blocked \<Rightarrow> bool" where
  "block_start s \<longleftrightarrow> (\<exists>thread. s = \<lparr>bl_signal = signal_new thread, bl_phase = Polling, bl_waking = 0,
     bl_unseen = False, bl_polls = 1, bl_wakes = 0\<rparr>)"

definition block_inv :: "('h \<Rightarrow> bool) \<Rightarrow> 'h blocked \<Rightarrow> bool" where
  "block_inv returns s \<longleftrightarrow>
     bl_unseen s = sig_woken (bl_signal s) \<and>
     bl_polls s + (if sig_woken (bl_signal s) then 1 else 0) \<le> Suc (bl_wakes s) \<and>
     (bl_phase s = Parked \<longrightarrow> sig_woken (bl_signal s) \<longrightarrow> 0 < bl_waking s \<or> returns (sig_thread (bl_signal s)))"

section \<open>\<open>block_on_with_host\<close>\<close>

text \<open>A wake is the host's \<open>unpark\<close> alone, and the loop parks after every pending poll.\<close>

record 'h hosted =
  ho_slot :: 'h
  ho_phase :: block_phase
  ho_unseen :: bool

inductive host_step :: "('h \<Rightarrow> 'h) \<Rightarrow> ('h \<Rightarrow> 'h) \<Rightarrow> 'h hosted \<Rightarrow> 'h hosted \<Rightarrow> bool"
  for unpark :: "'h \<Rightarrow> 'h" and parked :: "'h \<Rightarrow> 'h" where
  host_ready: "ho_phase s = Polling \<Longrightarrow> host_step unpark parked s (s\<lparr>ho_phase := Finished\<rparr>)"
| host_pending: "ho_phase s = Polling \<Longrightarrow> host_step unpark parked s (s\<lparr>ho_phase := Parked\<rparr>)"
| host_unparked: "ho_phase s = Parked \<Longrightarrow>
    host_step unpark parked s (s\<lparr>ho_slot := parked (ho_slot s), ho_phase := Polling, ho_unseen := False\<rparr>)"
| host_wake: "host_step unpark parked s (s\<lparr>ho_slot := unpark (ho_slot s), ho_unseen := True\<rparr>)"

definition host_start :: "'h hosted \<Rightarrow> bool" where
  "host_start s \<longleftrightarrow> (\<exists>slot. s = \<lparr>ho_slot = slot, ho_phase = Polling, ho_unseen = False\<rparr>)"

definition host_inv :: "('h \<Rightarrow> bool) \<Rightarrow> 'h hosted \<Rightarrow> bool" where
  "host_inv returns s \<longleftrightarrow> (ho_unseen s \<longrightarrow> returns (ho_slot s))"

section \<open>Both loops on any park slot\<close>

context park_slot
begin

lemma block_step_inv: "block_inv returns s \<Longrightarrow> block_step unpark parked s t \<Longrightarrow> block_inv returns t"
  by (rotate_tac, induction rule: block_step.induct)
    (auto simp: block_inv_def signal_swap_def signal_store_def signal_unpark_def unpark_returns split: if_splits)

sublocale blocks: invariant_system block_start "block_step unpark parked" "block_inv returns" for parked
proof unfold_locales
  show "block_inv returns s" if "block_start s" for s
    using that by (auto simp: block_start_def block_inv_def signal_new_def)
qed (rule block_step_inv)

lemma host_step_inv: "host_inv returns s \<Longrightarrow> host_step unpark parked s t \<Longrightarrow> host_inv returns t"
  by (rotate_tac, induction rule: host_step.induct) (auto simp: host_inv_def unpark_returns)

sublocale hosts: invariant_system host_start "host_step unpark parked" "host_inv returns" for parked
proof unfold_locales
  show "host_inv returns s" if "host_start s" for s
    using that by (auto simp: host_start_def host_inv_def)
qed (rule host_step_inv)

lemma parked_returns:
  assumes "reach block_start (block_step unpark parked) s" "bl_phase s = Parked" "bl_unseen s" "bl_waking s = 0"
  shows "returns (sig_thread (bl_signal s))"
  using blocks.reach_inv [OF assms(1)] assms(2-) by (simp add: block_inv_def)

end

interpretation std_thread: park_slot thread_unpark th_token
  by unfold_locales (simp add: thread_unpark_def)

section \<open>Properties\<close>

text \<open>
  \<open>block_on\<close> misses no wake and does not spin. In every interleaving with any
  number of wakers, a thread that is parked although a wake was stored since its last
  poll began has its park token set, so that \<open>park\<close> returns, or some waker is about
  to set it; and there is at most one poll per wake, besides the first.
\<close>

theorem block_on_no_lost_wake:
  assumes "reach block_start (block_step thread_unpark thread_parked) s"
  shows "(bl_phase s = Parked \<and> bl_unseen s \<longrightarrow> 0 < bl_waking s \<or> th_token (sig_thread (bl_signal s))) \<and>
    bl_polls s \<le> Suc (bl_wakes s)"
  using std_thread.blocks.reach_inv [OF assms] by (auto simp: block_inv_def split: if_splits)

text \<open>
  \<open>block_on_with_host\<close> misses no wake, for every host that keeps an unpark permit
  delivered before \<open>park\<close>: a caller that is parked although a wake arrived since its
  last poll began is about to return from \<open>park\<close>.
\<close>

theorem block_on_host_no_lost_wake:
  assumes "\<And>h. returns (unpark h)" "reach host_start (host_step unpark parked) s" "ho_unseen s"
  shows "returns (ho_slot s)"
proof -
  have "park_slot unpark returns" by unfold_locales (rule assms(1))
  note step = park_slot.host_step_inv [OF this]
  from assms(2) have "host_inv returns s"
    by (induction rule: reach.induct) (auto simp: host_start_def host_inv_def intro: step [unfolded host_inv_def, rule_format])
  then show ?thesis using assms(3) by (simp add: host_inv_def)
qed

text \<open>A thread that parks while a waker is between its store and its unpark.\<close>

definition demo_blocked :: "bool \<Rightarrow> block_phase \<Rightarrow> nat \<Rightarrow> bool \<Rightarrow> nat \<Rightarrow> thread blocked" where
  "demo_blocked tok ph n un wakes = \<lparr>bl_signal = \<lparr>sig_woken = un, sig_thread = \<lparr>th_token = tok\<rparr>\<rparr>, bl_phase = ph,
     bl_waking = n, bl_unseen = un, bl_polls = 1, bl_wakes = wakes\<rparr>"

theorem block_on_no_lost_wake_witness:
  "bl_phase (demo_blocked True Parked 0 True 1) = Parked \<and> bl_unseen (demo_blocked True Parked 0 True 1) \<and>
   th_token (sig_thread (bl_signal (demo_blocked True Parked 0 True 1)))"
proof -
  note go = reach.reach_step [where init = block_start and step = "block_step thread_unpark thread_parked"]
  let ?R = "reach block_start (block_step thread_unpark thread_parked)"
  have "?R (demo_blocked False Polling 0 False 0)"
    by (rule reach.reach_init) (auto simp: block_start_def demo_blocked_def signal_new_def)
  then have "?R (demo_blocked False Testing 0 False 0)"
    by (rule go) (use block_step.pending [of "demo_blocked False Polling 0 False 0"] in \<open>simp add: demo_blocked_def\<close>)
  then have "?R (demo_blocked False Parked 0 False 0)"
    by (rule go) (use block_step.park [of "demo_blocked False Testing 0 False 0"] in
        \<open>simp add: demo_blocked_def signal_swap_def\<close>)
  then have "?R (demo_blocked False Parked 1 True 1)"
    by (rule go) (use block_step.store [of _ _ "demo_blocked False Parked 0 False 0"] in
        \<open>simp add: demo_blocked_def signal_store_def\<close>)
  then have r: "?R (demo_blocked True Parked 0 True 1)"
    by (rule go) (use block_step.unpark [of "demo_blocked False Parked 1 True 1" thread_unpark] in
        \<open>simp add: demo_blocked_def signal_unpark_def thread_unpark_def\<close>)
  show ?thesis
    using block_on_no_lost_wake [OF r] by (simp add: demo_blocked_def)
qed

theorem block_on_host_no_lost_wake_witness:
  "(\<forall>h. th_token (thread_unpark h)) \<and> th_token \<lparr>th_token = True\<rparr>"
proof -
  note go = reach.reach_step [where init = host_start and step = "host_step thread_unpark thread_parked"]
  let ?R = "reach host_start (host_step thread_unpark thread_parked)"
  let ?s = "\<lambda>tok ph un. \<lparr>ho_slot = \<lparr>th_token = tok\<rparr>, ho_phase = ph, ho_unseen = un\<rparr>"
  have "?R (?s False Polling False)"
    by (rule reach.reach_init) (auto simp: host_start_def)
  then have "?R (?s False Parked False)"
    by (rule go) (use host_step.host_pending [of "?s False Polling False"] in simp)
  then have r: "?R (?s True Parked True)"
    by (rule go) (use host_step.host_wake [of thread_unpark _ "?s False Parked False"] in \<open>simp add: thread_unpark_def\<close>)
  have u: "th_token (thread_unpark h)" for h
    by (simp add: thread_unpark_def)
  show ?thesis
    using block_on_host_no_lost_wake [of th_token, OF u r] u by simp
qed

end
