(* ===== verification/ParFor.thy ===== *)
theory ParFor
  imports Prelude "HOL-Library.Multiset"
begin

text \<open>
  Parallel loops (\<open>src/src/par.rs\<close>): the splitting of a range into pieces, the count
  of outstanding pieces, cancellation, panics of the body and the future that waits.
  The splitting loop is a total function. The whole loop is a step relation whose
  actions are the atomic operations of any number of pieces, of the polling task and
  of cancellation from outside; submission order and stealing by the pool are left
  open. The results: no index is run twice, all are run unless the loop was stopped,
  the loop completes when its last piece does, and the waiting task is woken.
\<close>

section \<open>Splitting a range\<close>

type_synonym range = "nat \<times> nat"

definition PIECES_PER_WORKER :: nat where
  "PIECES_PER_WORKER = 8"

definition default_leaf :: "nat \<Rightarrow> range \<Rightarrow> nat" where
  "default_leaf workers r = max 1 ((snd r - fst r) div (workers * PIECES_PER_WORKER))"

definition middle :: "range \<Rightarrow> nat" where
  "middle r = fst r + (snd r - fst r) div 2"

text \<open>
  The loop of \<open>work\<close>: the right halves in the order of their submission, and the
  range that is left to run.
\<close>

function split_loop :: "nat \<Rightarrow> range \<Rightarrow> range list \<times> range" where
  "split_loop leaf r =
     (if snd r - fst r > leaf
      then (case split_loop leaf (fst r, middle r) of (rights, l) \<Rightarrow> ((middle r, snd r) # rights, l))
      else ([], r))"
  by pat_completeness auto
termination
  by (relation "measure (\<lambda>(leaf, r). snd r - fst r)") (auto simp: middle_def)

declare split_loop.simps [simp del]

definition indices :: "range \<Rightarrow> nat multiset" where
  "indices r = mset_set {fst r..<snd r}"

lemma indices_split:
  "fst r \<le> m \<Longrightarrow> m \<le> snd r \<Longrightarrow> indices r = indices (fst r, m) + indices (m, snd r)"
  using mset_set_Union [of "{fst r..<m}" "{m..<snd r}"] by (simp add: indices_def ivl_disj_un)

lemma middle_bounds: "leaf < snd r - fst r \<Longrightarrow> fst r \<le> middle r \<and> middle r < snd r"
  by (auto simp: middle_def)

lemma split_loop_covers:
  "split_loop leaf r = (rights, l) \<Longrightarrow> indices r = indices l + sum_list (map indices rights) \<and> snd l - fst l \<le> leaf"
proof (induction leaf r arbitrary: rights l rule: split_loop.induct)
  case (1 leaf r)
  show ?case
  proof (cases "snd r - fst r > leaf")
    case True
    obtain rs l' where rec: "split_loop leaf (fst r, middle r) = (rs, l')"
      by (cases "split_loop leaf (fst r, middle r)")
    then have "rights = (middle r, snd r) # rs" "l = l'"
      using "1.prems" True by (auto simp: split_loop.simps [of leaf r])
    then show ?thesis
      using "1.IH" [OF True rec] indices_split [of r "middle r"] middle_bounds [OF True] by simp
  next
    case False
    then show ?thesis using "1.prems" by (auto simp: split_loop.simps [of leaf r])
  qed
qed

section \<open>The state of a loop\<close>

record shared =
  sh_outstanding :: nat
  sh_finished :: bool
  sh_waiter :: "waker option"
  sh_panic :: bool

definition shared_new :: shared where
  "shared_new = \<lparr>sh_outstanding = 1, sh_finished = False, sh_waiter = None, sh_panic = False\<rparr>"

text \<open>The three actions of \<open>retire\<close>, then \<open>park\<close>, \<open>record_panic\<close> and \<open>resume_panic\<close>.\<close>

definition retire_count :: "shared \<Rightarrow> shared \<times> bool" where
  "retire_count sh = (sh\<lparr>sh_outstanding := sh_outstanding sh - 1\<rparr>, sh_outstanding sh = 1)"

definition retire_finish :: "shared \<Rightarrow> shared" where
  "retire_finish sh = sh\<lparr>sh_finished := True\<rparr>"

definition retire_take :: "shared \<Rightarrow> shared \<times> waker list" where
  "retire_take sh = (sh\<lparr>sh_waiter := None\<rparr>, (case sh_waiter sh of None \<Rightarrow> [] | Some wk \<Rightarrow> [wk]))"

definition retire :: "shared \<Rightarrow> shared \<times> waker list" where
  "retire sh =
     (case retire_count sh of
        (sh, False) \<Rightarrow> (sh, [])
      | (sh, True) \<Rightarrow> retire_take (retire_finish sh))"

definition shared_park :: "shared \<Rightarrow> waker \<Rightarrow> shared" where
  "shared_park sh wk = sh\<lparr>sh_waiter := Some wk\<rparr>"

definition record_panic :: "shared \<Rightarrow> shared" where
  "record_panic sh = (if sh_panic sh then sh else sh\<lparr>sh_panic := True\<rparr>)"

definition resume_panic :: "shared \<Rightarrow> shared \<times> bool" where
  "resume_panic sh = (sh\<lparr>sh_panic := False\<rparr>, sh_panic sh)"

text \<open>
  A piece: submitted; in the splitting loop; its right half counted and not yet
  submitted; running its leaf from an index on; unwinding from a panic of the body,
  then with the loop cancelled and the panic to record; about to retire; and, for the
  last one, about to set the flag and then to wake the waiter.
\<close>

datatype piece =
    Queued range
  | Splitting range
  | Counted range
  | Running nat nat
  | Unwinding
  | Recording
  | Retiring
  | Finishing
  | Waking

text \<open>
  The polling task: never polled; at the first test of the flag, at the registration
  of its waker, at the second test; pending with a waker; or done, and whether it
  rethrew a panic.
\<close>

datatype par_poll = Fresh | Checking waker | Parking waker | Rechecking waker | Waiting waker | Complete bool

record loop_state =
  lo_range :: range
  lo_leaf :: nat
  lo_cancel :: bool
  lo_shared :: shared
  lo_pieces :: "nat \<Rightarrow> piece option"
  lo_poll :: par_poll
  lo_ran :: "nat list"
  lo_dropped :: bool
  lo_woken :: bool

definition par_for :: "nat \<Rightarrow> range \<Rightarrow> loop_state" where
  "par_for workers r = \<lparr>lo_range = r, lo_leaf = default_leaf workers r, lo_cancel = False, lo_shared = shared_new,
     lo_pieces = (\<lambda>_. None), lo_poll = Fresh, lo_ran = [], lo_dropped = False, lo_woken = False\<rparr>"

text \<open>\<open>ParFor::leaf\<close>, and the switch, which anybody may throw at any time (also \<open>drop\<close>).\<close>

definition with_leaf :: "nat \<Rightarrow> loop_state \<Rightarrow> loop_state" where
  "with_leaf items s = (if lo_poll s = Fresh then s\<lparr>lo_leaf := max 1 items\<rparr> else s)"

definition cancel_loop :: "loop_state \<Rightarrow> loop_state" where
  "cancel_loop s = s\<lparr>lo_cancel := True\<rparr>"

definition set_piece :: "nat \<Rightarrow> piece option \<Rightarrow> loop_state \<Rightarrow> loop_state" where
  "set_piece i p s = s\<lparr>lo_pieces := (lo_pieces s)(i := p)\<rparr>"

text \<open>The first poll: an empty or cancelled loop retires at once, any other is submitted.\<close>

definition first_poll :: "waker \<Rightarrow> nat \<Rightarrow> loop_state \<Rightarrow> loop_state" where
  "first_poll wk i s =
     (if snd (lo_range s) \<le> fst (lo_range s) \<or> lo_cancel s
      then s\<lparr>lo_shared := fst (retire (lo_shared s)), lo_poll := Complete False\<rparr>
      else set_piece i (Some (Queued (lo_range s))) (s\<lparr>lo_poll := Checking wk\<rparr>))"

definition test_finished :: "par_poll \<Rightarrow> loop_state \<Rightarrow> loop_state" where
  "test_finished otherwise s =
     (if sh_finished (lo_shared s)
      then (case resume_panic (lo_shared s) of (sh, rethrown) \<Rightarrow> s\<lparr>lo_shared := sh, lo_poll := Complete rethrown\<rparr>)
      else s\<lparr>lo_poll := otherwise\<rparr>)"

inductive par_step :: "loop_state \<Rightarrow> loop_state \<Rightarrow> bool" where
  first: "lo_poll s = Fresh \<Longrightarrow> par_step s (first_poll wk i s)"
| again: "lo_poll s = Waiting old \<Longrightarrow> par_step s (s\<lparr>lo_poll := Checking wk, lo_woken := False\<rparr>)"
| check: "lo_poll s = Checking wk \<Longrightarrow> par_step s (test_finished (Parking wk) s)"
| park: "lo_poll s = Parking wk \<Longrightarrow>
    par_step s (s\<lparr>lo_shared := shared_park (lo_shared s) wk, lo_poll := Rechecking wk\<rparr>)"
| recheck: "lo_poll s = Rechecking wk \<Longrightarrow> par_step s (test_finished (Waiting wk) s)"
| cancel: "par_step s (cancel_loop s)"
| start: "lo_pieces s i = Some (Queued r) \<Longrightarrow>
    par_step s (set_piece i (Some (if lo_cancel s then Retiring else Splitting r)) s)"
| no_pool: "lo_pieces s i = Some (Queued r) \<Longrightarrow> par_step s (set_piece i (Some Retiring) (cancel_loop s))"
| drop_unrun: "lo_pieces s i = Some (Queued r) \<Longrightarrow>
    par_step s (set_piece i (Some Retiring) (s\<lparr>lo_dropped := True\<rparr>))"
| count: "lo_pieces s i = Some (Splitting r) \<Longrightarrow> lo_leaf s < snd r - fst r \<Longrightarrow>
    par_step s (set_piece i (Some (Counted r))
      (s\<lparr>lo_shared := (lo_shared s)\<lparr>sh_outstanding := sh_outstanding (lo_shared s) + 1\<rparr>\<rparr>))"
| submit: "lo_pieces s i = Some (Counted r) \<Longrightarrow> lo_pieces s j = None \<Longrightarrow>
    par_step s (set_piece j (Some (Queued (middle r, snd r))) (set_piece i (Some (Splitting (fst r, middle r))) s))"
| leaf: "lo_pieces s i = Some (Splitting r) \<Longrightarrow> \<not> lo_leaf s < snd r - fst r \<Longrightarrow>
    par_step s (set_piece i (Some (Running (fst r) (snd r))) s)"
| body: "lo_pieces s i = Some (Running k e) \<Longrightarrow> k < e \<Longrightarrow>
    par_step s (set_piece i (Some (Running (Suc k) e)) (s\<lparr>lo_ran := lo_ran s @ [k]\<rparr>))"
| body_panic: "lo_pieces s i = Some (Running k e) \<Longrightarrow> k < e \<Longrightarrow> par_step s (set_piece i (Some Unwinding) s)"
| body_end: "lo_pieces s i = Some (Running k e) \<Longrightarrow> \<not> k < e \<Longrightarrow> par_step s (set_piece i (Some Retiring) s)"
| catch: "lo_pieces s i = Some Unwinding \<Longrightarrow> par_step s (set_piece i (Some Recording) (cancel_loop s))"
| record_it: "lo_pieces s i = Some Recording \<Longrightarrow>
    par_step s (set_piece i (Some Retiring) (s\<lparr>lo_shared := record_panic (lo_shared s)\<rparr>))"
| retire: "lo_pieces s i = Some Retiring \<Longrightarrow> retire_count (lo_shared s) = (sh, final) \<Longrightarrow>
    par_step s (set_piece i (if final then Some Finishing else None) (s\<lparr>lo_shared := sh\<rparr>))"
| finish: "lo_pieces s i = Some Finishing \<Longrightarrow>
    par_step s (set_piece i (Some Waking) (s\<lparr>lo_shared := retire_finish (lo_shared s)\<rparr>))"
| wake: "lo_pieces s i = Some Waking \<Longrightarrow> retire_take (lo_shared s) = (sh, ws) \<Longrightarrow>
    par_step s (set_piece i None (s\<lparr>lo_shared := sh, lo_woken := (lo_woken s \<or> ws \<noteq> [])\<rparr>))"

text \<open>A loop as it is created, with a chosen leaf or the default.\<close>

definition par_start :: "range \<Rightarrow> loop_state \<Rightarrow> bool" where
  "par_start r s \<longleftrightarrow> (\<exists>workers. s = par_for workers r \<or> (\<exists>items. s = with_leaf items (par_for workers r)))"

abbreviation par_reach :: "range \<Rightarrow> loop_state \<Rightarrow> bool" where
  "par_reach r \<equiv> reach (par_start r) par_step"

section \<open>Accounting\<close>

text \<open>What a piece still counts for in \<open>outstanding\<close>, and the indices it still has to run.\<close>

fun counted :: "piece \<Rightarrow> nat" where
  "counted (Counted r) = 2"
| "counted Finishing = 0"
| "counted Waking = 0"
| "counted _ = 1"

fun remaining :: "piece \<Rightarrow> nat multiset" where
  "remaining (Queued r) = indices r"
| "remaining (Splitting r) = indices r"
| "remaining (Counted r) = indices r"
| "remaining (Running k e) = indices (k, e)"
| "remaining _ = {#}"

fun shape_ok :: "nat \<Rightarrow> piece \<Rightarrow> bool" where
  "shape_ok leaf (Counted r) \<longleftrightarrow> leaf < snd r - fst r"
| "shape_ok leaf _ \<longleftrightarrow> True"

text \<open>The loop was stopped on the way: cancelled, or a queued piece was dropped, or a body is unwinding.\<close>

definition stopped :: "loop_state \<Rightarrow> bool" where
  "stopped s \<longleftrightarrow> lo_cancel s \<or> lo_dropped s \<or> (\<exists>i. lo_pieces s i = Some Unwinding)"

text \<open>The count of a started loop, on its parts: the pieces, \<open>outstanding\<close> and \<open>finished\<close>.\<close>

definition count_core :: "nat \<Rightarrow> (nat \<Rightarrow> piece option) \<Rightarrow> nat \<Rightarrow> bool \<Rightarrow> bool" where
  "count_core leaf m n fin \<longleftrightarrow> finite (dom m) \<and> (\<forall>i p. m i = Some p \<longrightarrow> shape_ok leaf p) \<and>
     n = dom_sum counted m \<and>
     (\<forall>i. m i = Some Finishing \<longrightarrow> m = [i \<mapsto> Finishing] \<and> \<not> fin) \<and>
     (\<forall>i. m i = Some Waking \<longrightarrow> m = [i \<mapsto> Waking] \<and> fin) \<and>
     (fin \<longrightarrow> n = 0) \<and> (m = Map.empty \<longrightarrow> fin)"

definition count_inv :: "loop_state \<Rightarrow> bool" where
  "count_inv s \<longleftrightarrow>
     (if lo_poll s = Fresh
      then lo_pieces s = Map.empty \<and> sh_outstanding (lo_shared s) = 1 \<and> \<not> sh_finished (lo_shared s)
      else count_core (lo_leaf s) (lo_pieces s) (sh_outstanding (lo_shared s)) (sh_finished (lo_shared s)))"

text \<open>All indices that were run or that some piece still has to run.\<close>

definition accounted :: "loop_state \<Rightarrow> nat multiset" where
  "accounted s = mset (lo_ran s) + dom_sum remaining (lo_pieces s)"

definition index_inv :: "range \<Rightarrow> loop_state \<Rightarrow> bool" where
  "index_inv r s \<longleftrightarrow> lo_range s = r \<and> (lo_poll s = Fresh \<longrightarrow> lo_ran s = []) \<and>
     accounted s \<subseteq># indices r \<and> (lo_poll s = Fresh \<or> stopped s \<or> accounted s = indices r)"

definition waiter_inv :: "loop_state \<Rightarrow> bool" where
  "waiter_inv s \<longleftrightarrow>
     (\<forall>wk. lo_poll s = Waiting wk \<longrightarrow> lo_woken s \<or>
        sh_waiter (lo_shared s) = Some wk \<and>
        (sh_finished (lo_shared s) \<longrightarrow> (\<exists>i. lo_pieces s i = Some Waking))) \<and>
     (\<forall>wk. lo_poll s = Rechecking wk \<longrightarrow> sh_waiter (lo_shared s) = Some wk \<or> sh_finished (lo_shared s)) \<and>
     (\<forall>i. lo_pieces s i = Some Waking \<longrightarrow> sh_finished (lo_shared s))"

section \<open>The count\<close>

lemma counted_zero: "counted p = 0 \<longleftrightarrow> p = Finishing \<or> p = Waking"
  by (cases p) auto

lemma core_active:
  assumes "count_core leaf m n fin" "m i = Some p" "counted p \<noteq> 0"
  shows "counted p \<le> n" "\<not> fin" "m j \<noteq> Some Finishing" "m j \<noteq> Some Waking"
proof -
  show "counted p \<le> n"
    using dom_sum_member [of m i p counted] assms(1,2) by (simp add: count_core_def)
  then show "\<not> fin"
    using assms(1,3) by (auto simp: count_core_def)
  show "m j \<noteq> Some Finishing"
    using assms counted_zero [of p] by (auto simp: count_core_def split: if_splits)
  show "m j \<noteq> Some Waking"
    using assms counted_zero [of p] by (auto simp: count_core_def split: if_splits)
qed

lemma core_replace:
  assumes core: "count_core leaf m n fin" and i: "m i = Some p" "counted p \<noteq> 0"
    and q: "counted q \<noteq> 0" "shape_ok leaf q"
  shows "count_core leaf (m(i \<mapsto> q)) (n + counted q - counted p) fin"
proof -
  note act = core_active [OF core i]
  have "dom_sum counted (m(i \<mapsto> q)) = n + counted q - counted p"
    using dom_sum_update [of m counted i "Some q"] core i by (simp add: count_core_def)
  then show ?thesis
    using core act i q counted_zero [of q] by (auto simp: count_core_def)
qed

lemma core_same:
  "count_core leaf m n fin \<Longrightarrow> m i = Some p \<Longrightarrow> counted p = 1 \<Longrightarrow> counted q = 1 \<Longrightarrow> shape_ok leaf q \<Longrightarrow>
    count_core leaf (m(i \<mapsto> q)) n fin"
  using core_replace [of leaf m n fin i p q] by simp

lemma core_add:
  assumes core: "count_core leaf m n fin" and i: "m i = Some p" "counted p \<noteq> 0" and j: "m j = None"
  shows "count_core leaf (m(j \<mapsto> Queued r)) (n + 1) fin"
proof -
  note act = core_active [OF core i]
  have "dom_sum counted (m(j \<mapsto> Queued r)) = n + 1"
    using dom_sum_update [of m counted j "Some (Queued r)"] core j by (simp add: count_core_def)
  then show ?thesis
    using core act by (auto simp: count_core_def)
qed

lemma core_retire:
  assumes core: "count_core leaf m n fin" and i: "m i = Some Retiring"
  shows "count_core leaf (m(i := (if n = 1 then Some Finishing else None))) (n - 1) fin"
proof -
  note act = core_active [OF core i, simplified]
  have sum: "dom_sum counted (m(i := None)) + 1 = n"
    using dom_sum_update [of m counted i None] core i by (simp add: count_core_def)
  have fin: "finite (dom m)"
    using core by (simp add: count_core_def)
  show ?thesis
  proof (cases "n = 1")
    case True
    have "(m(i := None)) k = None" for k
    proof (rule ccontr)
      assume "(m(i := None)) k \<noteq> None"
      then obtain p where k: "(m(i := None)) k = Some p" by auto
      then have "counted p \<le> 0"
        using dom_sum_member [of "m(i := None)" k p counted] fin sum True by simp
      then show False
        using act(3,4) [of k] k counted_zero [of p] by (auto split: if_splits)
    qed
    then have m: "m = [i \<mapsto> Retiring]"
      using i by (metis fun_upd_triv fun_upd_upd ext)
    show ?thesis
      unfolding count_core_def m using True act(2) by (simp add: dom_sum_def)
  next
    case False
    then have "m(i := None) \<noteq> Map.empty"
      using sum act(1) by (metis One_nat_def add_0 dom_sum_empty)
    then show ?thesis
      using False core act sum by (auto simp: count_core_def split: if_splits)
  qed
qed

lemma core_finish:
  assumes "count_core leaf m n fin" "m i = Some Finishing"
  shows "count_core leaf (m(i \<mapsto> Waking)) n True"
proof -
  have m: "m = [i \<mapsto> Finishing]" and n: "n = dom_sum counted m" and fin: "\<not> fin"
    using assms by (auto simp: count_core_def)
  show ?thesis unfolding count_core_def n unfolding m using fin by (simp add: dom_sum_def)
qed

lemma core_wake:
  assumes "count_core leaf m n fin" "m i = Some Waking"
  shows "count_core leaf (m(i := None)) n fin"
proof -
  have m: "m = [i \<mapsto> Waking]" and n: "n = dom_sum counted m" and fin: "fin"
    using assms by (auto simp: count_core_def)
  show ?thesis unfolding count_core_def n unfolding m using fin by (simp add: dom_sum_def)
qed

lemma count_inv_piece:
  "count_inv s \<Longrightarrow> lo_pieces s i = Some p \<Longrightarrow>
    lo_poll s \<noteq> Fresh \<and> count_core (lo_leaf s) (lo_pieces s) (sh_outstanding (lo_shared s)) (sh_finished (lo_shared s))"
  by (auto simp: count_inv_def split: if_splits)

lemma count_inv_test: "count_inv s \<Longrightarrow> lo_poll s \<noteq> Fresh \<Longrightarrow> other \<noteq> Fresh \<Longrightarrow> count_inv (test_finished other s)"
  by (auto simp: count_inv_def test_finished_def resume_panic_def)

lemma count_inv_first:
  assumes "count_inv s" "lo_poll s = Fresh"
  shows "count_inv (first_poll wk i s)"
  using assms by (auto simp: count_inv_def first_poll_def set_piece_def retire_def retire_count_def retire_finish_def
      retire_take_def count_core_def dom_sum_def)

lemma par_step_count: "count_inv s \<Longrightarrow> par_step s t \<Longrightarrow> count_inv t"
proof (rotate_tac, induction rule: par_step.induct)
  case (first s wk i)
  then show ?case by (intro count_inv_first)
next
  case (check s wk)
  then show ?case by (intro count_inv_test) auto
next
  case (recheck s wk)
  then show ?case by (intro count_inv_test) auto
next
  case (submit s i r j)
  note core = count_inv_piece [OF submit(3,1)]
  have "count_core (lo_leaf s) ((lo_pieces s)(i \<mapsto> Splitting (fst r, middle r))) (sh_outstanding (lo_shared s) - 1)
      (sh_finished (lo_shared s))"
    using core_replace [OF conjunct2 [OF core] submit(1), of "Splitting (fst r, middle r)"] by simp
  from core_add [OF this, of i _ j "(middle r, snd r)"] submit core_active(1) [OF conjunct2 [OF core] submit(1)] core
  show ?case by (cases "i = j") (simp_all add: count_inv_def set_piece_def)
next
  case (retire s i sh final)
  note core = count_inv_piece [OF retire(3,1)]
  show ?case
    using core_retire [OF conjunct2 [OF core] retire(1)] retire(2) core
    by (auto simp: count_inv_def set_piece_def retire_count_def)
next
  case (finish s i)
  then show ?case
    using core_finish [OF conjunct2 [OF count_inv_piece [OF finish(2,1)]] finish(1)] count_inv_piece [OF finish(2,1)]
    by (simp add: count_inv_def set_piece_def retire_finish_def)
next
  case (wake s i sh ws)
  then show ?case
    using core_wake [OF conjunct2 [OF count_inv_piece [OF wake(3,1)]] wake(1)] count_inv_piece [OF wake(3,1)]
    by (auto simp: count_inv_def set_piece_def retire_take_def)
next
  case (count s i r)
  note core = count_inv_piece [OF count(3,1)]
  show ?case
    using core_replace [OF conjunct2 [OF core] count(1), of "Counted r"] count(2) core
    by (simp add: count_inv_def set_piece_def)
qed (auto simp: set_piece_def cancel_loop_def record_panic_def shared_park_def count_inv_def split: if_splits
      intro: core_same)

section \<open>The indices\<close>

lemma accounted_set_piece:
  assumes "finite (dom (lo_pieces s))"
  shows "accounted (set_piece i x s) + opt_weight remaining (lo_pieces s i) = accounted s + opt_weight remaining x"
  using dom_sum_update [OF assms, of remaining i x] by (simp add: accounted_def set_piece_def ac_simps)

lemma accounted_same:
  assumes "finite (dom (lo_pieces s))" "opt_weight remaining (lo_pieces s i) = opt_weight remaining x"
  shows "accounted (set_piece i x s) = accounted s"
  using accounted_set_piece [OF assms(1), of i x] assms(2) by simp

lemma accounted_less:
  assumes "finite (dom (lo_pieces s))" "opt_weight remaining x = {#}"
  shows "accounted (set_piece i x s) \<subseteq># accounted s"
  using accounted_set_piece [OF assms(1), of i x] assms(2) by (simp add: subset_mset.le_iff_add) metis

lemma stopped_set_piece:
  "stopped s \<Longrightarrow> lo_pieces s i \<noteq> Some Unwinding \<Longrightarrow> stopped (set_piece i x s)"
  by (auto simp: stopped_def set_piece_def)

text \<open>A step of a piece keeps what is accounted for, or gives some up with the loop stopped.\<close>

definition keeps :: "loop_state \<Rightarrow> loop_state \<Rightarrow> bool" where
  "keeps s t \<longleftrightarrow> lo_range t = lo_range s \<and> (lo_poll t = Fresh \<longleftrightarrow> lo_poll s = Fresh) \<and>
     (lo_poll s = Fresh \<longrightarrow> lo_ran t = lo_ran s) \<and>
     (accounted t = accounted s \<and> (stopped s \<longrightarrow> stopped t) \<or> accounted t \<subseteq># accounted s \<and> stopped t)"

lemma keeps_piece:
  assumes "count_inv s" "lo_pieces s i = Some p" "p \<noteq> Unwinding" "remaining p = opt_weight remaining x"
  shows "keeps s (set_piece i x s)"
proof -
  have "finite (dom (lo_pieces s))" "lo_poll s \<noteq> Fresh"
    using count_inv_piece [OF assms(1,2)] by (auto simp: count_core_def)
  then show ?thesis
    using accounted_same [of s i x] stopped_set_piece [of s i x] assms(2-)
    by (simp add: keeps_def) (simp add: set_piece_def)
qed

lemma keeps_stop:
  assumes "count_inv s" "lo_pieces s i = Some p" "opt_weight remaining x = {#}" "stopped (set_piece i x s)"
  shows "keeps s (set_piece i x s)"
proof -
  have "finite (dom (lo_pieces s))" "lo_poll s \<noteq> Fresh"
    using count_inv_piece [OF assms(1,2)] by (auto simp: count_core_def)
  then show ?thesis
    using accounted_less [of s x i] assms(3-) by (simp add: keeps_def) (simp add: set_piece_def)
qed

text \<open>Changes of the other fields.\<close>

lemma keeps_frame:
  assumes "keeps s t" "lo_range t' = lo_range t" "lo_poll t' = lo_poll t" "lo_ran t' = lo_ran t" "lo_pieces t' = lo_pieces t"
    "lo_cancel t \<longrightarrow> lo_cancel t'" "lo_dropped t \<longrightarrow> lo_dropped t'"
  shows "keeps s t'"
  using assms by (auto simp: keeps_def accounted_def stopped_def)

lemma index_inv_keeps: "index_inv r s \<Longrightarrow> keeps s t \<Longrightarrow> index_inv r t"
  by (auto simp: index_inv_def keeps_def dest: subset_mset.order_trans)

lemma set_piece_frame [simp]:
  "lo_range (set_piece i x s) = lo_range s" "lo_poll (set_piece i x s) = lo_poll s" "lo_ran (set_piece i x s) = lo_ran s"
  "lo_cancel (set_piece i x s) = lo_cancel s" "lo_dropped (set_piece i x s) = lo_dropped s"
  "lo_shared (set_piece i x s) = lo_shared s" "lo_woken (set_piece i x s) = lo_woken s" "lo_leaf (set_piece i x s) = lo_leaf s"
  "lo_pieces (set_piece i x s) = (lo_pieces s)(i := x)"
  by (simp_all add: set_piece_def)

lemma count_inv_other:
  assumes "count_inv s" "lo_pieces t = lo_pieces s" "lo_poll t = lo_poll s" "lo_leaf t = lo_leaf s"
    "sh_outstanding (lo_shared t) = sh_outstanding (lo_shared s)" "sh_finished (lo_shared t) = sh_finished (lo_shared s)"
  shows "count_inv t"
  using assms by (simp add: count_inv_def)

lemma accounted_submit:
  assumes "count_inv s" "lo_pieces s i = Some (Counted r)" "lo_pieces s j = None"
  shows "keeps s (set_piece j (Some (Queued (middle r, snd r))) (set_piece i (Some (Splitting (fst r, middle r))) s))"
proof -
  let ?s = "set_piece i (Some (Splitting (fst r, middle r))) s"
  let ?t = "set_piece j (Some (Queued (middle r, snd r))) ?s"
  have ne: "i \<noteq> j" using assms by auto
  have fin: "finite (dom (lo_pieces s))" "lo_poll s \<noteq> Fresh" and "shape_ok (lo_leaf s) (Counted r)"
    using count_inv_piece [OF assms(1,2)] assms(2) unfolding count_core_def by blast+
  then have sh: "lo_leaf s < snd r - fst r" by simp
  have "accounted ?s + indices r = accounted s + indices (fst r, middle r)"
    using accounted_set_piece [OF fin(1), of i "Some (Splitting (fst r, middle r))"] assms(2) by simp
  moreover have "accounted ?t = accounted ?s + indices (middle r, snd r)"
    using accounted_set_piece [of ?s j "Some (Queued (middle r, snd r))"] fin(1) assms(3) ne by simp
  moreover have "indices r = indices (fst r, middle r) + indices (middle r, snd r)"
    using indices_split [of r "middle r"] middle_bounds [OF sh] by simp
  ultimately have "accounted ?t = accounted s" by (simp add: ac_simps)
  moreover have "stopped s \<Longrightarrow> stopped ?t"
    using assms(2,3) by (intro stopped_set_piece) auto
  ultimately show ?thesis using fin(2) by (simp add: keeps_def)
qed

lemma accounted_body:
  assumes "count_inv s" "lo_pieces s i = Some (Running k e)" "k < e"
  shows "keeps s (set_piece i (Some (Running (Suc k) e)) (s\<lparr>lo_ran := lo_ran s @ [k]\<rparr>))"
proof -
  let ?u = "s\<lparr>lo_ran := lo_ran s @ [k]\<rparr>"
  let ?t = "set_piece i (Some (Running (Suc k) e)) ?u"
  have fin: "finite (dom (lo_pieces s))" "lo_poll s \<noteq> Fresh"
    using count_inv_piece [OF assms(1,2)] by (auto simp: count_core_def)
  have "{k..<e} = insert k {Suc k..<e}" using assms(3) by auto
  then have "indices (k, e) = add_mset k (indices (Suc k, e))"
    by (simp add: indices_def)
  moreover have "accounted ?u = add_mset k (accounted s)"
    by (simp add: accounted_def)
  ultimately have "accounted ?t = accounted s"
    using accounted_set_piece [of ?u i "Some (Running (Suc k) e)"] fin(1) assms(2) by simp
  moreover have "stopped s \<Longrightarrow> stopped ?t"
    using assms(2) by (intro stopped_set_piece) (auto simp: stopped_def)
  ultimately show ?thesis using fin(2) by (simp add: keeps_def)
qed

lemma index_inv_first:
  assumes "count_inv s" "index_inv r s" "lo_poll s = Fresh"
  shows "index_inv r (first_poll wk i s)"
proof -
  have s: "lo_pieces s = Map.empty" "lo_ran s = []" "lo_range s = r"
    using assms by (auto simp: count_inv_def index_inv_def)
  have "accounted (set_piece i (Some (Queued r)) t) = indices r" if "lo_pieces t = Map.empty" "lo_ran t = []" for t
    using accounted_set_piece [of t i "Some (Queued r)"] that by (simp add: accounted_def)
  moreover have "indices r = {#}" if "snd r \<le> fst r"
    using that by (simp add: indices_def)
  ultimately show ?thesis
    using s by (auto simp: index_inv_def first_poll_def accounted_def stopped_def)
qed

lemma par_step_keeps:
  assumes "count_inv s" "par_step s t"
  shows "lo_poll s = Fresh \<and> (\<exists>wk i. t = first_poll wk i s) \<or> keeps s t"
  using assms(2,1)
proof (induction rule: par_step.induct)
  case (start s i r)
  then show ?case
    using keeps_piece [of s i "Queued r" "Some (Splitting r)"] keeps_stop [of s i "Queued r" "Some Retiring"]
    by (auto simp: stopped_def)
next
  case (no_pool s i r)
  let ?t = "set_piece i (Some Retiring) (cancel_loop s)"
  have "keeps (cancel_loop s) ?t"
    using no_pool keeps_stop [of "cancel_loop s" i "Queued r" "Some Retiring"] count_inv_other [of s "cancel_loop s"]
    by (simp add: stopped_def cancel_loop_def)
  then show ?case by (simp add: keeps_def accounted_def stopped_def cancel_loop_def)
next
  case (drop_unrun s i r)
  let ?s = "s\<lparr>lo_dropped := True\<rparr>"
  have "keeps ?s (set_piece i (Some Retiring) ?s)"
    using drop_unrun keeps_stop [of ?s i "Queued r" "Some Retiring"] count_inv_other [of s ?s]
    by (simp add: stopped_def)
  then show ?case by (simp add: keeps_def accounted_def stopped_def)
next
  case (count s i r)
  then show ?case
    using keeps_frame [OF keeps_piece [of s i "Splitting r" "Some (Counted r)"]] by simp
next
  case (submit s i r j)
  then show ?case using accounted_submit by blast
next
  case (leaf s i r)
  then show ?case using keeps_piece [of s i "Splitting r" "Some (Running (fst r) (snd r))"] by simp
next
  case (body s i k e)
  then show ?case using accounted_body by blast
next
  case (body_panic s i k e)
  have "stopped (set_piece i (Some Unwinding) s)"
    by (auto simp: stopped_def)
  then show ?case
    using body_panic keeps_stop [of s i "Running k e" "Some Unwinding"] by simp
next
  case (body_end s i k e)
  then show ?case
    using keeps_piece [of s i "Running k e" "Some Retiring"] by (simp add: indices_def)
next
  case (catch s i)
  have "keeps s (set_piece i (Some Recording) (s\<lparr>lo_cancel := True\<rparr>))"
    using accounted_same [of s i "Some Recording"] count_inv_piece [OF catch(2,1)] catch(1)
    by (auto simp: keeps_def accounted_def stopped_def count_core_def)
  then show ?case by (simp add: cancel_loop_def)
next
  case (record_it s i)
  then show ?case
    using keeps_frame [OF keeps_piece [of s i Recording "Some Retiring"]] by simp
next
  case (retire s i sh final)
  then show ?case
    using keeps_frame [OF keeps_piece [of s i Retiring "if final then Some Finishing else None"]] by simp
next
  case (finish s i)
  then show ?case
    using keeps_frame [OF keeps_piece [of s i Finishing "Some Waking"]] by simp
next
  case (wake s i sh ws)
  then show ?case
    using keeps_frame [OF keeps_piece [of s i Waking None]] by simp
qed (auto simp: keeps_def accounted_def stopped_def test_finished_def resume_panic_def cancel_loop_def)

lemma par_step_index: "count_inv s \<Longrightarrow> index_inv r s \<Longrightarrow> par_step s t \<Longrightarrow> index_inv r t"
  using par_step_keeps [of s t] index_inv_first [of s r] index_inv_keeps [of r s t] by blast

section \<open>The waiter\<close>

lemma waiter_inv_piece:
  assumes "waiter_inv s" "lo_pieces s i \<noteq> Some Waking" "x \<noteq> Some Waking"
  shows "waiter_inv (set_piece i x s)"
proof -
  have "lo_pieces (set_piece i x s) k = Some Waking \<longleftrightarrow> lo_pieces s k = Some Waking" for k
    using assms(2,3) by auto
  then show ?thesis using assms(1) unfolding waiter_inv_def by simp
qed

lemma waiter_inv_frame:
  assumes "waiter_inv s" "lo_pieces t = lo_pieces s" "lo_poll t = lo_poll s" "lo_woken t = lo_woken s"
    "sh_waiter (lo_shared t) = sh_waiter (lo_shared s)" "sh_finished (lo_shared t) = sh_finished (lo_shared s)"
  shows "waiter_inv t"
  using assms by (simp add: waiter_inv_def)

lemma par_step_waiter: "count_inv s \<Longrightarrow> waiter_inv s \<Longrightarrow> par_step s t \<Longrightarrow> waiter_inv t"
proof (rotate_tac 2, induction rule: par_step.induct)
  case (first s wk i)
  then show ?case by (auto simp: waiter_inv_def count_inv_def first_poll_def)
next
  case (check s wk)
  then show ?case by (auto simp: waiter_inv_def test_finished_def resume_panic_def)
next
  case (recheck s wk)
  then show ?case by (auto simp: waiter_inv_def test_finished_def resume_panic_def)
next
  case (submit s i r j)
  then show ?case by (intro waiter_inv_piece) auto
next
  case (finish s i)
  then have "lo_pieces s = [i \<mapsto> Finishing]" "\<not> sh_finished (lo_shared s)"
    using count_inv_piece [OF finish(2,1)] by (auto simp: count_core_def)
  then show ?case
    using finish(3) by (auto simp: waiter_inv_def retire_finish_def)
next
  case (wake s i sh ws)
  then have "lo_pieces s = [i \<mapsto> Waking]" "sh_finished (lo_shared s)"
    using count_inv_piece [OF wake(3,1)] by (auto simp: count_core_def)
  then show ?case
    using wake(2,4) by (auto simp: waiter_inv_def retire_take_def split: option.splits)
next
  case (again s old wk)
  then show ?case by (auto simp: waiter_inv_def)
next
  case (park s wk)
  then show ?case by (auto simp: waiter_inv_def shared_park_def)
qed (auto simp: cancel_loop_def record_panic_def retire_count_def intro!: waiter_inv_piece elim!: waiter_inv_frame)

section \<open>Properties\<close>

interpretation loops: invariant_system "par_start r" par_step "\<lambda>s. count_inv s \<and> index_inv r s \<and> waiter_inv s" for r
proof unfold_locales
  fix s
  assume "par_start r s"
  then obtain w leaf where "s = (par_for w r)\<lparr>lo_leaf := leaf\<rparr>"
    by (auto simp: par_start_def with_leaf_def par_for_def)
  then show "count_inv s \<and> index_inv r s \<and> waiter_inv s"
    by (simp add: par_for_def count_inv_def index_inv_def waiter_inv_def shared_new_def accounted_def)
qed (blast intro: par_step_count par_step_index par_step_waiter)

text \<open>
  C17: In every interleaving of pieces, polls and cancellations, a parallel loop runs
  no index twice and none outside its range; and once it is finished no piece is
  left to run anything, and every index was run exactly once unless the loop was
  cancelled (a panic of the body cancels it) or the pool dropped a queued piece.
\<close>

theorem par_for_each_index_once:
  assumes "par_reach (a, b) s"
  shows "distinct (lo_ran s) \<and> set (lo_ran s) \<subseteq> {a..<b} \<and>
    (sh_finished (lo_shared s) \<longrightarrow>
       (\<forall>i p. lo_pieces s i = Some p \<longrightarrow> p = Waking) \<and>
       (lo_cancel s \<or> lo_dropped s \<or> set (lo_ran s) = {a..<b}))"
proof -
  have inv: "count_inv s" "index_inv (a, b) s"
    using loops.reach_inv [OF assms] by auto
  have "mset (lo_ran s) \<subseteq># accounted s" by (simp add: accounted_def)
  then have sub: "mset (lo_ran s) \<subseteq># mset_set {a..<b}"
    using inv(2) by (auto simp: index_inv_def indices_def dest: subset_mset.order_trans)
  have dist: "distinct (lo_ran s)"
    unfolding distinct_count_atmost_1
  proof
    fix x
    have "count (mset (lo_ran s)) x \<le> count (mset_set {a..<b}) x"
      using sub by (simp add: subseteq_mset_def)
    also have "\<dots> \<le> 1" by (cases "x \<in> {a..<b}") auto
    finally show "count (mset (lo_ran s)) x = (if x \<in> set (lo_ran s) then 1 else 0)"
      using count_greater_zero_iff [of "mset (lo_ran s)" x] count_mset_0_iff [of "lo_ran s" x]
      by (auto simp del: count_mset_0_iff count_greater_zero_iff)
  qed
  have "set (lo_ran s) \<subseteq> {a..<b}"
    using set_mset_mono [OF sub] by simp
  moreover have "(\<forall>i p. lo_pieces s i = Some p \<longrightarrow> p = Waking) \<and> (lo_cancel s \<or> lo_dropped s \<or> set (lo_ran s) = {a..<b})"
    if fin: "sh_finished (lo_shared s)"
  proof -
    have core: "lo_poll s \<noteq> Fresh" "count_core (lo_leaf s) (lo_pieces s) (sh_outstanding (lo_shared s)) True"
      using inv(1) fin by (auto simp: count_inv_def split: if_splits)
    have w: "p = Waking" if "lo_pieces s i = Some p" for i p
      using core_active(2) [OF core(2) that] that core(2) counted_zero [of p] by (auto simp: count_core_def)
    then have "dom_sum remaining (lo_pieces s) = 0"
      by (intro dom_sum_zero) (auto dest!: w)
    moreover have "stopped s \<longleftrightarrow> lo_cancel s \<or> lo_dropped s"
      using w by (auto simp: stopped_def)
    ultimately have "lo_cancel s \<or> lo_dropped s \<or> mset (lo_ran s) = mset_set {a..<b}"
      using inv(2) core(1) by (auto simp: index_inv_def accounted_def indices_def)
    then show ?thesis using w by (metis finite_atLeastLessThan finite_set_mset_mset_set set_mset_mset)
  qed
  ultimately show ?thesis using dist by blast
qed

text \<open>
  C18: A parallel loop completes and says so. In every interleaving, once the loop was
  polled and no piece is left in the pool it is finished; and a task that waits is
  woken, or a piece is left, or the last piece is about to take its waker.
\<close>

theorem par_for_completes:
  assumes "par_reach r s" "lo_poll s \<noteq> Fresh"
  shows "(lo_pieces s = Map.empty \<longrightarrow> sh_finished (lo_shared s)) \<and>
    (lo_poll s = Waiting wk \<longrightarrow> lo_woken s \<or>
       sh_waiter (lo_shared s) = Some wk \<and> (\<exists>i p. lo_pieces s i = Some p))"
proof -
  have inv: "count_inv s" "waiter_inv s"
    using loops.reach_inv [OF assms(1)] by auto
  then have "count_core (lo_leaf s) (lo_pieces s) (sh_outstanding (lo_shared s)) (sh_finished (lo_shared s))"
    using assms(2) by (simp add: count_inv_def)
  then have empty: "lo_pieces s = Map.empty \<Longrightarrow> sh_finished (lo_shared s)"
    by (simp add: count_core_def)
  moreover have "lo_woken s \<or> sh_waiter (lo_shared s) = Some wk \<and> (\<exists>i p. lo_pieces s i = Some p)"
    if "lo_poll s = Waiting wk"
  proof (cases "\<exists>i p. lo_pieces s i = Some p")
    case True
    then show ?thesis using inv(2) that by (auto simp: waiter_inv_def)
  next
    case False
    then have "lo_pieces s = Map.empty" by (auto simp: fun_eq_iff)
    then show ?thesis using inv(2) that empty by (auto simp: waiter_inv_def)
  qed
  ultimately show ?thesis by blast
qed

section \<open>A concrete run\<close>

text \<open>A loop over one index, from its first poll to the last piece about to wake the waiter.\<close>

definition demo_loop :: "shared \<Rightarrow> (nat \<Rightarrow> piece option) \<Rightarrow> par_poll \<Rightarrow> nat list \<Rightarrow> loop_state" where
  "demo_loop sh ps po rs = \<lparr>lo_range = (4, 5), lo_leaf = 1, lo_cancel = False, lo_shared = sh,
     lo_pieces = ps, lo_poll = po, lo_ran = rs, lo_dropped = False, lo_woken = False\<rparr>"

abbreviation demo_shared :: "nat \<Rightarrow> bool \<Rightarrow> waker option \<Rightarrow> shared" where
  "demo_shared n fin w \<equiv> \<lparr>sh_outstanding = n, sh_finished = fin, sh_waiter = w, sh_panic = False\<rparr>"

lemma demo_waiting: "par_reach (4, 5) (demo_loop (demo_shared 1 False (Some 7)) [0 \<mapsto> Queued (4, 5)] (Waiting 7) [])"
proof -
  note go = reach.reach_step [where init = "par_start (4, 5)" and step = par_step]
  let ?q = "[0 \<mapsto> Queued (4, 5)]"
  have "par_reach (4, 5) (demo_loop (demo_shared 1 False None) Map.empty Fresh [])"
    by (intro reach.reach_init)
      (auto simp: par_start_def par_for_def demo_loop_def shared_new_def default_leaf_def intro!: exI [of _ 1])
  then have "par_reach (4, 5) (demo_loop (demo_shared 1 False None) ?q (Checking 7) [])"
    by (rule go) (use par_step.first [of "demo_loop (demo_shared 1 False None) Map.empty Fresh []" 7 0] in
        \<open>simp add: demo_loop_def first_poll_def set_piece_def\<close>)
  then have "par_reach (4, 5) (demo_loop (demo_shared 1 False None) ?q (Parking 7) [])"
    by (rule go) (use par_step.check [of "demo_loop (demo_shared 1 False None) ?q (Checking 7) []"] in
        \<open>simp add: demo_loop_def test_finished_def\<close>)
  then have "par_reach (4, 5) (demo_loop (demo_shared 1 False (Some 7)) ?q (Rechecking 7) [])"
    by (rule go) (use par_step.park [of "demo_loop (demo_shared 1 False None) ?q (Parking 7) []"] in
        \<open>simp add: demo_loop_def shared_park_def\<close>)
  then show ?thesis
    by (rule go) (use par_step.recheck [of "demo_loop (demo_shared 1 False (Some 7)) ?q (Rechecking 7) []"] in
        \<open>simp add: demo_loop_def test_finished_def\<close>)
qed

lemma demo_finished:
  "par_reach (4, 5) (demo_loop (demo_shared 0 True (Some 7)) [0 \<mapsto> Waking] (Waiting 7) [4])"
proof -
  note go = reach.reach_step [where init = "par_start (4, 5)" and step = par_step]
  let ?d = "\<lambda>n fin p rs. demo_loop (demo_shared n fin (Some 7)) [0 \<mapsto> p] (Waiting 7) rs"
  note demo_waiting
  then have "par_reach (4, 5) (?d 1 False (Splitting (4, 5)) [])"
    by (rule go) (use par_step.start [of "?d 1 False (Queued (4, 5)) []" 0] in \<open>simp add: demo_loop_def set_piece_def\<close>)
  then have "par_reach (4, 5) (?d 1 False (Running 4 5) [])"
    by (rule go) (use par_step.leaf [of "?d 1 False (Splitting (4, 5)) []" 0] in \<open>simp add: demo_loop_def set_piece_def\<close>)
  then have "par_reach (4, 5) (?d 1 False (Running 5 5) [4])"
    by (rule go) (use par_step.body [of "?d 1 False (Running 4 5) []" 0 4 5] in \<open>simp add: demo_loop_def set_piece_def\<close>)
  then have "par_reach (4, 5) (?d 1 False Retiring [4])"
    by (rule go) (use par_step.body_end [of "?d 1 False (Running 5 5) [4]" 0 5 5] in \<open>simp add: demo_loop_def set_piece_def\<close>)
  then have "par_reach (4, 5) (?d 0 False Finishing [4])"
    by (rule go) (use par_step.retire [of "?d 1 False Retiring [4]" 0 "demo_shared 0 False (Some 7)" True] in
        \<open>simp add: demo_loop_def set_piece_def retire_count_def\<close>)
  then show ?thesis
    by (rule go) (use par_step.finish [of "?d 0 False Finishing [4]" 0] in
        \<open>simp add: demo_loop_def set_piece_def retire_finish_def\<close>)
qed

theorem par_for_each_index_once_witness:
  "set (lo_ran (demo_loop (demo_shared 0 True (Some 7)) [0 \<mapsto> Waking] (Waiting 7) [4])) = {4..<5}"
  using par_for_each_index_once [OF demo_finished] by (simp add: demo_loop_def)

theorem par_for_completes_witness:
  "\<exists>i p. lo_pieces (demo_loop (demo_shared 1 False (Some 7)) [0 \<mapsto> Queued (4, 5)] (Waiting 7) []) i = Some p"
  using par_for_completes [OF demo_waiting, of 7] by (simp add: demo_loop_def)

end
