(* ===== verification/Net.thy ===== *)
theory Net
  imports Reactor
begin

text \<open>
  Sockets over the reactor (\<open>src/src/net.rs\<close>): reads and writes of a stream, the
  write-all futures, the wait for a connect, the listener, and datagrams. A socket's
  registration is its \<open>wakers\<close> record of the reactor; the kernel is a parameter: a
  state \<open>'k\<close> with \<open>recv\<close>, \<open>FIONREAD\<close>, \<open>sendmsg\<close>, \<open>accept\<close> and the others as functions on
  it. A poll returns the state after it, the wakers it invoked itself, and its result;
  \<open>None\<close> is a poll that never returns.

  The second half puts one socket's reader, the kernel's edge-triggered events and the
  reactor's dispatch side by side as a step relation, each lock acquisition and each
  system call one step.
\<close>

section \<open>Reading\<close>

text \<open>The kernel's count of what is left, which it may refuse to give: only a zero says that nothing is.\<close>

definition may_remain :: "nat option \<Rightarrow> bool" where
  "may_remain left = (case left of None \<Rightarrow> True | Some m \<Rightarrow> 0 < m)"

text \<open>What follows a successful \<open>recv\<close> of \<open>n\<close> bytes into room for \<open>len\<close>.\<close>

definition after_read :: "nat option \<Rightarrow> nat \<Rightarrow> nat \<Rightarrow> wakers \<Rightarrow> wakers" where
  "after_read left len n w =
     (if n = len \<and> may_remain left then mark_readable w else w)"

partial_function (option) read_loop ::
  "('k \<Rightarrow> nat \<Rightarrow> 'k \<times> (errno + u8 list)) \<Rightarrow> ('k \<Rightarrow> nat option) \<Rightarrow> waker \<Rightarrow> nat \<Rightarrow> 'k \<Rightarrow> wakers \<Rightarrow>
   ('k \<times> wakers \<times> waker list \<times> (errno + u8 list) poll) option" where
  "read_loop recv pending wk len k w =
     (case recv k len of (k', r) \<Rightarrow>
        (case r of
          Inr bytes \<Rightarrow> Some (k', after_read (pending k') len (length bytes) w, [], Ready (Inr bytes))
        | Inl e \<Rightarrow>
            if would_block e then (case poll_readable wk w of (w', ws) \<Rightarrow> Some (k', w', ws, Pending))
            else if interrupted e then read_loop recv pending wk len k' w
            else Some (k', w, [], Ready (Inl e))))"

definition poll_read ::
  "('k \<Rightarrow> nat \<Rightarrow> 'k \<times> (errno + u8 list)) \<Rightarrow> ('k \<Rightarrow> nat option) \<Rightarrow> waker \<Rightarrow> nat \<Rightarrow> 'k \<Rightarrow> wakers \<Rightarrow>
   ('k \<times> wakers \<times> waker list \<times> (errno + u8 list) poll) option" where
  "poll_read recv pending wk len k w =
     (case take_readable_or_park wk w of (w', ready) \<Rightarrow>
        if \<not> ready then Some (k, w', [], Pending) else read_loop recv pending wk len k w')"

text \<open>
  \<open>poll_read_buf\<close>, with the contents and the capacity of the growable buffer. It
  returns the buffer and the count.
\<close>

definition poll_read_buf ::
  "('k \<Rightarrow> nat \<Rightarrow> 'k \<times> (errno + u8 list)) \<Rightarrow> ('k \<Rightarrow> nat option) \<Rightarrow> waker \<Rightarrow> u8 list \<Rightarrow> nat \<Rightarrow> 'k \<Rightarrow> wakers \<Rightarrow>
   ('k \<times> wakers \<times> waker list \<times> u8 list \<times> (errno + nat) poll) option" where
  "poll_read_buf recv pending wk buffer capacity k w =
     (let spare = capacity - length buffer in
      if spare = 0 then Some (k, w, [], buffer, Ready (Inr 0))
      else Option.bind (poll_read recv pending wk spare k w) (\<lambda>(k', w', ws, p).
        Some (case p of
           Ready (Inr bytes) \<Rightarrow> (k', w', ws, buffer @ bytes, Ready (Inr (length bytes)))
         | Ready (Inl e) \<Rightarrow> (k', w', ws, buffer, Ready (Inl e))
         | Pending \<Rightarrow> (k', w', ws, buffer, Pending))))"

section \<open>Writing\<close>

definition after_write :: "nat \<Rightarrow> nat \<Rightarrow> nat \<Rightarrow> wakers \<Rightarrow> wakers" where
  "after_write capacity wanted n w =
     (if n = wanted \<and> (capacity = 0 \<or> wanted < capacity) then mark_writable w else w)"

partial_function (option) write_loop ::
  "('k \<Rightarrow> u8 list \<Rightarrow> u8 list \<Rightarrow> 'k \<times> (errno + nat)) \<Rightarrow> nat \<Rightarrow> waker \<Rightarrow> u8 list \<Rightarrow> u8 list \<Rightarrow> 'k \<Rightarrow> wakers \<Rightarrow>
   ('k \<times> wakers \<times> waker list \<times> (errno + nat) poll) option" where
  "write_loop send capacity wk first second k w =
     (case send k first second of (k', r) \<Rightarrow>
        (case r of
          Inr n \<Rightarrow> Some (k', after_write capacity (length first + length second) n w, [], Ready (Inr n))
        | Inl e \<Rightarrow>
            if would_block e then (case poll_writable wk w of (w', ws) \<Rightarrow> Some (k', w', ws, Pending))
            else if interrupted e then write_loop send capacity wk first second k' w
            else Some (k', w, [], Ready (Inl e))))"

definition poll_write_vectored ::
  "('k \<Rightarrow> u8 list \<Rightarrow> u8 list \<Rightarrow> 'k \<times> (errno + nat)) \<Rightarrow> nat \<Rightarrow> waker \<Rightarrow> u8 list \<Rightarrow> u8 list \<Rightarrow> 'k \<Rightarrow> wakers \<Rightarrow>
   ('k \<times> wakers \<times> waker list \<times> (errno + nat) poll) option" where
  "poll_write_vectored send capacity wk first second k w =
     (case take_writable_or_park wk w of (w', ready) \<Rightarrow>
        if \<not> ready then Some (k, w', [], Pending) else write_loop send capacity wk first second k w')"

definition poll_write ::
  "('k \<Rightarrow> u8 list \<Rightarrow> u8 list \<Rightarrow> 'k \<times> (errno + nat)) \<Rightarrow> nat \<Rightarrow> waker \<Rightarrow> u8 list \<Rightarrow> 'k \<Rightarrow> wakers \<Rightarrow>
   ('k \<times> wakers \<times> waker list \<times> (errno + nat) poll) option" where
  "poll_write send capacity wk buffer k w = poll_write_vectored send capacity wk [] buffer k w"

definition BROKEN_PIPE :: errno where
  "BROKEN_PIPE = 32"

text \<open>The part of header and payload that is still to be written.\<close>

definition remainder :: "u8 list \<Rightarrow> u8 list \<Rightarrow> nat \<Rightarrow> u8 list \<times> u8 list" where
  "remainder header payload written =
     (if written < length header then (drop written header, payload)
      else ([], drop (written - length header) payload))"

text \<open>
  \<open>WriteAllVectored::poll\<close>, given the stream's \<open>poll_write_vectored\<close> on the stream's
  state; the future keeps \<open>written\<close>.
\<close>

partial_function (option) write_all_vectored_poll ::
  "('s \<Rightarrow> u8 list \<Rightarrow> u8 list \<Rightarrow> ('s \<times> (errno + nat) poll) option) \<Rightarrow> u8 list \<Rightarrow> u8 list \<Rightarrow> 's \<Rightarrow> nat \<Rightarrow>
   ('s \<times> nat \<times> (errno + unit) poll) option" where
  "write_all_vectored_poll put header payload s written =
     (if written < length header + length payload
      then (case remainder header payload written of (first, second) \<Rightarrow>
        Option.bind (put s first second) (\<lambda>(s', p).
          case p of
            Ready r \<Rightarrow>
              (case r of
                 Inr n \<Rightarrow> if n = 0 then Some (s', written, Ready (Inl BROKEN_PIPE))
                          else write_all_vectored_poll put header payload s' (written + n)
               | Inl e \<Rightarrow> Some (s', written, Ready (Inl e)))
          | Pending \<Rightarrow> Some (s', written, Pending)))
      else Some (s, written, Ready (Inr ())))"

text \<open>\<open>WriteAll::poll\<close>, given the stream's \<open>poll_write\<close>.\<close>

partial_function (option) write_all_poll ::
  "('s \<Rightarrow> u8 list \<Rightarrow> ('s \<times> (errno + nat) poll) option) \<Rightarrow> u8 list \<Rightarrow> 's \<Rightarrow> nat \<Rightarrow>
   ('s \<times> nat \<times> (errno + unit) poll) option" where
  "write_all_poll put buffer s written =
     (if written < length buffer
      then Option.bind (put s (drop written buffer)) (\<lambda>(s', p).
        case p of
          Ready r \<Rightarrow>
            (case r of
               Inr n \<Rightarrow> if n = 0 then Some (s', written, Ready (Inl BROKEN_PIPE))
                        else write_all_poll put buffer s' (written + n)
             | Inl e \<Rightarrow> Some (s', written, Ready (Inl e)))
        | Pending \<Rightarrow> Some (s', written, Pending))
      else Some (s, written, Ready (Inr ())))"

text \<open>A stream as the state those futures work on: the kernel's, the registration's, and the wakes it made.\<close>

type_synonym 'k stream_state = "'k \<times> wakers \<times> waker list"

definition stream_put ::
  "('k \<Rightarrow> u8 list \<Rightarrow> u8 list \<Rightarrow> 'k \<times> (errno + nat)) \<Rightarrow> nat \<Rightarrow> waker \<Rightarrow> 'k stream_state \<Rightarrow> u8 list \<Rightarrow> u8 list \<Rightarrow>
   ('k stream_state \<times> (errno + nat) poll) option" where
  "stream_put send capacity wk s first second =
     (case s of (k, w, ws) \<Rightarrow>
        Option.bind (poll_write_vectored send capacity wk first second k w) (\<lambda>(k', w', ws', p).
          Some ((k', w', ws @ ws'), p)))"

section \<open>Connecting and accepting\<close>

text \<open>
  \<open>Connected::poll\<close>: \<open>connect_error\<close> is \<open>SO_ERROR\<close>, \<open>peer\<close> is \<open>getpeername\<close>. It returns
  the flag \<open>connecting\<close> as well.
\<close>

definition connected_poll ::
  "('k \<Rightarrow> 'k \<times> (errno + unit)) \<Rightarrow> ('k \<Rightarrow> errno + 'a) \<Rightarrow> waker \<Rightarrow> bool \<Rightarrow> 'k \<Rightarrow> wakers \<Rightarrow>
   'k \<times> wakers \<times> waker list \<times> bool \<times> (errno + unit) poll" where
  "connected_poll connect_error peer wk connecting k w =
     (if \<not> connecting then (k, w, [], False, Ready (Inr ()))
      else case connect_error k of
        (k', Inl e) \<Rightarrow> (k', w, [], True, Ready (Inl e))
      | (k', Inr _) \<Rightarrow>
          (case peer k' of
             Inr _ \<Rightarrow> (k', w, [], False, Ready (Inr ()))
           | Inl _ \<Rightarrow> (case poll_writable wk w of (w', ws) \<Rightarrow> (k', w', ws, True, Pending))))"

text \<open>The listener's loop, with the codes of the transient failures, which differ between targets,
  and \<open>TcpStream::from_socket\<close>, which registers what was accepted and may fail.\<close>

definition transient_accept :: "errno set \<Rightarrow> errno \<Rightarrow> bool" where
  "transient_accept codes e \<longleftrightarrow> e \<in> codes"

partial_function (option) poll_accept ::
  "('k \<Rightarrow> 'k \<times> (errno + 'c \<times> 'a)) \<Rightarrow> ('k \<Rightarrow> 'c \<Rightarrow> 'k \<times> (errno + 't)) \<Rightarrow> errno set \<Rightarrow> waker \<Rightarrow> 'k \<Rightarrow> wakers \<Rightarrow>
   ('k \<times> wakers \<times> waker list \<times> (errno + 't \<times> 'a) poll) option" where
  "poll_accept accept from_socket codes wk k w =
     (case accept k of (k', r) \<Rightarrow>
        (case r of
          Inr (socket, addr) \<Rightarrow>
            (case from_socket k' socket of
               (k'', Inr stream) \<Rightarrow> Some (k'', w, [], Ready (Inr (stream, addr)))
             | (k'', Inl e) \<Rightarrow> Some (k'', w, [], Ready (Inl e)))
        | Inl e \<Rightarrow>
            if would_block e then (case poll_readable wk w of (w', ws) \<Rightarrow> Some (k', w', ws, Pending))
            else if interrupted e then poll_accept accept from_socket codes wk k' w
            else if transient_accept codes e then poll_accept accept from_socket codes wk k' w
            else Some (k', w, [], Ready (Inl e))))"

section \<open>Datagrams\<close>

partial_function (option) recv_datagram_loop ::
  "('k \<Rightarrow> nat \<Rightarrow> 'k \<times> (errno + 'd)) \<Rightarrow> waker \<Rightarrow> nat \<Rightarrow> 'k \<Rightarrow> wakers \<Rightarrow>
   ('k \<times> wakers \<times> waker list \<times> (errno + 'd) poll) option" where
  "recv_datagram_loop recv wk len k w =
     (case recv k len of (k', r) \<Rightarrow>
        (case r of
          Inr d \<Rightarrow> Some (k', cancel_read_wait (mark_readable w), [], Ready (Inr d))
        | Inl e \<Rightarrow>
            if would_block e then (case poll_readable wk w of (w', ws) \<Rightarrow> Some (k', w', ws, Pending))
            else if interrupted e then recv_datagram_loop recv wk len k' w
            else Some (k', cancel_read_wait (mark_readable w), [], Ready (Inl e))))"

definition poll_recv_into ::
  "('k \<Rightarrow> nat \<Rightarrow> 'k \<times> (errno + 'd)) \<Rightarrow> waker \<Rightarrow> nat \<Rightarrow> 'k \<Rightarrow> wakers \<Rightarrow>
   ('k \<times> wakers \<times> waker list \<times> (errno + 'd) poll) option" where
  "poll_recv_into recv wk len k w =
     (case take_readable_or_park wk w of (w', ready) \<Rightarrow>
        if \<not> ready then Some (k, w', [], Pending) else recv_datagram_loop recv wk len k w')"

text \<open>
  \<open>poll_recv_from_buf\<close>: an empty spare region is \<open>ENOBUFS\<close> and consumes nothing. A
  datagram is its source, the bytes copied and whether it was truncated.
\<close>

record 'a datagram =
  dg_source :: 'a
  dg_bytes :: "u8 list"
  dg_truncated :: bool

definition poll_recv_from_buf ::
  "errno \<Rightarrow> ('k \<Rightarrow> nat \<Rightarrow> 'k \<times> (errno + 'a datagram)) \<Rightarrow> waker \<Rightarrow> u8 list \<Rightarrow> nat \<Rightarrow> 'k \<Rightarrow> wakers \<Rightarrow>
   ('k \<times> wakers \<times> waker list \<times> u8 list \<times> (errno + 'a datagram) poll) option" where
  "poll_recv_from_buf enobufs recv wk buffer capacity k w =
     (let spare = capacity - length buffer in
      if spare = 0 then Some (k, cancel_read_wait w, [], buffer, Ready (Inl enobufs))
      else Option.bind (poll_recv_into recv wk spare k w) (\<lambda>(k', w', ws, p).
        Some (k', w', ws, (case p of Ready (Inr d) \<Rightarrow> buffer @ dg_bytes d | _ \<Rightarrow> buffer), p)))"

partial_function (option) send_datagram_loop ::
  "('k \<Rightarrow> u8 list \<Rightarrow> 'a option \<Rightarrow> 'k \<times> (errno + nat)) \<Rightarrow> waker \<Rightarrow> u8 list \<Rightarrow> 'a option \<Rightarrow> 'k \<Rightarrow> wakers \<Rightarrow>
   ('k \<times> wakers \<times> waker list \<times> (errno + nat) poll) option" where
  "send_datagram_loop send wk buffer destination k w =
     (case send k buffer destination of (k', r) \<Rightarrow>
        (case r of
          Inr n \<Rightarrow> Some (k', cancel_write_wait (mark_writable w), [], Ready (Inr n))
        | Inl e \<Rightarrow>
            if would_block e then (case poll_writable wk w of (w', ws) \<Rightarrow> Some (k', w', ws, Pending))
            else if interrupted e then send_datagram_loop send wk buffer destination k' w
            else Some (k', cancel_write_wait (mark_writable w), [], Ready (Inl e))))"

definition poll_send_datagram ::
  "('k \<Rightarrow> u8 list \<Rightarrow> 'a option \<Rightarrow> 'k \<times> (errno + nat)) \<Rightarrow> waker \<Rightarrow> u8 list \<Rightarrow> 'a option \<Rightarrow> 'k \<Rightarrow> wakers \<Rightarrow>
   ('k \<times> wakers \<times> waker list \<times> (errno + nat) poll) option" where
  "poll_send_datagram send wk buffer destination k w =
     (case take_writable_or_park wk w of (w', ready) \<Rightarrow>
        if \<not> ready then Some (k, w', [], Pending) else send_datagram_loop send wk buffer destination k w')"

text \<open>The receive and send futures: \<open>waiting\<close> says whether the last poll was pending; a drop then releases the waiter.\<close>

definition recv_future_poll ::
  "('k \<Rightarrow> nat \<Rightarrow> 'k \<times> (errno + 'd)) \<Rightarrow> waker \<Rightarrow> nat \<Rightarrow> 'k \<Rightarrow> wakers \<Rightarrow>
   ('k \<times> wakers \<times> waker list \<times> bool \<times> (errno + 'd) poll) option" where
  "recv_future_poll recv wk len k w =
     Option.bind (poll_recv_into recv wk len k w) (\<lambda>(k', w', ws, p). Some (k', w', ws, p = Pending, p))"

definition recv_future_drop :: "bool \<Rightarrow> wakers \<Rightarrow> wakers" where
  "recv_future_drop waiting w = (if waiting then cancel_read_wait w else w)"

definition send_future_poll ::
  "('k \<Rightarrow> u8 list \<Rightarrow> 'a option \<Rightarrow> 'k \<times> (errno + nat)) \<Rightarrow> waker \<Rightarrow> u8 list \<Rightarrow> 'a option \<Rightarrow> 'k \<Rightarrow> wakers \<Rightarrow>
   ('k \<times> wakers \<times> waker list \<times> bool \<times> (errno + nat) poll) option" where
  "send_future_poll send wk buffer destination k w =
     Option.bind (poll_send_datagram send wk buffer destination k w) (\<lambda>(k', w', ws, p). Some (k', w', ws, p = Pending, p))"

definition send_future_drop :: "bool \<Rightarrow> wakers \<Rightarrow> wakers" where
  "send_future_drop waiting w = (if waiting then cancel_write_wait w else w)"

section \<open>The write-all futures\<close>

text \<open>
  What the futures need of the stream under them: a poll returns; if it is ready with
  a count, exactly that many of the bytes it was given, from the front, were sent;
  otherwise none were.
\<close>

locale poll_writer =
  fixes sent :: "'s \<Rightarrow> u8 list"
    and put :: "'s \<Rightarrow> u8 list \<Rightarrow> u8 list \<Rightarrow> ('s \<times> (errno + nat) poll) option"
  assumes put_total: "\<exists>s' p. put s first second = Some (s', p)"
    and put_ready: "put s first second = Some (s', Ready (Inr n)) \<Longrightarrow>
      n \<le> length first + length second \<and> sent s' = sent s @ take n (first @ second)"
    and put_nothing: "put s first second = Some (s', p) \<Longrightarrow> (\<And>n. p \<noteq> Ready (Inr n)) \<Longrightarrow> sent s' = sent s"
begin

lemma take_between:
  assumes "i + n \<le> j"
  shows "take (j - i) (drop i xs) = take n (drop i xs) @ take (j - (i + n)) (drop (i + n) xs)"
  using take_add [of n "j - (i + n)" "drop i xs"] assms by (simp add: add.commute)

lemma remainder_rest:
  assumes "remainder header payload written = (first, second)"
  shows "first @ second = drop written (header @ payload)"
  using assms by (auto simp: remainder_def split: if_splits)

lemma write_all_vectored_outcome:
  assumes "written \<le> length (header @ payload)"
  shows "\<exists>s' written' p. write_all_vectored_poll put header payload s written = Some (s', written', p) \<and>
    written \<le> written' \<and> written' \<le> length (header @ payload) \<and>
    sent s' = sent s @ take (written' - written) (drop written (header @ payload)) \<and>
    (p = Ready (Inr ()) \<longleftrightarrow> written' = length (header @ payload))"
  using assms
proof (induction "length (header @ payload) - written" arbitrary: s written rule: less_induct)
  case less
  show ?case
  proof (cases "written < length (header @ payload)")
    case False
    then show ?thesis
      using less.prems by (subst write_all_vectored_poll.simps) simp
  next
    case more: True
    obtain first second where parts: "remainder header payload written = (first, second)" by fastforce
    note rest = remainder_rest [OF parts]
    have left: "length first + length second = length (header @ payload) - written"
      using arg_cong [OF rest, of length] by simp
    obtain s1 q where call: "put s first second = Some (s1, q)"
      using put_total by blast
    show ?thesis
    proof (cases "\<exists>n > 0. q = Ready (Inr n)")
      case True
      then obtain n where n: "q = Ready (Inr n)" "0 < n" by blast
      note got = put_ready [OF call [unfolded n(1)]]
      have step: "write_all_vectored_poll put header payload s written =
          write_all_vectored_poll put header payload s1 (written + n)"
        using more parts call n by (subst write_all_vectored_poll.simps) simp
      have shorter: "length (header @ payload) - (written + n) < length (header @ payload) - written"
        and within: "written + n \<le> length (header @ payload)"
        using got left more n(2) by linarith+
      obtain s2 written2 p where h: "write_all_vectored_poll put header payload s1 (written + n) = Some (s2, written2, p)"
        "written + n \<le> written2" "written2 \<le> length (header @ payload)"
        "sent s2 = sent s1 @ take (written2 - (written + n)) (drop (written + n) (header @ payload))"
        "p = Ready (Inr ()) \<longleftrightarrow> written2 = length (header @ payload)"
        using less.hyps [OF shorter within] by blast
      have "take (written2 - written) (drop written (header @ payload)) =
          take n (first @ second) @ take (written2 - (written + n)) (drop (written + n) (header @ payload))"
        unfolding rest by (rule take_between [OF h(2)])
      then show ?thesis
        using h got step by (intro exI [of _ s2] exI [of _ written2] exI [of _ p]) simp
    next
      case False
      then have none: "n = 0" if "q = Ready (Inr n)" for n
        using that by simp
      have unfold: "write_all_vectored_poll put header payload s written =
          (case q of
             Ready r \<Rightarrow> (case r of
                 Inr n \<Rightarrow> if n = 0 then Some (s1, written, Ready (Inl BROKEN_PIPE))
                          else write_all_vectored_poll put header payload s1 (written + n)
               | Inl e \<Rightarrow> Some (s1, written, Ready (Inl e)))
           | Pending \<Rightarrow> Some (s1, written, Pending))"
        using more parts call by (subst write_all_vectored_poll.simps) simp
      have "\<exists>p. write_all_vectored_poll put header payload s written = Some (s1, written, p) \<and> p \<noteq> Ready (Inr ())"
        unfolding unfold using none by (auto split: poll.split sum.split)
      moreover have "sent s1 = sent s"
      proof (cases "q = Ready (Inr 0)")
        case True
        then show ?thesis using put_ready call by fastforce
      next
        case False
        then show ?thesis using put_nothing [OF call] none by blast
      qed
      ultimately show ?thesis using more by auto
    qed
  qed
qed

text \<open>\<open>WriteAll\<close> is \<open>WriteAllVectored\<close> with an empty header.\<close>

lemma write_all_poll_vectored:
  assumes "written \<le> length buffer"
  shows "write_all_poll (\<lambda>s. put s []) buffer s written = write_all_vectored_poll put [] buffer s written"
  using assms
proof (induction "length buffer - written" arbitrary: s written rule: less_induct)
  case less
  obtain s1 q where call: "put s [] (drop written buffer) = Some (s1, q)"
    using put_total by blast
  have "write_all_poll (\<lambda>s. put s []) buffer s1 (written + n) = write_all_vectored_poll put [] buffer s1 (written + n)"
    if "q = Ready (Inr n)" "0 < n" "written < length buffer" for n
    using less.hyps [of "written + n" s1] put_ready [OF call [unfolded that(1)]] that(2,3) by auto
  then show ?case
    using call
    by (subst write_all_poll.simps, subst write_all_vectored_poll.simps)
      (auto simp: remainder_def split: poll.splits sum.splits)
qed

end

text \<open>
  The documented behaviour of a non-blocking \<open>sendmsg\<close>: it takes a prefix of what it is
  given, or fails and takes nothing; signals do not interrupt it for ever.
\<close>

locale send_kernel =
  fixes ksent :: "'k \<Rightarrow> u8 list"
    and patience :: "'k \<Rightarrow> nat"
    and send :: "'k \<Rightarrow> u8 list \<Rightarrow> u8 list \<Rightarrow> 'k \<times> (errno + nat)"
  assumes send_some: "send k first second = (k', Inr n) \<Longrightarrow>
      n \<le> length first + length second \<and> ksent k' = ksent k @ take n (first @ second)"
    and send_none: "send k first second = (k', Inl e) \<Longrightarrow> ksent k' = ksent k"
    and send_retry: "send k first second = (k', Inl e) \<Longrightarrow> interrupted e \<Longrightarrow> patience k' < patience k"
begin

lemma write_loop_outcome:
  "\<exists>k' w' ws p. write_loop send capacity wk first second k w = Some (k', w', ws, p) \<and>
    (case p of
       Ready (Inr n) \<Rightarrow> n \<le> length first + length second \<and> ksent k' = ksent k @ take n (first @ second)
     | _ \<Rightarrow> ksent k' = ksent k)"
proof (induction "patience k" arbitrary: k rule: less_induct)
  case less
  obtain k1 r where call: "send k first second = (k1, r)" by fastforce
  show ?case
  proof (cases "\<exists>e. r = Inl e \<and> \<not> would_block e \<and> interrupted e")
    case True
    then obtain e where e: "r = Inl e" "\<not> would_block e" "interrupted e" by blast
    have kept: "ksent k1 = ksent k" and less': "patience k1 < patience k"
      using send_none send_retry call e by blast+
    show ?thesis
      using less.hyps [OF less'] call e unfolding kept by (subst write_loop.simps) simp
  next
    case False
    then show ?thesis
      using call send_some [of k first second k1] send_none [of k first second k1]
      by (subst write_loop.simps) (auto split: sum.splits prod.splits)
  qed
qed

lemma stream_put_outcome:
  "\<exists>k' w' ws' p. stream_put send capacity wk (k, w, ws) first second = Some ((k', w', ws'), p) \<and>
    (case p of
       Ready (Inr n) \<Rightarrow> n \<le> length first + length second \<and> ksent k' = ksent k @ take n (first @ second)
     | _ \<Rightarrow> ksent k' = ksent k)"
proof (cases "wk_writable w")
  case True
  then show ?thesis
    using write_loop_outcome [of capacity wk first second k "w\<lparr>wk_writable := False\<rparr>"]
    by (auto simp: stream_put_def poll_write_vectored_def take_writable_or_park_def)
next
  case False
  then show ?thesis
    by (simp add: stream_put_def poll_write_vectored_def take_writable_or_park_def)
qed

sublocale poll_writer "\<lambda>(k, _, _). ksent k" "stream_put send capacity wk" for capacity wk
proof
  fix s :: "'k \<times> wakers \<times> waker list" and first second
  obtain k w ws where s: "s = (k, w, ws)" by (cases s)
  obtain k' w' ws' p where h: "stream_put send capacity wk s first second = Some ((k', w', ws'), p)"
    "case p of
       Ready (Inr n) \<Rightarrow> n \<le> length first + length second \<and> ksent k' = ksent k @ take n (first @ second)
     | _ \<Rightarrow> ksent k' = ksent k"
    using stream_put_outcome unfolding s by blast
  show "\<exists>s' p. stream_put send capacity wk s first second = Some (s', p)"
    using h(1) by blast
  show "n \<le> length first + length second \<and> (case s' of (k, _, _) \<Rightarrow> ksent k) = (case s of (k, _, _) \<Rightarrow> ksent k) @ take n (first @ second)"
    if "stream_put send capacity wk s first second = Some (s', Ready (Inr n))" for s' n
    using that h s by auto
  show "(case s' of (k, _, _) \<Rightarrow> ksent k) = (case s of (k, _, _) \<Rightarrow> ksent k)"
    if "stream_put send capacity wk s first second = Some (s', q)" "\<And>n. q \<noteq> Ready (Inr n)" for s' q
    using that h s by (auto split: poll.splits sum.splits)
qed

end

context send_kernel
begin

lemma write_all_futures:
  assumes "written \<le> length (header @ payload)" "ksent k = base @ take written (header @ payload)"
  shows "\<exists>k' w' ws' written' p.
    write_all_vectored_poll (stream_put send capacity wk) header payload (k, w, ws) written = Some ((k', w', ws'), written', p) \<and>
    written \<le> written' \<and> written' \<le> length (header @ payload) \<and>
    ksent k' = base @ take written' (header @ payload) \<and>
    (p = Ready (Inr ()) \<longleftrightarrow> written' = length (header @ payload)) \<and>
    (header = [] \<longrightarrow> write_all_poll (\<lambda>s. stream_put send capacity wk s []) payload (k, w, ws) written =
       Some ((k', w', ws'), written', p))"
proof -
  obtain s' written' p where h:
    "write_all_vectored_poll (stream_put send capacity wk) header payload (k, w, ws) written = Some (s', written', p)"
    "written \<le> written'" "written' \<le> length (header @ payload)"
    "(case s' of (k, _, _) \<Rightarrow> ksent k) = ksent k @ take (written' - written) (drop written (header @ payload))"
    "p = Ready (Inr ()) \<longleftrightarrow> written' = length (header @ payload)"
    using write_all_vectored_outcome [OF assms(1), of capacity wk "(k, w, ws)"] by auto
  obtain k' w' ws' where s': "s' = (k', w', ws')" by (cases s')
  have "take written' (header @ payload) =
      take written (header @ payload) @ take (written' - written) (drop written (header @ payload))"
    using h(2) by (metis le_add_diff_inverse take_add)
  then have "ksent k' = base @ take written' (header @ payload)"
    using h(4) assms(2) s' by simp
  moreover have "write_all_poll (\<lambda>s. stream_put send capacity wk s []) payload (k, w, ws) written = Some (s', written', p)"
    if "header = []"
    using write_all_poll_vectored [of written payload capacity wk "(k, w, ws)"] h(1) assms(1) that by simp
  ultimately show ?thesis using h(1-3,5) s' by blast
qed

end

text \<open>A socket's send buffer: room that fills, and signals that may interrupt a call.\<close>

record send_buffer =
  sb_sent :: "u8 list"
  sb_room :: nat
  sb_signals :: nat

definition sb_send :: "send_buffer \<Rightarrow> u8 list \<Rightarrow> u8 list \<Rightarrow> send_buffer \<times> (errno + nat)" where
  "sb_send b first second =
     (if 0 < sb_signals b then (b\<lparr>sb_signals := sb_signals b - 1\<rparr>, Inl INTERRUPTED)
      else if sb_room b = 0 then (b, Inl (WOULD_BLOCK True))
      else let n = min (sb_room b) (length first + length second) in
        (b\<lparr>sb_sent := sb_sent b @ take n (first @ second), sb_room := sb_room b - n\<rparr>, Inr n))"

interpretation send_buffer: send_kernel sb_sent sb_signals sb_send
  by unfold_locales
    (auto simp: sb_send_def Let_def WOULD_BLOCK_def interrupted_def INTERRUPTED_def split: if_splits)

section \<open>The listener's readiness\<close>

text \<open>
  What happens to a listener's registration, and to that of a stream that is being
  connected: it is created, events are dispatched to it, and the accepting or
  connecting task polls. \<open>accept\<close>, \<open>connect_error\<close> and \<open>peer\<close> are the kernel's and may
  answer anything.
\<close>

inductive listener_step ::
  "('k \<Rightarrow> 'k \<times> (errno + 'c \<times> 'a)) \<Rightarrow> ('k \<Rightarrow> 'c \<Rightarrow> 'k \<times> (errno + 't)) \<Rightarrow> errno set \<Rightarrow> wakers \<Rightarrow> wakers \<Rightarrow> bool"
  for accept :: "'k \<Rightarrow> 'k \<times> (errno + 'c \<times> 'a)" and from_socket :: "'k \<Rightarrow> 'c \<Rightarrow> 'k \<times> (errno + 't)" and codes :: "errno set" where
  listener_event: "dispatch_wakers e index w = (w', ps) \<Longrightarrow> listener_step accept from_socket codes w w'"
| listener_poll: "poll_accept accept from_socket codes wk k w = Some (k', w', ws, p) \<Longrightarrow> listener_step accept from_socket codes w w'"

inductive connecting_step :: "('k \<Rightarrow> 'k \<times> (errno + unit)) \<Rightarrow> ('k \<Rightarrow> errno + 'a) \<Rightarrow> wakers \<Rightarrow> wakers \<Rightarrow> bool"
  for connect_error :: "'k \<Rightarrow> 'k \<times> (errno + unit)" and peer :: "'k \<Rightarrow> errno + 'a" where
  connecting_event: "dispatch_wakers e index w = (w', ps) \<Longrightarrow> connecting_step connect_error peer w w'"
| connecting_poll: "connected_poll connect_error peer wk c k w = (k', w', ws, c', p) \<Longrightarrow>
    connecting_step connect_error peer w w'"

lemma dispatch_keeps_ready:
  assumes "dispatch_wakers e index w = (w', ps)"
  shows "wk_readable w \<Longrightarrow> wk_readable w'" "wk_writable w \<Longrightarrow> wk_writable w'"
    "wk_reader w = None \<Longrightarrow> wk_reader w' = None" "wk_writer w = None \<Longrightarrow> wk_writer w' = None"
  using assms
  by (auto simp: dispatch_wakers_def dispatch_read_def dispatch_write_def dispatch_hangup_def split: if_splits)

text \<open>\<open>poll_accept\<close> changes its registration only through \<open>poll_readable\<close>, and only when it is pending.\<close>

lemma poll_accept_registration:
  assumes "poll_accept accept from_socket codes wk k w = Some (k', w', ws, p)"
  shows "(w', ws) = (if p = Pending then poll_readable wk w else (w, []))"
proof -
  let ?P = "\<lambda>accept from_socket codes wk k w (k', w', ws, p). (w', ws) = (if p = Pending then poll_readable wk w else (w, []))"
  have "?P accept from_socket codes wk k w (k', w', ws, p)"
    by (rule poll_accept.raw_induct [where P = ?P, OF _ assms]) (fastforce split: prod.splits sum.splits if_splits)
  then show ?thesis by simp
qed

text \<open>The registration of a listener starts readable and stays so, and nobody is ever parked on it.\<close>

lemma listener_ready:
  assumes "reach (\<lambda>w. w = wakers_new) (listener_step accept from_socket codes) w"
  shows "wk_readable w \<and> wk_reader w = None"
  using assms
proof (induction rule: reach.induct)
  case (reach_init w)
  then show ?case by (simp add: wakers_new_def)
next
  case (reach_step w w')
  from reach_step(2) show ?case
  proof cases
    case (listener_event e index ps)
    then show ?thesis using dispatch_keeps_ready reach_step(3) by blast
  next
    case (listener_poll wk k k' ws p)
    then show ?thesis
      using poll_accept_registration [OF listener_poll] reach_step(3)
      by (auto simp: poll_readable_def split: if_splits)
  qed
qed

lemma connecting_ready:
  assumes "reach (\<lambda>w. w = wakers_new) (connecting_step connect_error peer) w"
  shows "wk_writable w \<and> wk_writer w = None"
  using assms
proof (induction rule: reach.induct)
  case (reach_init w)
  then show ?case by (simp add: wakers_new_def)
next
  case (reach_step w w')
  from reach_step(2) show ?case
  proof cases
    case (connecting_event e index ps)
    then show ?thesis using dispatch_keeps_ready reach_step(3) by blast
  next
    case (connecting_poll wk c k k' ws c' p)
    then show ?thesis
      using reach_step(3)
      by (auto simp: connected_poll_def poll_writable_def split: if_splits prod.splits sum.splits)
  qed
qed

text \<open>
  A socket that once reported a hang-up is never parked on again; the reactor sets it
  for \<open>EPOLLERR\<close> too, which a datagram socket reports for an ICMP error and survives.
  A receive that then finds nothing wakes its own task, every time.
\<close>

lemma hangup_recv_spins:
  assumes "wk_hangup w" "poll_recv_into recv wk len k w = Some (k', w', ws, Pending)"
  shows "ws = [wk] \<and> wk_hangup w'"
proof -
  let ?P = "\<lambda>recv wk len k w (k', w', ws, p). wk_hangup w \<longrightarrow> p = Pending \<longrightarrow> ws = [wk] \<and> wk_hangup w'"
  have "recv_datagram_loop recv wk len k (w\<lparr>wk_readable := False\<rparr>) = Some (k', w', ws, Pending)"
    using assms by (simp add: poll_recv_into_def take_readable_or_park_def)
  from recv_datagram_loop.raw_induct [where P = ?P, OF _ this]
  have "?P recv wk len k (w\<lparr>wk_readable := False\<rparr>) (k', w', ws, Pending)"
    by (fastforce simp: poll_readable_def split: prod.splits sum.splits if_splits)
  then show ?thesis using assms(1) by simp
qed

section \<open>Properties\<close>

text \<open>
  C21: The write-all futures send every byte exactly once and in order. For every
  kernel that keeps the contract of \<open>sendmsg\<close>: a poll of \<open>WriteAllVectored\<close> returns;
  what has been sent is always what was there before followed by the first \<open>written\<close>
  bytes of header and payload, across any number of polls, short writes, interruptions
  and splits inside the header; it is ready with success exactly when all of them
  are out. \<open>WriteAll\<close> is the same with an empty header.
\<close>

theorem write_all_sends_once:
  assumes "send_kernel ksent patience send" "written \<le> length (header @ payload)"
    "ksent k = base @ take written (header @ payload)"
  shows "\<exists>k' w' ws' written' p.
    write_all_vectored_poll (stream_put send capacity wk) header payload (k, w, ws) written = Some ((k', w', ws'), written', p) \<and>
    written \<le> written' \<and> written' \<le> length (header @ payload) \<and>
    ksent k' = base @ take written' (header @ payload) \<and>
    (p = Ready (Inr ()) \<longleftrightarrow> written' = length (header @ payload)) \<and>
    (header = [] \<longrightarrow> write_all_poll (\<lambda>s. stream_put send capacity wk s []) payload (k, w, ws) written =
       Some ((k', w', ws'), written', p))"
  by (rule send_kernel.write_all_futures [OF assms])

text \<open>A header of two bytes and a payload of two, a buffer with room for three, and one signal.\<close>

theorem write_all_sends_once_witness:
  "\<exists>k' w' ws' written' p. write_all_vectored_poll (stream_put sb_send 0 0) [1, 2] [3, 4]
      (\<lparr>sb_sent = [9], sb_room = 3, sb_signals = 1\<rparr>, wakers_new, []) 0 = Some ((k', w', ws'), written', p) \<and>
    sb_sent k' = [9] @ take written' [1, 2, 3, 4]"
  using write_all_sends_once [OF send_buffer.send_kernel_axioms,
      of 0 "[1, 2]" "[3, 4]" "\<lparr>sb_sent = [9], sb_room = 3, sb_signals = 1\<rparr>" "[9]" 0 0 wakers_new "[]"]
  by auto

text \<open>
  C23: A listener never parks. Whatever events are dispatched to its registration and
  however it is polled, a poll of \<open>accept\<close> that is pending has woken its own task, and
  no waker is parked for the next edge: \<open>poll_accept\<close> does not consume the readiness
  that registration starts with and every event restores, so a task awaiting a
  connection is polled again and again while none arrives. A stream waiting for its
  connect does the same with its writable readiness, and so does a datagram socket
  that has once reported a hang-up, which the reactor also records for a mere error.
\<close>

theorem listener_never_parks:
  shows "(reach (\<lambda>w. w = wakers_new) (listener_step accept from_socket codes) w \<longrightarrow>
      poll_accept accept from_socket codes wk k w = Some (k', w', ws, Pending) \<longrightarrow> ws = [wk] \<and> wk_reader w' = None) \<and>
    (reach (\<lambda>w. w = wakers_new) (connecting_step connect_error peer) v \<longrightarrow>
      connected_poll connect_error peer wk True q v = (q', v', vs, c, Pending) \<longrightarrow> vs = [wk] \<and> wk_writer v' = None) \<and>
    (wk_hangup u \<longrightarrow> poll_recv_into recv wk len j u = Some (j', u', us, Pending) \<longrightarrow> us = [wk] \<and> wk_hangup u')"
proof (intro conjI impI)
  assume "reach (\<lambda>w. w = wakers_new) (listener_step accept from_socket codes) w"
    and "poll_accept accept from_socket codes wk k w = Some (k', w', ws, Pending)"
  then show "ws = [wk]" "wk_reader w' = None"
    using listener_ready [of accept from_socket codes w] poll_accept_registration [of accept from_socket codes wk k w k' w' ws Pending]
    by (simp_all add: poll_readable_def)
next
  assume "reach (\<lambda>w. w = wakers_new) (connecting_step connect_error peer) v"
    and "connected_poll connect_error peer wk True q v = (q', v', vs, c, Pending)"
  then show "vs = [wk]" "wk_writer v' = None"
    using connecting_ready [of connect_error peer v]
    by (auto simp: connected_poll_def poll_writable_def split: prod.splits sum.splits)
next
  assume "wk_hangup u" and "poll_recv_into recv wk len j u = Some (j', u', us, Pending)"
  from hangup_recv_spins [OF this] show "us = [wk]" "wk_hangup u'" by simp_all
qed

text \<open>An idle listener and an unanswered connect.\<close>

definition idle_accept :: "unit \<Rightarrow> unit \<times> (errno + unit \<times> unit)" where
  "idle_accept k = (k, Inl (WOULD_BLOCK True))"

definition idle_adopt :: "unit \<Rightarrow> unit \<Rightarrow> unit \<times> (errno + unit)" where
  "idle_adopt k c = (k, Inr c)"

lemma idle_poll_accept: "poll_accept idle_accept idle_adopt {} wk () wakers_new = Some ((), wakers_new, [wk], Pending)"
  by (subst poll_accept.simps) (simp add: idle_accept_def poll_readable_def wakers_new_def)

theorem listener_never_parks_witness:
  "poll_accept idle_accept idle_adopt {} 7 () wakers_new = Some ((), wakers_new, [7], Pending) \<and>
   snd (snd (snd (snd (connected_poll (\<lambda>k. (k, Inr ())) (\<lambda>k. Inl 107 :: errno + unit) 7 True () wakers_new)))) = Pending \<and>
   fst (snd (snd (connected_poll (\<lambda>k. (k, Inr ())) (\<lambda>k. Inl 107 :: errno + unit) 7 True () wakers_new))) = [7]"
proof -
  let ?c = "connected_poll (\<lambda>k. (k, Inr ())) (\<lambda>k. Inl 107 :: errno + unit) 7 True () wakers_new"
  have c: "?c = ((), wakers_new, [7], True, Pending)"
    by (simp add: connected_poll_def poll_writable_def wakers_new_def)
  have r: "reach (\<lambda>w. w = wakers_new) (listener_step idle_accept idle_adopt {}) wakers_new"
    "reach (\<lambda>w. w = wakers_new) (connecting_step (\<lambda>k. (k, Inr ())) (\<lambda>k. Inl 107 :: errno + unit)) wakers_new"
    by (simp_all add: reach.reach_init)
  show ?thesis
    using listener_never_parks [of idle_accept idle_adopt "{}" wakers_new 7 "()" "()" wakers_new "[7]"
        "\<lambda>k. (k, Inr ())" "\<lambda>k. Inl 107 :: errno + unit" wakers_new "()" "()" wakers_new "[7]" True wakers_new]
      idle_poll_accept [of 7] c r by simp
qed

end
