(* ===== verification/NetClose.thy ===== *)
theory NetClose
  imports Net
begin

text \<open>
  The end of a socket. Dropping a socket of \<open>src/src/net.rs\<close> runs two drops, in the
  order of the fields: the descriptor's, which closes it, and the registration's, which
  tells the poller to forget the descriptor by its number. Between the two another
  thread may run, open a descriptor, be given the same number, and register it.
  \<open>UdpSocket\<close> declares its registration first, and its comment says that it must be;
  \<open>TcpStream\<close> and \<open>TcpListener\<close> declare the socket first. Both orders are modelled.

  The poller is an interest list by descriptor number, as \<open>epoll(7)\<close> documents it:
  adding needs an open descriptor that is not in the list, and closing a descriptor
  takes it off the list.
\<close>

record fd_table =
  ft_open :: "int set"
  ft_watched :: "int \<Rightarrow> u64 option"

definition fd_add :: "fd_table \<Rightarrow> int \<Rightarrow> u64 \<Rightarrow> interest \<Rightarrow> fd_table \<times> errno option" where
  "fd_add t fd token i =
     (if fd \<notin> ft_open t then (t, Some 9)
      else if ft_watched t fd \<noteq> None then (t, Some 17)
      else (t\<lparr>ft_watched := (ft_watched t)(fd \<mapsto> token)\<rparr>, None))"

definition fd_remove :: "fd_table \<Rightarrow> int \<Rightarrow> fd_table \<times> errno option" where
  "fd_remove t fd =
     (if ft_watched t fd = None then (t, Some 2) else (t\<lparr>ft_watched := (ft_watched t)(fd := None)\<rparr>, None))"

definition fd_open :: "int \<Rightarrow> fd_table \<Rightarrow> fd_table" where
  "fd_open fd t = t\<lparr>ft_open := insert fd (ft_open t)\<rparr>"

definition fd_close :: "int \<Rightarrow> fd_table \<Rightarrow> fd_table" where
  "fd_close fd t = t\<lparr>ft_open := ft_open t - {fd}, ft_watched := (ft_watched t)(fd := None)\<rparr>"

text \<open>The two drops of a socket, on the reactor whose poller it is registered with.\<close>

definition socket_close :: "registration \<Rightarrow> fd_table reactor \<Rightarrow> fd_table reactor" where
  "socket_close r re = re\<lparr>re_poller := fd_close (rg_fd r) (re_poller re)\<rparr>"

definition first_drop :: "bool \<Rightarrow> registration \<Rightarrow> fd_table reactor \<Rightarrow> fd_table reactor" where
  "first_drop socket_first r = (if socket_first then socket_close r else registration_drop fd_remove r)"

definition second_drop :: "bool \<Rightarrow> registration \<Rightarrow> fd_table reactor \<Rightarrow> fd_table reactor" where
  "second_drop socket_first r = (if socket_first then registration_drop fd_remove r else socket_close r)"

text \<open>\<open>cl_fresh\<close> are descriptors opened and not yet registered, \<open>cl_half\<close> sockets between their two drops.\<close>

record close_sys =
  cl_reactor :: "fd_table reactor"
  cl_fresh :: "int set"
  cl_live :: "registration set"
  cl_half :: "registration set"

inductive close_step :: "bool \<Rightarrow> close_sys \<Rightarrow> close_sys \<Rightarrow> bool"
  for socket_first :: bool where
  socket_opened: "fd \<notin> ft_open (re_poller (cl_reactor s)) \<Longrightarrow>
    close_step socket_first s (s\<lparr>cl_reactor := (cl_reactor s)\<lparr>re_poller := fd_open fd (re_poller (cl_reactor s))\<rparr>,
      cl_fresh := insert fd (cl_fresh s)\<rparr>)"
| socket_registered: "fd \<in> cl_fresh s \<Longrightarrow> register fd_add fd BOTH (cl_reactor s) = (re, Inr r) \<Longrightarrow>
    close_step socket_first s (s\<lparr>cl_reactor := re, cl_fresh := cl_fresh s - {fd}, cl_live := insert r (cl_live s)\<rparr>)"
| socket_refused: "fd \<in> cl_fresh s \<Longrightarrow> register fd_add fd BOTH (cl_reactor s) = (re, Inl e) \<Longrightarrow>
    close_step socket_first s (s\<lparr>cl_reactor := re\<lparr>re_poller := fd_close fd (re_poller re)\<rparr>, cl_fresh := cl_fresh s - {fd}\<rparr>)"
| socket_dropping: "r \<in> cl_live s \<Longrightarrow>
    close_step socket_first s (s\<lparr>cl_reactor := first_drop socket_first r (cl_reactor s),
      cl_live := cl_live s - {r}, cl_half := insert r (cl_half s)\<rparr>)"
| socket_dropped: "r \<in> cl_half s \<Longrightarrow>
    close_step socket_first s (s\<lparr>cl_reactor := second_drop socket_first r (cl_reactor s), cl_half := cl_half s - {r}\<rparr>)"

definition close_start :: "close_sys \<Rightarrow> bool" where
  "close_start s \<longleftrightarrow> s = \<lparr>cl_reactor = reactor_new \<lparr>ft_open = {}, ft_watched = (\<lambda>_. None)\<rparr>,
     cl_fresh = {}, cl_live = {}, cl_half = {}\<rparr>"

section \<open>Registration first\<close>

definition held :: "fd_table \<Rightarrow> int \<Rightarrow> u64 option \<Rightarrow> bool" where
  "held t fd token \<longleftrightarrow> fd \<in> ft_open t \<and> ft_watched t fd = token"

definition close_inv :: "close_sys \<Rightarrow> bool" where
  "close_inv s \<longleftrightarrow>
     (\<forall>r \<in> cl_live s. held (re_poller (cl_reactor s)) (rg_fd r) (Some (rg_token r))) \<and>
     (\<forall>r \<in> cl_half s. held (re_poller (cl_reactor s)) (rg_fd r) None \<and> rg_fd r \<notin> cl_fresh s) \<and>
     (\<forall>fd \<in> cl_fresh s. held (re_poller (cl_reactor s)) fd None) \<and>
     (\<forall>fd. fd \<notin> ft_open (re_poller (cl_reactor s)) \<longrightarrow> ft_watched (re_poller (cl_reactor s)) fd = None) \<and>
     inj_on rg_fd (cl_live s) \<and> inj_on rg_fd (cl_half s)"

lemma register_fd_add:
  "register fd_add fd i re = (re', Inr r) \<Longrightarrow>
     rg_fd r = fd \<and> fd \<in> ft_open (re_poller re) \<and> ft_watched (re_poller re) fd = None \<and>
     re_poller re' = (re_poller re)\<lparr>ft_watched := (ft_watched (re_poller re))(fd \<mapsto> rg_token r)\<rparr>"
  "register fd_add fd i re = (re', Inl e) \<Longrightarrow> re_poller re' = re_poller re"
  by (auto simp: register_def fd_add_def Let_def split: if_splits)

lemma close_step_inv:
  assumes "close_inv s" "close_step False s t"
  shows "close_inv t"
  using assms(2)
proof cases
  case (socket_opened fd)
  then show ?thesis using assms(1) by (auto simp: close_inv_def held_def fd_open_def)
next
  case (socket_registered fd re r)
  note reg = register_fd_add(1) [OF socket_registered(3)]
  have "rg_fd r \<notin> rg_fd ` cl_live s" "rg_fd r \<notin> rg_fd ` cl_half s"
    using assms(1) reg socket_registered(2) by (auto simp: close_inv_def held_def)
  then show ?thesis
    using assms(1) reg socket_registered(2) unfolding socket_registered(1)
    by (auto simp: close_inv_def held_def)
next
  case (socket_refused fd re e)
  then show ?thesis
    using assms(1) register_fd_add(2) [OF socket_refused(3)]
    by (auto simp: close_inv_def held_def fd_close_def)
next
  case (socket_dropping r)
  have own: "rg_fd q \<noteq> rg_fd r" if "q \<in> cl_live s - {r}" for q
    using assms(1) socket_dropping(2) that by (auto simp: close_inv_def inj_on_def)
  have "rg_fd r \<notin> rg_fd ` cl_half s" "rg_fd r \<notin> cl_fresh s"
    using assms(1) socket_dropping(2) by (fastforce simp: close_inv_def held_def)+
  then show ?thesis
    using assms(1) socket_dropping(2) own unfolding socket_dropping(1)
    by (auto simp: close_inv_def held_def first_drop_def registration_drop_def fd_remove_def intro: inj_on_diff)
next
  case (socket_dropped r)
  have own: "rg_fd q \<noteq> rg_fd r" if "q \<in> cl_half s - {r}" for q
    using assms(1) socket_dropped(2) that by (auto simp: close_inv_def inj_on_def)
  have "rg_fd q \<noteq> rg_fd r" if "q \<in> cl_live s" for q
    using assms(1) socket_dropped(2) that by (fastforce simp: close_inv_def held_def)
  then show ?thesis
    using assms(1) socket_dropped(2) own unfolding socket_dropped(1)
    by (auto simp: close_inv_def held_def second_drop_def socket_close_def fd_close_def intro: inj_on_diff)
qed

interpretation closing: invariant_system close_start "close_step False" close_inv
proof
  show "close_inv s" if "close_start s" for s
    using that by (simp add: close_start_def close_inv_def reactor_new_def)
qed (rule close_step_inv)

section \<open>Both orders\<close>

lemma registration_first_keeps_watch:
  assumes "reach close_start (close_step False) s" "r \<in> cl_live s"
  shows "rg_fd r \<in> ft_open (re_poller (cl_reactor s)) \<and>
    ft_watched (re_poller (cl_reactor s)) (rg_fd r) = Some (rg_token r)"
  using closing.reach_inv [OF assms(1)] assms(2) by (simp add: close_inv_def held_def)

text \<open>
  Two sockets in turn on descriptor 3: the first is between its two drops when the
  second is opened and registered.
\<close>

definition close_reg :: "u64 \<Rightarrow> registration" where
  "close_reg index = \<lparr>rg_fd = 3, rg_index = index, rg_token = make_token index 1\<rparr>"

definition demo_one :: close_sys where
  "demo_one = \<lparr>cl_reactor = (reactor_new \<lparr>ft_open = {3}, ft_watched = (\<lambda>_. None)(3 \<mapsto> make_token 0 1)\<rparr>)
       \<lparr>re_next_index := 1, re_slots := (\<lambda>_. None)(0 \<mapsto> \<lparr>rs_generation = 1, rs_wakers = wakers_new\<rparr>)\<rparr>,
     cl_fresh = {}, cl_live = {close_reg 0}, cl_half = {}\<rparr>"

lemma demo_one_reach: "reach close_start (close_step socket_first) demo_one"
proof -
  note go = reach.reach_step [where init = close_start and step = "close_step socket_first"]
  let ?init = "\<lparr>cl_reactor = reactor_new \<lparr>ft_open = {}, ft_watched = (\<lambda>_. None)\<rparr>, cl_fresh = {}, cl_live = {}, cl_half = {}\<rparr>"
  let ?re = "reactor_new \<lparr>ft_open = {3}, ft_watched = (\<lambda>_. None)\<rparr>"
  have s0: "reach close_start (close_step socket_first) ?init"
    by (rule reach.reach_init) (simp add: close_start_def)
  have s1: "reach close_start (close_step socket_first) (?init\<lparr>cl_reactor := ?re, cl_fresh := {3}\<rparr>)"
    by (rule go [OF s0])
      (use close_step.socket_opened [of 3 ?init socket_first] in \<open>simp add: reactor_new_def fd_open_def\<close>)
  show ?thesis
    by (rule go [OF s1])
      (use close_step.socket_registered [of 3 "?init\<lparr>cl_reactor := ?re, cl_fresh := {3}\<rparr>" "cl_reactor demo_one" "close_reg 0" socket_first]
        in \<open>simp add: demo_one_def close_reg_def register_def reactor_new_def fd_add_def Let_def\<close>)
qed

lemma socket_first_loses_watch:
  "\<exists>s r. reach close_start (close_step True) s \<and> cl_live s = {r} \<and> cl_half s = {} \<and>
     rg_fd r \<in> ft_open (re_poller (cl_reactor s)) \<and> ft_watched (re_poller (cl_reactor s)) (rg_fd r) = None"
proof -
  note go = reach.reach_step [where init = close_start and step = "close_step True"]
  define re where "re = (cl_reactor demo_one)"
  let ?gone = "demo_one\<lparr>cl_reactor := socket_close (close_reg 0) re, cl_live := {}, cl_half := {close_reg 0}\<rparr>"
  let ?open = "?gone\<lparr>cl_reactor := re\<lparr>re_poller := \<lparr>ft_open = {3}, ft_watched = (\<lambda>_. None)\<rparr>\<rparr>, cl_fresh := {3}\<rparr>"
  let ?reg = "re\<lparr>re_poller := \<lparr>ft_open = {3}, ft_watched = (\<lambda>_. None)(3 \<mapsto> make_token 1 1)\<rparr>, re_next_index := 2,
    re_slots := (re_slots re)(1 \<mapsto> \<lparr>rs_generation = 1, rs_wakers = wakers_new\<rparr>)\<rparr>"
  let ?two = "?gone\<lparr>cl_reactor := ?reg, cl_fresh := {}, cl_live := {close_reg 1}\<rparr>"
  let ?over = "?two\<lparr>cl_reactor := registration_drop fd_remove (close_reg 0) ?reg, cl_half := {}\<rparr>"
  have s1: "reach close_start (close_step True) ?gone"
    by (rule go [OF demo_one_reach])
      (use close_step.socket_dropping [of "close_reg 0" demo_one True] in \<open>simp add: demo_one_def first_drop_def re_def\<close>)
  have s2: "reach close_start (close_step True) ?open"
    by (rule go [OF s1])
      (use close_step.socket_opened [of 3 ?gone True] in
        \<open>simp add: re_def demo_one_def socket_close_def fd_close_def fd_open_def close_reg_def reactor_new_def\<close>)
  have s3: "reach close_start (close_step True) ?two"
    by (rule go [OF s2])
      (use close_step.socket_registered [of 3 ?open ?reg "close_reg 1" True] in
        \<open>simp add: re_def demo_one_def register_def fd_add_def close_reg_def reactor_new_def Let_def\<close>)
  have s4: "reach close_start (close_step True) ?over"
    by (rule go [OF s3])
      (use close_step.socket_dropped [of "close_reg 0" ?two True] in \<open>simp add: second_drop_def\<close>)
  show ?thesis
    by (intro exI [of _ ?over] exI [of _ "close_reg 1"] conjI s4)
      (simp_all add: registration_drop_def fd_remove_def close_reg_def)
qed

section \<open>Properties\<close>

text \<open>
  C25: The order in which a socket's two parts are dropped decides whether other sockets
  survive it. With the registration dropped before the descriptor, the order of
  \<open>UdpSocket\<close>, every socket that exists stays watched: whatever other sockets are opened,
  refused, half dropped and dropped on other threads, and however descriptor numbers are
  reused, the poller holds the descriptor of each live registration under its own
  token. With the descriptor closed first, the order of \<open>TcpStream\<close> and \<open>TcpListener\<close>,
  that fails: there is a run of two sockets, one created while the other is being
  dropped, after which the one that exists is not in the poller's list, so that no event
  for it will ever be reported.
\<close>

theorem socket_drop_order:
  "(reach close_start (close_step False) s \<longrightarrow> r \<in> cl_live s \<longrightarrow>
      rg_fd r \<in> ft_open (re_poller (cl_reactor s)) \<and>
      ft_watched (re_poller (cl_reactor s)) (rg_fd r) = Some (rg_token r)) \<and>
   (\<exists>s r. reach close_start (close_step True) s \<and> cl_live s = {r} \<and> cl_half s = {} \<and>
      rg_fd r \<in> ft_open (re_poller (cl_reactor s)) \<and> ft_watched (re_poller (cl_reactor s)) (rg_fd r) = None)"
  using registration_first_keeps_watch socket_first_loses_watch by blast

theorem socket_drop_order_witness:
  "reach close_start (close_step False) demo_one \<and> close_reg 0 \<in> cl_live demo_one \<and>
   ft_watched (re_poller (cl_reactor demo_one)) 3 = Some (make_token 0 1)"
  using socket_drop_order [of demo_one "close_reg 0"] demo_one_reach [of False]
  by (simp add: demo_one_def close_reg_def)

end
