(* ===== verification/SockAddr.thy ===== *)
theory SockAddr
  imports Io
begin

text \<open>
  Socket addresses (\<open>UnixPath\<close> and \<open>Addr\<close> of \<open>src/src/reactor/socket.rs\<close>) and their
  encoding in the kernel's \<open>sockaddr\<close> structures, byte by byte. What differs between
  targets is a parameter: the size of \<open>sun_path\<close>, the numbers of families, errors and flags,
  the byte order, and whether the target is Linux, which has abstract names and a two-byte family
  field. The offsets of the fields are those of \<open>sockaddr_in\<close>, \<open>sockaddr_in6\<close> and
  \<open>sockaddr_un\<close>, which Linux and the BSDs share.
\<close>

type_synonym u16 = "16 word"

record target =
  tg_linux :: bool
  tg_big_endian :: bool
  tg_capacity :: nat
  tg_inet :: nat
  tg_inet6 :: nat
  tg_unix :: nat
  tg_EINVAL :: errno
  tg_ENAMETOOLONG :: errno
  tg_EAFNOSUPPORT :: errno
  tg_EINPROGRESS :: errno
  tg_EMSGSIZE :: errno
  tg_O_NONBLOCK :: int
  tg_FD_CLOEXEC :: int

text \<open>\<open>sun_path\<close> fits the storage, its length a \<open>u8\<close>, and the families are told apart in one byte.\<close>

definition target_ok :: "target \<Rightarrow> bool" where
  "target_ok tg \<longleftrightarrow> 0 < tg_capacity tg \<and> tg_capacity tg \<le> 120 \<and>
     tg_inet tg < 256 \<and> tg_inet6 tg < 256 \<and> tg_unix tg < 256 \<and>
     tg_inet tg \<noteq> tg_inet6 tg \<and> tg_inet tg \<noteq> tg_unix tg \<and> tg_inet6 tg \<noteq> tg_unix tg"

definition SUN_PATH_OFFSET :: nat where
  "SUN_PATH_OFFSET = 2"

section \<open>Unix-domain names\<close>

record unix_path =
  up_bytes :: "u8 list"
  up_len :: nat

definition unnamed :: "target \<Rightarrow> unix_path" where
  "unnamed tg = \<lparr>up_bytes = replicate (tg_capacity tg) 0, up_len = 0\<rparr>"

definition path_new :: "target \<Rightarrow> u8 list \<Rightarrow> errno + unix_path" where
  "path_new tg path =
     (if path = [] \<or> 0 \<in> set path then Inl (tg_EINVAL tg)
      else if tg_capacity tg - 1 < length path then Inl (tg_ENAMETOOLONG tg)
      else Inr \<lparr>up_bytes = copy_from_slice (replicate (tg_capacity tg) 0) 0 path, up_len = length path\<rparr>)"

text \<open>Linux only.\<close>

definition abstract_name :: "target \<Rightarrow> u8 list \<Rightarrow> errno + unix_path" where
  "abstract_name tg name =
     (if name = [] then Inl (tg_EINVAL tg)
      else if tg_capacity tg - 1 < length name then Inl (tg_ENAMETOOLONG tg)
      else Inr \<lparr>up_bytes = copy_from_slice (replicate (tg_capacity tg) 0) 1 name, up_len = length name + 1\<rparr>)"

definition is_unnamed :: "unix_path \<Rightarrow> bool" where
  "is_unnamed p \<longleftrightarrow> up_len p = 0"

definition is_abstract :: "unix_path \<Rightarrow> bool" where
  "is_abstract p \<longleftrightarrow> 0 < up_len p \<and> up_bytes p ! 0 = 0"

definition as_path_bytes :: "unix_path \<Rightarrow> u8 list option" where
  "as_path_bytes p = (if is_unnamed p \<or> is_abstract p then None else Some (take (up_len p) (up_bytes p)))"

definition as_abstract_name :: "unix_path \<Rightarrow> u8 list option" where
  "as_abstract_name p = (if is_abstract p then Some (take (up_len p - 1) (drop 1 (up_bytes p))) else None)"

definition encoded :: "unix_path \<Rightarrow> u8 list" where
  "encoded p = take (up_len p) (up_bytes p)"

definition sockaddr_len :: "unix_path \<Rightarrow> nat" where
  "sockaddr_len p =
     (if up_len p = 0 then SUN_PATH_OFFSET
      else if up_bytes p ! 0 = 0 then SUN_PATH_OFFSET + up_len p
      else SUN_PATH_OFFSET + up_len p + 1)"

definition path_eq :: "unix_path \<Rightarrow> unix_path \<Rightarrow> bool" where
  "path_eq p q \<longleftrightarrow> encoded p = encoded q"

section \<open>Addresses\<close>

datatype addr = V4 "u8 list" u16 | V6 "u8 list" u16 | V6Scoped "u8 list" u16 u32 | Path unix_path

definition localhost :: "u16 \<Rightarrow> addr" where
  "localhost port = V4 [127, 0, 0, 1] port"

definition addr_path :: "target \<Rightarrow> u8 list \<Rightarrow> errno + addr" where
  "addr_path tg path = (case path_new tg path of Inl e \<Rightarrow> Inl e | Inr p \<Rightarrow> Inr (Path p))"

fun addr_port :: "addr \<Rightarrow> u16" where
  "addr_port (V4 _ port) = port"
| "addr_port (V6 _ port) = port"
| "addr_port (V6Scoped _ port _) = port"
| "addr_port (Path _) = 0"

fun addr_family :: "target \<Rightarrow> addr \<Rightarrow> nat" where
  "addr_family tg (V4 _ _) = tg_inet tg"
| "addr_family tg (V6 _ _) = tg_inet6 tg"
| "addr_family tg (V6Scoped _ _ _) = tg_inet6 tg"
| "addr_family tg (Path _) = tg_unix tg"

section \<open>The kernel's encoding\<close>

text \<open>\<open>sockaddr_storage\<close> is 128 bytes on every target; integers are written byte by byte.\<close>

definition STORAGE :: nat where
  "STORAGE = 128"

fun le_bytes :: "nat \<Rightarrow> nat \<Rightarrow> u8 list" where
  "le_bytes 0 n = []"
| "le_bytes (Suc k) n = of_nat n # le_bytes k (n div 256)"

fun le_value :: "u8 list \<Rightarrow> nat" where
  "le_value [] = 0"
| "le_value (b # bs) = unat b + 256 * le_value bs"

definition ne_bytes :: "target \<Rightarrow> nat \<Rightarrow> nat \<Rightarrow> u8 list" where
  "ne_bytes tg k n = (if tg_big_endian tg then rev (le_bytes k n) else le_bytes k n)"

definition ne_value :: "target \<Rightarrow> u8 list \<Rightarrow> nat" where
  "ne_value tg bs = (if tg_big_endian tg then le_value (rev bs) else le_value bs)"

definition field :: "nat \<Rightarrow> nat \<Rightarrow> u8 list \<Rightarrow> u8 list" where
  "field at n st = take n (drop at st)"

text \<open>The family: two bytes on Linux; on the BSDs one byte after \<open>sun_len\<close>, which is left as it is.\<close>

definition set_family :: "target \<Rightarrow> nat \<Rightarrow> u8 list \<Rightarrow> u8 list" where
  "set_family tg f st = (if tg_linux tg then copy_from_slice st 0 (ne_bytes tg 2 f) else copy_from_slice st 1 [of_nat f])"

definition get_family :: "target \<Rightarrow> u8 list \<Rightarrow> nat" where
  "get_family tg st = (if tg_linux tg then ne_value tg (field 0 2 st) else le_value (field 1 1 st))"

definition port_bytes :: "u16 \<Rightarrow> u8 list" where
  "port_bytes port = rev (le_bytes 2 (unat port))"

definition port_value :: "u8 list \<Rightarrow> u16" where
  "port_value bs = of_nat (le_value (rev bs))"

definition write_v6 :: "target \<Rightarrow> u8 list \<Rightarrow> u16 \<Rightarrow> u32 \<Rightarrow> u8 list \<Rightarrow> u8 list \<times> nat" where
  "write_v6 tg octets port scope st =
     (let st = set_family tg (tg_inet6 tg) st;
          st = copy_from_slice st 2 (port_bytes port);
          st = copy_from_slice st 8 octets
      in (copy_from_slice st 24 (ne_bytes tg 4 (unat scope)), 28))"

fun write_to :: "target \<Rightarrow> addr \<Rightarrow> u8 list \<Rightarrow> u8 list \<times> nat" where
  "write_to tg (V4 octets port) st =
     (let st = set_family tg (tg_inet tg) st;
          st = copy_from_slice st 2 (port_bytes port)
      in (copy_from_slice st 4 octets, 16))"
| "write_to tg (V6 octets port) st = write_v6 tg octets port 0 st"
| "write_to tg (V6Scoped octets port scope) st = write_v6 tg octets port scope st"
| "write_to tg (Path p) st =
     (copy_from_slice (set_family tg (tg_unix tg) st) SUN_PATH_OFFSET (encoded p), sockaddr_len p)"

text \<open>The length of a name the kernel reported \<open>reported\<close> bytes for.\<close>

fun position_nul :: "u8 list \<Rightarrow> nat option" where
  "position_nul [] = None"
| "position_nul (b # bs) = (if b = 0 then Some 0 else map_option Suc (position_nul bs))"

definition name_length :: "target \<Rightarrow> u8 list \<Rightarrow> nat \<Rightarrow> nat" where
  "name_length tg bytes reported =
     (if reported = 0 then 0
      else if bytes ! 0 = 0 then (if tg_linux tg then reported else 0)
      else (case position_nul (take reported bytes) of Some i \<Rightarrow> i | None \<Rightarrow> reported))"

definition read_path :: "target \<Rightarrow> u8 list \<Rightarrow> nat \<Rightarrow> unix_path" where
  "read_path tg st len =
     (let reported = min (len - SUN_PATH_OFFSET) (tg_capacity tg);
          bytes = copy_from_slice (replicate (tg_capacity tg) 0) 0 (field SUN_PATH_OFFSET reported st);
          len = name_length tg bytes reported
      in \<lparr>up_bytes = take len bytes @ replicate (tg_capacity tg - len) 0, up_len = len\<rparr>)"

definition read_from :: "target \<Rightarrow> u8 list \<Rightarrow> nat \<Rightarrow> addr option" where
  "read_from tg st len =
     (if get_family tg st = tg_inet tg then Some (V4 (field 4 4 st) (port_value (field 2 2 st)))
      else if get_family tg st = tg_inet6 tg then
        (let octets = field 8 16 st; port = port_value (field 2 2 st); scope = of_nat (ne_value tg (field 24 4 st))
         in Some (if scope = 0 then V6 octets port else V6Scoped octets port scope))
      else if get_family tg st = tg_unix tg then Some (Path (read_path tg st len))
      else None)"

section \<open>Well-formed names and addresses\<close>

text \<open>
  A name fills its array with zeros, and is unnamed, an abstract name (on Linux), or a
  path without a NUL. A path the kernel reports may fill the array; one that is handed
  to the kernel has to leave room for its terminator (\<open>fits_kernel\<close>): the length that
  goes with it does not reach past the array.
\<close>

definition path_ok :: "target \<Rightarrow> unix_path \<Rightarrow> bool" where
  "path_ok tg p \<longleftrightarrow> length (up_bytes p) = tg_capacity tg \<and> up_len p \<le> tg_capacity tg \<and>
     drop (up_len p) (up_bytes p) = replicate (tg_capacity tg - up_len p) 0 \<and>
     (up_len p = 0 \<or> up_bytes p ! 0 = 0 \<and> tg_linux tg \<or> 0 \<notin> set (take (up_len p) (up_bytes p)))"

definition fits_kernel :: "target \<Rightarrow> unix_path \<Rightarrow> bool" where
  "fits_kernel tg p \<longleftrightarrow> path_ok tg p \<and> sockaddr_len p \<le> SUN_PATH_OFFSET + tg_capacity tg"

fun addr_ok :: "target \<Rightarrow> addr \<Rightarrow> bool" where
  "addr_ok tg (V4 octets _) = (length octets = 4)"
| "addr_ok tg (V6 octets _) = (length octets = 16)"
| "addr_ok tg (V6Scoped octets _ scope) = (length octets = 16 \<and> scope \<noteq> 0)"
| "addr_ok tg (Path p) = path_ok tg p"

section \<open>Bytes\<close>

lemma le_bytes_length [simp]: "length (le_bytes k n) = k"
  by (induction k arbitrary: n) simp_all

lemma le_value_bytes: "le_value (le_bytes k n) = n mod 256 ^ k"
proof (induction k arbitrary: n)
  case (Suc k)
  have "unat (of_nat n :: u8) = n mod 256"
    by (simp add: unsigned_of_nat take_bit_eq_mod)
  then show ?case
    using Suc mod_mult2_eq [of n 256 "256 ^ k"] by simp
qed simp

lemma ne_value_bytes: "ne_value tg (ne_bytes tg k n) = n mod 256 ^ k"
  by (simp add: ne_value_def ne_bytes_def le_value_bytes)

lemma ne_bytes_length [simp]: "length (ne_bytes tg k n) = k"
  by (simp add: ne_bytes_def)

lemma port_round_trip [simp]: "port_value (port_bytes port) = port"
proof -
  have "unat port < 2 ^ LENGTH(16)" by (rule unsigned_less)
  then show ?thesis by (simp add: port_value_def port_bytes_def le_value_bytes)
qed

lemma port_bytes_length [simp]: "length (port_bytes port) = 2"
  by (simp add: port_bytes_def)

lemma copy_length [simp]: "at + length bs \<le> length st \<Longrightarrow> length (copy_from_slice st at bs) = length st"
  by (simp add: copy_from_slice_def)

text \<open>A field reads back what was written to it, and is not changed by a write elsewhere.\<close>

lemma field_same [simp]: "at + length bs \<le> length st \<Longrightarrow> n = length bs \<Longrightarrow> field at n (copy_from_slice st at bs) = bs"
  by (simp add: field_def copy_from_slice_def)

lemma field_other:
  assumes "at + length bs \<le> length st" "i + n \<le> at \<or> at + length bs \<le> i"
  shows "field i n (copy_from_slice st at bs) = field i n st"
  using assms
proof (elim disjE)
  assume "i + n \<le> at"
  then show ?thesis using assms(1)
    by (simp add: field_def copy_from_slice_def drop_take min_absorb1)
next
  assume le: "at + length bs \<le> i"
  then have "drop i (copy_from_slice st at bs) = drop i st"
    using assms(1) by (simp add: copy_from_slice_def)
  then show ?thesis by (simp add: field_def)
qed

lemma set_family_length [simp]: "length st = STORAGE \<Longrightarrow> length (set_family tg f st) = STORAGE"
  by (simp add: set_family_def STORAGE_def)

lemma get_family_other:
  assumes "at + length bs \<le> length st" "2 \<le> at"
  shows "get_family tg (copy_from_slice st at bs) = get_family tg st"
  using assms by (simp add: get_family_def field_other)

lemma get_set_family:
  assumes "f < 256" "length st = STORAGE"
  shows "get_family tg (set_family tg f st) = f"
  using assms le_value_bytes [of 1 f] ne_value_bytes [of tg 2 f]
  by (simp add: get_family_def set_family_def STORAGE_def)

section \<open>Round trips of the families\<close>

lemma write_v4_read:
  assumes "target_ok tg" "length st = STORAGE" "length octets = 4"
  shows "read_from tg (fst (write_to tg (V4 octets port) st)) len = Some (V4 octets port)"
proof -
  have "get_family tg (set_family tg (tg_inet tg) st) = tg_inet tg" "length (set_family tg (tg_inet tg) st) = 128"
    using assms get_set_family [of "tg_inet tg" st tg] set_family_length [of st tg]
    by (auto simp: target_ok_def STORAGE_def)
  then show ?thesis
    using assms(3) by (simp add: read_from_def Let_def get_family_other field_other)
qed

lemma write_v6_read:
  assumes "target_ok tg" "length st = STORAGE" "length octets = 16"
  shows "read_from tg (fst (write_v6 tg octets port scope st)) len =
    Some (if scope = 0 then V6 octets port else V6Scoped octets port scope)"
proof -
  have "get_family tg (set_family tg (tg_inet6 tg) st) = tg_inet6 tg" "length (set_family tg (tg_inet6 tg) st) = 128"
    using assms get_set_family [of "tg_inet6 tg" st tg] set_family_length [of st tg]
    by (auto simp: target_ok_def STORAGE_def)
  moreover have "tg_inet6 tg \<noteq> tg_inet tg" using assms(1) by (auto simp: target_ok_def)
  moreover have "unat scope < 2 ^ LENGTH(32)" by (rule unsigned_less)
  then have "of_nat (unat scope mod 256 ^ 4) = scope" by simp
  ultimately show ?thesis
    using assms(3) by (simp add: read_from_def write_v6_def Let_def get_family_other field_other ne_value_bytes)
qed

lemma position_nul_app: "0 \<notin> set xs \<Longrightarrow> position_nul (xs @ ys) = map_option (\<lambda>i. length xs + i) (position_nul ys)"
  by (induction xs; cases "position_nul ys") auto

text \<open>
  A name is found again from any length the kernel may report for it: its own, with or
  without the terminator, and for a path any longer one.
\<close>

lemma name_length_path:
  assumes "path_ok tg p" "up_len p \<noteq> 0" "up_bytes p ! 0 \<noteq> 0" "up_len p \<le> reported" "reported \<le> tg_capacity tg"
  shows "name_length tg (up_bytes p) reported = up_len p"
proof -
  have nz: "0 \<notin> set (take (up_len p) (up_bytes p))"
    using assms(1,2,3) by (auto simp: path_ok_def)
  have split: "take reported (up_bytes p) = take (up_len p) (up_bytes p) @ replicate (reported - up_len p) 0"
  proof -
    have "take reported (up_bytes p) = take (up_len p) (up_bytes p) @ take (reported - up_len p) (drop (up_len p) (up_bytes p))"
      using assms(4) by (metis le_add_diff_inverse take_add)
    then show ?thesis
      using assms(1,5) by (simp add: path_ok_def)
  qed
  show ?thesis
  proof (cases "reported = up_len p")
    case True
    then show ?thesis
      using position_nul_app [OF nz, of "[]"] assms(2,3) by (simp add: name_length_def)
  next
    case False
    then obtain k where "reported - up_len p = Suc k" using assms(4) by (metis Suc_diff_le Suc_leI diff_Suc_Suc le_neq_implies_less)
    then show ?thesis
      using position_nul_app [OF nz, of "replicate (Suc k) 0"] assms(1,2,3,4)
      by (simp add: name_length_def split path_ok_def)
  qed
qed

lemma drop_set_family: "drop 2 (set_family tg f (replicate STORAGE 0)) = replicate 126 0"
  by (simp add: set_family_def copy_from_slice_def STORAGE_def numeral_2_eq_2)

lemma path_ok_split:
  "path_ok tg p \<Longrightarrow> up_bytes p = encoded p @ replicate (tg_capacity tg - up_len p) 0"
  unfolding path_ok_def encoded_def by (metis append_take_drop_id)

lemma encoded_length: "path_ok tg p \<Longrightarrow> length (encoded p) = up_len p"
  by (simp add: path_ok_def encoded_def)

lemma written_path_field:
  assumes "target_ok tg" "path_ok tg p" "n \<le> tg_capacity tg"
  shows "field SUN_PATH_OFFSET n (fst (write_to tg (Path p) (replicate STORAGE 0))) = take n (up_bytes p)"
proof -
  let ?st = "set_family tg (tg_unix tg) (replicate STORAGE 0)"
  have len: "up_len p \<le> tg_capacity tg" "tg_capacity tg \<le> 126" "length (encoded p) = up_len p"
    using assms(1,2) encoded_length by (auto simp: target_ok_def path_ok_def)
  have "drop (2 + up_len p) ?st = replicate (126 - up_len p) 0"
    using drop_set_family [of tg "tg_unix tg"] by (metis add.commute drop_drop drop_replicate)
  moreover have "length ?st = 128"
    using set_family_length [of "replicate STORAGE 0" tg "tg_unix tg"] by (simp add: STORAGE_def)
  ultimately have "drop 2 (fst (write_to tg (Path p) (replicate STORAGE 0))) = encoded p @ replicate (126 - up_len p) 0"
    using len by (simp add: copy_from_slice_def SUN_PATH_OFFSET_def)
  then show ?thesis
    using len assms(3) by (simp add: field_def SUN_PATH_OFFSET_def path_ok_split [OF assms(2)] min_def)
qed

lemma read_written_path:
  assumes "target_ok tg" "path_ok tg p" "up_len p \<le> n" "n = min (len - SUN_PATH_OFFSET) (tg_capacity tg)"
    "name_length tg (up_bytes p) n = up_len p"
  shows "read_path tg (fst (write_to tg (Path p) (replicate STORAGE 0))) len = p"
proof -
  have cap: "length (up_bytes p) = tg_capacity tg" "n \<le> tg_capacity tg"
    using assms(2,4) by (auto simp: path_ok_def)
  have "drop n (up_bytes p) = replicate (tg_capacity tg - n) 0"
    using assms(2,3) unfolding path_ok_def by (metis diff_diff_left drop_drop drop_replicate le_add_diff_inverse2 le_add_diff_inverse)
  then have "copy_from_slice (replicate (tg_capacity tg) 0) 0 (take n (up_bytes p)) = up_bytes p"
    using cap append_take_drop_id [of n "up_bytes p"] by (simp add: copy_from_slice_def min_absorb1)
  then show ?thesis
    using written_path_field [OF assms(1,2) cap(2)] assms(4,5) path_ok_split [OF assms(2)]
    unfolding read_path_def Let_def encoded_def by simp
qed

lemma written_path_family:
  assumes "target_ok tg" "path_ok tg p"
  shows "get_family tg (fst (write_to tg (Path p) (replicate STORAGE 0))) = tg_unix tg"
proof -
  have "length (set_family tg (tg_unix tg) (replicate STORAGE 0)) = 128"
    using set_family_length [of "replicate STORAGE 0" tg "tg_unix tg"] by (simp add: STORAGE_def)
  then show ?thesis
    using assms get_set_family [of "tg_unix tg" "replicate STORAGE 0" tg] encoded_length [OF assms(2)]
    by (simp add: get_family_other target_ok_def path_ok_def SUN_PATH_OFFSET_def)
qed

lemma write_path_read:
  assumes "target_ok tg" "path_ok tg p"
    "len = sockaddr_len p \<or> as_path_bytes p \<noteq> None \<and> SUN_PATH_OFFSET + up_len p \<le> len"
  shows "read_from tg (fst (write_to tg (Path p) (replicate STORAGE 0))) len = Some (Path p)"
proof -
  define n where "n = min (len - SUN_PATH_OFFSET) (tg_capacity tg)"
  have cap: "up_len p \<le> tg_capacity tg" using assms(2) by (simp add: path_ok_def)
  have le: "up_len p \<le> n"
    using assms(3) cap by (auto simp: n_def sockaddr_len_def split: if_splits)
  have "name_length tg (up_bytes p) n = up_len p"
  proof (cases "up_len p \<noteq> 0 \<and> up_bytes p ! 0 \<noteq> 0")
    case True
    then show ?thesis using name_length_path [OF assms(2)] le by (simp add: n_def)
  next
    case False
    then have len: "len = SUN_PATH_OFFSET + up_len p"
      using assms(3) by (auto simp: sockaddr_len_def as_path_bytes_def is_unnamed_def is_abstract_def split: if_splits)
    have "tg_linux tg" if "up_len p \<noteq> 0"
      using False assms(2) that by (auto simp: path_ok_def in_set_conv_nth)
    then show ?thesis using False len cap by (auto simp: name_length_def n_def)
  qed
  then show ?thesis
    using read_written_path [OF assms(1,2) le n_def] written_path_family [OF assms(1,2)] assms(1)
    by (auto simp: read_from_def target_ok_def)
qed

section \<open>What the constructors and the kernel's bytes give\<close>

text \<open>
  The constructors exactly: when they refuse and with which error, and what an accepted
  name is.
\<close>

lemma path_new_exact:
  assumes "target_ok tg"
  shows "case path_new tg path of
      Inl e \<Rightarrow> (path = [] \<or> 0 \<in> set path) \<and> e = tg_EINVAL tg \<or>
        path \<noteq> [] \<and> 0 \<notin> set path \<and> tg_capacity tg \<le> length path \<and> e = tg_ENAMETOOLONG tg
    | Inr p \<Rightarrow> path \<noteq> [] \<and> 0 \<notin> set path \<and> length path < tg_capacity tg \<and> fits_kernel tg p \<and>
        sockaddr_len p = SUN_PATH_OFFSET + length path + 1 \<and> up_bytes p ! length path = 0 \<and>
        as_path_bytes p = Some path \<and> as_abstract_name p = None"
proof (cases "path_new tg path")
  case (Inl e)
  then show ?thesis
    using assms by (auto simp: path_new_def target_ok_def split: if_splits)
next
  case (Inr p)
  then have fits: "path \<noteq> []" "0 \<notin> set path" "length path < tg_capacity tg"
    and p: "p = \<lparr>up_bytes = path @ replicate (tg_capacity tg - length path) 0, up_len = length path\<rparr>"
    using assms by (auto simp: path_new_def copy_from_slice_def target_ok_def split: if_splits)
  then have "(path @ replicate (tg_capacity tg - length path) 0) ! 0 \<noteq> 0"
    by (cases path) auto
  then show ?thesis
    using fits Inr
    by (simp add: p path_ok_def fits_kernel_def sockaddr_len_def as_path_bytes_def as_abstract_name_def
        is_unnamed_def is_abstract_def nth_append)
qed

lemma abstract_name_exact:
  assumes "target_ok tg" "tg_linux tg"
  shows "case abstract_name tg name of
      Inl e \<Rightarrow> name = [] \<and> e = tg_EINVAL tg \<or>
        name \<noteq> [] \<and> tg_capacity tg \<le> length name \<and> e = tg_ENAMETOOLONG tg
    | Inr q \<Rightarrow> name \<noteq> [] \<and> length name < tg_capacity tg \<and> fits_kernel tg q \<and>
        sockaddr_len q = SUN_PATH_OFFSET + length name + 1 \<and>
        as_abstract_name q = Some name \<and> as_path_bytes q = None"
proof (cases "abstract_name tg name")
  case (Inl e)
  then show ?thesis
    using assms(1) by (auto simp: abstract_name_def target_ok_def split: if_splits)
next
  case (Inr q)
  then have fits: "name \<noteq> []" "length name < tg_capacity tg"
    and q: "q = \<lparr>up_bytes = 0 # name @ replicate (tg_capacity tg - Suc (length name)) 0, up_len = Suc (length name)\<rparr>"
    using assms by (cases "tg_capacity tg"; auto simp: abstract_name_def copy_from_slice_def target_ok_def split: if_splits)+
  then show ?thesis
    using assms(2) Inr
    by (simp add: q path_ok_def fits_kernel_def sockaddr_len_def as_path_bytes_def as_abstract_name_def
        is_unnamed_def is_abstract_def)
qed

lemma position_nul_Some: "position_nul bs = Some i \<Longrightarrow> i < length bs \<and> 0 \<notin> set (take i bs)"
  by (induction bs arbitrary: i) (auto split: if_splits)

lemma position_nul_None: "position_nul bs = None \<Longrightarrow> 0 \<notin> set bs"
  by (induction bs) (auto split: if_splits)

lemma read_path_ok:
  assumes "target_ok tg" "length st = STORAGE"
  shows "path_ok tg (read_path tg st len)"
proof -
  define n where "n = min (len - SUN_PATH_OFFSET) (tg_capacity tg)"
  define bytes where "bytes = copy_from_slice (replicate (tg_capacity tg) 0) 0 (field SUN_PATH_OFFSET n st)"
  define k where "k = name_length tg bytes n"
  have n: "n \<le> tg_capacity tg" "length bytes = tg_capacity tg" "0 < tg_capacity tg"
    using assms by (auto simp: n_def bytes_def copy_from_slice_def field_def target_ok_def SUN_PATH_OFFSET_def STORAGE_def)
  have k: "k \<le> n \<and> (k = 0 \<or> bytes ! 0 = 0 \<and> tg_linux tg \<or> 0 \<notin> set (take k bytes))"
  proof (cases "n = 0 \<or> bytes ! 0 = 0")
    case True
    then show ?thesis by (auto simp: k_def name_length_def)
  next
    case False
    then show ?thesis
      using position_nul_Some [of "take n bytes"] position_nul_None [of "take n bytes"] n(1,2)
      by (auto simp: k_def name_length_def min_def take_take split: option.splits if_splits)
  qed
  have "read_path tg st len = \<lparr>up_bytes = take k bytes @ replicate (tg_capacity tg - k) 0, up_len = k\<rparr>"
    by (simp add: read_path_def Let_def k_def n_def bytes_def)
  moreover have "(take k bytes @ replicate (tg_capacity tg - k) 0) ! 0 = bytes ! 0" if "k \<noteq> 0"
    using that n k by (simp add: nth_append)
  ultimately show ?thesis
    using k n by (auto simp: path_ok_def)
qed

lemma read_from_family: "read_from tg st len = Some a \<Longrightarrow> get_family tg st = addr_family tg a"
  by (auto simp: read_from_def Let_def split: if_splits)

section \<open>Properties\<close>

text \<open>
  C26: An address survives the kernel's encoding. Written into a zeroed storage and read
  back with the length that was handed to the kernel, every well-formed address is the
  same again, padding included; the family field and the length are those of the
  address. A filesystem path is found again whatever length the kernel reports for it,
  with the terminator, without it, or with slack behind it.
\<close>

theorem address_round_trip:
  assumes "target_ok tg" "addr_ok tg a" "write_to tg a (replicate STORAGE 0) = (st, len)"
  shows "read_from tg st len = Some a \<and> get_family tg st = addr_family tg a \<and> len \<le> STORAGE \<and>
    (\<forall>p path len'. a = Path p \<longrightarrow> as_path_bytes p = Some path \<longrightarrow> SUN_PATH_OFFSET + length path \<le> len' \<longrightarrow>
       read_from tg st len' = Some a)"
proof -
  have st: "st = fst (write_to tg a (replicate STORAGE 0))" "len = snd (write_to tg a (replicate STORAGE 0))"
    using assms(3) by simp_all
  have z: "length (replicate STORAGE (0 :: u8)) = STORAGE" by simp
  have tg: "tg_capacity tg \<le> 120" using assms(1) by (simp add: target_ok_def)
  show ?thesis
  proof (cases a)
    case (V4 octets port)
    then have "read_from tg st len = Some a"
      using write_v4_read [OF assms(1) z, of octets port len] assms(2) st(1) by simp
    then show ?thesis
      using read_from_family V4 st(2) by (auto simp: Let_def STORAGE_def)
  next
    case (V6 octets port)
    then have "read_from tg st len = Some a"
      using write_v6_read [OF assms(1) z, of octets port 0 len] assms(2) st(1) by simp
    then show ?thesis
      using read_from_family V6 st(2) by (auto simp: Let_def STORAGE_def write_v6_def)
  next
    case (V6Scoped octets port scope)
    then have "read_from tg st len = Some a"
      using write_v6_read [OF assms(1) z, of octets port scope len] assms(2) st(1) by simp
    then show ?thesis
      using read_from_family V6Scoped st(2) by (auto simp: Let_def STORAGE_def write_v6_def)
  next
    case (Path p)
    then have p: "path_ok tg p" using assms(2) by simp
    have "len = sockaddr_len p" using st Path by simp
    moreover have "sockaddr_len p \<le> STORAGE"
      using p tg by (simp add: sockaddr_len_def path_ok_def SUN_PATH_OFFSET_def STORAGE_def)
    moreover have "length path = up_len p" if "as_path_bytes p = Some path" for path
      using that p by (auto simp: as_path_bytes_def path_ok_def split: if_splits)
    ultimately show ?thesis
      using write_path_read [OF assms(1) p] written_path_family [OF assms(1) p] st Path by auto
  qed
qed

text \<open>Linux, and a path of four bytes.\<close>

definition linux :: target where
  "linux = \<lparr>tg_linux = True, tg_big_endian = False, tg_capacity = 108, tg_inet = 2, tg_inet6 = 10, tg_unix = 1,
     tg_EINVAL = 22, tg_ENAMETOOLONG = 36, tg_EAFNOSUPPORT = 97, tg_EINPROGRESS = 115, tg_EMSGSIZE = 90,
     tg_O_NONBLOCK = 2048, tg_FD_CLOEXEC = 1\<rparr>"

definition demo_path :: unix_path where
  "demo_path = \<lparr>up_bytes = [47, 116, 47, 115] @ replicate 104 0, up_len = 4\<rparr>"

lemma linux_ok: "target_ok linux"
  by (simp add: target_ok_def linux_def)

theorem address_round_trip_witness:
  "read_from linux (fst (write_to linux (Path demo_path) (replicate STORAGE 0))) 7 = Some (Path demo_path) \<and>
   read_from linux (fst (write_to linux (Path demo_path) (replicate STORAGE 0))) 6 = Some (Path demo_path)"
proof -
  have ok: "addr_ok linux (Path demo_path)"
    by (simp add: path_ok_def demo_path_def linux_def)
  have "write_to linux (Path demo_path) (replicate STORAGE 0) =
      (fst (write_to linux (Path demo_path) (replicate STORAGE 0)), 7)"
    by (simp add: sockaddr_len_def demo_path_def SUN_PATH_OFFSET_def)
  from address_round_trip [OF linux_ok ok this] show ?thesis
    by (simp add: as_path_bytes_def is_unnamed_def is_abstract_def demo_path_def SUN_PATH_OFFSET_def)
qed

text \<open>
  C27: Every address is well formed. \<open>UnixPath::new\<close> refuses a path with \<open>EINVAL\<close> exactly
  when it is empty or contains a NUL, and otherwise with \<open>ENAMETOOLONG\<close> exactly when it
  leaves no room for its terminator; what it accepts is a padded array with a NUL behind
  the path, which gives back exactly the path, is no abstract name, and is handed to the
  kernel with a length that counts the terminator and stays within the array. An abstract
  name, which may contain NULs, is refused exactly when it is empty or does not fit behind
  its leading NUL, and otherwise gives back exactly its bytes, is no path and is handed
  over without a terminator. And whatever bytes and length the kernel reports, an address
  that is read from them is well formed, and there is none just when the family is none of
  the three.
\<close>

theorem address_well_formed:
  assumes "target_ok tg"
  shows "(case path_new tg path of
      Inl e \<Rightarrow> (path = [] \<or> 0 \<in> set path) \<and> e = tg_EINVAL tg \<or>
        path \<noteq> [] \<and> 0 \<notin> set path \<and> tg_capacity tg \<le> length path \<and> e = tg_ENAMETOOLONG tg
    | Inr p \<Rightarrow> path \<noteq> [] \<and> 0 \<notin> set path \<and> length path < tg_capacity tg \<and> fits_kernel tg p \<and>
        sockaddr_len p = SUN_PATH_OFFSET + length path + 1 \<and> up_bytes p ! length path = 0 \<and>
        as_path_bytes p = Some path \<and> as_abstract_name p = None) \<and>
    (tg_linux tg \<longrightarrow> (case abstract_name tg name of
      Inl e \<Rightarrow> name = [] \<and> e = tg_EINVAL tg \<or>
        name \<noteq> [] \<and> tg_capacity tg \<le> length name \<and> e = tg_ENAMETOOLONG tg
    | Inr q \<Rightarrow> name \<noteq> [] \<and> length name < tg_capacity tg \<and> fits_kernel tg q \<and>
        sockaddr_len q = SUN_PATH_OFFSET + length name + 1 \<and>
        as_abstract_name q = Some name \<and> as_path_bytes q = None)) \<and>
    (length st = STORAGE \<longrightarrow> (case read_from tg st len of
      None \<Rightarrow> get_family tg st \<notin> {tg_inet tg, tg_inet6 tg, tg_unix tg}
    | Some a \<Rightarrow> addr_ok tg a \<and> addr_family tg a = get_family tg st))"
proof (intro conjI impI)
  show "case read_from tg st len of
      None \<Rightarrow> get_family tg st \<notin> {tg_inet tg, tg_inet6 tg, tg_unix tg}
    | Some a \<Rightarrow> addr_ok tg a \<and> addr_family tg a = get_family tg st" if "length st = STORAGE"
  proof (cases "read_from tg st len")
    case None
    then show ?thesis by (auto simp: read_from_def Let_def split: if_splits)
  next
    case (Some a)
    then have "addr_ok tg a"
      using read_path_ok [OF assms that] that
      by (auto simp: read_from_def Let_def field_def STORAGE_def split: if_splits)
    then show ?thesis
      using Some read_from_family [OF Some] by simp
  qed
qed (use path_new_exact [OF assms] abstract_name_exact [OF assms] in blast)+

theorem address_well_formed_witness:
  "(case path_new linux (replicate 107 47) of Inl e \<Rightarrow> False | Inr p \<Rightarrow> sockaddr_len p = 110) \<and>
   (case path_new linux (replicate 108 47) of Inl e \<Rightarrow> e = 36 | Inr p \<Rightarrow> False)"
proof
  have cap: "tg_capacity linux = 108" "tg_ENAMETOOLONG linux = 36" by (simp_all add: linux_def)
  show "case path_new linux (replicate 107 47) of Inl e \<Rightarrow> False | Inr p \<Rightarrow> sockaddr_len p = 110"
    using address_well_formed [OF linux_ok, of "replicate 107 47"] cap
    by (auto simp: SUN_PATH_OFFSET_def split: sum.splits)
  show "case path_new linux (replicate 108 47) of Inl e \<Rightarrow> e = 36 | Inr p \<Rightarrow> False"
    using address_well_formed [OF linux_ok, of "replicate 108 47"] cap by (auto split: sum.splits)
qed

end
