(* ===== verification/Sockets.thy ===== *)
theory Sockets
  imports SockAddr "HOL-Library.Multiset"
begin

text \<open>
  Sockets over libc (\<open>src/src/reactor/socket.rs\<close>): the creation of stream and datagram
  sockets, connecting, binding, listening and accepting, options, addresses, and the
  send and receive calls, for Linux and for the BSDs.

  The kernel is a parameter: a function from its state and a system call to its state
  and an answer, of which nothing is assumed. The model runs the code against it and
  keeps the log of the calls made and answers given; an operation returns an error or
  a value. An owned descriptor that goes out of scope on an early return is closed
  there, as \<open>Fd::drop\<close> does. The result is the accounting of descriptors: the operations
  close what they opened or return it. One path does not, and is proved to leak.
\<close>

unbundle bit_operations_syntax

section \<open>System calls\<close>

type_synonym fd = int

datatype sock_type = SOCK_STREAM | SOCK_DGRAM

datatype sockopt = SO_NOSIGPIPE | SO_REUSEADDR | SO_REUSEPORT | SO_RCVBUF | SO_SNDBUF | SO_ERROR
  | TCP_NODELAY | IPV6_V6ONLY

text \<open>
  The flag of \<open>Socket\<close> and \<open>Accept\<close> is non-blocking and close-on-exec in the call
  itself; that of \<open>Socket\<close> after it is \<open>IPPROTO_UDP\<close>; that of \<open>Sendmsg\<close> and \<open>Sendto\<close> is
  \<open>MSG_NOSIGNAL\<close>.
\<close>

datatype syscall =
    Socket nat sock_type bool bool
  | Fcntl_GETFL fd
  | Fcntl_SETFL fd int
  | Fcntl_GETFD fd
  | Fcntl_SETFD fd int
  | Setsockopt fd sockopt int
  | Getsockopt fd sockopt
  | Ioctl_FIONREAD fd
  | Bind fd "u8 list" nat
  | Listen fd int
  | Connect fd "u8 list" nat
  | Accept fd bool
  | Getsockname fd
  | Getpeername fd
  | Close fd
  | Recv fd nat
  | Sendmsg fd "u8 list list" bool
  | Recvmsg fd nat
  | Sendto fd "u8 list" bool "(u8 list \<times> nat) option"

text \<open>
  What a call returns, the error number it leaves, and what it writes: an integer, an
  address with its length, data, and the truncation flag of a message.
\<close>

record answer =
  an_value :: int
  an_errno :: errno
  an_int :: int
  an_storage :: "u8 list"
  an_len :: nat
  an_data :: "u8 list"
  an_truncated :: bool

type_synonym 'k os = "'k \<times> (syscall \<times> answer) list"

definition call :: "('k \<Rightarrow> syscall \<Rightarrow> 'k \<times> answer) \<Rightarrow> syscall \<Rightarrow> 'k os \<Rightarrow> 'k os \<times> answer" where
  "call sys c s = (case sys (fst s) c of (k, a) \<Rightarrow> ((k, snd s @ [(c, a)]), a))"

definition check :: "answer \<Rightarrow> errno + int" where
  "check a = (if an_value a < 0 then Inl (an_errno a) else Inr (an_value a))"

text \<open>A call whose result is checked, one that is not, sequencing with \<open>?\<close>, and an owned descriptor's scope.\<close>

definition checked :: "('k \<Rightarrow> syscall \<Rightarrow> 'k \<times> answer) \<Rightarrow> syscall \<Rightarrow> 'k os \<Rightarrow> 'k os \<times> (errno + int)" where
  "checked sys c s = (case call sys c s of (s', a) \<Rightarrow> (s', check a))"

definition ignored :: "('k \<Rightarrow> syscall \<Rightarrow> 'k \<times> answer) \<Rightarrow> syscall \<Rightarrow> 'k os \<Rightarrow> 'k os \<times> (errno + answer)" where
  "ignored sys c s = (case call sys c s of (s', a) \<Rightarrow> (s', Inr a))"

definition ret :: "'a \<Rightarrow> 'k os \<Rightarrow> 'k os \<times> (errno + 'a)" where
  "ret v s = (s, Inr v)"

definition fail :: "errno \<Rightarrow> 'k os \<Rightarrow> 'k os \<times> (errno + 'a)" where
  "fail e s = (s, Inl e)"

definition try_then ::
  "('k os \<Rightarrow> 'k os \<times> (errno + 'a)) \<Rightarrow> ('a \<Rightarrow> 'k os \<Rightarrow> 'k os \<times> (errno + 'b)) \<Rightarrow> 'k os \<Rightarrow> 'k os \<times> (errno + 'b)" where
  "try_then m f s = (case m s of (s', Inl e) \<Rightarrow> (s', Inl e) | (s', Inr v) \<Rightarrow> f v s')"

definition owning ::
  "('k \<Rightarrow> syscall \<Rightarrow> 'k \<times> answer) \<Rightarrow> fd \<Rightarrow> ('k os \<Rightarrow> 'k os \<times> (errno + 'a)) \<Rightarrow> 'k os \<Rightarrow> 'k os \<times> (errno + 'a)" where
  "owning sys fd m s =
     (case m s of (s', Inl e) \<Rightarrow> (fst (call sys (Close fd) s'), Inl e) | (s', Inr v) \<Rightarrow> (s', Inr v))"

definition fd_drop :: "('k \<Rightarrow> syscall \<Rightarrow> 'k \<times> answer) \<Rightarrow> fd \<Rightarrow> 'k os \<Rightarrow> 'k os" where
  "fd_drop sys fd s = fst (call sys (Close fd) s)"

section \<open>Options and addresses\<close>

definition set_flag :: "('k \<Rightarrow> syscall \<Rightarrow> 'k \<times> answer) \<Rightarrow> fd \<Rightarrow> sockopt \<Rightarrow> bool \<Rightarrow> 'k os \<Rightarrow> 'k os \<times> (errno + unit)" where
  "set_flag sys fd name on = try_then (checked sys (Setsockopt fd name (if on then 1 else 0))) (\<lambda>_. ret ())"

definition set_socket_int ::
  "('k \<Rightarrow> syscall \<Rightarrow> 'k \<times> answer) \<Rightarrow> target \<Rightarrow> fd \<Rightarrow> sockopt \<Rightarrow> usize \<Rightarrow> 'k os \<Rightarrow> 'k os \<times> (errno + unit)" where
  "set_socket_int sys tg fd name value =
     (if 2 ^ 31 \<le> uint value then fail (tg_EINVAL tg)
      else try_then (checked sys (Setsockopt fd name (uint value))) (\<lambda>_. ret ()))"

definition set_nodelay :: "('k \<Rightarrow> syscall \<Rightarrow> 'k \<times> answer) \<Rightarrow> fd \<Rightarrow> bool \<Rightarrow> 'k os \<Rightarrow> 'k os \<times> (errno + unit)" where
  "set_nodelay sys fd on = set_flag sys fd TCP_NODELAY on"

definition addr_of :: "('k \<Rightarrow> syscall \<Rightarrow> 'k \<times> answer) \<Rightarrow> target \<Rightarrow> fd \<Rightarrow> bool \<Rightarrow> 'k os \<Rightarrow> 'k os \<times> (errno + addr)" where
  "addr_of sys tg fd peer s =
     (case call sys (if peer then Getpeername fd else Getsockname fd) s of (s', a) \<Rightarrow>
        case check a of
          Inl e \<Rightarrow> (s', Inl e)
        | Inr _ \<Rightarrow> (case read_from tg (an_storage a) (an_len a) of
            Some addr \<Rightarrow> (s', Inr addr) | None \<Rightarrow> (s', Inl (tg_EAFNOSUPPORT tg))))"

definition connect_error :: "('k \<Rightarrow> syscall \<Rightarrow> 'k \<times> answer) \<Rightarrow> fd \<Rightarrow> 'k os \<Rightarrow> 'k os \<times> (errno + unit)" where
  "connect_error sys fd s =
     (case call sys (Getsockopt fd SO_ERROR) s of (s', a) \<Rightarrow>
        case check a of
          Inl e \<Rightarrow> (s', Inl e)
        | Inr _ \<Rightarrow> if an_int a = 0 then (s', Inr ()) else (s', Inl (an_int a)))"

text \<open>\<open>pending\<close> and \<open>send_buffer\<close>: a failure or a negative number is \<open>None\<close>.\<close>

definition pending :: "('k \<Rightarrow> syscall \<Rightarrow> 'k \<times> answer) \<Rightarrow> fd \<Rightarrow> 'k os \<Rightarrow> 'k os \<times> nat option" where
  "pending sys fd s =
     (case call sys (Ioctl_FIONREAD fd) s of (s', a) \<Rightarrow>
        (s', if an_value a < 0 \<or> an_int a < 0 then None else Some (nat (an_int a))))"

definition send_buffer_size :: "('k \<Rightarrow> syscall \<Rightarrow> 'k \<times> answer) \<Rightarrow> fd \<Rightarrow> 'k os \<Rightarrow> 'k os \<times> nat option" where
  "send_buffer_size sys fd s =
     (case call sys (Getsockopt fd SO_SNDBUF) s of (s', a) \<Rightarrow>
        (s', if an_value a < 0 \<or> an_int a < 0 then None else Some (nat (an_int a))))"

section \<open>Creating sockets\<close>

definition stream_socket ::
  "('k \<Rightarrow> syscall \<Rightarrow> 'k \<times> answer) \<Rightarrow> target \<Rightarrow> addr \<Rightarrow> 'k os \<Rightarrow> 'k os \<times> (errno + fd)" where
  "stream_socket sys tg addr =
     try_then (checked sys (Socket (addr_family tg addr) SOCK_STREAM (tg_linux tg) False)) (\<lambda>raw.
       if tg_linux tg then ret raw
       else try_then (ignored sys (Fcntl_GETFL raw)) (\<lambda>flags.
         try_then (ignored sys (Fcntl_SETFL raw (an_value flags OR tg_O_NONBLOCK tg))) (\<lambda>_.
         try_then (ignored sys (Fcntl_SETFD raw (tg_FD_CLOEXEC tg))) (\<lambda>_.
         try_then (ignored sys (Setsockopt raw SO_NOSIGPIPE 1)) (\<lambda>_. ret raw)))))"

definition datagram_flags ::
  "('k \<Rightarrow> syscall \<Rightarrow> 'k \<times> answer) \<Rightarrow> target \<Rightarrow> fd \<Rightarrow> 'k os \<Rightarrow> 'k os \<times> (errno + unit)" where
  "datagram_flags sys tg fd =
     (if tg_linux tg then ret ()
      else try_then (checked sys (Fcntl_GETFL fd)) (\<lambda>flags.
        try_then (checked sys (Fcntl_SETFL fd (flags OR tg_O_NONBLOCK tg))) (\<lambda>_.
        try_then (checked sys (Fcntl_GETFD fd)) (\<lambda>flags.
        try_then (checked sys (Fcntl_SETFD fd (flags OR tg_FD_CLOEXEC tg))) (\<lambda>_.
        set_flag sys fd SO_NOSIGPIPE True)))))"

definition datagram_socket ::
  "('k \<Rightarrow> syscall \<Rightarrow> 'k \<times> answer) \<Rightarrow> target \<Rightarrow> addr \<Rightarrow> 'k os \<Rightarrow> 'k os \<times> (errno + fd)" where
  "datagram_socket sys tg addr =
     try_then (checked sys (Socket (addr_family tg addr) SOCK_DGRAM (tg_linux tg) (addr_family tg addr \<noteq> tg_unix tg))) (\<lambda>fd.
       owning sys fd (try_then (datagram_flags sys tg fd) (\<lambda>_.
         if addr_family tg addr = tg_inet6 tg then try_then (set_flag sys fd IPV6_V6ONLY True) (\<lambda>_. ret fd)
         else ret fd)))"

section \<open>Streams\<close>

definition tcp_connect ::
  "('k \<Rightarrow> syscall \<Rightarrow> 'k \<times> answer) \<Rightarrow> target \<Rightarrow> addr \<Rightarrow> 'k os \<Rightarrow> 'k os \<times> (errno + fd)" where
  "tcp_connect sys tg addr =
     try_then (stream_socket sys tg addr) (\<lambda>fd. owning sys fd (\<lambda>s.
       case write_to tg addr (replicate STORAGE 0) of (storage, len) \<Rightarrow>
       case call sys (Connect fd storage len) s of (s, a) \<Rightarrow>
         if an_value a < 0 \<and> an_errno a \<noteq> tg_EINPROGRESS tg then (s, Inl (an_errno a))
         else if addr_family tg addr \<noteq> tg_unix tg then try_then (set_nodelay sys fd True) (\<lambda>_. ret fd) s
         else (s, Inr fd)))"

definition tcp_recv :: "('k \<Rightarrow> syscall \<Rightarrow> 'k \<times> answer) \<Rightarrow> fd \<Rightarrow> nat \<Rightarrow> 'k os \<Rightarrow> 'k os \<times> (errno + u8 list)" where
  "tcp_recv sys fd len s =
     (case call sys (Recv fd len) s of (s', a) \<Rightarrow>
        (s', if an_value a < 0 then Inl (an_errno a) else Inr (take (nat (an_value a)) (an_data a))))"

text \<open>An empty first slice is left out of the vector.\<close>

definition send_vectored ::
  "('k \<Rightarrow> syscall \<Rightarrow> 'k \<times> answer) \<Rightarrow> target \<Rightarrow> fd \<Rightarrow> u8 list \<Rightarrow> u8 list \<Rightarrow> 'k os \<Rightarrow> 'k os \<times> (errno + nat)" where
  "send_vectored sys tg fd first second s =
     (case call sys (Sendmsg fd (if first = [] then [second] else [first, second]) (tg_linux tg)) s of (s', a) \<Rightarrow>
        (s', if an_value a < 0 then Inl (an_errno a) else Inr (nat (an_value a))))"

section \<open>Datagrams\<close>

record udp_socket =
  us_fd :: fd
  us_family :: "nat option"

definition udp_bind_with_reuse ::
  "('k \<Rightarrow> syscall \<Rightarrow> 'k \<times> answer) \<Rightarrow> target \<Rightarrow> addr \<Rightarrow> bool \<Rightarrow> 'k os \<Rightarrow> 'k os \<times> (errno + udp_socket)" where
  "udp_bind_with_reuse sys tg addr reuse_addr =
     try_then (datagram_socket sys tg addr) (\<lambda>fd. owning sys fd (
       try_then (if reuse_addr \<and> addr_family tg addr \<noteq> tg_unix tg then set_flag sys fd SO_REUSEADDR True else ret ()) (\<lambda>_.
       case write_to tg addr (replicate STORAGE 0) of (storage, len) \<Rightarrow>
       try_then (checked sys (Bind fd storage len)) (\<lambda>_.
         ret \<lparr>us_fd = fd, us_family = Some (addr_family tg addr)\<rparr>))))"

definition udp_from_raw ::
  "('k \<Rightarrow> syscall \<Rightarrow> 'k \<times> answer) \<Rightarrow> target \<Rightarrow> fd \<Rightarrow> 'k os \<Rightarrow> 'k os \<times> udp_socket" where
  "udp_from_raw sys tg fd s =
     (case addr_of sys tg fd False s of
        (s', Inr addr) \<Rightarrow> (s', \<lparr>us_fd = fd, us_family = Some (addr_family tg addr)\<rparr>)
      | (s', Inl _) \<Rightarrow> (s', \<lparr>us_fd = fd, us_family = None\<rparr>))"

definition wrong_family :: "target \<Rightarrow> udp_socket \<Rightarrow> addr \<Rightarrow> bool" where
  "wrong_family tg u addr = (case us_family u of None \<Rightarrow> False | Some f \<Rightarrow> addr_family tg addr \<noteq> f)"

definition udp_connect ::
  "('k \<Rightarrow> syscall \<Rightarrow> 'k \<times> answer) \<Rightarrow> target \<Rightarrow> udp_socket \<Rightarrow> addr \<Rightarrow> 'k os \<Rightarrow> 'k os \<times> (errno + unit)" where
  "udp_connect sys tg u addr =
     (if wrong_family tg u addr then fail (tg_EAFNOSUPPORT tg)
      else case write_to tg addr (replicate STORAGE 0) of (storage, len) \<Rightarrow>
        try_then (checked sys (Connect (us_fd u) storage len)) (\<lambda>_. ret ()))"

record received =
  rc_len :: nat
  rc_source :: addr
  rc_truncated :: bool

definition recv_datagram ::
  "('k \<Rightarrow> syscall \<Rightarrow> 'k \<times> answer) \<Rightarrow> target \<Rightarrow> udp_socket \<Rightarrow> nat \<Rightarrow> 'k os \<Rightarrow> 'k os \<times> (errno + received)" where
  "recv_datagram sys tg u len s =
     (case call sys (Recvmsg (us_fd u) len) s of (s', a) \<Rightarrow>
        if an_value a < 0 then (s', Inl (an_errno a))
        else case read_from tg (an_storage a) (an_len a) of
          None \<Rightarrow> (s', Inl (tg_EAFNOSUPPORT tg))
        | Some source \<Rightarrow> (s', Inr \<lparr>rc_len = min (nat (an_value a)) len, rc_source = source,
            rc_truncated = (an_truncated a \<or> len < nat (an_value a))\<rparr>))"

definition send_datagram ::
  "('k \<Rightarrow> syscall \<Rightarrow> 'k \<times> answer) \<Rightarrow> target \<Rightarrow> udp_socket \<Rightarrow> u8 list \<Rightarrow> addr option \<Rightarrow> 'k os \<Rightarrow> 'k os \<times> (errno + nat)" where
  "send_datagram sys tg u buffer destination s =
     (if (case destination of None \<Rightarrow> False | Some d \<Rightarrow> wrong_family tg u d) then (s, Inl (tg_EAFNOSUPPORT tg))
      else case call sys (Sendto (us_fd u) buffer (tg_linux tg)
              (map_option (\<lambda>d. write_to tg d (replicate STORAGE 0)) destination)) s of (s', a) \<Rightarrow>
        (s', if an_value a < 0 then Inl (an_errno a)
             else if nat (an_value a) \<noteq> length buffer then Inl (tg_EMSGSIZE tg)
             else Inr (nat (an_value a))))"

section \<open>Listeners\<close>

record listener =
  li_fd :: fd
  li_family :: nat

definition bind_with ::
  "('k \<Rightarrow> syscall \<Rightarrow> 'k \<times> answer) \<Rightarrow> target \<Rightarrow> addr \<Rightarrow> int \<Rightarrow> bool \<Rightarrow> 'k os \<Rightarrow> 'k os \<times> (errno + listener)" where
  "bind_with sys tg addr backlog reuse_port =
     (let family = addr_family tg addr in
      try_then (stream_socket sys tg addr) (\<lambda>fd. owning sys fd (
        try_then (if family \<noteq> tg_unix tg then set_flag sys fd SO_REUSEADDR True else ret ()) (\<lambda>_.
        try_then (if reuse_port then set_flag sys fd SO_REUSEPORT True else ret ()) (\<lambda>_.
        case write_to tg addr (replicate STORAGE 0) of (storage, len) \<Rightarrow>
        try_then (checked sys (Bind fd storage len)) (\<lambda>_.
        try_then (checked sys (Listen fd backlog)) (\<lambda>_. ret \<lparr>li_fd = fd, li_family = family\<rparr>)))))))"

definition bind_shared ::
  "('k \<Rightarrow> syscall \<Rightarrow> 'k \<times> answer) \<Rightarrow> target \<Rightarrow> addr \<Rightarrow> int \<Rightarrow> 'k os \<Rightarrow> 'k os \<times> (errno + listener)" where
  "bind_shared sys tg addr backlog =
     (if addr_family tg addr = tg_unix tg then fail (tg_EINVAL tg) else bind_with sys tg addr backlog True)"

text \<open>What \<open>accept\<close> does to a new descriptor outside Linux.\<close>

definition accept_flags ::
  "('k \<Rightarrow> syscall \<Rightarrow> 'k \<times> answer) \<Rightarrow> target \<Rightarrow> fd \<Rightarrow> 'k os \<Rightarrow> 'k os \<times> (errno + unit)" where
  "accept_flags sys tg raw =
     (if tg_linux tg then ret ()
      else try_then (ignored sys (Fcntl_GETFL raw)) (\<lambda>flags.
        try_then (ignored sys (Fcntl_SETFL raw (an_value flags OR tg_O_NONBLOCK tg))) (\<lambda>_.
        try_then (ignored sys (Fcntl_SETFD raw (tg_FD_CLOEXEC tg))) (\<lambda>_.
        try_then (ignored sys (Setsockopt raw SO_NOSIGPIPE 1)) (\<lambda>_. ret ())))))"

definition accepted_addr :: "target \<Rightarrow> listener \<Rightarrow> answer \<Rightarrow> addr option" where
  "accepted_addr tg l a =
     (case read_from tg (an_storage a) (an_len a) of
        Some addr \<Rightarrow> Some addr
      | None \<Rightarrow> if li_family l = tg_unix tg then Some (Path (unnamed tg)) else None)"

definition tcp_accept ::
  "('k \<Rightarrow> syscall \<Rightarrow> 'k \<times> answer) \<Rightarrow> target \<Rightarrow> listener \<Rightarrow> 'k os \<Rightarrow> 'k os \<times> (errno + fd \<times> addr)" where
  "tcp_accept sys tg l s =
     (case call sys (Accept (li_fd l) (tg_linux tg)) s of (s, a) \<Rightarrow>
        case check a of
          Inl e \<Rightarrow> (s, Inl e)
        | Inr raw \<Rightarrow>
            try_then (accept_flags sys tg raw) (\<lambda>_.
              case accepted_addr tg l a of
                None \<Rightarrow> fail (tg_EAFNOSUPPORT tg)
              | Some addr \<Rightarrow> owning sys raw (
                  if li_family l \<noteq> tg_unix tg then try_then (set_nodelay sys raw True) (\<lambda>_. ret (raw, addr))
                  else ret (raw, addr))) s)"

section \<open>Accounting for descriptors\<close>

text \<open>The descriptors a log of calls opened and closed.\<close>

fun opens :: "syscall \<times> answer \<Rightarrow> fd multiset" where
  "opens (Socket _ _ _ _, a) = (if an_value a < 0 then {#} else {#an_value a#})"
| "opens (Accept _ _, a) = (if an_value a < 0 then {#} else {#an_value a#})"
| "opens _ = {#}"

fun closes :: "syscall \<times> answer \<Rightarrow> fd multiset" where
  "closes (Close fd, _) = {#fd#}"
| "closes _ = {#}"

definition opened :: "(syscall \<times> answer) list \<Rightarrow> fd multiset" where
  "opened log = sum_list (map opens log)"

definition closed :: "(syscall \<times> answer) list \<Rightarrow> fd multiset" where
  "closed log = sum_list (map closes log)"

text \<open>
  An operation that starts with the descriptors \<open>A\<close>: if it returns \<open>v\<close>, what is open
  is \<open>own v\<close>; if it fails, \<open>E\<close>.
\<close>

definition balanced ::
  "fd multiset \<Rightarrow> fd multiset \<Rightarrow> ('a \<Rightarrow> fd multiset) \<Rightarrow> ('k os \<Rightarrow> 'k os \<times> (errno + 'a)) \<Rightarrow> bool" where
  "balanced A E own m \<longleftrightarrow> (\<forall>s s' r. m s = (s', r) \<longrightarrow>
     (\<exists>new. snd s' = snd s @ new \<and> A + opened new = closed new + (case r of Inl _ \<Rightarrow> E | Inr v \<Rightarrow> own v)))"

named_theorems balance \<open>rules for the descriptors of an operation\<close>

lemma opened_closed_simps [simp]:
  "opened [] = {#}" "closed [] = {#}" "opened (xs @ ys) = opened xs + opened ys" "closed (xs @ ys) = closed xs + closed ys"
  "opened [x] = opens x" "closed [x] = closes x"
  by (simp_all add: opened_def closed_def)

lemma call_log: "call sys c s = (s', a) \<Longrightarrow> snd s' = snd s @ [(c, a)]"
  by (auto simp: call_def split: prod.splits)

lemma balanced_ret [balance]: "own v = A \<Longrightarrow> balanced A E own (ret v)"
  by (auto simp: balanced_def ret_def)

lemma balanced_fail [balance]: "balanced A A own (fail e)"
  by (auto simp: balanced_def fail_def)

text \<open>A call that neither opens nor closes.\<close>

definition neutral :: "syscall \<Rightarrow> bool" where
  "neutral c \<longleftrightarrow> (\<forall>a. opens (c, a) = {#} \<and> closes (c, a) = {#})"

lemma neutral_simps [simp]:
  "neutral (Fcntl_GETFL fd)" "neutral (Fcntl_SETFL fd i)" "neutral (Fcntl_GETFD fd)" "neutral (Fcntl_SETFD fd i)"
  "neutral (Setsockopt fd n i)" "neutral (Getsockopt fd n)" "neutral (Bind fd st len)" "neutral (Listen fd i)"
  "neutral (Connect fd st len)" "neutral (Getsockname fd)" "neutral (Getpeername fd)"
  by (simp_all add: neutral_def)

lemma balanced_checked [balance]: "neutral c \<Longrightarrow> balanced A A (\<lambda>_. A) (checked sys c)"
  unfolding balanced_def checked_def
  by (auto split: prod.splits sum.splits simp: neutral_def dest!: call_log)

lemma balanced_ignored [balance]: "neutral c \<Longrightarrow> balanced A E (\<lambda>_. A) (ignored sys c)"
  unfolding balanced_def ignored_def
  by (auto split: prod.splits simp: neutral_def dest!: call_log)

lemma balanced_socket [balance]: "balanced A A (\<lambda>fd. add_mset fd A) (checked sys (Socket f t b p))"
  unfolding balanced_def checked_def check_def
  by (auto split: prod.splits dest!: call_log)

lemma balanced_then:
  assumes "balanced A E own m" "\<And>v. balanced (own v) E own' (f v)"
  shows "balanced A E own' (try_then m f)"
  unfolding balanced_def
proof (intro allI impI)
  fix s s' r
  assume run: "try_then m f s = (s', r)"
  obtain s1 r1 where m: "m s = (s1, r1)" by fastforce
  with assms(1) obtain new where new: "snd s1 = snd s @ new"
    "A + opened new = closed new + (case r1 of Inl _ \<Rightarrow> E | Inr v \<Rightarrow> own v)"
    unfolding balanced_def by blast
  show "\<exists>new. snd s' = snd s @ new \<and> A + opened new = closed new + (case r of Inl _ \<Rightarrow> E | Inr v \<Rightarrow> own' v)"
  proof (cases r1)
    case (Inl e)
    then show ?thesis using run m new by (auto simp: try_then_def)
  next
    case (Inr v)
    then have "f v s1 = (s', r)" using run m by (simp add: try_then_def)
    with assms(2) [of v] obtain new' where new': "snd s' = snd s1 @ new'"
      "own v + opened new' = closed new' + (case r of Inl _ \<Rightarrow> E | Inr v \<Rightarrow> own' v)"
      unfolding balanced_def by blast
    have "A + opened (new @ new') = closed new + (own v + opened new')"
      using new(2) Inr by (simp add: ac_simps)
    also have "\<dots> = closed (new @ new') + (case r of Inl _ \<Rightarrow> E | Inr v \<Rightarrow> own' v)"
      using new'(2) by (simp add: ac_simps)
    finally show ?thesis using new(1) new'(1) by (intro exI [of _ "new @ new'"]) simp
  qed
qed

lemma balanced_owning:
  assumes "balanced (add_mset fd A) (add_mset fd A) own m"
  shows "balanced (add_mset fd A) A own (owning sys fd m)"
  unfolding balanced_def
proof (intro allI impI)
  fix s s' r
  assume run: "owning sys fd m s = (s', r)"
  obtain s1 r1 where m: "m s = (s1, r1)" by fastforce
  with assms obtain new where new: "snd s1 = snd s @ new"
    "add_mset fd A + opened new = closed new + (case r1 of Inl _ \<Rightarrow> add_mset fd A | Inr v \<Rightarrow> own v)"
    unfolding balanced_def by blast
  show "\<exists>new. snd s' = snd s @ new \<and> add_mset fd A + opened new = closed new + (case r of Inl _ \<Rightarrow> A | Inr v \<Rightarrow> own v)"
  proof (cases r1)
    case (Inl e)
    obtain s2 a where c: "call sys (Close fd) s1 = (s2, a)" by fastforce
    then have "s' = s2" "r = Inl e" using run m Inl by (auto simp: owning_def)
    moreover have "add_mset fd A + opened (new @ [(Close fd, a)]) = closed (new @ [(Close fd, a)]) + A"
      using new(2) Inl by (simp add: ac_simps)
    ultimately show ?thesis
      using new(1) call_log [OF c] by (intro exI [of _ "new @ [(Close fd, a)]"]) simp
  next
    case (Inr v)
    then show ?thesis using run m new by (auto simp: owning_def)
  qed
qed

lemma balanced_cases:
  "(b \<Longrightarrow> balanced A E own m) \<Longrightarrow> (\<not> b \<Longrightarrow> balanced A E own n) \<Longrightarrow> balanced A E own (if b then m else n)"
  "(\<And>x y. balanced A E own (f x y)) \<Longrightarrow> balanced A E own (case p of (x, y) \<Rightarrow> f x y)"
  by (cases p; simp)+

lemma balanced_set_flag [balance]: "balanced A A (\<lambda>_. A) (set_flag sys fd name on)"
  unfolding set_flag_def by (rule balanced_then [OF balanced_checked]) (simp_all add: balanced_ret)

lemma balanced_set_nodelay [balance]: "balanced A A (\<lambda>_. A) (set_nodelay sys fd on)"
  unfolding set_nodelay_def by (rule balanced_set_flag)

text \<open>Most calls change nothing about the descriptors.\<close>

lemma balanced_keep:
  "balanced A E (\<lambda>_. A) m \<Longrightarrow> (\<And>v. balanced A E own (f v)) \<Longrightarrow> balanced A E own (try_then m f)"
  by (rule balanced_then)

lemmas balanced_steps = balanced_keep balanced_cases balanced_ret balanced_ignored balanced_checked
  balanced_set_flag balanced_set_nodelay balanced_fail refl neutral_simps

lemma balanced_stream_socket: "balanced A A (\<lambda>fd. add_mset fd A) (stream_socket sys tg addr)"
  unfolding stream_socket_def
  by (rule balanced_then [OF balanced_socket]) (rule balanced_steps)+

lemma balanced_datagram_flags: "balanced A A (\<lambda>_. A) (datagram_flags sys tg fd)"
  unfolding datagram_flags_def by (rule balanced_steps)+

lemma balanced_datagram_socket: "balanced A A (\<lambda>fd. add_mset fd A) (datagram_socket sys tg addr)"
  unfolding datagram_socket_def
  by (rule balanced_then [OF balanced_socket], rule balanced_owning)
    (rule balanced_datagram_flags balanced_steps)+

lemma balanced_connect_call:
  "balanced A A (\<lambda>_. A) (\<lambda>s. case call sys (Connect fd st len) s of (s, a) \<Rightarrow>
     if an_value a < 0 \<and> an_errno a \<noteq> e then (s, Inl (an_errno a)) else (s, Inr ()))"
  unfolding balanced_def by (auto split: prod.splits if_splits dest!: call_log)

lemma tcp_connect_then:
  "(\<lambda>s. case write_to tg addr st0 of (storage, len) \<Rightarrow> case call sys (Connect fd storage len) s of (s, a) \<Rightarrow>
      if an_value a < 0 \<and> an_errno a \<noteq> e then (s, Inl (an_errno a))
      else if b then m s else (s, Inr fd)) =
   try_then (\<lambda>s. case call sys (Connect fd (fst (write_to tg addr st0)) (snd (write_to tg addr st0))) s of (s, a) \<Rightarrow>
      if an_value a < 0 \<and> an_errno a \<noteq> e then (s, Inl (an_errno a)) else (s, Inr ()))
     (\<lambda>_. if b then m else ret fd)"
  by (auto simp: fun_eq_iff try_then_def ret_def split: prod.splits)

lemma balanced_tcp_connect: "balanced A A (\<lambda>fd. add_mset fd A) (tcp_connect sys tg addr)"
  unfolding tcp_connect_def tcp_connect_then
  by (rule balanced_then [OF balanced_stream_socket], rule balanced_owning)
    (rule balanced_connect_call balanced_steps)+

lemma balanced_udp_bind: "balanced A A (\<lambda>u. add_mset (us_fd u) A) (udp_bind_with_reuse sys tg addr reuse)"
  unfolding udp_bind_with_reuse_def
  by (rule balanced_then [OF balanced_datagram_socket], rule balanced_owning)
    (rule balanced_steps | simp)+

lemma balanced_bind_with: "balanced A A (\<lambda>l. add_mset (li_fd l) A) (bind_with sys tg addr backlog reuse)"
  unfolding bind_with_def Let_def
  by (rule balanced_then [OF balanced_stream_socket], rule balanced_owning)
    (rule balanced_steps | simp)+

text \<open>\<open>accept\<close>, when the peer's address can be read or the listener is a Unix-domain one.\<close>

lemma balanced_accept_flags: "balanced A E (\<lambda>_. A) (accept_flags sys tg fd)"
  unfolding accept_flags_def by (rule balanced_steps)+

lemma balancedD:
  "balanced A E own m \<Longrightarrow> m s = (s', r) \<Longrightarrow>
     \<exists>new. snd s' = snd s @ new \<and> A + opened new = closed new + (case r of Inl _ \<Rightarrow> E | Inr v \<Rightarrow> own v)"
  unfolding balanced_def by blast

lemma balanced_accepted:
  "balanced (add_mset raw A) A (\<lambda>v. add_mset (fst v) A)
    (try_then (accept_flags sys tg raw) (\<lambda>_. owning sys raw (
       if b then try_then (set_nodelay sys raw True) (\<lambda>_. ret (raw, addr)) else ret (raw, addr))))"
  by (rule balanced_keep [OF balanced_accept_flags], rule balanced_owning) (rule balanced_steps | simp)+

lemma balanced_accept_unknown:
  "balanced (add_mset raw A) (add_mset raw A) own (try_then (accept_flags sys tg raw) (\<lambda>_. fail e))"
  by (rule balanced_keep [OF balanced_accept_flags]) (rule balanced_fail)

lemma accept_unknown_result:
  "try_then (accept_flags sys tg raw) (\<lambda>_. fail e) s = (s', r) \<Longrightarrow> r = Inl e"
  by (auto simp: accept_flags_def try_then_def ignored_def ret_def fail_def call_def split: prod.splits sum.splits if_splits)

lemma tcp_accept_balance:
  assumes "tcp_accept sys tg l s = (s', r)"
  shows "\<exists>a rest. snd s' = snd s @ (Accept (li_fd l) (tg_linux tg), a) # rest \<and>
    opened ((Accept (li_fd l) (tg_linux tg), a) # rest) = closed rest +
      (case r of
         Inr (fd, _) \<Rightarrow> {#fd#}
       | Inl _ \<Rightarrow> if 0 \<le> an_value a \<and> accepted_addr tg l a = None then {#an_value a#} else {#}) \<and>
    (an_value a < 0 \<or> (\<exists>peer. accepted_addr tg l a = Some peer) \<or> r = Inl (tg_EAFNOSUPPORT tg))"
proof -
  obtain s1 a where c: "call sys (Accept (li_fd l) (tg_linux tg)) s = (s1, a)" by fastforce
  note log = call_log [OF c]
  have cons: "opened ((Accept (li_fd l) (tg_linux tg), a) # rest) =
      (if an_value a < 0 then {#} else {#an_value a#}) + opened rest" for rest
    using opened_closed_simps(3) [of "[(Accept (li_fd l) (tg_linux tg), a)]" rest] by simp
  show ?thesis
  proof (cases "an_value a < 0")
    case True
    then show ?thesis
      using assms c log cons [of "[]"] by (auto simp: tcp_accept_def check_def intro!: exI [of _ a] exI [of _ "[]"])
  next
    case False
    show ?thesis
    proof (cases "accepted_addr tg l a")
      case None
      then have run: "try_then (accept_flags sys tg (an_value a)) (\<lambda>_. fail (tg_EAFNOSUPPORT tg)) s1 = (s', r)"
        using assms c False by (simp add: tcp_accept_def check_def)
      obtain rest where "snd s' = snd s1 @ rest"
        "{#an_value a#} + opened rest = closed rest + (case r of Inl _ \<Rightarrow> {#an_value a#} | Inr v \<Rightarrow> {#})"
        using balancedD [OF balanced_accept_unknown [of _ "{#}"] run] by blast
      then show ?thesis
        using log cons [of rest] False None accept_unknown_result [OF run]
        by (intro exI [of _ a] exI [of _ rest]) simp
    next
      case (Some addr)
      have run: "try_then (accept_flags sys tg (an_value a)) (\<lambda>_. owning sys (an_value a) (
          if li_family l \<noteq> tg_unix tg then try_then (set_nodelay sys (an_value a) True) (\<lambda>_. ret (an_value a, addr))
          else ret (an_value a, addr))) s1 = (s', r)"
        using assms c False Some by (simp add: tcp_accept_def check_def)
      obtain rest where "snd s' = snd s1 @ rest"
        "{#an_value a#} + opened rest = closed rest + (case r of Inl _ \<Rightarrow> {#} | Inr v \<Rightarrow> {#fst v#})"
        using balancedD [OF balanced_accepted run, of "{#}"] by blast
      then show ?thesis
        using log cons [of rest] False Some
        by (intro exI [of _ a] exI [of _ rest]) (auto split: sum.splits prod.splits)
    qed
  qed
qed

section \<open>Properties\<close>

text \<open>
  C28: The socket layer accounts for its descriptors, whatever the kernel answers to any
  of its calls, on Linux and elsewhere. Creating, connecting, binding and listening each
  leave open exactly the one descriptor they return; when they fail, everything they
  opened has been closed, once. Accepting does the same with one exception: when the
  kernel accepts a connection whose address cannot be read and the listener is not a
  Unix-domain one, the call fails with \<open>EAFNOSUPPORT\<close> and the accepted descriptor stays
  open, owned by nobody.
\<close>

theorem descriptors_accounted:
  "balanced {#} {#} (\<lambda>fd. {#fd#}) (stream_socket sys tg addr) \<and>
   balanced {#} {#} (\<lambda>fd. {#fd#}) (datagram_socket sys tg addr) \<and>
   balanced {#} {#} (\<lambda>fd. {#fd#}) (tcp_connect sys tg addr) \<and>
   balanced {#} {#} (\<lambda>u. {#us_fd u#}) (udp_bind_with_reuse sys tg addr reuse) \<and>
   balanced {#} {#} (\<lambda>l. {#li_fd l#}) (bind_with sys tg addr backlog reuse) \<and>
   (\<exists>a rest. snd (fst (tcp_accept sys tg l s)) = snd s @ (Accept (li_fd l) (tg_linux tg), a) # rest \<and>
      opened ((Accept (li_fd l) (tg_linux tg), a) # rest) = closed rest +
        (case snd (tcp_accept sys tg l s) of
           Inr (fd, _) \<Rightarrow> {#fd#}
         | Inl _ \<Rightarrow> if 0 \<le> an_value a \<and> accepted_addr tg l a = None then {#an_value a#} else {#}) \<and>
      (an_value a < 0 \<or> (\<exists>peer. accepted_addr tg l a = Some peer) \<or> snd (tcp_accept sys tg l s) = Inl (tg_EAFNOSUPPORT tg)))"
  using tcp_accept_balance [OF prod.collapse [symmetric], of sys tg l s]
    balanced_stream_socket [of "{#}" sys tg addr] balanced_datagram_socket [of "{#}" sys tg addr]
    balanced_tcp_connect [of "{#}" sys tg addr] balanced_udp_bind [of "{#}" sys tg addr reuse]
    balanced_bind_with [of "{#}" sys tg addr backlog reuse]
  by (intro conjI) (assumption | simp)+

text \<open>A kernel that accepts a connection and reports no address: the accepted descriptor is never closed.\<close>

definition silent_kernel :: "unit \<Rightarrow> syscall \<Rightarrow> unit \<times> answer" where
  "silent_kernel k c = (k, \<lparr>an_value = 5, an_errno = 0, an_int = 0, an_storage = replicate STORAGE 0, an_len = 0,
     an_data = [], an_truncated = False\<rparr>)"

lemma accept_leaks:
  "case tcp_accept silent_kernel linux \<lparr>li_fd = 3, li_family = 2\<rparr> ((), []) of (s, r) \<Rightarrow>
     r = Inl 97 \<and> opened (snd s) = {#5#} \<and> closed (snd s) = {#}"
proof -
  have "get_family linux (replicate STORAGE 0) = 0"
    by (simp add: get_family_def linux_def field_def STORAGE_def ne_value_def numeral_2_eq_2)
  then have "read_from linux (replicate STORAGE 0) 0 = None"
    by (simp add: read_from_def) (simp add: linux_def)
  then have "accepted_addr linux \<lparr>li_fd = 3, li_family = 2\<rparr> (snd (silent_kernel () (Accept 3 True))) = None"
    by (simp add: accepted_addr_def silent_kernel_def) (simp add: linux_def)
  then show ?thesis
    by (simp add: tcp_accept_def call_def check_def accept_flags_def try_then_def ret_def fail_def silent_kernel_def)
      (simp add: linux_def)
qed

end
