(* ===== verification/NetOpen.thy ===== *)
theory NetOpen
  imports Net Sockets
begin

text \<open>
  Sockets from their creation to their drop (\<open>src/src/net.rs\<close> over \<open>src/src/reactor/socket.rs\<close> and
  \<open>src/src/reactor/driver.rs\<close>): streams, listeners and datagram sockets are created by the
  socket layer and registered with the reactor; either may fail, for any kernel and any
  poller. Also the peer selection of a datagram socket.

  The results: an operation that fails leaves no descriptor open and no slot in the
  reactor; one that succeeds leaves exactly one of each, and they belong together; and
  a drop takes both away.
\<close>

section \<open>Kernel and reactor\<close>

type_synonym ('k, 'p) world = "'k os \<times> 'p reactor"

type_synonym 'k kernel = "'k \<Rightarrow> syscall \<Rightarrow> 'k \<times> answer"

type_synonym 'p adding = "'p \<Rightarrow> int \<Rightarrow> u64 \<Rightarrow> interest \<Rightarrow> 'p \<times> errno option"

type_synonym 'p removing = "'p \<Rightarrow> int \<Rightarrow> 'p \<times> errno option"

definition on_kernel :: "('k os \<Rightarrow> 'k os \<times> 'a) \<Rightarrow> ('k, 'p) world \<Rightarrow> ('k, 'p) world \<times> 'a" where
  "on_kernel m = (\<lambda>(s, re). case m s of (s, r) \<Rightarrow> ((s, re), r))"

definition and_then ::
  "('w \<Rightarrow> 'w \<times> (errno + 'a)) \<Rightarrow> ('a \<Rightarrow> 'w \<Rightarrow> 'w \<times> (errno + 'b)) \<Rightarrow> 'w \<Rightarrow> 'w \<times> (errno + 'b)" where
  "and_then m f w = (case m w of (w, Inl e) \<Rightarrow> (w, Inl e) | (w, Inr v) \<Rightarrow> f v w)"

text \<open>Registering a descriptor that the caller owns, which is closed when that fails.\<close>

definition register_socket :: "'k kernel \<Rightarrow> 'p adding \<Rightarrow> fd \<Rightarrow> interest \<Rightarrow> ('k, 'p) world \<Rightarrow> ('k, 'p) world \<times> (errno + registration)" where
  "register_socket sys add fd i = (\<lambda>(s, re).
     case register add fd i re of
       (re, Inl e) \<Rightarrow> ((fd_drop sys fd s, re), Inl e)
     | (re, Inr r) \<Rightarrow> ((s, re), Inr r))"

section \<open>Streams\<close>

record tcp_stream =
  ts_fd :: fd
  ts_registration :: registration
  ts_connecting :: bool
  ts_capacity :: nat

definition stream_from_socket ::
  "'k kernel \<Rightarrow> 'p adding \<Rightarrow> fd \<Rightarrow> ('k, 'p) world \<Rightarrow> ('k, 'p) world \<times> (errno + tcp_stream)" where
  "stream_from_socket sys add fd =
     and_then (register_socket sys add fd BOTH) (\<lambda>r w.
       case on_kernel (send_buffer_size sys fd) w of
         (w, bytes) \<Rightarrow>
           (w, Inr \<lparr>ts_fd = fd, ts_registration = r, ts_connecting = False, ts_capacity = (case bytes of Some n \<Rightarrow> n | None \<Rightarrow> 0)\<rparr>))"

fun is_path :: "addr \<Rightarrow> bool" where
  "is_path (Path _) = True"
| "is_path _ = False"

definition connect_started ::
  "'k kernel \<Rightarrow> target \<Rightarrow> 'p adding \<Rightarrow> addr \<Rightarrow> ('k, 'p) world \<Rightarrow> ('k, 'p) world \<times> (errno + tcp_stream)" where
  "connect_started sys tg add addr =
     and_then (on_kernel (tcp_connect sys tg addr)) (\<lambda>socket.
     and_then (stream_from_socket sys add socket) (\<lambda>stream w. (w, Inr (stream\<lparr>ts_connecting := \<not> is_path addr\<rparr>))))"

text \<open>The fields of a stream drop in order: the descriptor, then the registration.\<close>

definition stream_drop :: "'k kernel \<Rightarrow> 'p removing \<Rightarrow> tcp_stream \<Rightarrow> ('k, 'p) world \<Rightarrow> ('k, 'p) world" where
  "stream_drop sys remove st = (\<lambda>(s, re). (fd_drop sys (ts_fd st) s, registration_drop remove (ts_registration st) re))"

text \<open>\<open>connect\<close> once \<open>Connected\<close> has answered: an error drops the stream.\<close>

definition connect_finished ::
  "'k kernel \<Rightarrow> 'p removing \<Rightarrow> errno + unit \<Rightarrow> tcp_stream \<Rightarrow> ('k, 'p) world \<Rightarrow> ('k, 'p) world \<times> (errno + tcp_stream)" where
  "connect_finished sys remove answer st w =
     (case answer of Inl e \<Rightarrow> (stream_drop sys remove st w, Inl e) | Inr _ \<Rightarrow> (w, Inr (st\<lparr>ts_connecting := False\<rparr>)))"

definition connect ::
  "'k kernel \<Rightarrow> target \<Rightarrow> 'p adding \<Rightarrow> 'p removing \<Rightarrow> errno + unit \<Rightarrow> addr \<Rightarrow> ('k, 'p) world \<Rightarrow> ('k, 'p) world \<times> (errno + tcp_stream)" where
  "connect sys tg add remove answer addr = and_then (connect_started sys tg add addr) (connect_finished sys remove answer)"

section \<open>Listeners\<close>

record tcp_listener =
  tl_inner :: listener
  tl_registration :: registration

definition BACKLOG :: int where
  "BACKLOG = 1024"

definition from_listener ::
  "'k kernel \<Rightarrow> 'p adding \<Rightarrow> listener \<Rightarrow> ('k, 'p) world \<Rightarrow> ('k, 'p) world \<times> (errno + tcp_listener)" where
  "from_listener sys add l =
     and_then (register_socket sys add (li_fd l) READABLE) (\<lambda>r w. (w, Inr \<lparr>tl_inner = l, tl_registration = r\<rparr>))"

definition listener_bind ::
  "'k kernel \<Rightarrow> target \<Rightarrow> 'p adding \<Rightarrow> addr \<Rightarrow> ('k, 'p) world \<Rightarrow> ('k, 'p) world \<times> (errno + tcp_listener)" where
  "listener_bind sys tg add addr = and_then (on_kernel (bind_with sys tg addr BACKLOG False)) (from_listener sys add)"

definition listener_bind_shared ::
  "'k kernel \<Rightarrow> target \<Rightarrow> 'p adding \<Rightarrow> addr \<Rightarrow> ('k, 'p) world \<Rightarrow> ('k, 'p) world \<times> (errno + tcp_listener)" where
  "listener_bind_shared sys tg add addr = and_then (on_kernel (bind_shared sys tg addr BACKLOG)) (from_listener sys add)"

text \<open>\<open>poll_accept\<close> over the socket layer and the reactor.\<close>

definition listener_poll_accept ::
  "'k kernel \<Rightarrow> target \<Rightarrow> 'p adding \<Rightarrow> errno set \<Rightarrow> tcp_listener \<Rightarrow> waker \<Rightarrow> ('k, 'p) world \<Rightarrow> wakers \<Rightarrow>
   (('k, 'p) world \<times> wakers \<times> waker list \<times> (errno + tcp_stream \<times> addr) poll) option" where
  "listener_poll_accept sys tg add codes l =
     poll_accept (on_kernel (tcp_accept sys tg (tl_inner l))) (\<lambda>w socket. stream_from_socket sys add socket w) codes"

section \<open>Datagram sockets\<close>

record udp =
  ud_registration :: registration
  ud_inner :: udp_socket

definition udp_from_socket ::
  "'k kernel \<Rightarrow> 'p adding \<Rightarrow> udp_socket \<Rightarrow> ('k, 'p) world \<Rightarrow> ('k, 'p) world \<times> (errno + udp)" where
  "udp_from_socket sys add u =
     and_then (register_socket sys add (us_fd u) BOTH) (\<lambda>r w. (w, Inr \<lparr>ud_registration = r, ud_inner = u\<rparr>))"

definition udp_bind_reuse ::
  "'k kernel \<Rightarrow> target \<Rightarrow> 'p adding \<Rightarrow> addr \<Rightarrow> bool \<Rightarrow> ('k, 'p) world \<Rightarrow> ('k, 'p) world \<times> (errno + udp)" where
  "udp_bind_reuse sys tg add addr reuse_addr =
     and_then (on_kernel (udp_bind_with_reuse sys tg addr reuse_addr)) (udp_from_socket sys add)"

definition udp_bind ::
  "'k kernel \<Rightarrow> target \<Rightarrow> 'p adding \<Rightarrow> addr \<Rightarrow> ('k, 'p) world \<Rightarrow> ('k, 'p) world \<times> (errno + udp)" where
  "udp_bind sys tg add addr = udp_bind_reuse sys tg add addr False"

definition udp_bind_reuse_addr ::
  "'k kernel \<Rightarrow> target \<Rightarrow> 'p adding \<Rightarrow> addr \<Rightarrow> ('k, 'p) world \<Rightarrow> ('k, 'p) world \<times> (errno + udp)" where
  "udp_bind_reuse_addr sys tg add addr = udp_bind_reuse sys tg add addr True"

text \<open>The registration goes first, then the descriptor.\<close>

definition udp_drop :: "'k kernel \<Rightarrow> 'p removing \<Rightarrow> udp \<Rightarrow> ('k, 'p) world \<Rightarrow> ('k, 'p) world" where
  "udp_drop sys remove u = (\<lambda>(s, re). (fd_drop sys (us_fd (ud_inner u)) s, registration_drop remove (ud_registration u) re))"

text \<open>
  \<open>UdpSocket::connect\<close>: the call, which is usually all; and the polls that wait for one
  that is in flight. The peer is compared with the address asked for.
\<close>

record connect_errors =
  ce_EALREADY :: errno
  ce_EISCONN :: errno
  ce_ENOTCONN :: errno

datatype begun = Finished "errno + unit" | In_flight

definition udp_connect_begin ::
  "'k kernel \<Rightarrow> target \<Rightarrow> connect_errors \<Rightarrow> udp_socket \<Rightarrow> addr \<Rightarrow> 'k os \<Rightarrow> wakers \<Rightarrow> 'k os \<times> wakers \<times> begun" where
  "udp_connect_begin sys tg ce u addr s w =
     (case udp_connect sys tg u addr s of
        (s, Inr _) \<Rightarrow> (s, mark_writable w, Finished (Inr ()))
      | (s, Inl e) \<Rightarrow>
          if e = tg_EINPROGRESS tg \<or> e = ce_EALREADY ce \<or> interrupted e then (s, w, In_flight)
          else if e = ce_EISCONN ce then
            (case addr_of sys tg (us_fd u) True s of
               (s, Inl e') \<Rightarrow> (s, w, Finished (Inl e'))
             | (s, Inr peer) \<Rightarrow> (s, w, Finished (if peer = addr then Inr () else Inl e)))
          else (s, w, Finished (Inl e)))"

partial_function (option) so_error_loop :: "'k kernel \<Rightarrow> fd \<Rightarrow> 'k os \<Rightarrow> ('k os \<times> (errno + unit)) option" where
  "so_error_loop sys fd s =
     (case connect_error sys fd s of
        (s, Inr _) \<Rightarrow> Some (s, Inr ())
      | (s, Inl e) \<Rightarrow> if interrupted e then so_error_loop sys fd s else Some (s, Inl e))"

definition udp_connect_poll ::
  "'k kernel \<Rightarrow> target \<Rightarrow> connect_errors \<Rightarrow> udp_socket \<Rightarrow> addr \<Rightarrow> waker \<Rightarrow> 'k os \<Rightarrow> wakers \<Rightarrow>
   ('k os \<times> wakers \<times> waker list \<times> (errno + unit) poll) option" where
  "udp_connect_poll sys tg ce u addr wk s w =
     (case take_writable_or_park wk w of
        (w, ready) \<Rightarrow>
          if \<not> ready then Some (s, w, [], Pending)
          else Option.bind (so_error_loop sys (us_fd u) s) (\<lambda>(s, r).
            case r of
              Inl e \<Rightarrow> Some (s, w, [], Ready (Inl e))
            | Inr _ \<Rightarrow>
                (case addr_of sys tg (us_fd u) True s of
                   (s, Inr peer) \<Rightarrow>
                     if peer = addr then Some (s, mark_writable w, [], Ready (Inr ()))
                     else Some (s, w, [], Ready (Inl (tg_EINVAL tg)))
                 | (s, Inl e) \<Rightarrow>
                     if e = ce_ENOTCONN ce \<or> interrupted e
                     then (case poll_writable wk w of (w, ws) \<Rightarrow> Some (s, w, ws, Pending))
                     else Some (s, w, [], Ready (Inl e)))))"

text \<open>The future owns the socket: an error drops it.\<close>

definition udp_connect_finished ::
  "'k kernel \<Rightarrow> 'p removing \<Rightarrow> errno + unit \<Rightarrow> udp \<Rightarrow> ('k, 'p) world \<Rightarrow> ('k, 'p) world \<times> (errno + udp)" where
  "udp_connect_finished sys remove answer u w =
     (case answer of Inl e \<Rightarrow> (udp_drop sys remove u w, Inl e) | Inr _ \<Rightarrow> (w, Inr u))"

section \<open>Accounting\<close>

text \<open>
  An operation on kernel and reactor: what is open and what has a slot when it fails
  is what was before; when it succeeds there is one descriptor more, and one slot more,
  of the registration of that descriptor.
\<close>

definition slot_free :: "'p reactor \<Rightarrow> bool" where
  "slot_free re \<longleftrightarrow> re_slots re (re_next_index re) = None"

definition new_slot :: rslot where
  "new_slot = \<lparr>rs_generation = 1, rs_wakers = wakers_new\<rparr>"

definition opens_one :: "('x \<Rightarrow> fd \<times> registration) \<Rightarrow> (('k, 'p) world \<Rightarrow> ('k, 'p) world \<times> (errno + 'x)) \<Rightarrow> bool" where
  "opens_one own m \<longleftrightarrow> (\<forall>s re s' re' r. slot_free re \<longrightarrow> m (s, re) = ((s', re'), r) \<longrightarrow>
     (\<exists>new. snd s' = snd s @ new \<and>
        (case r of
           Inl e \<Rightarrow> opened new = closed new \<and> re_slots re' = re_slots re
         | Inr x \<Rightarrow> (case own x of (fd, g) \<Rightarrow>
             opened new = add_mset fd (closed new) \<and> rg_fd g = fd \<and> re_slots re (rg_index g) = None \<and>
             re_slots re' = (re_slots re)(rg_index g \<mapsto> new_slot)))))"

lemma register_slots:
  assumes "register add fd i re = (re', r)" "slot_free re"
  shows "case r of Inl e \<Rightarrow> re_slots re' = re_slots re
    | Inr g \<Rightarrow> rg_fd g = fd \<and> re_slots re (rg_index g) = None \<and> re_slots re' = (re_slots re)(rg_index g \<mapsto> new_slot)"
  using register_cases [OF assms(1)] assms(2)
  by (auto simp: slot_free_def new_slot_def fun_upd_idem split: sum.splits)

text \<open>A socket operation that accounts for its descriptor, followed by its registration and by calls that open and close nothing.\<close>

lemma opens_one_register:
  assumes "balanced {#} {#} (\<lambda>x. {#fd_of x#}) m"
    and rest: "\<And>x g w w' r. rest x g w = (w', r) \<Longrightarrow> \<exists>new y. r = Inr y \<and> own y = (fd_of x, g) \<and> snd w' = snd w \<and>
      snd (fst w') = snd (fst w) @ new \<and> opened new = {#} \<and> closed new = {#}"
  shows "opens_one own (and_then (on_kernel m) (\<lambda>x. and_then (register_socket sys add (fd_of x) (i x)) (rest x)))"
  unfolding opens_one_def
proof (intro allI impI)
  fix s re s' re' r
  assume free: "slot_free re" and run: "and_then (on_kernel m) (\<lambda>x. and_then (register_socket sys add (fd_of x) (i x)) (rest x)) (s, re) = ((s', re'), r)"
  let ?goal = "\<exists>new. snd s' = snd s @ new \<and>
        (case r of
           Inl e \<Rightarrow> opened new = closed new \<and> re_slots re' = re_slots re
         | Inr x \<Rightarrow> (case own x of (fd, g) \<Rightarrow>
             opened new = add_mset fd (closed new) \<and> rg_fd g = fd \<and> re_slots re (rg_index g) = None \<and>
             re_slots re' = (re_slots re)(rg_index g \<mapsto> new_slot)))"
  obtain s1 r1 where m: "m s = (s1, r1)" by fastforce
  obtain new where new: "snd s1 = snd s @ new" "opened new = closed new + (case r1 of Inl _ \<Rightarrow> {#} | Inr x \<Rightarrow> {#fd_of x#})"
    using balancedD [OF assms(1) m] by auto
  show ?goal
  proof (cases r1)
    case (Inl e)
    then show ?thesis using run m new by (auto simp: and_then_def on_kernel_def)
  next
    case (Inr x)
    obtain re1 q where reg: "register add (fd_of x) (i x) re = (re1, q)" by fastforce
    note slots = register_slots [OF reg free]
    show ?thesis
    proof (cases q)
      case (Inl e)
      obtain s2 a where c: "call sys (Close (fd_of x)) s1 = (s2, a)" by fastforce
      have "s' = s2" "re' = re1" "r = Inl e"
        using run m Inr reg Inl c by (auto simp: and_then_def on_kernel_def register_socket_def fd_drop_def)
      then show ?thesis
        using new call_log [OF c] slots Inl Inr by (intro exI [of _ "new @ [(Close (fd_of x), a)]"]) simp
    next
      case ok: (Inr g)
      then have "rest x g (s1, re1) = ((s', re'), r)"
        using run m Inr reg by (simp add: and_then_def on_kernel_def register_socket_def)
      from rest [OF this] obtain more y where "r = Inr y" "own y = (fd_of x, g)" "re' = re1" "snd s' = snd s1 @ more"
        "opened more = {#}" "closed more = {#}" by auto
      then show ?thesis using new slots ok Inr by (intro exI [of _ "new @ more"]) simp
    qed
  qed
qed

lemma and_then_assoc: "and_then (and_then m f) g = and_then m (\<lambda>x. and_then (f x) g)"
  by (auto simp: and_then_def fun_eq_iff split: prod.splits sum.splits)

lemma send_buffer_neutral:
  assumes "send_buffer_size sys fd s = (s', n)"
  shows "\<exists>new. snd s' = snd s @ new \<and> opened new = {#} \<and> closed new = {#}"
proof -
  obtain s1 a where c: "call sys (Getsockopt fd SO_SNDBUF) s = (s1, a)" by fastforce
  then show ?thesis
    using assms call_log [OF c] by (intro exI [of _ "[(Getsockopt fd SO_SNDBUF, a)]"]) (simp add: send_buffer_size_def)
qed

abbreviation own_stream :: "tcp_stream \<Rightarrow> fd \<times> registration" where
  "own_stream st \<equiv> (ts_fd st, ts_registration st)"

abbreviation own_listener :: "tcp_listener \<Rightarrow> fd \<times> registration" where
  "own_listener l \<equiv> (li_fd (tl_inner l), tl_registration l)"

abbreviation own_udp :: "udp \<Rightarrow> fd \<times> registration" where
  "own_udp u \<equiv> (us_fd (ud_inner u), ud_registration u)"

lemma connect_started_opens: "opens_one own_stream (connect_started sys tg add addr)"
  unfolding connect_started_def stream_from_socket_def and_then_assoc
proof (rule opens_one_register [OF balanced_tcp_connect, where i = "\<lambda>_. BOTH"], goal_cases)
  case (1 x g w w' r)
  obtain s re where w: "w = (s, re)" by fastforce
  obtain s1 n where b: "send_buffer_size sys x s = (s1, n)" by fastforce
  have "w' = (s1, re)" "\<exists>y. r = Inr y \<and> own_stream y = (x, g)"
    using 1 w b by (auto simp: and_then_def on_kernel_def)
  then show ?case using send_buffer_neutral [OF b] w by auto
qed

lemma from_listener_opens:
  assumes "balanced {#} {#} (\<lambda>l. {#li_fd l#}) m"
  shows "opens_one own_listener (and_then (on_kernel m) (from_listener sys add))"
  unfolding from_listener_def
  by (rule opens_one_register [OF assms, where i = "\<lambda>_. READABLE"]) (auto intro: exI [of _ "[]"])

lemma balanced_bind_shared: "balanced A A (\<lambda>l. add_mset (li_fd l) A) (bind_shared sys tg addr backlog)"
  unfolding bind_shared_def by (rule balanced_cases) (rule balanced_fail balanced_bind_with)+

lemma udp_bind_opens: "opens_one own_udp (udp_bind_reuse sys tg add addr reuse)"
  unfolding udp_bind_reuse_def udp_from_socket_def
  by (rule opens_one_register [OF balanced_udp_bind, where i = "\<lambda>_. BOTH"]) (auto intro: exI [of _ "[]"])

text \<open>Keeping the socket, or dropping it with an error.\<close>

lemma opens_one_or_drop:
  assumes "opens_one own m"
    "\<And>x s re. keep x (s, re) = ((s, re), Inr (f x)) \<and> own (f x) = own x \<or>
      (\<exists>e. keep x (s, re) = ((fd_drop sys (fst (own x)) s, registration_drop remove (snd (own x)) re), Inl e))"
  shows "opens_one own (and_then m keep)"
  unfolding opens_one_def
proof (intro allI impI)
  fix s re s' re' r
  assume free: "slot_free re" and run: "and_then m keep (s, re) = ((s', re'), r)"
  obtain s1 re1 r1 where m: "m (s, re) = ((s1, re1), r1)" by (metis surj_pair)
  obtain new where new: "snd s1 = snd s @ new"
    "case r1 of Inl e \<Rightarrow> opened new = closed new \<and> re_slots re1 = re_slots re
     | Inr x \<Rightarrow> (case own x of (fd, g) \<Rightarrow> opened new = add_mset fd (closed new) \<and> rg_fd g = fd \<and> re_slots re (rg_index g) = None \<and>
         re_slots re1 = (re_slots re)(rg_index g \<mapsto> new_slot))"
    using assms(1) free m unfolding opens_one_def by blast
  show "\<exists>new. snd s' = snd s @ new \<and>
        (case r of
           Inl e \<Rightarrow> opened new = closed new \<and> re_slots re' = re_slots re
         | Inr x \<Rightarrow> (case own x of (fd, g) \<Rightarrow>
             opened new = add_mset fd (closed new) \<and> rg_fd g = fd \<and> re_slots re (rg_index g) = None \<and>
             re_slots re' = (re_slots re)(rg_index g \<mapsto> new_slot)))"
  proof (cases r1)
    case (Inl e)
    then show ?thesis using run m new by (auto simp: and_then_def)
  next
    case (Inr x)
    obtain fd g where own: "own x = (fd, g)" by fastforce
    obtain s2 a where c: "call sys (Close fd) s1 = (s2, a)" by fastforce
    have "keep x (s1, re1) = ((s', re'), r)" using run m Inr by (simp add: and_then_def)
    with assms(2) [of x s1 re1] consider "s' = s1" "re' = re1" "r = Inr (f x)" "own (f x) = own x"
      | e where "s' = s2" "re' = registration_drop remove g re1" "r = Inl e"
      using own c by (auto simp: fd_drop_def)
    then show ?thesis
    proof cases
      case 1
      then show ?thesis using new Inr own by auto
    next
      case 2
      then show ?thesis
        using new Inr own call_log [OF c]
        by (intro exI [of _ "new @ [(Close fd, a)]"]) (auto simp: registration_drop_def)
    qed
  qed
qed

lemma connect_opens: "opens_one own_stream (connect sys tg add remove answer addr)"
  unfolding connect_def
  by (rule opens_one_or_drop [OF connect_started_opens, where f = "\<lambda>st. st\<lparr>ts_connecting := False\<rparr>" and sys = sys and remove = remove])
    (auto simp: connect_finished_def stream_drop_def split: sum.splits)

lemma udp_connect_opens: "opens_one own_udp (and_then (udp_bind_reuse sys tg add addr reuse) (udp_connect_finished sys remove answer))"
  by (rule opens_one_or_drop [OF udp_bind_opens, where f = "\<lambda>u. u" and sys = sys and remove = remove])
    (auto simp: udp_connect_finished_def udp_drop_def split: sum.splits)

section \<open>Properties\<close>

text \<open>A wait for the peer is parked, and does not wake itself, unlike that of a stream.\<close>

lemma udp_connect_parks:
  assumes "udp_connect_poll sys tg ce u addr wk s w = Some (s', w', ws, Pending)"
  shows "ws = [] \<and> wk_writer w' = Some wk \<and> \<not> wk_writable w'"
proof (cases "wk_writable w")
  case False
  then show ?thesis using assms by (auto simp: udp_connect_poll_def take_writable_or_park_def park_writer_def split: if_splits)
next
  case True
  let ?w = "w\<lparr>wk_writable := False\<rparr>"
  obtain s1 r where loop: "so_error_loop sys (us_fd u) s = Some (s1, r)"
    using assms True by (auto simp: udp_connect_poll_def take_writable_or_park_def bind_eq_Some_conv)
  obtain s2 p where peer: "addr_of sys tg (us_fd u) True s1 = (s2, p)" by fastforce
  have "(w', ws) = poll_writable wk ?w"
    using assms True loop peer
    by (cases r; cases p) (auto simp: udp_connect_poll_def take_writable_or_park_def split: if_splits prod.splits)
  then show ?thesis by (auto simp: poll_writable_def park_writer_def)
qed

text \<open>
  C37: Opening a socket is all or nothing, from the system calls to the reactor, for
  every kernel and every poller. Connecting a stream (started, or awaited and then
  answered in either way), binding a listener, alone or shared, and binding a datagram
  socket and selecting its peer: when the operation fails, every descriptor that was
  opened has been closed, once, and the reactor has the slots it had; when it succeeds,
  exactly one descriptor is left open and one slot was added, which the registration of
  that descriptor names.
\<close>

theorem sockets_open_whole:
  "opens_one own_stream (connect_started sys tg add addr) \<and>
   opens_one own_stream (connect sys tg add remove answer addr) \<and>
   opens_one own_listener (listener_bind sys tg add addr) \<and>
   opens_one own_listener (listener_bind_shared sys tg add addr) \<and>
   opens_one own_udp (udp_bind sys tg add addr) \<and>
   opens_one own_udp (and_then (udp_bind_reuse sys tg add addr reuse) (udp_connect_finished sys remove answer))"
  unfolding listener_bind_def listener_bind_shared_def udp_bind_def
  by (intro conjI connect_started_opens connect_opens udp_connect_opens udp_bind_opens
      from_listener_opens balanced_bind_with balanced_bind_shared)

end
