(* ===== verification/TaskSet.thy ===== *)
theory TaskSet
  imports Prelude
begin

text \<open>
  The set of futures driven on one thread (\<open>TaskSet\<close> of \<open>src/src/reactor/local.rs\<close>):
  a vector of tasks, a lock-free chain of the tasks that are to be polled, kept in the
  tasks' own links, and a flag per task that says whether it is on the chain. Any
  thread may wake any task at any time, while the owner adds tasks and polls the set.
  Each atomic access is one step: the swap of a flag, the load of the head, the store
  of a link, the compare-and-swap, the wake of whoever drives the set.

  The results: the chain never loses or repeats a task and never names one that does not
  exist; a task woken since it was last polled is on its way to be polled; and while
  the owner waits with a task on the chain, it has been woken or is about to be.
\<close>

section \<open>The state\<close>

definition END :: u32 where
  "END = - 1"

text \<open>
  A thread that puts a task on the chain: about to load the head, to store the link, to
  swap the head; and, for a wake rather than an addition, about to wake the parent.
\<close>

datatype wphase =
    W_load bool u32
  | W_store bool u32 u32
  | W_cas bool u32 u32
  | W_notify

text \<open>
  The owner: not in a call; adding a task as the given thread; polling, with the parent
  registered; at a task of the chain it took; with that task's link read; polling that
  task's future; stopped at an index that has no entry.
\<close>

datatype pphase =
    Idle
  | Pushing nat
  | Registered
  | Walk u32
  | Loaded u32 u32
  | Polling u32 u32
  | Broken

record taskset =
  ts_count :: nat
  ts_alive :: "u32 set"
  ts_left :: nat
  ts_queued :: "u32 set"
  ts_next :: "u32 \<Rightarrow> u32"
  ts_head :: u32
  ts_threads :: "nat \<Rightarrow> wphase option"
  ts_phase :: pphase
  ts_woken :: bool
  ts_pushed :: bool
  ts_owed :: "u32 set"

text \<open>
  \<open>ts_woken\<close>: the parent was woken since the last poll began; \<open>ts_pushed\<close>: a task was
  added since; \<open>ts_owed\<close>: the tasks woken, or added, and not polled since.
\<close>

definition taskset_new :: taskset where
  "taskset_new = \<lparr>ts_count = 0, ts_alive = {}, ts_left = 0, ts_queued = {}, ts_next = (\<lambda>_. END), ts_head = END,
     ts_threads = (\<lambda>_. None), ts_phase = Idle, ts_woken = False, ts_pushed = False, ts_owed = {}\<rparr>"

definition is_empty :: "taskset \<Rightarrow> bool" where
  "is_empty s \<longleftrightarrow> ts_left s = 0"

section \<open>The steps\<close>

definition set_thread :: "nat \<Rightarrow> wphase option \<Rightarrow> taskset \<Rightarrow> taskset" where
  "set_thread t p s = s\<lparr>ts_threads := (ts_threads s)(t := p)\<rparr>"

text \<open>\<open>Slot::wake_by_ref\<close>: the swap of the flag.\<close>

definition wake_begin :: "nat \<Rightarrow> u32 \<Rightarrow> taskset \<Rightarrow> taskset" where
  "wake_begin t i s =
     (if i \<in> ts_queued s then s\<lparr>ts_owed := insert i (ts_owed s)\<rparr>
      else set_thread t (Some (W_load True i)) (s\<lparr>ts_queued := insert i (ts_queued s), ts_owed := insert i (ts_owed s)\<rparr>))"

text \<open>\<open>TaskSet::push\<close>, up to the loop that links the new task; too many tasks are a panic.\<close>

definition push_begin :: "nat \<Rightarrow> taskset \<Rightarrow> taskset option" where
  "push_begin t s =
     (if ts_count s < 2 ^ 32
      then let i = of_nat (ts_count s) in
        Some (set_thread t (Some (W_load False i)) (s\<lparr>ts_count := ts_count s + 1, ts_alive := insert i (ts_alive s),
          ts_left := ts_left s + 1, ts_queued := insert i (ts_queued s), ts_next := (ts_next s)(i := END),
          ts_phase := Pushing t, ts_owed := insert i (ts_owed s)\<rparr>))
      else None)"

text \<open>The linking loop: one pass is a store and a compare-and-swap, which may fail for no reason.\<close>

definition link_load :: "nat \<Rightarrow> bool \<Rightarrow> u32 \<Rightarrow> taskset \<Rightarrow> taskset" where
  "link_load t notify i s = set_thread t (Some (W_store notify i (ts_head s))) s"

definition link_store :: "nat \<Rightarrow> bool \<Rightarrow> u32 \<Rightarrow> u32 \<Rightarrow> taskset \<Rightarrow> taskset" where
  "link_store t notify i h s = set_thread t (Some (W_cas notify i h)) (s\<lparr>ts_next := (ts_next s)(i := h)\<rparr>)"

definition link_done :: "nat \<Rightarrow> bool \<Rightarrow> u32 \<Rightarrow> taskset \<Rightarrow> taskset" where
  "link_done t notify i s =
     (if notify then set_thread t (Some W_notify) (s\<lparr>ts_head := i\<rparr>)
      else set_thread t None (s\<lparr>ts_head := i, ts_phase := Idle, ts_pushed := True\<rparr>))"

definition link_retry :: "nat \<Rightarrow> bool \<Rightarrow> u32 \<Rightarrow> taskset \<Rightarrow> taskset" where
  "link_retry t notify i s = set_thread t (Some (W_store notify i (ts_head s))) s"

definition notify_parent :: "nat \<Rightarrow> taskset \<Rightarrow> taskset" where
  "notify_parent t s = set_thread t None (s\<lparr>ts_woken := True\<rparr>)"

text \<open>\<open>TaskSet::poll\<close>; a set that never had a task has no shared state, and its poll returns at once.\<close>

definition poll_register :: "taskset \<Rightarrow> taskset" where
  "poll_register s = (if ts_count s = 0 then s else s\<lparr>ts_phase := Registered, ts_woken := False, ts_pushed := False\<rparr>)"

definition poll_swap :: "taskset \<Rightarrow> taskset" where
  "poll_swap s = s\<lparr>ts_phase := Walk (ts_head s), ts_head := END\<rparr>"

definition walk_load :: "u32 \<Rightarrow> taskset \<Rightarrow> taskset" where
  "walk_load c s = (if unat c < ts_count s then s\<lparr>ts_phase := Loaded c (ts_next s c)\<rparr> else s\<lparr>ts_phase := Broken\<rparr>)"

definition walk_clear :: "u32 \<Rightarrow> u32 \<Rightarrow> taskset \<Rightarrow> taskset" where
  "walk_clear c f s = s\<lparr>ts_queued := ts_queued s - {c}, ts_owed := ts_owed s - {c}, ts_phase := Polling c f\<rparr>"

definition walk_polled :: "bool \<Rightarrow> u32 \<Rightarrow> u32 \<Rightarrow> taskset \<Rightarrow> taskset" where
  "walk_polled ready c f s =
     (if ready \<and> c \<in> ts_alive s then s\<lparr>ts_alive := ts_alive s - {c}, ts_left := ts_left s - 1, ts_phase := Walk f\<rparr>
      else s\<lparr>ts_phase := Walk f\<rparr>)"

definition poll_end :: "taskset \<Rightarrow> taskset \<times> unit poll" where
  "poll_end s = (s\<lparr>ts_phase := Idle\<rparr>, if ts_left s = 0 then Ready () else Pending)"

inductive ts_step :: "taskset \<Rightarrow> taskset \<Rightarrow> bool" where
  step_wake: "unat i < ts_count s \<Longrightarrow> ts_threads s t = None \<Longrightarrow> ts_step s (wake_begin t i s)"
| step_push: "ts_phase s = Idle \<Longrightarrow> ts_threads s t = None \<Longrightarrow> push_begin t s = Some s' \<Longrightarrow> ts_step s s'"
| step_load: "ts_threads s t = Some (W_load n i) \<Longrightarrow> ts_step s (link_load t n i s)"
| step_store: "ts_threads s t = Some (W_store n i h) \<Longrightarrow> ts_step s (link_store t n i h s)"
| step_linked: "ts_threads s t = Some (W_cas n i h) \<Longrightarrow> ts_head s = h \<Longrightarrow> ts_step s (link_done t n i s)"
| step_retry: "ts_threads s t = Some (W_cas n i h) \<Longrightarrow> ts_step s (link_retry t n i s)"
| step_notify: "ts_threads s t = Some W_notify \<Longrightarrow> ts_step s (notify_parent t s)"
| step_register: "ts_phase s = Idle \<Longrightarrow> ts_step s (poll_register s)"
| step_swap: "ts_phase s = Registered \<Longrightarrow> ts_step s (poll_swap s)"
| step_walk: "ts_phase s = Walk c \<Longrightarrow> c \<noteq> END \<Longrightarrow> ts_step s (walk_load c s)"
| step_clear: "ts_phase s = Loaded c f \<Longrightarrow> ts_step s (walk_clear c f s)"
| step_polled: "ts_phase s = Polling c f \<Longrightarrow> ts_step s (walk_polled ready c f s)"
| step_end: "ts_phase s = Walk END \<Longrightarrow> ts_step s (fst (poll_end s))"

section \<open>Chains\<close>

fun chain :: "(u32 \<Rightarrow> u32) \<Rightarrow> u32 \<Rightarrow> u32 list \<Rightarrow> bool" where
  "chain nx h [] \<longleftrightarrow> h = END"
| "chain nx h (i # is) \<longleftrightarrow> h = i \<and> i \<noteq> END \<and> chain nx (nx i) is"

lemma chain_update [simp]: "i \<notin> set is \<Longrightarrow> chain (nx(i := v)) h is = chain nx h is"
  by (induction "is" arbitrary: h) auto

text \<open>The task a thread is linking.\<close>

fun linking :: "wphase \<Rightarrow> u32 option" where
  "linking (W_load _ i) = Some i"
| "linking (W_store _ i _) = Some i"
| "linking (W_cas _ i _) = Some i"
| "linking W_notify = None"

definition thread_link :: "(nat \<Rightarrow> wphase option) \<Rightarrow> nat \<Rightarrow> u32 option" where
  "thread_link ths t = Option.bind (ths t) linking"

definition linked_by :: "(nat \<Rightarrow> wphase option) \<Rightarrow> u32 set" where
  "linked_by ths = {i. \<exists>t. thread_link ths t = Some i}"

definition unique_links :: "(nat \<Rightarrow> wphase option) \<Rightarrow> bool" where
  "unique_links ths \<longleftrightarrow> (\<forall>t u i. thread_link ths t = Some i \<longrightarrow> thread_link ths u = Some i \<longrightarrow> t = u)"

text \<open>Where the walk of the chain that was taken continues, and the task it holds.\<close>

fun walk_at :: "pphase \<Rightarrow> u32" where
  "walk_at (Walk c) = c"
| "walk_at (Loaded c f) = f"
| "walk_at (Polling c f) = f"
| "walk_at _ = END"

fun walk_holds :: "pphase \<Rightarrow> u32 set" where
  "walk_holds (Loaded c f) = {c}"
| "walk_holds _ = {}"

text \<open>The queued tasks are exactly those on the chain, on the chain being walked, held, or being linked, each once.\<close>

definition placed :: "taskset \<Rightarrow> u32 list \<Rightarrow> u32 list \<Rightarrow> bool" where
  "placed s L M \<longleftrightarrow>
     chain (ts_next s) (ts_head s) L \<and> chain (ts_next s) (walk_at (ts_phase s)) M \<and>
     distinct (L @ M) \<and> set (L @ M) \<inter> walk_holds (ts_phase s) = {} \<and>
     set (L @ M) \<inter> linked_by (ts_threads s) = {} \<and> walk_holds (ts_phase s) \<inter> linked_by (ts_threads s) = {} \<and>
     ts_queued s = set (L @ M) \<union> walk_holds (ts_phase s) \<union> linked_by (ts_threads s)"

text \<open>An addition is a call of the owner: nothing else of the owner is under way.\<close>

fun silent :: "wphase \<Rightarrow> bool" where
  "silent (W_load n _) = (\<not> n)"
| "silent (W_store n _ _) = (\<not> n)"
| "silent (W_cas n _ _) = (\<not> n)"
| "silent W_notify = False"

definition threads_ok :: "taskset \<Rightarrow> bool" where
  "threads_ok s \<longleftrightarrow> unique_links (ts_threads s) \<and>
     (\<forall>t n i h. ts_threads s t = Some (W_cas n i h) \<longrightarrow> ts_next s i = h) \<and>
     (\<forall>t p. ts_threads s t = Some p \<longrightarrow> silent p \<longrightarrow> ts_phase s = Pushing t)"

definition counts_ok :: "taskset \<Rightarrow> bool" where
  "counts_ok s \<longleftrightarrow> (\<forall>i \<in> ts_queued s \<union> ts_alive s. unat i < ts_count s) \<and> ts_owed s \<subseteq> ts_queued s \<and>
     ts_phase s \<noteq> Broken \<and> finite (ts_alive s) \<and> ts_left s = card (ts_alive s)"

definition chain_told :: "taskset \<Rightarrow> u32 list \<Rightarrow> bool" where
  "chain_told s L \<longleftrightarrow> (ts_phase s \<noteq> Registered \<longrightarrow> L \<noteq> [] \<longrightarrow>
     ts_woken s \<or> ts_pushed s \<or> (\<exists>t. ts_threads s t = Some W_notify))"

definition good :: "taskset \<Rightarrow> u32 list \<Rightarrow> u32 list \<Rightarrow> bool" where
  "good s L M \<longleftrightarrow> placed s L M \<and> chain_told s L \<and> threads_ok s \<and> counts_ok s"

definition ts_inv :: "taskset \<Rightarrow> bool" where
  "ts_inv s \<longleftrightarrow> (ts_count s < 2 ^ 32 \<longrightarrow> (\<exists>L M. good s L M))"

section \<open>Threads and their links\<close>

lemma thread_link_upd: "thread_link (ths(t := p)) u = (if u = t then Option.bind p linking else thread_link ths u)"
  by (simp add: thread_link_def)

lemma thread_link_at: "ths t = p \<Longrightarrow> thread_link ths t = Option.bind p linking"
  by (simp add: thread_link_def)

lemma linked_by_upd:
  assumes "unique_links ths"
  shows "linked_by (ths(t := p)) = linked_by ths - set_option (thread_link ths t) \<union> set_option (Option.bind p linking)"
proof (intro set_eqI iffI)
  fix i
  assume "i \<in> linked_by (ths(t := p))"
  then obtain u where u: "(if u = t then Option.bind p linking else thread_link ths u) = Some i"
    by (auto simp: linked_by_def thread_link_upd)
  show "i \<in> linked_by ths - set_option (thread_link ths t) \<union> set_option (Option.bind p linking)"
  proof (cases "u = t")
    case False
    then have "thread_link ths u = Some i" "thread_link ths t \<noteq> Some i"
      using u assms by (auto simp: unique_links_def)
    then show ?thesis by (auto simp: linked_by_def elem_set)
  qed (use u in simp)
next
  fix i
  assume "i \<in> linked_by ths - set_option (thread_link ths t) \<union> set_option (Option.bind p linking)"
  then consider u where "u \<noteq> t" "thread_link ths u = Some i" | "Option.bind p linking = Some i"
    by (auto simp: linked_by_def elem_set) metis
  then show "i \<in> linked_by (ths(t := p))"
    by cases (auto simp: linked_by_def thread_link_upd)
qed

lemma unique_links_upd:
  assumes "unique_links ths" "\<And>i. Option.bind p linking = Some i \<Longrightarrow> i \<notin> linked_by ths \<or> thread_link ths t = Some i"
  shows "unique_links (ths(t := p))"
proof -
  have old: "t = u" if "Option.bind p linking = Some i" "thread_link ths u = Some i" for u i
    using assms that by (auto simp: unique_links_def linked_by_def)
  show ?thesis
    unfolding unique_links_def
  proof (intro allI impI)
    fix u v i
    assume "thread_link (ths(t := p)) u = Some i" "thread_link (ths(t := p)) v = Some i"
    then show "u = v"
      using old [of i u] old [of i v] assms(1) by (auto simp: thread_link_upd unique_links_def split: if_splits)
  qed
qed

lemma same_link:
  assumes "unique_links ths" "thread_link ths t = Option.bind p linking"
  shows "linked_by (ths(t := p)) = linked_by ths" "unique_links (ths(t := p))"
proof -
  have "set_option (thread_link ths t) \<subseteq> linked_by ths" by (auto simp: linked_by_def)
  then show "linked_by (ths(t := p)) = linked_by ths"
    unfolding linked_by_upd [OF assms(1)] assms(2) [symmetric] by blast
  show "unique_links (ths(t := p))"
    by (rule unique_links_upd [OF assms(1)]) (simp add: assms(2))
qed

section \<open>The steps keep the invariant\<close>

lemma index_not_END: "unat i < n \<Longrightarrow> n < 2 ^ 32 \<Longrightarrow> i \<noteq> END"
  by (auto simp: END_def unsigned_minus_1_eq_mask mask_eq_exp_minus_1)

lemma goodD:
  "good s L M \<Longrightarrow> placed s L M" "good s L M \<Longrightarrow> chain_told s L" "good s L M \<Longrightarrow> threads_ok s"
  "good s L M \<Longrightarrow> counts_ok s" "good s L M \<Longrightarrow> unique_links (ts_threads s)"
  by (auto simp: good_def threads_ok_def)

lemma notify_kept:
  assumes "\<exists>u. ths u = Some W_notify" "ths t \<noteq> Some W_notify"
  shows "\<exists>u. (ths(t := p)) u = Some W_notify"
  using assms by (metis fun_upd_other)

text \<open>A thread that goes on linking the same task, and may have stored its link.\<close>

lemma good_relink:
  assumes "good s L M" "ts_threads s t = Some q" "linking q = Some i" "linking p = Some i" "silent p = silent q"
    "nx = ts_next s \<or> nx = (ts_next s)(i := h)" "\<And>n j k. p = W_cas n j k \<Longrightarrow> j = i \<and> nx i = k"
  shows "good (set_thread t (Some p) (s\<lparr>ts_next := nx\<rparr>)) L M"
proof -
  have link: "thread_link (ts_threads s) t = Some i" using assms(2,3) by (simp add: thread_link_def)
  then have i: "i \<in> linked_by (ts_threads s)" by (auto simp: linked_by_def)
  then have out: "i \<notin> set L" "i \<notin> set M"
    using goodD(1) [OF assms(1)] by (auto simp: placed_def)
  have same: "linked_by ((ts_threads s)(t := Some p)) = linked_by (ts_threads s)" "unique_links ((ts_threads s)(t := Some p))"
    using same_link [OF goodD(5) [OF assms(1)], of t "Some p"] link assms(4) by simp_all
  have chains: "chain nx k is = chain (ts_next s) k is" if "i \<notin> set is" for k "is"
    using assms(6) that by auto
  have "placed (set_thread t (Some p) (s\<lparr>ts_next := nx\<rparr>)) L M"
    using goodD(1) [OF assms(1)] same(1) out by (simp add: placed_def set_thread_def chains)
  moreover have "nx j = k" if cas: "((ts_threads s)(t := Some p)) u = Some (W_cas n j k)" for u n j k
  proof (cases "u = t")
    case True
    then show ?thesis using assms(7) cas by auto
  next
    case False
    then have "thread_link (ts_threads s) u = Some j" "ts_next s j = k"
      using cas goodD(3) [OF assms(1)] by (auto simp: thread_link_def threads_ok_def)
    moreover from this have "j \<noteq> i"
      using False link goodD(5) [OF assms(1)] by (auto simp: unique_links_def)
    ultimately show ?thesis using assms(6) by auto
  qed
  then have "threads_ok (set_thread t (Some p) (s\<lparr>ts_next := nx\<rparr>))"
    using goodD(3) [OF assms(1)] same(2) assms(2,5) by (auto simp: threads_ok_def set_thread_def)
  moreover have "ts_threads s t \<noteq> Some W_notify" using assms(2,3) by auto
  then have "chain_told (set_thread t (Some p) (s\<lparr>ts_next := nx\<rparr>)) L"
    using goodD(2) [OF assms(1)] notify_kept [of "ts_threads s" t "Some p"]
    by (simp add: chain_told_def set_thread_def del: fun_upd_apply) blast
  moreover have "counts_ok (set_thread t (Some p) (s\<lparr>ts_next := nx\<rparr>))"
    using goodD(4) [OF assms(1)] by (simp add: counts_ok_def set_thread_def)
  ultimately show ?thesis by (simp add: good_def)
qed

lemma good_link_load: "good s L M \<Longrightarrow> ts_threads s t = Some (W_load n i) \<Longrightarrow> good (link_load t n i s) L M"
  using good_relink [of s L M t "W_load n i" i "W_store n i (ts_head s)" "ts_next s"] by (simp add: link_load_def)

lemma good_link_store: "good s L M \<Longrightarrow> ts_threads s t = Some (W_store n i h) \<Longrightarrow> good (link_store t n i h s) L M"
  using good_relink [of s L M t "W_store n i h" i "W_cas n i h" "(ts_next s)(i := h)" h] by (simp add: link_store_def)

lemma good_link_retry: "good s L M \<Longrightarrow> ts_threads s t = Some (W_cas n i h) \<Longrightarrow> good (link_retry t n i s) L M"
  using good_relink [of s L M t "W_cas n i h" i "W_store n i (ts_head s)" "ts_next s"] by (simp add: link_retry_def)

text \<open>The successful swap puts the task in front of the chain.\<close>

lemma good_link_done:
  assumes "good s L M" "ts_threads s t = Some (W_cas n i h)" "ts_head s = h" "ts_count s < 2 ^ 32"
  shows "good (link_done t n i s) (i # L) M"
proof -
  let ?p = "if n then Some W_notify else None"
  have link: "thread_link (ts_threads s) t = Some i" using assms(2) by (simp add: thread_link_def)
  have i: "i \<in> linked_by (ts_threads s)" "ts_next s i = h"
    using link goodD(3) [OF assms(1)] assms(2) by (auto simp: linked_by_def threads_ok_def)
  then have q: "i \<in> ts_queued s" "i \<notin> set (L @ M)" "i \<notin> walk_holds (ts_phase s)"
    using goodD(1) [OF assms(1)] by (auto simp: placed_def)
  have ne: "i \<noteq> END"
    using goodD(4) [OF assms(1)] q(1) index_not_END assms(4) by (auto simp: counts_ok_def)
  have lb: "linked_by ((ts_threads s)(t := ?p)) = linked_by (ts_threads s) - {i}"
    using linked_by_upd [OF goodD(5) [OF assms(1)], of t ?p] link by simp
  have un: "unique_links ((ts_threads s)(t := ?p))"
    by (rule unique_links_upd [OF goodD(5) [OF assms(1)]]) (simp split: if_splits)
  have phase: "ts_phase s = Pushing t" if "\<not> n"
    using goodD(3) [OF assms(1)] assms(2) that by (auto simp: threads_ok_def)
  have "placed (link_done t n i s) (i # L) M"
    using goodD(1) [OF assms(1)] i q ne lb assms(3) phase
    by (cases n) (auto simp: placed_def link_done_def set_thread_def)
  moreover have "chain_told (link_done t n i s) (i # L)"
    by (auto simp: chain_told_def link_done_def set_thread_def)
  moreover have "threads_ok (link_done t n i s)"
    using goodD(3) [OF assms(1)] un phase by (cases n) (auto simp: threads_ok_def link_done_def set_thread_def)
  moreover have "counts_ok (link_done t n i s)"
    using goodD(4) [OF assms(1)] by (auto simp: counts_ok_def link_done_def set_thread_def)
  ultimately show ?thesis by (simp add: good_def)
qed

text \<open>A thread that begins to link a task that was not queued.\<close>

lemma good_new_link:
  assumes "good s L M" "ts_threads s t = None" "i \<notin> ts_queued s" "linking p = Some i" "\<And>n j k. p \<noteq> W_cas n j k"
    "silent p \<Longrightarrow> ph = Pushing t" "ph = ts_phase s \<or> ts_phase s = Idle \<and> ph = Pushing t"
    "nx = ts_next s \<or> nx = (ts_next s)(i := h)"
  shows "placed (set_thread t (Some p) (s\<lparr>ts_queued := insert i (ts_queued s), ts_next := nx, ts_phase := ph\<rparr>)) L M"
    "threads_ok (set_thread t (Some p) (s\<lparr>ts_queued := insert i (ts_queued s), ts_next := nx, ts_phase := ph\<rparr>))"
    "chain_told (set_thread t (Some p) (s\<lparr>ts_queued := insert i (ts_queued s), ts_next := nx, ts_phase := ph\<rparr>)) L"
proof -
  have link: "thread_link (ts_threads s) t = None" using assms(2) by (simp add: thread_link_def)
  have out: "i \<notin> set L" "i \<notin> set M" "i \<notin> linked_by (ts_threads s)" "i \<notin> walk_holds (ts_phase s)"
    using goodD(1) [OF assms(1)] assms(3) by (auto simp: placed_def)
  have lb: "linked_by ((ts_threads s)(t := Some p)) = insert i (linked_by (ts_threads s))"
    using linked_by_upd [OF goodD(5) [OF assms(1)], of t "Some p"] link assms(4) by simp
  have un: "unique_links ((ts_threads s)(t := Some p))"
    by (rule unique_links_upd [OF goodD(5) [OF assms(1)]]) (use assms(4) out(3) in simp)
  have walk: "walk_at ph = walk_at (ts_phase s)" "walk_holds ph = walk_holds (ts_phase s)"
    using assms(7) by auto
  have chains: "chain nx k is = chain (ts_next s) k is" if "i \<notin> set is" for k "is"
    using assms(8) that by auto
  show "placed (set_thread t (Some p) (s\<lparr>ts_queued := insert i (ts_queued s), ts_next := nx, ts_phase := ph\<rparr>)) L M"
    using goodD(1) [OF assms(1)] out lb walk by (simp add: placed_def set_thread_def chains)
  have "nx j = k" if "ts_threads s u = Some (W_cas n j k)" for u n j k
  proof -
    have "j \<in> linked_by (ts_threads s)" using that by (auto simp: linked_by_def thread_link_def intro!: exI [of _ u])
    then show ?thesis using that goodD(3) [OF assms(1)] out(3) assms(8) by (auto simp: threads_ok_def)
  qed
  moreover have "ph = Pushing u" if "ts_threads s u = Some q" "silent q" for u q
    using that goodD(3) [OF assms(1)] assms(7) by (auto simp: threads_ok_def)
  ultimately show "threads_ok (set_thread t (Some p) (s\<lparr>ts_queued := insert i (ts_queued s), ts_next := nx, ts_phase := ph\<rparr>))"
    using un assms(5,6) by (auto simp: threads_ok_def set_thread_def)
  show "chain_told (set_thread t (Some p) (s\<lparr>ts_queued := insert i (ts_queued s), ts_next := nx, ts_phase := ph\<rparr>)) L"
    using goodD(2) [OF assms(1)] notify_kept [of "ts_threads s" t "Some p"] assms(2,7)
    by (auto simp: chain_told_def set_thread_def simp del: fun_upd_apply)
qed

lemma good_wake:
  assumes "good s L M" "ts_threads s t = None" "unat i < ts_count s"
  shows "good (wake_begin t i s) L M"
proof (cases "i \<in> ts_queued s")
  case True
  then show ?thesis
    using assms(1) by (auto simp: wake_begin_def good_def placed_def chain_told_def threads_ok_def counts_ok_def)
next
  case False
  note new = good_new_link [OF assms(1,2) False, of "W_load True i" "ts_phase s" "ts_next s"]
  have "wake_begin t i s = (set_thread t (Some (W_load True i)) (s\<lparr>ts_queued := insert i (ts_queued s),
      ts_next := ts_next s, ts_phase := ts_phase s\<rparr>))\<lparr>ts_owed := insert i (ts_owed s)\<rparr>"
    using False by (simp add: wake_begin_def set_thread_def)
  moreover have "counts_ok (wake_begin t i s)"
    using goodD(4) [OF assms(1)] assms(3) False by (auto simp: counts_ok_def wake_begin_def set_thread_def)
  ultimately show ?thesis
    using new by (simp add: good_def placed_def chain_told_def threads_ok_def)
qed

lemma good_push:
  assumes "good s L M" "ts_phase s = Idle" "ts_threads s t = None" "push_begin t s = Some s'" "ts_count s' < 2 ^ 32"
  shows "good s' L M"
proof -
  define i :: u32 where "i = of_nat (ts_count s)"
  have i: "unat i = ts_count s"
    using assms(4,5) by (auto simp: i_def push_begin_def Let_def set_thread_def unsigned_of_nat take_bit_nat_eq_self split: if_splits)
  then have new: "i \<notin> ts_queued s" "i \<notin> ts_alive s"
    using goodD(4) [OF assms(1)] unfolding counts_ok_def by (metis UnI1 UnI2 less_irrefl)+
  note link = good_new_link [OF assms(1,3) new(1), of "W_load False i" "Pushing t" "(ts_next s)(i := END)" END]
  have s': "s' = (set_thread t (Some (W_load False i)) (s\<lparr>ts_queued := insert i (ts_queued s), ts_next := (ts_next s)(i := END),
      ts_phase := Pushing t\<rparr>))\<lparr>ts_count := ts_count s + 1, ts_alive := insert i (ts_alive s), ts_left := ts_left s + 1,
      ts_owed := insert i (ts_owed s)\<rparr>"
    using assms(4) by (auto simp: push_begin_def Let_def set_thread_def i_def split: if_splits)
  have "counts_ok s'"
    using goodD(4) [OF assms(1)] new i unfolding s' by (auto simp: counts_ok_def set_thread_def less_Suc_eq)
  then show ?thesis
    using link assms(2) unfolding s' by (simp add: good_def placed_def chain_told_def threads_ok_def)
qed

lemma good_notify:
  assumes "good s L M" "ts_threads s t = Some W_notify"
  shows "good (notify_parent t s) L M"
proof -
  have same: "linked_by ((ts_threads s)(t := None)) = linked_by (ts_threads s)" "unique_links ((ts_threads s)(t := None))"
    using same_link [OF goodD(5) [OF assms(1)], of t None] assms(2) by (simp_all add: thread_link_def)
  have "placed (notify_parent t s) L M" "threads_ok (notify_parent t s)"
    using goodD(1,3) [OF assms(1)] same by (auto simp: placed_def threads_ok_def notify_parent_def set_thread_def)
  then show ?thesis
    using goodD(4) [OF assms(1)] by (simp add: good_def chain_told_def counts_ok_def notify_parent_def set_thread_def)
qed

text \<open>The owner's poll. While it polls, nothing is being added.\<close>

lemma not_pushing: "good s L M \<Longrightarrow> (\<And>u. ts_phase s \<noteq> Pushing u) \<Longrightarrow> ts_threads s t = Some p \<Longrightarrow> \<not> silent p"
  by (auto simp: good_def threads_ok_def)

lemma good_register:
  assumes "good s L M" "ts_phase s = Idle"
  shows "good (poll_register s) L M"
  using assms not_pushing [OF assms(1)]
  by (auto simp: good_def placed_def chain_told_def threads_ok_def counts_ok_def poll_register_def)

lemma good_swap:
  assumes "good s L M" "ts_phase s = Registered"
  shows "good (poll_swap s) [] L"
  using assms not_pushing [OF assms(1)]
  by (cases M) (auto simp: good_def placed_def chain_told_def threads_ok_def counts_ok_def poll_swap_def)

lemma good_walk:
  assumes "good s L M" "ts_phase s = Walk c" "c \<noteq> END"
  shows "\<exists>M'. good (walk_load c s) L M'"
proof -
  obtain M' where M: "M = c # M'"
    using goodD(1) [OF assms(1)] assms(2,3) by (cases M) (auto simp: placed_def)
  then have "unat c < ts_count s"
    using goodD(1,4) [OF assms(1)] by (auto simp: placed_def counts_ok_def)
  then have "good (walk_load c s) L M'"
    using assms not_pushing [OF assms(1)] M
    by (auto simp: good_def placed_def chain_told_def threads_ok_def counts_ok_def walk_load_def)
  then show ?thesis by blast
qed

lemma good_clear:
  assumes "good s L M" "ts_phase s = Loaded c f"
  shows "good (walk_clear c f s) L M"
  using assms not_pushing [OF assms(1)]
  by (auto simp: good_def placed_def chain_told_def threads_ok_def counts_ok_def walk_clear_def)

lemma good_polled:
  assumes "good s L M" "ts_phase s = Polling c f"
  shows "good (walk_polled ready c f s) L M"
  using assms not_pushing [OF assms(1)]
  by (auto simp: good_def placed_def chain_told_def threads_ok_def counts_ok_def walk_polled_def)

lemma good_end:
  assumes "good s L M" "ts_phase s = Walk END"
  shows "good (fst (poll_end s)) L M"
  using assms not_pushing [OF assms(1)]
  by (auto simp: good_def placed_def chain_told_def threads_ok_def counts_ok_def poll_end_def)

lemma ts_step_count: "ts_step s t \<Longrightarrow> ts_count s \<le> ts_count t"
  by (induction rule: ts_step.induct)
    (auto simp: wake_begin_def push_begin_def Let_def link_load_def link_store_def link_done_def link_retry_def
      notify_parent_def poll_register_def poll_swap_def walk_load_def walk_clear_def walk_polled_def poll_end_def
      set_thread_def split: if_splits)

lemma ts_step_inv:
  assumes "ts_inv s" "ts_step s t"
  shows "ts_inv t"
  unfolding ts_inv_def
proof
  assume bound: "ts_count t < 2 ^ 32"
  then have "ts_count s < 2 ^ 32" using ts_step_count [OF assms(2)] by simp
  then obtain L M where g: "good s L M" using assms(1) by (auto simp: ts_inv_def)
  from assms(2) show "\<exists>L M. good t L M"
  proof cases
    case (step_wake i u)
    then show ?thesis using good_wake [OF g] by blast
  next
    case (step_push u)
    then show ?thesis using good_push [OF g] bound by blast
  next
    case (step_load u n i)
    then show ?thesis using good_link_load [OF g] by blast
  next
    case (step_store u n i h)
    then show ?thesis using good_link_store [OF g] by blast
  next
    case (step_linked u n i h)
    then show ?thesis using good_link_done [OF g] \<open>ts_count s < 2 ^ 32\<close> by blast
  next
    case (step_retry u n i h)
    then show ?thesis using good_link_retry [OF g] by blast
  next
    case (step_notify u)
    then show ?thesis using good_notify [OF g] by blast
  next
    case step_register
    then show ?thesis using good_register [OF g] by blast
  next
    case step_swap
    then show ?thesis using good_swap [OF g] by blast
  next
    case (step_walk c)
    then show ?thesis using good_walk [OF g] by blast
  next
    case (step_clear c f)
    then show ?thesis using good_clear [OF g] by blast
  next
    case (step_polled c f ready)
    then show ?thesis using good_polled [OF g] by blast
  next
    case step_end
    then show ?thesis using good_end [OF g] by blast
  qed
qed

definition ts_start :: "taskset \<Rightarrow> bool" where
  "ts_start s \<longleftrightarrow> s = taskset_new"

lemma good_new: "good taskset_new [] []"
  by (simp add: good_def placed_def chain_told_def threads_ok_def counts_ok_def taskset_new_def
      linked_by_def thread_link_def unique_links_def)

interpretation tasks: invariant_system ts_start ts_step ts_inv
proof
  show "ts_inv s" if "ts_start s" for s
    using that good_new by (auto simp: ts_start_def ts_inv_def)
qed (rule ts_step_inv)

section \<open>Properties\<close>

text \<open>
  C29: The ready chain loses no task. In every interleaving of wakes on any threads with
  the owner's additions and polls, for a set of fewer than \<open>2 ^ 32\<close> tasks: the walk never
  meets an index without an entry; the count of unfinished futures is exact; the head
  leads through the links to the end of a chain of distinct tasks; while the owner is
  not in a call, every task that was woken or added and not polled since is on that
  chain or some thread is about to put it there; and once the chain has a task, the
  parent that polled last has been woken, or a thread is about to wake it, or the owner
  itself added a task since.
\<close>

theorem task_set_loses_no_wake:
  assumes "reach ts_start ts_step s" "ts_count s < 2 ^ 32"
  shows "ts_phase s \<noteq> Broken \<and> ts_left s = card (ts_alive s) \<and>
    (\<exists>L. chain (ts_next s) (ts_head s) L \<and> distinct L \<and>
      (ts_phase s = Idle \<longrightarrow> ts_owed s \<subseteq> set L \<union> linked_by (ts_threads s)) \<and>
      (ts_phase s \<noteq> Registered \<longrightarrow> L \<noteq> [] \<longrightarrow>
         ts_woken s \<or> ts_pushed s \<or> (\<exists>t. ts_threads s t = Some W_notify)))"
proof -
  obtain L M where g: "good s L M"
    using tasks.reach_inv [OF assms(1)] assms(2) by (auto simp: ts_inv_def)
  have "M = []" if "ts_phase s = Idle"
    using goodD(1) [OF g] that by (cases M) (auto simp: placed_def)
  then have "ts_owed s \<subseteq> set L \<union> linked_by (ts_threads s)" if "ts_phase s = Idle"
    using goodD(1,4) [OF g] that by (auto simp: placed_def counts_ok_def)
  then show ?thesis
    using g unfolding good_def counts_ok_def placed_def chain_told_def
    by (intro conjI exI [of _ L]) auto
qed

text \<open>One task is added, polled, and woken by another thread, which is about to wake the parent.\<close>

definition demo_set :: "u32 set \<Rightarrow> u32 \<Rightarrow> wphase option \<Rightarrow> pphase \<Rightarrow> bool \<Rightarrow> u32 set \<Rightarrow> taskset" where
  "demo_set queued head thread phase pushed owed = \<lparr>ts_count = 1, ts_alive = {0}, ts_left = 1, ts_queued = queued,
     ts_next = (\<lambda>_. END)(0 := END), ts_head = head, ts_threads = (\<lambda>_. None)(0 := thread), ts_phase = phase,
     ts_woken = False, ts_pushed = pushed, ts_owed = owed\<rparr>"

lemma demo_set_reach: "reach ts_start ts_step (demo_set {0} 0 (Some W_notify) Idle False {0})"
proof -
  note go = reach.reach_step [where init = ts_start and step = ts_step]
  note defs = demo_set_def set_thread_def
  have s0: "reach ts_start ts_step taskset_new"
    by (rule reach.reach_init) (simp add: ts_start_def)
  have s1: "reach ts_start ts_step (demo_set {0} END (Some (W_load False 0)) (Pushing 0) False {0})"
    by (rule go [OF s0], rule ts_step.step_push [of _ 0])
      (simp_all add: taskset_new_def push_begin_def Let_def defs)
  have s2: "reach ts_start ts_step (demo_set {0} END (Some (W_store False 0 END)) (Pushing 0) False {0})"
    using go [OF s1 ts_step.step_load [of _ 0 False 0]] by (simp add: link_load_def defs)
  have s3: "reach ts_start ts_step (demo_set {0} END (Some (W_cas False 0 END)) (Pushing 0) False {0})"
    using go [OF s2 ts_step.step_store [of _ 0 False 0 END]] by (simp add: link_store_def defs)
  have s4: "reach ts_start ts_step (demo_set {0} 0 None Idle True {0})"
    using go [OF s3 ts_step.step_linked [of _ 0 False 0 END]] by (simp add: link_done_def defs)
  have s5: "reach ts_start ts_step (demo_set {0} 0 None Registered False {0})"
    using go [OF s4 ts_step.step_register] by (simp add: poll_register_def defs)
  have s6: "reach ts_start ts_step (demo_set {0} END None (Walk 0) False {0})"
    using go [OF s5 ts_step.step_swap] by (simp add: poll_swap_def defs)
  have s7: "reach ts_start ts_step (demo_set {0} END None (Loaded 0 END) False {0})"
    using go [OF s6 ts_step.step_walk [of _ 0]] by (simp add: walk_load_def defs END_def)
  have s8: "reach ts_start ts_step (demo_set {} END None (Polling 0 END) False {})"
    using go [OF s7 ts_step.step_clear [of _ 0 END]] by (simp add: walk_clear_def defs)
  have s9: "reach ts_start ts_step (demo_set {} END None (Walk END) False {})"
    using go [OF s8 ts_step.step_polled [of _ 0 END False]] by (simp add: walk_polled_def defs)
  have s10: "reach ts_start ts_step (demo_set {} END None Idle False {})"
    using go [OF s9 ts_step.step_end] by (simp add: poll_end_def defs)
  have s11: "reach ts_start ts_step (demo_set {0} END (Some (W_load True 0)) Idle False {0})"
    using go [OF s10 ts_step.step_wake [of 0 _ 0]] by (simp add: wake_begin_def defs)
  have s12: "reach ts_start ts_step (demo_set {0} END (Some (W_store True 0 END)) Idle False {0})"
    using go [OF s11 ts_step.step_load [of _ 0 True 0]] by (simp add: link_load_def defs)
  have s13: "reach ts_start ts_step (demo_set {0} END (Some (W_cas True 0 END)) Idle False {0})"
    using go [OF s12 ts_step.step_store [of _ 0 True 0 END]] by (simp add: link_store_def defs)
  show ?thesis
    using go [OF s13 ts_step.step_linked [of _ 0 True 0 END]] by (simp add: link_done_def defs)
qed

theorem task_set_loses_no_wake_witness:
  "\<exists>s. reach ts_start ts_step s \<and> ts_owed s = {0} \<and> ts_phase s = Idle \<and> ts_left s = card (ts_alive s) \<and>
    (\<exists>L. chain (ts_next s) (ts_head s) L \<and> distinct L)"
proof -
  let ?s = "demo_set {0} 0 (Some W_notify) Idle False {0}"
  have "ts_count ?s < 2 ^ 32" by (simp add: demo_set_def)
  from task_set_loses_no_wake [OF demo_set_reach this] show ?thesis
    by (intro exI [of _ ?s]) (auto simp: demo_set_reach, simp_all add: demo_set_def)
qed

end
