(* ===== verification/LocalBlock.thy ===== *)
theory LocalBlock
  imports Prelude
begin

text \<open>
  Running a future on the thread that owns the poller (\<open>LocalWaker\<close> and
  \<open>block_on_with\<close> of \<open>src/src/reactor/local.rs\<close>): a loop that polls the future when its
  flag is set and otherwise waits in the kernel, and a waker that sets the flag and
  interrupts that wait, unless it runs on the waiting thread itself, where the poller
  has already returned. Threads are numbered; \<open>key\<close> is the address that \<open>thread_key\<close>
  takes as a thread's identity.

  The result: the loop never blocks on a wake it has not seen, although the wakes of its
  own thread skip the interruption.
\<close>

section \<open>The waker and the loop\<close>

text \<open>A waker on another thread: the flag is stored; the test of \<open>waiting\<close> comes next, then the interruption.\<close>

datatype lw_phase = Stored | Interrupting

text \<open>
  The loop: at the swap of the flag; in the future's poll; before the claim of \<open>waiting\<close>;
  in \<open>poll_once\<close> firing timers, with whether one fired; in the kernel, with whether it
  returns at once; dispatching; before the release of \<open>waiting\<close>, with the outcome; in the
  poll after a failure; done.
\<close>

datatype lb_phase =
    Check
  | Polling
  | Claiming
  | Firing bool
  | Blocking bool
  | Dispatching
  | Releasing bool
  | Retrying
  | Finished

record local_block =
  lb_ready :: bool
  lb_waiting :: nat
  lb_interrupt :: bool
  lb_threads :: "nat \<Rightarrow> lw_phase option"
  lb_phase :: lb_phase

definition block_start :: "local_block \<Rightarrow> bool" where
  "block_start s \<longleftrightarrow> lb_ready s \<and> lb_waiting s = 0 \<and> (\<forall>t. lb_threads s t = None) \<and> lb_phase s = Check"

text \<open>\<open>wake_by_ref\<close> after its store: whether the thread with this key interrupts the wait.\<close>

definition must_interrupt :: "nat \<Rightarrow> local_block \<Rightarrow> bool" where
  "must_interrupt key s \<longleftrightarrow> lb_waiting s \<noteq> key"

definition own_wake :: "nat \<Rightarrow> local_block \<Rightarrow> local_block" where
  "own_wake key s = (let s = s\<lparr>lb_ready := True\<rparr> in if must_interrupt key s then s\<lparr>lb_interrupt := True\<rparr> else s)"

inductive lb_step :: "(nat \<Rightarrow> nat) \<Rightarrow> nat \<Rightarrow> local_block \<Rightarrow> local_block \<Rightarrow> bool"
  for key :: "nat \<Rightarrow> nat" and me :: nat where
  wake_store: "t \<noteq> me \<Longrightarrow> lb_threads s t = None \<Longrightarrow>
    lb_step key me s (s\<lparr>lb_ready := True, lb_threads := (lb_threads s)(t \<mapsto> Stored)\<rparr>)"
| wake_test: "lb_threads s t = Some Stored \<Longrightarrow>
    lb_step key me s (s\<lparr>lb_threads := (lb_threads s)(t := if must_interrupt (key t) s then Some Interrupting else None)\<rparr>)"
| wake_interrupt: "lb_threads s t = Some Interrupting \<Longrightarrow>
    lb_step key me s (s\<lparr>lb_interrupt := True, lb_threads := (lb_threads s)(t := None)\<rparr>)"
| swap_ready: "lb_phase s = Check \<Longrightarrow> lb_ready s \<Longrightarrow> lb_step key me s (s\<lparr>lb_ready := False, lb_phase := Polling\<rparr>)"
| swap_idle: "lb_phase s = Check \<Longrightarrow> \<not> lb_ready s \<Longrightarrow> lb_step key me s (s\<lparr>lb_phase := Claiming\<rparr>)"
| poll_wakes: "lb_phase s \<in> {Polling, Dispatching, Retrying} \<Longrightarrow> lb_step key me s (own_wake (key me) s)"
| poll_ready: "lb_phase s \<in> {Polling, Retrying} \<Longrightarrow> lb_step key me s (s\<lparr>lb_phase := Finished\<rparr>)"
| poll_pending: "lb_phase s = Polling \<Longrightarrow> lb_step key me s (s\<lparr>lb_phase := Claiming\<rparr>)"
| claim: "lb_phase s = Claiming \<Longrightarrow> lb_step key me s (s\<lparr>lb_waiting := key me, lb_phase := Firing False\<rparr>)"
| timer_fires: "lb_phase s = Firing fired \<Longrightarrow> lb_step key me s ((own_wake (key me) s)\<lparr>lb_phase := Firing True\<rparr>)"
| enter_wait: "lb_phase s = Firing fired \<Longrightarrow> lb_step key me s (s\<lparr>lb_phase := Blocking fired\<rparr>)"
| leave_wait: "lb_phase s = Blocking fired \<Longrightarrow> lb_step key me s (s\<lparr>lb_interrupt := False, lb_phase := Dispatching\<rparr>)"
| wait_fails: "lb_phase s = Blocking fired \<Longrightarrow> lb_step key me s (s\<lparr>lb_phase := Releasing False\<rparr>)"
| dispatched: "lb_phase s = Dispatching \<Longrightarrow> lb_step key me s (s\<lparr>lb_phase := Releasing True\<rparr>)"
| release: "lb_phase s = Releasing ok \<Longrightarrow>
    lb_step key me s (s\<lparr>lb_waiting := 0, lb_phase := if ok then Check else Retrying\<rparr>)"
| retry_pending: "lb_phase s = Retrying \<Longrightarrow> lb_step key me s (s\<lparr>lb_phase := Check\<rparr>)"

section \<open>The invariant\<close>

fun may_sleep :: "lb_phase \<Rightarrow> bool" where
  "may_sleep Polling = True"
| "may_sleep Claiming = True"
| "may_sleep (Firing fired) = (\<not> fired)"
| "may_sleep (Blocking fired) = (\<not> fired)"
| "may_sleep _ = False"

fun claimed :: "lb_phase \<Rightarrow> bool" where
  "claimed (Firing _) = True"
| "claimed (Blocking _) = True"
| "claimed Dispatching = True"
| "claimed (Releasing _) = True"
| "claimed _ = False"

definition lb_inv :: "(nat \<Rightarrow> nat) \<Rightarrow> nat \<Rightarrow> local_block \<Rightarrow> bool" where
  "lb_inv key me s \<longleftrightarrow> lb_threads s me = None \<and> lb_waiting s = (if claimed (lb_phase s) then key me else 0) \<and>
     (may_sleep (lb_phase s) \<longrightarrow> lb_ready s \<longrightarrow> lb_interrupt s \<or> (\<exists>t. lb_threads s t \<noteq> None))"

lemma others_kept:
  assumes "\<exists>u. ths u \<noteq> None" "ths t = None"
  shows "\<exists>u. (ths(t := p)) u \<noteq> None"
  using assms by (metis fun_upd_other)

lemma lb_step_inv:
  assumes keys: "inj key" "\<And>t. key t \<noteq> 0" and "lb_inv key me s" "lb_step key me s s'"
  shows "lb_inv key me s'"
  using assms(4)
proof cases
  case (wake_test t)
  have "t \<noteq> me" using assms(3) wake_test(2) by (auto simp: lb_inv_def)
  then have "must_interrupt (key t) s"
    using assms(3) keys by (auto simp: must_interrupt_def lb_inv_def inj_eq)
  then show ?thesis
    using wake_test assms(3) \<open>t \<noteq> me\<close> by (auto simp: lb_inv_def)
next
  case (wake_store t)
  then show ?thesis using assms(3) by (auto simp: lb_inv_def)
next
  case (wake_interrupt t)
  then show ?thesis using assms(3) by (auto simp: lb_inv_def)
next
  case poll_wakes
  then show ?thesis using assms(3) keys(2) [of me] by (auto simp: lb_inv_def own_wake_def must_interrupt_def Let_def)
next
  case (timer_fires fired)
  then show ?thesis using assms(3) keys(2) [of me] by (auto simp: lb_inv_def own_wake_def must_interrupt_def Let_def)
qed (use assms(3) in \<open>auto simp: lb_inv_def split: if_splits\<close>)

section \<open>Properties\<close>

text \<open>
  C30: The loop never sleeps on a wake it has not seen. For thread keys that are distinct
  and not zero, in every interleaving of the loop with wakes on any threads, of wakes
  that the future, the dispatch or a timer makes on the loop's own thread, and of a
  failing poller: while the loop is in a wait that may block and its flag is set, the
  poller's interruption is pending or another thread is about to make it. The wakes of
  the loop's own thread, which make none while it has claimed the wait, never leave the
  flag set before such a wait.
\<close>

theorem local_block_no_lost_wake:
  assumes "inj key" "\<And>t. key t \<noteq> 0" "reach block_start (lb_step key me) s" "lb_phase s = Blocking False" "lb_ready s"
  shows "lb_interrupt s \<or> (\<exists>t. t \<noteq> me \<and> lb_threads s t \<noteq> None)"
proof -
  have "lb_inv key me s"
    using assms(3)
  proof (induction rule: reach.induct)
    case (reach_init s)
    then show ?case by (auto simp: lb_inv_def block_start_def)
  next
    case (reach_step s t)
    then show ?case using lb_step_inv assms(1,2) by blast
  qed
  then show ?thesis using assms(4,5) unfolding lb_inv_def by (metis may_sleep.simps(4))
qed

text \<open>The loop waits after a first poll; thread 1 has stored the flag.\<close>

definition demo_block :: "bool \<Rightarrow> nat \<Rightarrow> (nat \<Rightarrow> lw_phase option) \<Rightarrow> lb_phase \<Rightarrow> local_block" where
  "demo_block ready waiting ths phase =
     \<lparr>lb_ready = ready, lb_waiting = waiting, lb_interrupt = False, lb_threads = ths, lb_phase = phase\<rparr>"

lemma demo_block_reach: "reach block_start (lb_step Suc 0) (demo_block True 1 (Map.empty(1 \<mapsto> Stored)) (Blocking False))"
proof -
  note go = reach.reach_step [where init = block_start and step = "lb_step Suc 0"]
  have s0: "reach block_start (lb_step Suc 0) (demo_block True 0 Map.empty Check)"
    by (rule reach.reach_init) (simp add: block_start_def demo_block_def)
  have s1: "reach block_start (lb_step Suc 0) (demo_block False 0 Map.empty Polling)"
    using go [OF s0 lb_step.swap_ready] by (simp add: demo_block_def)
  have s2: "reach block_start (lb_step Suc 0) (demo_block False 0 Map.empty Claiming)"
    using go [OF s1 lb_step.poll_pending] by (simp add: demo_block_def)
  have s3: "reach block_start (lb_step Suc 0) (demo_block False 1 Map.empty (Firing False))"
    using go [OF s2 lb_step.claim] by (simp add: demo_block_def)
  have s4: "reach block_start (lb_step Suc 0) (demo_block False 1 Map.empty (Blocking False))"
    using go [OF s3 lb_step.enter_wait [of _ False]] by (simp add: demo_block_def)
  show ?thesis
    using go [OF s4 lb_step.wake_store [of 1]] by (simp add: demo_block_def)
qed

theorem local_block_no_lost_wake_witness:
  "\<exists>s. reach block_start (lb_step Suc 0) s \<and> lb_phase s = Blocking False \<and> lb_ready s \<and>
    (lb_interrupt s \<or> (\<exists>t. t \<noteq> 0 \<and> lb_threads s t \<noteq> None))"
  using local_block_no_lost_wake [OF _ _ demo_block_reach] demo_block_reach
  by (intro exI [of _ "demo_block True 1 (Map.empty(1 \<mapsto> Stored)) (Blocking False)"]) (simp add: demo_block_def)

end
