(* ===== verification/Routing.thy ===== *)
theory Routing
  imports Reactor
begin

text \<open>
  Where a runnable task goes (\<open>src/src/task.rs\<close> and the executor and join handle of
  \<open>src/src/lib.rs\<close>): the thread-local marker that says which worker of which pool a
  thread is, the thread-local route that says where wakes from a thread belong, the
  guards that restore both, and the closure that \<open>async_task\<close> calls for the first poll
  of a task and for every wake after it.

  A pool is an identity with a strong count (its \<open>Arc\<close>) and a number of workers; the
  pool's queues belong to another crate, so a submission is the call that is made, with
  its target. What \<open>async_task\<close> does with a runnable that is dropped belongs to that
  crate too: the model says that it is dropped.

  The results: every call of the closure disposes of its runnable exactly once, on a
  worker that its own pool has, on its own pool's shared queue, or by dropping it when
  the pool is gone; the guards make the thread-local state behave like an argument that
  is passed down; and a wake from the reactor lands on the worker its slot is tied to.
\<close>

section \<open>Thread-local markers\<close>

record thread_local =
  tl_current :: "(nat \<times> nat) option"
  tl_route :: "nat option"

text \<open>A thread and the strong counts of the pools.\<close>

record world =
  wd_thread :: thread_local
  wd_strong :: "nat \<Rightarrow> nat"

definition alive :: "nat \<Rightarrow> world \<Rightarrow> bool" where
  "alive p wd \<longleftrightarrow> 0 < wd_strong wd p"

definition set_current :: "(nat \<times> nat) option \<Rightarrow> world \<Rightarrow> world" where
  "set_current c wd = wd\<lparr>wd_thread := (wd_thread wd)\<lparr>tl_current := c\<rparr>\<rparr>"

definition set_route :: "nat option \<Rightarrow> world \<Rightarrow> world" where
  "set_route r wd = wd\<lparr>wd_thread := (wd_thread wd)\<lparr>tl_route := r\<rparr>\<rparr>"

definition arc_clone :: "nat \<Rightarrow> world \<Rightarrow> world" where
  "arc_clone p wd = wd\<lparr>wd_strong := (wd_strong wd)(p := wd_strong wd p + 1)\<rparr>"

definition arc_drop :: "nat \<Rightarrow> world \<Rightarrow> world" where
  "arc_drop p wd = wd\<lparr>wd_strong := (wd_strong wd)(p := wd_strong wd p - 1)\<rparr>"

text \<open>\<open>route_wakes\<close> and the drop of its guard; the guard is the previous value.\<close>

definition route_wakes :: "nat \<Rightarrow> world \<Rightarrow> world \<times> nat option" where
  "route_wakes worker wd = (set_route (Some worker) wd, tl_route (wd_thread wd))"

definition route_guard_drop :: "nat option \<Rightarrow> world \<Rightarrow> world" where
  "route_guard_drop previous wd = set_route previous wd"

definition routed_worker :: "world \<Rightarrow> nat option" where
  "routed_worker wd = tl_route (wd_thread wd)"

text \<open>\<open>mark_current\<close>, which holds a clone of the pool, and the drop of its guard, which releases what it replaces.\<close>

definition mark_current :: "nat \<Rightarrow> nat \<Rightarrow> world \<Rightarrow> world \<times> (nat \<times> nat) option" where
  "mark_current p worker wd = (set_current (Some (p, worker)) (arc_clone p wd), tl_current (wd_thread wd))"

definition current_guard_drop :: "(nat \<times> nat) option \<Rightarrow> world \<Rightarrow> world" where
  "current_guard_drop previous wd =
     (case tl_current (wd_thread wd) of
        Some (p, _) \<Rightarrow> arc_drop p (set_current previous wd)
      | None \<Rightarrow> set_current previous wd)"

definition with_current_worker :: "world \<Rightarrow> (nat \<times> nat \<Rightarrow> 's \<Rightarrow> 's) \<Rightarrow> 's \<Rightarrow> 's" where
  "with_current_worker wd visit s = (case tl_current (wd_thread wd) of Some v \<Rightarrow> visit v s | None \<Rightarrow> s)"

definition current_worker :: "nat \<Rightarrow> world \<Rightarrow> nat option" where
  "current_worker p wd = with_current_worker wd (\<lambda>(owner, worker) found. if owner = p then Some worker else found) None"

section \<open>The schedule closure\<close>

text \<open>
  A host's \<open>WorkerContext\<close>, as it answers on the calling lane: the worker it reports for
  a pool, and the visits its \<open>with_current_worker\<close> makes (the default makes none).
\<close>

record worker_context =
  hc_current :: "nat \<Rightarrow> nat option"
  hc_visits :: "(nat \<times> nat) list"

text \<open>What the closure of one task captured.\<close>

record task =
  tk_pool :: nat
  tk_context :: "worker_context option"
  tk_first_worker :: "nat option"
  tk_first :: bool

datatype 'r pool_call =
    Submit_local nat nat 'r
  | Submit_job nat 'r
  | Drop_runnable 'r

datatype schedule_panic = Invalid_initial_worker

text \<open>The closure \<open>local\<close>: the first visit by a worker of the task's own pool takes the runnable.\<close>

definition try_local ::
  "(nat \<Rightarrow> nat) \<Rightarrow> nat \<Rightarrow> nat \<times> nat \<Rightarrow> 'r option \<times> 'r pool_call list \<Rightarrow> 'r option \<times> 'r pool_call list" where
  "try_local workers p visit acc =
     (case visit of (owner, worker) \<Rightarrow>
        if owner = p \<and> worker < workers owner
        then (case acc of
                (Some r, calls) \<Rightarrow> (None, calls @ [Submit_local owner worker r])
              | (None, calls) \<Rightarrow> (None, calls))
        else acc)"

definition worker_for :: "(nat \<Rightarrow> nat) \<Rightarrow> world \<Rightarrow> nat \<Rightarrow> worker_context option \<Rightarrow> nat option" where
  "worker_for workers wd p context =
     (let worker = (case context of
          Some c \<Rightarrow> hc_current c p
        | None \<Rightarrow> (case current_worker p wd of Some w \<Rightarrow> Some w | None \<Rightarrow> routed_worker wd))
      in case worker of Some w \<Rightarrow> if w < workers p then Some w else None | None \<Rightarrow> None)"

definition schedule ::
  "(nat \<Rightarrow> nat) \<Rightarrow> world \<Rightarrow> 'r \<Rightarrow> task \<Rightarrow> schedule_panic + task \<times> 'r pool_call list" where
  "schedule workers wd r tk0 =
     (let p = tk_pool tk0; tk = tk0\<lparr>tk_first := False\<rparr> in
      case (if tk_first tk0 then tk_first_worker tk0 else None) of
        Some worker \<Rightarrow>
          (if alive p wd
           then if worker < workers p then Inr (tk, [Submit_local p worker r]) else Inl Invalid_initial_worker
           else Inr (tk, [Drop_runnable r]))
      | None \<Rightarrow>
          (case (case tk_context tk of
                   Some c \<Rightarrow> fold (try_local workers p) (hc_visits c) (Some r, [])
                 | None \<Rightarrow> with_current_worker wd (try_local workers p) (Some r, [])) of
             (None, calls) \<Rightarrow> Inr (tk, calls)
           | (Some r, calls) \<Rightarrow>
               (if \<not> alive p wd then Inr (tk, calls @ [Drop_runnable r])
                else case worker_for workers wd p (tk_context tk) of
                       Some worker \<Rightarrow> Inr (tk, calls @ [Submit_local p worker r])
                     | None \<Rightarrow> Inr (tk, calls @ [Submit_job p r]))))"

text \<open>\<open>spawn_on_at\<close> builds the closure and schedules the first poll; \<open>spawn_on\<close> has no preference.\<close>

definition spawn_on_at ::
  "(nat \<Rightarrow> nat) \<Rightarrow> world \<Rightarrow> 'r \<Rightarrow> nat \<Rightarrow> worker_context option \<Rightarrow> nat option \<Rightarrow>
   schedule_panic + task \<times> 'r pool_call list" where
  "spawn_on_at workers wd r p context first_worker =
     schedule workers wd r \<lparr>tk_pool = p, tk_context = context, tk_first_worker = first_worker, tk_first = True\<rparr>"

definition spawn_on ::
  "(nat \<Rightarrow> nat) \<Rightarrow> world \<Rightarrow> 'r \<Rightarrow> nat \<Rightarrow> worker_context option \<Rightarrow> schedule_panic + task \<times> 'r pool_call list" where
  "spawn_on workers wd r p context = spawn_on_at workers wd r p context None"

section \<open>The executor and the join handle\<close>

record executor =
  ex_pool :: nat
  ex_context :: "worker_context option"

definition executor_current_worker :: "(nat \<Rightarrow> nat) \<Rightarrow> world \<Rightarrow> executor \<Rightarrow> nat option" where
  "executor_current_worker workers wd ex =
     (case (case ex_context ex of Some c \<Rightarrow> hc_current c (ex_pool ex) | None \<Rightarrow> current_worker (ex_pool ex) wd) of
        Some w \<Rightarrow> if w < workers (ex_pool ex) then Some w else None
      | None \<Rightarrow> None)"

definition executor_spawn ::
  "(nat \<Rightarrow> nat) \<Rightarrow> world \<Rightarrow> 'r \<Rightarrow> executor \<Rightarrow> schedule_panic + task \<times> 'r pool_call list" where
  "executor_spawn workers wd r ex = spawn_on workers wd r (ex_pool ex) (ex_context ex)"

text \<open>
  A join handle holds the \<open>async_task\<close> handle until it is taken. Dropping that handle
  cancels the task and \<open>detach\<close> lets it run; \<open>cancel\<close> consumes the join handle, whose
  own drop runs after it.
\<close>

datatype 't task_call = Cancel_task 't | Detach_task 't

definition handle_drop :: "'t option \<Rightarrow> 't option \<times> 't task_call list" where
  "handle_drop task = (case task of Some t \<Rightarrow> (None, [Detach_task t]) | None \<Rightarrow> (None, []))"

definition handle_cancel :: "'t option \<Rightarrow> 't option \<times> 't task_call list" where
  "handle_cancel task =
     (case (case task of Some t \<Rightarrow> (None, [Cancel_task t]) | None \<Rightarrow> (None, [])) of
        (task, calls) \<Rightarrow> (case handle_drop task of (task, rest) \<Rightarrow> (task, calls @ rest)))"

section \<open>What the closure does with its runnable\<close>

lemma try_local_simps [simp]:
  "try_local workers p v (None, calls) = (None, calls)"
  "try_local workers p (q, w) (Some r, calls) =
     (if q = p \<and> w < workers p then (None, calls @ [Submit_local p w r]) else (Some r, calls))"
  by (auto simp: try_local_def split: prod.splits)

lemma try_local_taken [simp]: "fold (try_local workers p) vs (None, calls) = (None, calls)"
  by (induction vs) auto

lemma fold_try_local:
  "fold (try_local workers p) vs (Some r, []) =
     (case find (\<lambda>(owner, worker). owner = p \<and> worker < workers p) vs of
        Some (owner, worker) \<Rightarrow> (None, [Submit_local p worker r])
      | None \<Rightarrow> (Some r, []))"
proof (induction vs)
  case (Cons v vs)
  obtain q w where "v = (q, w)" by fastforce
  then show ?case using Cons.IH by (cases "q = p \<and> w < workers p") (simp_all del: case_prod_conv, auto)
qed simp

lemma with_current_fold:
  "with_current_worker wd visit s = fold visit (case tl_current (wd_thread wd) of Some v \<Rightarrow> [v] | None \<Rightarrow> []) s"
  by (simp add: with_current_worker_def split: option.splits)

lemma worker_for_bound: "worker_for workers wd p c = Some w \<Longrightarrow> w < workers p"
  by (auto simp: worker_for_def Let_def split: option.splits if_splits)

text \<open>The visits of a wake: the host's, or the one of the thread's own marker.\<close>

definition visits :: "world \<Rightarrow> worker_context option \<Rightarrow> (nat \<times> nat) list" where
  "visits wd context =
     (case context of Some c \<Rightarrow> hc_visits c
      | None \<Rightarrow> (case tl_current (wd_thread wd) of Some v \<Rightarrow> [v] | None \<Rightarrow> []))"

text \<open>Every pool a visit names is alive, because its visitor holds it.\<close>

definition leased :: "world \<Rightarrow> worker_context option \<Rightarrow> bool" where
  "leased wd context \<longleftrightarrow> (\<forall>(p, w) \<in> set (visits wd context). alive p wd)"

text \<open>A right place for a runnable of the pool.\<close>

fun well_placed :: "(nat \<Rightarrow> nat) \<Rightarrow> world \<Rightarrow> nat \<Rightarrow> 'r \<Rightarrow> 'r pool_call \<Rightarrow> bool" where
  "well_placed workers wd p r (Submit_local q w r') \<longleftrightarrow> q = p \<and> r' = r \<and> w < workers p \<and> alive p wd"
| "well_placed workers wd p r (Submit_job q r') \<longleftrightarrow> q = p \<and> r' = r \<and> alive p wd"
| "well_placed workers wd p r (Drop_runnable r') \<longleftrightarrow> r' = r \<and> \<not> alive p wd"

lemma schedule_later:
  assumes "\<not> tk_first tk \<or> tk_first_worker tk = None"
  shows "schedule workers wd r tk = Inr (tk\<lparr>tk_first := False\<rparr>,
    [case find (\<lambda>(owner, worker). owner = tk_pool tk \<and> worker < workers (tk_pool tk)) (visits wd (tk_context tk)) of
       Some (owner, worker) \<Rightarrow> Submit_local (tk_pool tk) worker r
     | None \<Rightarrow> if alive (tk_pool tk) wd
               then (case worker_for workers wd (tk_pool tk) (tk_context tk) of
                       Some worker \<Rightarrow> Submit_local (tk_pool tk) worker r | None \<Rightarrow> Submit_job (tk_pool tk) r)
               else Drop_runnable r])"
proof -
  have first: "(if tk_first tk then tk_first_worker tk else None) = None" using assms by simp
  have taken: "(case tk_context tk of
        Some c \<Rightarrow> fold (try_local workers (tk_pool tk)) (hc_visits c) (Some r, [])
      | None \<Rightarrow> with_current_worker wd (try_local workers (tk_pool tk)) (Some r, [])) =
     fold (try_local workers (tk_pool tk)) (visits wd (tk_context tk)) (Some r, [])"
    by (simp add: visits_def with_current_fold split: option.splits)
  show ?thesis
    by (cases "find (\<lambda>(owner, worker). owner = tk_pool tk \<and> worker < workers (tk_pool tk)) (visits wd (tk_context tk))";
        cases "worker_for workers wd (tk_pool tk) (tk_context tk)")
      (auto simp: schedule_def Let_def first taken fold_try_local split: prod.splits)
qed

section \<open>Scopes\<close>

text \<open>
  What a thread runs: a stretch as a worker of a pool (\<open>mark_current\<close> up to the drop of
  its guard), a stretch with a route (\<open>route_wakes\<close> likewise), or the wake of a task of a
  pool, which has been polled before and has no host context.
\<close>

datatype 'r scope =
    On_worker nat nat "'r scope list"
  | Routed nat "'r scope list"
  | Wake nat 'r

definition wake_task :: "(nat \<Rightarrow> nat) \<Rightarrow> world \<Rightarrow> nat \<Rightarrow> 'r \<Rightarrow> 'r pool_call list" where
  "wake_task workers wd p r =
     (case schedule workers wd r \<lparr>tk_pool = p, tk_context = None, tk_first_worker = None, tk_first = False\<rparr> of
        Inr (tk, calls) \<Rightarrow> calls | Inl _ \<Rightarrow> [])"

fun run_scopes :: "(nat \<Rightarrow> nat) \<Rightarrow> 'r scope list \<Rightarrow> world \<Rightarrow> world \<times> 'r pool_call list" where
  "run_scopes workers [] wd = (wd, [])"
| "run_scopes workers (On_worker p w body # rest) wd =
     (case mark_current p w wd of (wd, guard) \<Rightarrow>
      case run_scopes workers body wd of (wd, calls) \<Rightarrow>
      case run_scopes workers rest (current_guard_drop guard wd) of (wd, calls') \<Rightarrow> (wd, calls @ calls'))"
| "run_scopes workers (Routed w body # rest) wd =
     (case route_wakes w wd of (wd, guard) \<Rightarrow>
      case run_scopes workers body wd of (wd, calls) \<Rightarrow>
      case run_scopes workers rest (route_guard_drop guard wd) of (wd, calls') \<Rightarrow> (wd, calls @ calls'))"
| "run_scopes workers (Wake p r # rest) wd =
     (case run_scopes workers rest wd of (wd', calls) \<Rightarrow> (wd', wake_task workers wd p r @ calls))"

text \<open>
  The reference: the innermost marker and the innermost route are arguments, and nothing
  is restored because nothing is changed. A pool is held by the world or by an enclosing
  scope.
\<close>

definition place :: "(nat \<Rightarrow> nat) \<Rightarrow> nat set \<Rightarrow> (nat \<times> nat) option \<Rightarrow> nat option \<Rightarrow> nat \<Rightarrow> 'r \<Rightarrow> 'r pool_call" where
  "place workers held current route p r =
     (let hint = (case current of Some (q, w) \<Rightarrow> if q = p then Some w else route | None \<Rightarrow> route) in
      if p \<notin> held then Drop_runnable r
      else case hint of
             Some w \<Rightarrow> if w < workers p then Submit_local p w r else Submit_job p r
           | None \<Rightarrow> Submit_job p r)"

fun placed_calls ::
  "(nat \<Rightarrow> nat) \<Rightarrow> nat set \<Rightarrow> (nat \<times> nat) option \<Rightarrow> nat option \<Rightarrow> 'r scope list \<Rightarrow> 'r pool_call list" where
  "placed_calls workers held current route [] = []"
| "placed_calls workers held current route (On_worker p w body # rest) =
     placed_calls workers (insert p held) (Some (p, w)) route body @ placed_calls workers held current route rest"
| "placed_calls workers held current route (Routed w body # rest) =
     placed_calls workers held current (Some w) body @ placed_calls workers held current route rest"
| "placed_calls workers held current route (Wake p r # rest) =
     place workers held current route p r # placed_calls workers held current route rest"

definition held_pools :: "world \<Rightarrow> nat set" where
  "held_pools wd = {p. alive p wd}"

lemma wake_task_place:
  assumes "\<And>q w. tl_current (wd_thread wd) = Some (q, w) \<Longrightarrow> alive q wd"
  shows "wake_task workers wd p r =
    [place workers (held_pools wd) (tl_current (wd_thread wd)) (tl_route (wd_thread wd)) p r]"
  using assms
  by (auto simp: wake_task_def schedule_later visits_def place_def Let_def held_pools_def worker_for_def current_worker_def
      with_current_worker_def routed_worker_def split: option.splits)

lemma guard_restores:
  "current_guard_drop (snd (mark_current p w wd)) (fst (mark_current p w wd)) = wd"
  "route_guard_drop (snd (route_wakes w wd)) (fst (route_wakes w wd)) = wd"
  by (simp_all add: mark_current_def current_guard_drop_def route_wakes_def route_guard_drop_def set_current_def
      set_route_def arc_clone_def arc_drop_def)

lemma run_scopes_placed:
  assumes "\<And>q w. tl_current (wd_thread wd) = Some (q, w) \<Longrightarrow> alive q wd"
  shows "run_scopes workers ss wd =
    (wd, placed_calls workers (held_pools wd) (tl_current (wd_thread wd)) (tl_route (wd_thread wd)) ss)"
  using assms
proof (induction workers ss wd rule: run_scopes.induct)
  case (2 workers p w body rest wd)
  let ?wd = "fst (mark_current p w wd)"
  have held: "held_pools ?wd = insert p (held_pools wd)" "tl_current (wd_thread ?wd) = Some (p, w)"
      "tl_route (wd_thread ?wd) = tl_route (wd_thread wd)" "alive p ?wd"
    by (auto simp: mark_current_def held_pools_def alive_def arc_clone_def set_current_def)
  have m: "(?wd, snd (mark_current p w wd)) = mark_current p w wd" by simp
  have body: "run_scopes workers body ?wd =
      (?wd, placed_calls workers (insert p (held_pools wd)) (Some (p, w)) (tl_route (wd_thread wd)) body)"
    using "2.IH"(1) [OF m] held by simp
  have "run_scopes workers rest wd =
      (wd, placed_calls workers (held_pools wd) (tl_current (wd_thread wd)) (tl_route (wd_thread wd)) rest)"
    using "2.IH"(2) [OF m body [symmetric]] "2.prems" by (simp add: guard_restores)
  then show ?case
    using body guard_restores(1) [of p w wd] by (simp add: case_prod_beta)
next
  case (3 workers w body rest wd)
  let ?wd = "fst (route_wakes w wd)"
  have held: "held_pools ?wd = held_pools wd" "tl_current (wd_thread ?wd) = tl_current (wd_thread wd)"
      "tl_route (wd_thread ?wd) = Some w" "alive q ?wd = alive q wd" for q
    by (auto simp: route_wakes_def held_pools_def alive_def set_route_def)
  have m: "(?wd, snd (route_wakes w wd)) = route_wakes w wd" by simp
  have body: "run_scopes workers body ?wd =
      (?wd, placed_calls workers (held_pools wd) (tl_current (wd_thread wd)) (Some w) body)"
    using "3.IH"(1) [OF m] "3.prems" held by simp
  have "run_scopes workers rest wd =
      (wd, placed_calls workers (held_pools wd) (tl_current (wd_thread wd)) (tl_route (wd_thread wd)) rest)"
    using "3.IH"(2) [OF m body [symmetric]] "3.prems" by (simp add: guard_restores)
  then show ?case
    using body guard_restores(2) [of w wd] by (simp add: case_prod_beta)
qed (simp_all add: wake_task_place)

section \<open>Properties\<close>

text \<open>
  C31: Each call of the schedule closure disposes of its runnable exactly once. Whatever
  markers, routes and host answers it meets, as long as the pools they visit are held by
  somebody, it makes one call: a submission to a worker that the task's own pool has, or
  to that pool's shared queue, both while the pool is alive, or the drop of the runnable
  when the pool is gone. It panics only at the first poll of a task whose caller asked
  for a worker the pool does not have, and the preference for a first worker holds for
  the first call only.
\<close>

theorem schedule_disposes_once:
  assumes "leased wd (tk_context tk)"
  shows "case schedule workers wd r tk of
      Inr (tk', calls) \<Rightarrow> tk' = tk\<lparr>tk_first := False\<rparr> \<and> (\<exists>c. calls = [c] \<and> well_placed workers wd (tk_pool tk) r c)
    | Inl _ \<Rightarrow> tk_first tk \<and> alive (tk_pool tk) wd \<and> (\<exists>w. tk_first_worker tk = Some w \<and> workers (tk_pool tk) \<le> w)"
proof (cases "\<not> tk_first tk \<or> tk_first_worker tk = None")
  case True
  have "alive (tk_pool tk) wd \<and> w < workers (tk_pool tk)"
    if "find (\<lambda>(owner, worker). owner = tk_pool tk \<and> worker < workers (tk_pool tk)) (visits wd (tk_context tk)) = Some (q, w)" for q w
    using that assms by (auto simp: find_Some_iff leased_def) (metis nth_mem case_prodD)
  then show ?thesis
    using worker_for_bound [of workers wd "tk_pool tk" "tk_context tk"]
    by (auto simp: schedule_later [OF True] split: option.splits)
next
  case False
  then show ?thesis by (auto simp: schedule_def Let_def)
qed

text \<open>A host that visits with a worker of another pool, with one that does not exist, and then with worker 1.\<close>

definition demo_host :: worker_context where
  "demo_host = \<lparr>hc_current = (\<lambda>_. None), hc_visits = [(6, 0), (5, 9), (5, 1), (5, 0)]\<rparr>"

definition demo_world :: world where
  "demo_world = \<lparr>wd_thread = \<lparr>tl_current = None, tl_route = None\<rparr>, wd_strong = (\<lambda>p. if p = 5 \<or> p = 6 then 1 else 0)\<rparr>"

theorem schedule_disposes_once_witness:
  "(case schedule (\<lambda>_. 2) demo_world (7::nat) \<lparr>tk_pool = 5, tk_context = Some demo_host, tk_first_worker = None, tk_first = True\<rparr> of
      Inr (tk', calls) \<Rightarrow> (\<exists>c. calls = [c] \<and> well_placed (\<lambda>_. 2) demo_world 5 7 c)
    | Inl _ \<Rightarrow> False) \<and>
   schedule (\<lambda>_. 2) demo_world (7::nat) \<lparr>tk_pool = 5, tk_context = Some demo_host, tk_first_worker = None, tk_first = True\<rparr> =
     Inr (\<lparr>tk_pool = 5, tk_context = Some demo_host, tk_first_worker = None, tk_first = False\<rparr>, [Submit_local 5 1 7])"
  using schedule_disposes_once [of demo_world
      "\<lparr>tk_pool = 5, tk_context = Some demo_host, tk_first_worker = None, tk_first = True\<rparr>" "\<lambda>_. 2" "7::nat"]
  by (simp add: schedule_def Let_def demo_host_def demo_world_def leased_def visits_def alive_def)

text \<open>
  C32: The thread-local marker and route are arguments in disguise. On a thread whose
  marker, if it has one, holds its pool: a program of nested worker scopes, routes and
  wakes leaves the thread's marker, its route and every pool's strong count as they were,
  and makes the same submissions, in the same order, as the reference in which the
  innermost marker and route are passed down and nothing is stored: a wake inside a
  worker scope of the task's own pool goes to that worker, a marker of another pool is
  ignored in favour of the route, and a hint beyond the pool's workers falls back to the
  shared queue.
\<close>

theorem markers_are_arguments:
  assumes "leased wd None"
  shows "run_scopes workers ss wd =
    (wd, placed_calls workers (held_pools wd) (tl_current (wd_thread wd)) (tl_route (wd_thread wd)) ss)"
  by (rule run_scopes_placed) (use assms in \<open>auto simp: leased_def visits_def\<close>)

definition demo_scopes :: "nat scope list" where
  "demo_scopes = [On_worker 5 1 [Wake 5 10, On_worker 6 0 [Wake 5 11, Wake 6 12], Wake 5 13], Routed 1 [Wake 5 14], Wake 5 15]"

theorem markers_are_arguments_witness:
  "run_scopes (\<lambda>_. 2) demo_scopes demo_world =
     (demo_world, [Submit_local 5 1 10, Submit_job 5 11, Submit_local 6 0 12, Submit_local 5 1 13, Submit_local 5 1 14, Submit_job 5 15])"
proof -
  have "leased demo_world None" by (simp add: leased_def visits_def demo_world_def)
  from markers_are_arguments [OF this, of "\<lambda>_. 2" demo_scopes]
  show ?thesis by (simp add: demo_scopes_def place_def held_pools_def alive_def demo_world_def)
qed

text \<open>A join handle cancels or detaches its task exactly once, whichever way it goes.\<close>

lemma handle_settles_once:
  "handle_cancel (Some t) = (None, [Cancel_task t])" "handle_drop (Some t) = (None, [Detach_task t])"
  by (simp_all add: handle_cancel_def handle_drop_def)

text \<open>The worker an executor reports is one its pool has.\<close>

lemma executor_current_worker_bound:
  "executor_current_worker workers wd ex = Some w \<Longrightarrow> w < workers (ex_pool ex)"
  by (auto simp: executor_current_worker_def split: option.splits if_splits)

end
