(* ===== verification/Runtime.thy ===== *)
theory Runtime
  imports Routing
begin

text \<open>
  Pools that own their threads (\<open>src/src/runtime.rs\<close>): the builder and the start of a
  runtime's workers, the default number of workers, the process-wide cells for the shared
  runtime, for the readiness host and for the timer backend, and the routing of a wake
  that the reactor makes.

  What the platform answers (how many cores, whether a thread starts, whether a reactor
  starts) is an argument. A panic is \<open>None\<close>. The cells are \<open>OnceLock\<close>s, whose
  initialisation runs once and is waited for, so calls on them are a sequence.
\<close>

section \<open>How many workers\<close>

definition usize_bits :: nat where
  "usize_bits = 64"

definition sysctl_usize :: "int \<times> int \<Rightarrow> nat option" where
  "sysctl_usize answer = (case answer of (status, value) \<Rightarrow> if status = 0 \<and> 0 < value then Some (nat value) else None)"

text \<open>On Apple targets the argument is the answer of the \<open>sysctl\<close>; elsewhere there is none.\<close>

definition performance_cores :: "(int \<times> int) option \<Rightarrow> nat option" where
  "performance_cores apple =
     (case apple of
        Some answer \<Rightarrow> (case sysctl_usize answer of Some n \<Rightarrow> if 0 < n then Some n else None | None \<Rightarrow> None)
      | None \<Rightarrow> None)"

definition supported_default_threads :: "nat \<Rightarrow> nat" where
  "supported_default_threads available =
     (if available < 1 then 1 else if usize_bits < available then usize_bits else available)"

definition shared_threads :: "(int \<times> int) option \<Rightarrow> nat option \<Rightarrow> nat" where
  "shared_threads apple available =
     supported_default_threads
       (case performance_cores apple of
          Some n \<Rightarrow> n
        | None \<Rightarrow> (case available of Some n \<Rightarrow> n | None \<Rightarrow> 2))"

section \<open>The builder and its threads\<close>

record 't builder =
  bd_workers :: nat
  bd_tuning :: 't
  bd_label :: string
  bd_stack_size :: "nat option"

text \<open>A runtime: its pool, how many workers that has, and for each thread its name, its stack and its marker.\<close>

record 't runtime =
  rt_pool :: nat
  rt_workers :: nat
  rt_tuning :: 't
  rt_threads :: "(string \<times> nat option \<times> nat) list"

definition builder_new :: "'t \<Rightarrow> (int \<times> int) option \<Rightarrow> nat option \<Rightarrow> 't builder" where
  "builder_new dflt apple available =
     \<lparr>bd_workers = shared_threads apple available, bd_tuning = dflt, bd_label = ''nagoya'', bd_stack_size = None\<rparr>"

datatype all_cores_error = Undetected | Unsupported

definition all_cores :: "nat option \<Rightarrow> 't builder \<Rightarrow> all_cores_error + 't builder" where
  "all_cores available b =
     (case available of
        None \<Rightarrow> Inl Undetected
      | Some n \<Rightarrow> if usize_bits < n then Inl Unsupported else Inr (b\<lparr>bd_workers := n\<rparr>))"

text \<open>The decimal digits of a number, most significant first.\<close>

fun decimal :: "nat \<Rightarrow> string" where
  "decimal n = (if n < 10 then [char_of (48 + n)] else decimal (n div 10) @ [char_of (48 + n mod 10)])"

definition thread_name :: "string \<Rightarrow> nat \<Rightarrow> string" where
  "thread_name label i = label @ ''-'' @ decimal i"

text \<open>\<open>Runtime::start\<close> on a fresh pool; \<open>spawns i\<close> says whether the platform starts the thread of worker \<open>i\<close>.\<close>

fun start_threads :: "(nat \<Rightarrow> bool) \<Rightarrow> 't builder \<Rightarrow> nat list \<Rightarrow> (string \<times> nat option \<times> nat) list option" where
  "start_threads spawns b [] = Some []"
| "start_threads spawns b (i # is) =
     (if spawns i
      then map_option (\<lambda>ts. (thread_name (bd_label b) i, bd_stack_size b, i) # ts) (start_threads spawns b is)
      else None)"

definition start :: "(nat \<Rightarrow> bool) \<Rightarrow> nat \<Rightarrow> 't builder \<Rightarrow> 't runtime option" where
  "start spawns pool b =
     (let workers = max (bd_workers b) 1 in
      if workers \<le> usize_bits
      then map_option (\<lambda>ts. \<lparr>rt_pool = pool, rt_workers = workers, rt_tuning = bd_tuning b, rt_threads = ts\<rparr>)
             (start_threads spawns b [0..<workers])
      else None)"

definition with_tuning :: "(nat \<Rightarrow> bool) \<Rightarrow> nat \<Rightarrow> nat \<Rightarrow> 't \<Rightarrow> string \<Rightarrow> 't runtime option" where
  "with_tuning spawns pool workers tuning label =
     start spawns pool \<lparr>bd_workers = workers, bd_tuning = tuning, bd_label = label, bd_stack_size = None\<rparr>"

section \<open>The process-wide cells\<close>

datatype readiness_error = Reactor_errno nat | Timer_driver_started

datatype timer_host = Dedicated | On_reactor nat

record 't process =
  pr_shared :: "'t runtime option"
  pr_pools :: nat
  pr_readiness :: "(readiness_error + nat) option"
  pr_timer_host :: "timer_host option"
  pr_reactors :: nat

datatype background_started = BackgroundStarted

text \<open>\<open>Builder::install_background\<close> and \<open>background\<close>: a fresh pool is the next number.\<close>

definition init_shared :: "('t process \<Rightarrow> 't runtime option) \<Rightarrow> 't process \<Rightarrow> ('t process \<times> 't runtime \<times> bool) option" where
  "init_shared build pr =
     (case pr_shared pr of
        Some rt \<Rightarrow> Some (pr, rt, False)
      | None \<Rightarrow> map_option (\<lambda>rt. (pr\<lparr>pr_shared := Some rt, pr_pools := pr_pools pr + 1\<rparr>, rt, True)) (build pr))"

definition install_background ::
  "(nat \<Rightarrow> bool) \<Rightarrow> 't builder \<Rightarrow> 't process \<Rightarrow> ('t process \<times> (background_started + 't runtime)) option" where
  "install_background spawns b pr =
     map_option (\<lambda>(pr', rt, installed). (pr', if installed then Inr rt else Inl BackgroundStarted))
       (init_shared (\<lambda>pr. start spawns (pr_pools pr) b) pr)"

definition background ::
  "(nat \<Rightarrow> bool) \<Rightarrow> 't \<Rightarrow> (int \<times> int) option \<Rightarrow> nat option \<Rightarrow> 't process \<Rightarrow> ('t process \<times> 't runtime) option" where
  "background spawns dflt apple available pr =
     map_option (\<lambda>(pr', rt, installed). (pr', rt))
       (init_shared (\<lambda>pr. with_tuning spawns (pr_pools pr) (shared_threads apple available) dflt ''nagoya'') pr)"

text \<open>
  \<open>bind_reactor\<close>, the choice of a backend by \<open>nudge\<close>, and \<open>Runtime::readiness\<close>, whose
  argument is how the start of a reactor went: a fresh reactor is the next number.
\<close>

definition bind_reactor :: "nat \<Rightarrow> 't process \<Rightarrow> 't process \<times> bool" where
  "bind_reactor h pr =
     (case pr_timer_host pr of None \<Rightarrow> (pr\<lparr>pr_timer_host := Some (On_reactor h)\<rparr>, True) | Some _ \<Rightarrow> (pr, False))"

definition nudge_host :: "'t process \<Rightarrow> 't process \<times> timer_host" where
  "nudge_host pr =
     (case pr_timer_host pr of None \<Rightarrow> (pr\<lparr>pr_timer_host := Some Dedicated\<rparr>, Dedicated) | Some h \<Rightarrow> (pr, h))"

definition readiness :: "nat option \<Rightarrow> 't process \<Rightarrow> 't process \<times> (readiness_error + nat)" where
  "readiness refused pr =
     (case pr_readiness pr of
        Some host \<Rightarrow> (pr, host)
      | None \<Rightarrow>
          (case (case refused of
                   Some e \<Rightarrow> (pr, Inl (Reactor_errno e))
                 | None \<Rightarrow>
                     (case bind_reactor (pr_reactors pr) (pr\<lparr>pr_reactors := pr_reactors pr + 1\<rparr>) of
                        (pr, bound) \<Rightarrow> (pr, if bound then Inr (pr_reactors pr - 1) else Inl Timer_driver_started))) of
             (pr, host) \<Rightarrow> (pr\<lparr>pr_readiness := Some host\<rparr>, host)))"

section \<open>Wakes from the reactor\<close>

definition route_reactor_wake :: "(nat \<Rightarrow> nat) \<Rightarrow> 't runtime option \<Rightarrow> u64 \<Rightarrow> world \<Rightarrow> world \<times> nat option option" where
  "route_reactor_wake workers shared index wd =
     (case shared of
        None \<Rightarrow> (wd, None)
      | Some rt \<Rightarrow>
          (case route_wakes (unat index mod max (workers (rt_pool rt)) 1) wd of (wd, guard) \<Rightarrow> (wd, Some guard)))"

text \<open>The loop at the end of a dispatch; \<open>task_of\<close> gives the pool and the runnable behind a waker.\<close>

fun reactor_wakes ::
  "(nat \<Rightarrow> nat) \<Rightarrow> 't runtime option \<Rightarrow> (waker \<Rightarrow> nat \<times> 'r) \<Rightarrow> (u64 \<times> waker) list \<Rightarrow> world \<Rightarrow> world \<times> 'r pool_call list" where
  "reactor_wakes workers shared task_of [] wd = (wd, [])"
| "reactor_wakes workers shared task_of ((index, wk) # rest) wd =
     (case route_reactor_wake workers shared index wd of (wd, routed) \<Rightarrow>
      case task_of wk of (p, r) \<Rightarrow>
      case reactor_wakes workers shared task_of rest
             (case routed of Some guard \<Rightarrow> route_guard_drop guard wd | None \<Rightarrow> wd) of
        (wd', calls) \<Rightarrow> (wd', wake_task workers wd p r @ calls))"

section \<open>The workers of a runtime\<close>

lemma shared_threads_bound: "1 \<le> shared_threads apple available" "shared_threads apple available \<le> usize_bits"
  by (auto simp: shared_threads_def supported_default_threads_def usize_bits_def)

lemma start_threads_Some:
  "start_threads spawns b is = Some ts \<longleftrightarrow>
     (\<forall>i \<in> set is. spawns i) \<and> ts = map (\<lambda>i. (thread_name (bd_label b) i, bd_stack_size b, i)) is"
  by (induction "is" arbitrary: ts) auto

lemma start_Some:
  "start spawns pool b = Some rt \<longleftrightarrow>
     (let n = max (bd_workers b) 1 in
      n \<le> usize_bits \<and> (\<forall>i < n. spawns i) \<and>
      rt = \<lparr>rt_pool = pool, rt_workers = n, rt_tuning = bd_tuning b,
            rt_threads = map (\<lambda>i. (thread_name (bd_label b) i, bd_stack_size b, i)) [0..<n]\<rparr>)"
  by (auto simp: start_def Let_def start_threads_Some)

text \<open>Reading a decimal back.\<close>

definition digits_value :: "string \<Rightarrow> nat" where
  "digits_value = foldl (\<lambda>n c. 10 * n + (of_char c - 48)) 0"

lemma digits_value_decimal [simp]: "digits_value (decimal n) = n"
proof (induction n rule: decimal.induct)
  case (1 n)
  have "of_char (char_of (48 + n mod 10) :: char) = 48 + n mod 10" by (simp add: of_char_of)
  then show ?case
    using "1.IH" by (subst decimal.simps) (auto simp: digits_value_def of_char_of simp del: decimal.simps)
qed

lemma thread_name_inj: "thread_name l i = thread_name l j \<Longrightarrow> i = j"
  by (metis digits_value_decimal same_append_eq thread_name_def)

section \<open>The shared runtime\<close>

datatype 't shared_call = Background_call | Install_call "'t builder"

text \<open>A sequence of calls on the shared runtime, with the answers, or a panic.\<close>

fun shared_calls ::
  "(nat \<Rightarrow> bool) \<Rightarrow> 't \<Rightarrow> (int \<times> int) option \<Rightarrow> nat option \<Rightarrow> 't shared_call list \<Rightarrow> 't process \<Rightarrow>
   ('t process \<times> (background_started + 't runtime) list) option" where
  "shared_calls spawns dflt apple available [] pr = Some (pr, [])"
| "shared_calls spawns dflt apple available (Background_call # cs) pr = do {
     (pr, rt) \<leftarrow> background spawns dflt apple available pr;
     (pr, rs) \<leftarrow> shared_calls spawns dflt apple available cs pr;
     Some (pr, Inr rt # rs)
   }"
| "shared_calls spawns dflt apple available (Install_call b # cs) pr = do {
     (pr, answer) \<leftarrow> install_background spawns b pr;
     (pr, rs) \<leftarrow> shared_calls spawns dflt apple available cs pr;
     Some (pr, answer # rs)
   }"

text \<open>The answers once there is a shared runtime.\<close>

fun settled_answer :: "'t runtime \<Rightarrow> 't shared_call \<Rightarrow> background_started + 't runtime" where
  "settled_answer rt Background_call = Inr rt"
| "settled_answer rt (Install_call b) = Inl BackgroundStarted"

fun call_builder :: "'t \<Rightarrow> (int \<times> int) option \<Rightarrow> nat option \<Rightarrow> 't shared_call \<Rightarrow> 't builder" where
  "call_builder dflt apple available Background_call = builder_new dflt apple available"
| "call_builder dflt apple available (Install_call b) = b"

lemma shared_calls_settled:
  "pr_shared pr = Some rt \<Longrightarrow>
   shared_calls spawns dflt apple available cs pr = Some (pr, map (settled_answer rt) cs)"
proof (induction cs)
  case (Cons c cs)
  then show ?case
    by (cases c) (simp_all add: background_def install_background_def init_shared_def)
qed simp

text \<open>
  The first call on the shared runtime decides. In any sequence of \<open>background\<close> and
  \<open>install_background\<close> calls of a process without one: if the platform starts the
  threads of the first call's configuration (its own, or the default one, which always
  fits the pool), every \<open>background\<close> call answers with that one runtime, an
  \<open>install_background\<close> succeeds exactly when it is the first call, and exactly one pool is
  created; the runtime has between 1 and 64 workers, with one thread per worker, each
  marked with its own number and with a name of its own.
\<close>

theorem shared_runtime_once:
  assumes "pr_shared pr = None" "start spawns (pr_pools pr) (call_builder dflt apple available c) = Some rt"
  shows "shared_calls spawns dflt apple available (c # cs) pr =
      Some (pr\<lparr>pr_shared := Some rt, pr_pools := pr_pools pr + 1\<rparr>, Inr rt # map (settled_answer rt) cs)"
    "1 \<le> rt_workers rt \<and> rt_workers rt \<le> 64"
    "map (snd \<circ> snd) (rt_threads rt) = [0..<rt_workers rt]" "distinct (map fst (rt_threads rt))"
proof -
  let ?pr = "pr\<lparr>pr_shared := Some rt, pr_pools := pr_pools pr + 1\<rparr>"
  have "shared_calls spawns dflt apple available cs ?pr = Some (?pr, map (settled_answer rt) cs)"
    by (rule shared_calls_settled) simp
  then show "shared_calls spawns dflt apple available (c # cs) pr = Some (?pr, Inr rt # map (settled_answer rt) cs)"
    using assms by (cases c) (simp_all add: background_def install_background_def init_shared_def with_tuning_def builder_new_def)
  show "1 \<le> rt_workers rt \<and> rt_workers rt \<le> 64" "map (snd \<circ> snd) (rt_threads rt) = [0..<rt_workers rt]"
    using assms(2) by (auto simp: start_Some Let_def usize_bits_def comp_def)
  have "inj_on (thread_name l) (set [0..<n])" for l n
    using thread_name_inj by (auto intro!: inj_onI)
  then show "distinct (map fst (rt_threads rt))"
    using assms(2) by (simp add: start_Some Let_def comp_def distinct_map)
qed

lemma default_starts: "\<exists>rt. start (\<lambda>_. True) pool (builder_new dflt apple available) = Some rt"
  using shared_threads_bound [of apple available] by (simp add: start_Some Let_def builder_new_def max_def)

section \<open>The timer backend\<close>

datatype cell_call = Nudge | Readiness "nat option"

definition cell_step :: "cell_call \<Rightarrow> 't process \<Rightarrow> 't process" where
  "cell_step c pr = (case c of Nudge \<Rightarrow> fst (nudge_host pr) | Readiness refused \<Rightarrow> fst (readiness refused pr))"

text \<open>A readiness host that was handed out is the timer backend, and the only one.\<close>

definition cells_ok :: "'t process \<Rightarrow> bool" where
  "cells_ok pr \<longleftrightarrow> (\<forall>h. pr_readiness pr = Some (Inr h) \<longleftrightarrow> pr_timer_host pr = Some (On_reactor h))"

lemma cell_step_ok:
  assumes "cells_ok pr"
  shows "cells_ok (cell_step c pr)" "pr_timer_host pr = Some h \<Longrightarrow> pr_timer_host (cell_step c pr) = Some h"
    "pr_readiness pr = Some a \<Longrightarrow> pr_readiness (cell_step c pr) = Some a"
  using assms
  by (cases c; auto simp: cells_ok_def cell_step_def nudge_host_def readiness_def bind_reactor_def split: option.splits)+

text \<open>
  The timer backend is chosen once. From a process that has chosen nothing, in every
  sequence of timer registrations and \<open>readiness\<close> calls, whatever reactors start or are
  refused: a successful \<open>readiness\<close> means that the timers run on the reactor it hands out,
  later calls hand out the same one, and timers never change their backend.
\<close>

theorem timer_backend_fixed:
  assumes "pr_readiness pr = None" "pr_timer_host pr = None"
  shows "let a = fold cell_step cs pr; b = fold cell_step ds a in
    (\<forall>h. pr_readiness a = Some (Inr h) \<longleftrightarrow> pr_timer_host a = Some (On_reactor h)) \<and>
    (pr_timer_host a \<noteq> None \<longrightarrow> pr_timer_host b = pr_timer_host a) \<and>
    (pr_readiness a \<noteq> None \<longrightarrow> pr_readiness b = pr_readiness a)"
proof -
  have ok: "cells_ok (fold cell_step cs p)" if "cells_ok p" for cs and p :: "'a process"
    using that by (induction cs arbitrary: p) (auto intro: cell_step_ok)
  have kept: "(pr_timer_host p = Some h \<longrightarrow> pr_timer_host (fold cell_step cs p) = Some h) \<and>
      (pr_readiness p = Some x \<longrightarrow> pr_readiness (fold cell_step cs p) = Some x)"
    if "cells_ok p" for cs h x and p :: "'a process"
    using that by (induction cs arbitrary: p) (auto simp: cell_step_ok)
  have "cells_ok pr" using assms by (simp add: cells_ok_def)
  note a = ok [OF this, of cs]
  have "pr_timer_host (fold cell_step ds (fold cell_step cs pr)) = Some h" if "pr_timer_host (fold cell_step cs pr) = Some h" for h
    using kept [OF a] that by blast
  moreover have "pr_readiness (fold cell_step ds (fold cell_step cs pr)) = Some x" if "pr_readiness (fold cell_step cs pr) = Some x" for x
    using kept [OF a] that by blast
  ultimately show ?thesis
    using a unfolding Let_def cells_ok_def by fastforce
qed

section \<open>Wakes of the reactor settle\<close>

lemma reactor_wakes_placed:
  assumes "leased wd None" "0 < workers (rt_pool rt)"
  shows "reactor_wakes workers (Some rt) task_of pending wd =
    (wd, map (\<lambda>(index, wk). place workers (held_pools wd) (tl_current (wd_thread wd))
                (Some (unat index mod workers (rt_pool rt))) (fst (task_of wk)) (snd (task_of wk))) pending)"
proof (induction pending)
  case (Cons e pending)
  obtain index wk where e: "e = (index, wk)" by fastforce
  let ?w = "unat index mod workers (rt_pool rt)"
  let ?wd = "fst (route_wakes ?w wd)"
  have route: "route_reactor_wake workers (Some rt) index wd = (?wd, Some (snd (route_wakes ?w wd)))"
    using assms(2) by (simp add: route_reactor_wake_def max_absorb1 case_prod_beta)
  have "wake_task workers ?wd p r =
      [place workers (held_pools wd) (tl_current (wd_thread wd)) (Some ?w) p r]" for p and r :: 'b
    using wake_task_place [of ?wd workers p r] assms(1)
    by (auto simp: route_wakes_def set_route_def held_pools_def alive_def leased_def visits_def)
  then show ?case
    using Cons.IH by (simp add: e route guard_restores case_prod_beta)
qed simp

text \<open>
  A wake that the reactor makes lands on the worker its registration is tied to. For
  a shared runtime that was started, on a driver thread that is no worker: dispatching a
  batch of events wakes the parked tasks in turn, leaves the thread's route and the pools'
  counts as they were, and submits each task of the shared pool to the worker given by
  its registration's index modulo the number of workers, which that pool has. So a
  registration's tasks land on the same worker at every dispatch.
\<close>

theorem reactor_wakes_settle:
  assumes "start spawns pool b = Some rt" "workers pool = rt_workers rt" "alive pool wd"
    "tl_current (wd_thread wd) = None" "dispatch es re = (re', pending)"
    "\<forall>(index, wk) \<in> set pending. fst (task_of wk) = pool"
  shows "reactor_wakes workers (Some rt) task_of pending wd =
      (wd, map (\<lambda>(index, wk). Submit_local pool (unat index mod rt_workers rt) (snd (task_of wk))) pending) \<and>
    (\<forall>index :: u64. unat index mod rt_workers rt < workers pool)"
proof -
  have rt: "rt_pool rt = pool" "0 < rt_workers rt" using assms(1) by (auto simp: start_Some Let_def)
  then have bound: "unat index mod rt_workers rt < workers pool" for index :: u64
    using assms(2) by simp
  have "leased wd None" using assms(4) by (simp add: leased_def visits_def)
  then have "reactor_wakes workers (Some rt) task_of pending wd =
    (wd, map (\<lambda>(index, wk). place workers (held_pools wd) None (Some (unat index mod rt_workers rt))
                (fst (task_of wk)) (snd (task_of wk))) pending)"
    using reactor_wakes_placed [of wd workers rt task_of pending] rt assms(2,4) by simp
  then show ?thesis
    using assms(3,6) bound by (auto simp: place_def held_pools_def)
qed

text \<open>A runtime of two workers; registration 1 is readable and task 9 waits for it.\<close>

definition demo_builder :: "unit builder" where
  "demo_builder = \<lparr>bd_workers = 2, bd_tuning = (), bd_label = ''demo'', bd_stack_size = None\<rparr>"

definition demo_runtime :: "unit runtime" where
  "demo_runtime = \<lparr>rt_pool = 5, rt_workers = 2, rt_tuning = (),
     rt_threads = map (\<lambda>i. (thread_name ''demo'' i, None, i)) [0..<2]\<rparr>"

theorem reactor_wakes_settle_witness:
  "reactor_wakes (\<lambda>_. 2) (Some demo_runtime) (\<lambda>wk. (5, wk))
     (snd (dispatch [\<lparr>ev_token = make_token 1 1, ev_readable = True, ev_writable = False, ev_hangup = False\<rparr>] (gs_reactor demo_sys)))
     demo_world = (demo_world, [Submit_local 5 1 9])"
proof -
  let ?es = "[\<lparr>ev_token = make_token 1 1, ev_readable = True, ev_writable = False, ev_hangup = False\<rparr>]"
  have token: "split_token (make_token 1 1) = (1, 1)" by (rule split_make_token) simp_all
  have woken: "snd (dispatch ?es (gs_reactor demo_sys)) = [(1, 9)]"
    by (simp add: dispatch_def dispatch_event_def token demo_sys_def demo_parked_def dispatch_wakers_def dispatch_read_def
        dispatch_write_def dispatch_hangup_def waiters_def wakers_new_def)
  have started: "start (\<lambda>_. True) 5 demo_builder = Some demo_runtime"
    by (simp add: start_Some demo_builder_def demo_runtime_def usize_bits_def upt_rec numeral_2_eq_2)
  have world: "alive 5 demo_world" "tl_current (wd_thread demo_world) = None"
    by (simp_all add: demo_world_def alive_def)
  have "rt_workers demo_runtime = 2" by (simp add: demo_runtime_def)
  then show ?thesis
    using reactor_wakes_settle [OF started _ world prod.collapse [symmetric], of "\<lambda>_. 2" ?es "gs_reactor demo_sys" "\<lambda>wk. (5, wk)"]
    by (simp add: woken)
qed

end
