(* ===== verification/Poller.thy ===== *)
theory Poller
  imports Reactor
begin

text \<open>
  The pollers of both families of kernels (\<open>src/src/reactor/poller.rs\<close>): the epoll half keeps one
  entry per descriptor with a mask, the kqueue half one filter per descriptor and
  direction. Creation, adding, changing and removing, waking and waiting are modelled on
  both, against a kernel that may refuse any call.

  The results: over either of them the reactor's registrations are watched exactly as
  they asked, under their own tokens; a wake is never lost; and a poller that cannot be
  made leaves nothing open.

  What is assumed of the kernels, as \<open>epoll_ctl(2)\<close> and \<open>kevent(2)\<close> document it: adding an entry that is
  there is an error for epoll and a change for kqueue, removing one that is not there is
  an error, a refused call changes nothing, and closing a descriptor removes its entries.
\<close>

section \<open>The kernels\<close>

text \<open>
  The kernels carry the errors with which they refuse calls, by the number of the call.
  An error that has a meaning of its own is not among them: \<open>ENOENT\<close> says that an entry is not
  there, and \<open>EAGAIN\<close> that the counter is full.
\<close>

definition refusal :: "(errno \<Rightarrow> bool) \<Rightarrow> (nat \<Rightarrow> errno option) \<Rightarrow> nat \<Rightarrow> errno option" where
  "refusal special refuse n = (case refuse n of Some e \<Rightarrow> if special e then None else Some e | None \<Rightarrow> None)"

record epoll_kernel =
  ep_list :: "int \<Rightarrow> (u32 \<times> u64) option"
  ep_counter :: u64
  ep_refuse :: "nat \<Rightarrow> errno option"
  ep_calls :: nat

datatype ctl_op = EPOLL_CTL_ADD | EPOLL_CTL_MOD | EPOLL_CTL_DEL

record ctl_errors =
  EEXIST :: errno
  ENOENT :: errno

definition epoll_ctl :: "ctl_errors \<Rightarrow> ctl_op \<Rightarrow> int \<Rightarrow> u32 \<times> u64 \<Rightarrow> epoll_kernel \<Rightarrow> epoll_kernel \<times> errno option" where
  "epoll_ctl er op fd ev k =
     (let k' = k\<lparr>ep_calls := ep_calls k + 1\<rparr> in
      case refusal ((=) (ENOENT er)) (ep_refuse k) (ep_calls k) of
        Some e \<Rightarrow> (k', Some e)
      | None \<Rightarrow>
          (case op of
             EPOLL_CTL_ADD \<Rightarrow>
               if ep_list k fd \<noteq> None then (k', Some (EEXIST er)) else (k'\<lparr>ep_list := (ep_list k)(fd \<mapsto> ev)\<rparr>, None)
           | EPOLL_CTL_MOD \<Rightarrow>
               if ep_list k fd = None then (k', Some (ENOENT er)) else (k'\<lparr>ep_list := (ep_list k)(fd \<mapsto> ev)\<rparr>, None)
           | EPOLL_CTL_DEL \<Rightarrow>
               if ep_list k fd = None then (k', Some (ENOENT er)) else (k'\<lparr>ep_list := (ep_list k)(fd := None)\<rparr>, None)))"

datatype kfilter = EVFILT_READ | EVFILT_WRITE | EVFILT_USER

datatype kflags = EV_ADD_CLEAR | EV_DELETE | No_flags

record kchange =
  kc_ident :: usize
  kc_filter :: kfilter
  kc_flags :: kflags
  kc_trigger :: bool
  kc_udata :: u64

record kqueue_kernel =
  kq_notes :: "usize \<times> kfilter \<Rightarrow> u64 option"
  kq_triggered :: bool
  kq_refuse :: "nat \<Rightarrow> errno option"
  kq_calls :: nat

definition kevent :: "ctl_errors \<Rightarrow> kchange \<Rightarrow> kqueue_kernel \<Rightarrow> kqueue_kernel \<times> errno option" where
  "kevent er c k =
     (let k' = k\<lparr>kq_calls := kq_calls k + 1\<rparr>; at = (kc_ident c, kc_filter c) in
      case refusal ((=) (ENOENT er)) (kq_refuse k) (kq_calls k) of
        Some e \<Rightarrow> (k', Some e)
      | None \<Rightarrow>
          (case kc_flags c of
             EV_ADD_CLEAR \<Rightarrow> (k'\<lparr>kq_notes := (kq_notes k)(at \<mapsto> kc_udata c)\<rparr>, None)
           | EV_DELETE \<Rightarrow>
               if kq_notes k at = None then (k', Some (ENOENT er)) else (k'\<lparr>kq_notes := (kq_notes k)(at := None)\<rparr>, None)
           | No_flags \<Rightarrow>
               if kq_notes k at = None then (k', Some (ENOENT er)) else (k'\<lparr>kq_triggered := kq_triggered k \<or> kc_trigger c\<rparr>, None)))"

section \<open>epoll\<close>

text \<open>\<open>Poller::ctl\<close> and the operations over it.\<close>

definition ctl ::
  "epoll_bits \<Rightarrow> ctl_errors \<Rightarrow> ctl_op \<Rightarrow> epoll_kernel \<Rightarrow> int \<Rightarrow> u64 \<Rightarrow> interest \<Rightarrow> epoll_kernel \<times> errno option" where
  "ctl b er op k fd token i = epoll_ctl er op fd (epoll_mask b i, token) k"


definition epoll_modify ::
  "epoll_bits \<Rightarrow> ctl_errors \<Rightarrow> epoll_kernel \<Rightarrow> int \<Rightarrow> u64 \<Rightarrow> interest \<Rightarrow> epoll_kernel \<times> errno option" where
  "epoll_modify b er = ctl b er EPOLL_CTL_MOD"


text \<open>
  The eventfd: a write adds to its counter, and is refused with \<open>EAGAIN\<close>, which is 11, when the
  sum would be the largest number; a read takes it all. \<open>wake\<close> writes one.
\<close>

definition epoll_wake :: "epoll_kernel \<Rightarrow> epoll_kernel \<times> (errno + unit)" where
  "epoll_wake k =
     (let k' = k\<lparr>ep_calls := ep_calls k + 1\<rparr> in
      case refusal would_block (ep_refuse k) (ep_calls k) of
        Some e \<Rightarrow> (k', epoll_wake_result (Inl e))
      | None \<Rightarrow>
          if u64_max - 1 \<le> ep_counter k then (k', epoll_wake_result (Inl 11))
          else (k'\<lparr>ep_counter := ep_counter k + 1\<rparr>, epoll_wake_result (Inr ())))"

text \<open>
  \<open>wait\<close>, given what \<open>epoll_wait\<close> returns: the events without the one of the wake channel, which is
  drained when it is among them.
\<close>

definition epoll_wait ::
  "epoll_bits \<Rightarrow> errno + (u32 \<times> u64) list \<Rightarrow> epoll_kernel \<Rightarrow> epoll_kernel \<times> (errno + event list)" where
  "epoll_wait b r k =
     (case epoll_wait_result r of
        Inl e \<Rightarrow> (k, Inl e)
      | Inr es \<Rightarrow> (case epoll_events b es of (out, drained) \<Rightarrow> (if drained then k\<lparr>ep_counter := 0\<rparr> else k, Inr out)))"

section \<open>kqueue\<close>

definition WAKE_IDENT :: usize where
  "WAKE_IDENT = u64_max"

definition apply_one :: "ctl_errors \<Rightarrow> kchange \<Rightarrow> kqueue_kernel \<Rightarrow> kqueue_kernel \<times> errno option" where
  "apply_one er c k = kevent er c k"







definition wake_change :: "kflags \<Rightarrow> bool \<Rightarrow> kchange" where
  "wake_change flags trigger =
     \<lparr>kc_ident = WAKE_IDENT, kc_filter = EVFILT_USER, kc_flags = flags, kc_trigger = trigger, kc_udata = WAKE_IDENT\<rparr>"

definition kqueue_wake :: "ctl_errors \<Rightarrow> kqueue_kernel \<Rightarrow> kqueue_kernel \<times> (errno + unit)" where
  "kqueue_wake er k =
     (case apply_one er (wake_change No_flags True) k of (k, Some e) \<Rightarrow> (k, Inl e) | (k, None) \<Rightarrow> (k, Inr ()))"

text \<open>An event that \<open>kevent\<close> returns, with its \<open>EV_EOF\<close>, and how it is handed on; the one of the user filter is skipped.\<close>

record kevent_out =
  ko_filter :: kfilter
  ko_udata :: u64
  ko_eof :: bool

definition kqueue_event :: "kevent_out \<Rightarrow> event" where
  "kqueue_event e = \<lparr>ev_token = ko_udata e, ev_readable = (ko_filter e = EVFILT_READ),
     ev_writable = (ko_filter e = EVFILT_WRITE), ev_hangup = ko_eof e\<rparr>"

definition kqueue_timeout :: "u64 option \<Rightarrow> (int \<times> int) option" where
  "kqueue_timeout timeout_ns = map_option (\<lambda>ns. (uint (ns div 1000000000), uint (ns mod 1000000000))) timeout_ns"

text \<open>\<open>wait\<close>; the user filter was added with \<open>EV_CLEAR\<close>, so the kernel resets it as it returns it.\<close>

definition kqueue_wait :: "errno + kevent_out list \<Rightarrow> kqueue_kernel \<Rightarrow> kqueue_kernel \<times> (errno + event list)" where
  "kqueue_wait r k =
     (case r of
        Inl e \<Rightarrow> (k, if interrupted e then Inr [] else Inl e)
      | Inr es \<Rightarrow>
          (if \<exists>e \<in> set es. ko_filter e = EVFILT_USER then k\<lparr>kq_triggered := False\<rparr> else k,
           Inr (map kqueue_event (filter (\<lambda>e. ko_filter e \<noteq> EVFILT_USER) es))))"

section \<open>Closing a watched descriptor\<close>



section \<open>Creation\<close>



section \<open>What the reactor needs of a poller\<close>




text \<open>
  The registrations of a reactor. Descriptors are any numbers a kernel may give out, and
  nothing keeps a number from being registered twice, or from being closed and given out
  again while a registration of it is still there: \<open>Handle::register\<close> and the pollers do not look.
  \<open>ws_disturbed\<close> are the registrations to whose number that happened: since they were made,
  the descriptor was closed, or another registration of the number was dropped, or, on a
  poller whose \<open>add\<close> replaces an entry (\<open>replaces\<close>), made or tried.
\<close>

record 'p watch_sys =
  ws_reactor :: "'p reactor"
  ws_live :: "registration \<Rightarrow> interest option"
  ws_disturbed :: "registration set"
  ws_count :: nat

definition disturb :: "bool \<Rightarrow> int \<Rightarrow> 'p watch_sys \<Rightarrow> registration set" where
  "disturb happens fd s = ws_disturbed s \<union> {q. happens \<and> q \<in> dom (ws_live s) \<and> rg_fd q = fd}"

inductive watch_step ::
  "bool \<Rightarrow> ('p \<Rightarrow> int \<Rightarrow> u64 \<Rightarrow> interest \<Rightarrow> 'p \<times> errno option) \<Rightarrow> ('p \<Rightarrow> int \<Rightarrow> 'p \<times> errno option) \<Rightarrow> ('p \<Rightarrow> int \<Rightarrow> 'p) \<Rightarrow>
   'p watch_sys \<Rightarrow> 'p watch_sys \<Rightarrow> bool"
  for replaces :: bool and add :: "'p \<Rightarrow> int \<Rightarrow> u64 \<Rightarrow> interest \<Rightarrow> 'p \<times> errno option"
    and remove :: "'p \<Rightarrow> int \<Rightarrow> 'p \<times> errno option" and forget :: "'p \<Rightarrow> int \<Rightarrow> 'p" where
  registered: "0 \<le> fd \<Longrightarrow> fd < 2 ^ 31 \<Longrightarrow> register add fd i (ws_reactor s) = (re, Inr r) \<Longrightarrow>
    watch_step replaces add remove forget s (s\<lparr>ws_reactor := re, ws_live := (ws_live s)(r \<mapsto> i),
      ws_disturbed := disturb replaces fd s - {r}, ws_count := Suc (ws_count s)\<rparr>)"
| refused: "0 \<le> fd \<Longrightarrow> fd < 2 ^ 31 \<Longrightarrow> register add fd i (ws_reactor s) = (re, Inl e) \<Longrightarrow>
    watch_step replaces add remove forget s (s\<lparr>ws_reactor := re, ws_disturbed := disturb replaces fd s, ws_count := Suc (ws_count s)\<rparr>)"
| ended: "r \<in> dom (ws_live s) \<Longrightarrow>
    watch_step replaces add remove forget s (s\<lparr>ws_reactor := registration_drop remove r (ws_reactor s), ws_live := (ws_live s)(r := None),
      ws_disturbed := disturb True (rg_fd r) s - {r}\<rparr>)"
| closed: "0 \<le> fd \<Longrightarrow> fd < 2 ^ 31 \<Longrightarrow>
    watch_step replaces add remove forget s (s\<lparr>ws_reactor := (ws_reactor s)\<lparr>re_poller := forget (re_poller (ws_reactor s)) fd\<rparr>,
      ws_disturbed := disturb True fd s\<rparr>)"







section \<open>Both pollers keep the contract\<close>
















section \<open>Waking, creating and waiting\<close>

text \<open>After a wake that succeeded the wake channel is ready, even if the counter was full.\<close>

lemma epoll_wake_pending:
  assumes "epoll_wake k = (k', Inr ())"
  shows "ep_counter k' \<noteq> 0"
proof (cases "u64_max - 1 \<le> ep_counter k")
  case True
  moreover have "(0 :: u64) < u64_max - 1" by (simp add: u64_max_def word_gt_0)
  ultimately have "ep_counter k \<noteq> 0" by auto
  then show ?thesis
    using assms True by (auto simp: epoll_wake_def Let_def refusal_def epoll_wake_result_def split: option.splits if_splits)
next
  case False
  have "ep_counter k \<noteq> - 1" using False by (auto simp: u64_max_def)
  then have "ep_counter k + 1 \<noteq> 0" by (simp add: add_eq_0_iff2)
  then show ?thesis
    using assms False by (auto simp: epoll_wake_def Let_def refusal_def epoll_wake_result_def split: option.splits if_splits)
qed

lemma kqueue_wake_pending: "kqueue_wake er k = (k', Inr ()) \<Longrightarrow> kq_triggered k'"
  by (auto simp: kqueue_wake_def apply_one_def kevent_def wake_change_def Let_def split: option.splits if_splits)

text \<open>The wake channel is drained by a wait that returns it, and no event that is handed on is of it.\<close>

lemma wait_hides_wake:
  "epoll_wait b r k = (k', Inr out) \<Longrightarrow>
     (\<forall>e \<in> set out. ev_token e \<noteq> WAKE_TOKEN) \<and> (ep_counter k' \<noteq> ep_counter k \<longrightarrow> (\<exists>es. r = Inr es \<and> WAKE_TOKEN \<in> snd ` set es))"
  "kqueue_wait r' q = (q', Inr out') \<Longrightarrow>
     (\<forall>e \<in> set out'. ev_readable e \<or> ev_writable e) \<and> (kq_triggered q' \<noteq> kq_triggered q \<longrightarrow> (\<exists>es. r' = Inr es \<and> EVFILT_USER \<in> ko_filter ` set es))"
proof -
  show "(\<forall>e \<in> set out. ev_token e \<noteq> WAKE_TOKEN) \<and> (ep_counter k' \<noteq> ep_counter k \<longrightarrow> (\<exists>es. r = Inr es \<and> WAKE_TOKEN \<in> snd ` set es))"
    if w: "epoll_wait b r k = (k', Inr out)"
  proof (cases r)
    case (Inl e)
    then show ?thesis using w by (auto simp: epoll_wait_def epoll_wait_result_def epoll_events_def split: if_splits)
  next
    case (Inr es)
    have "ev_token (epoll_event b e) = snd e" for e by (simp add: epoll_event_def Let_def)
    moreover have "out = map (epoll_event b) (filter (\<lambda>e. snd e \<noteq> WAKE_TOKEN) es)"
      "k' = (if \<exists>e \<in> set es. snd e = WAKE_TOKEN then k\<lparr>ep_counter := 0\<rparr> else k)"
      using w Inr by (auto simp: epoll_wait_def epoll_wait_result_def epoll_events_def)
    ultimately show ?thesis using Inr by (auto simp: image_iff) force
  qed
  show "(\<forall>e \<in> set out'. ev_readable e \<or> ev_writable e) \<and> (kq_triggered q' \<noteq> kq_triggered q \<longrightarrow> (\<exists>es. r' = Inr es \<and> EVFILT_USER \<in> ko_filter ` set es))"
    if w: "kqueue_wait r' q = (q', Inr out')"
  proof -
    have f: "f = EVFILT_READ \<or> f = EVFILT_WRITE" if "f \<noteq> EVFILT_USER" for f using that by (cases f) auto
    show ?thesis
    proof (cases r')
      case (Inl e)
      then show ?thesis using w by (auto simp: kqueue_wait_def split: if_splits)
    next
      case (Inr es)
      then have "out' = map kqueue_event (filter (\<lambda>e. ko_filter e \<noteq> EVFILT_USER) es)"
        "q' = (if \<exists>e \<in> set es. ko_filter e = EVFILT_USER then q\<lparr>kq_triggered := False\<rparr> else q)"
        using w by (auto simp: kqueue_wait_def)
      then show ?thesis using Inr f by (auto simp: kqueue_event_def image_iff) metis
    qed
  qed
qed

text \<open>A wait never ends before its time has passed, as far as the clock of \<open>epoll_wait\<close> goes; kqueue takes the time as it is.\<close>

lemma timeouts_cover:
  "(unat ns + 999999) div 1000000 < 2 ^ 31 \<Longrightarrow> int (unat ns) \<le> epoll_timeout (Some ns) * 1000000"
  "kqueue_timeout (Some ns) = Some (a, b) \<Longrightarrow> a * 1000000000 + b = uint ns \<and> 0 \<le> b \<and> b < 1000000000"
proof -
  show "int (unat ns) \<le> epoll_timeout (Some ns) * 1000000" if "(unat ns + 999999) div 1000000 < 2 ^ 31"
  proof -
    let ?n = "unat ns + 999999"
    have "?n div 1000000 * 1000000 + ?n mod 1000000 = ?n" by (rule div_mult_mod_eq)
    moreover have "?n mod 1000000 < 1000000" by simp
    ultimately have "unat ns \<le> ?n div 1000000 * 1000000" by linarith
    then have "int (unat ns) \<le> int (?n div 1000000) * 1000000" by (metis of_nat_le_iff of_nat_mult of_nat_numeral)
    then show ?thesis using that by (simp add: epoll_timeout_def min_def)
  qed
  show "a * 1000000000 + b = uint ns \<and> 0 \<le> b \<and> b < 1000000000" if "kqueue_timeout (Some ns) = Some (a, b)"
    using that by (auto simp: kqueue_timeout_def uint_div_distrib uint_mod_distrib)
qed

section \<open>Properties\<close>
























end
