(* ===== verification/NetReader.thy ===== *)
theory NetReader
  imports Net
begin

text \<open>
  One socket's reader against the kernel and the reactor, in every interleaving: the
  edge-triggered contract that \<open>src/src/net.rs\<close> states at its head. The kernel's
  receive queue fills and the peer closes at any time; each change queues an edge for
  the poller; the reactor takes the edge, dispatches it under the slot's lock and wakes
  what it collected afterwards. The reading task runs \<open>poll_read\<close> (or, with \<open>udp\<close>,
  \<open>poll_recv_into\<close>), one lock acquisition or system call per step, and may be polled
  at any time. The result: a task that was told to wait is never left with data in
  the socket and nothing under way to wake it.

  What is assumed of the kernel, as \<open>epoll(7)\<close> and \<open>recv(2)\<close> document it: a change
  queues an edge, and an event reports the state of the socket when it is taken; a
  stream \<open>recv\<close> returns all it has up to the room given; on a stream with nothing
  queued it reports the end when the peer has closed, and \<open>EWOULDBLOCK\<close> when not;
  \<open>FIONREAD\<close> reports what is queued or nothing at all.
\<close>

datatype read_phase =
    Idle
  | Trying nat
  | Asking
  | Marking
  | Blocked
  | Waiting

record sock =
  so_queued :: nat
  so_eof :: bool
  so_error :: bool
  so_edge :: bool
  so_event :: "event option"
  so_wakers :: wakers
  so_phase :: read_phase
  so_waker :: waker
  so_pending :: "waker set"
  so_woken :: "waker set"

text \<open>
  \<open>so_event\<close> is the event the reactor has taken and not dispatched, \<open>so_pending\<close> the
  wakers collected and not yet invoked, \<open>so_woken\<close> the wakers invoked and whose task
  was not polled since; \<open>so_waker\<close> is the waker of the last poll.
\<close>

definition event_now :: "bool \<Rightarrow> sock \<Rightarrow> event" where
  "event_now room s = \<lparr>ev_token = 0, ev_readable = (0 < so_queued s \<or> so_eof s \<or> so_error s),
     ev_writable = (room \<or> so_error s), ev_hangup = (so_eof s \<or> so_error s)\<rparr>"

text \<open>
  What happens around a reader: bytes arrive, the other side closes, some other change
  queues an edge, the reactor takes the edge, dispatches the event and wakes.
\<close>

inductive env_step :: "sock \<Rightarrow> sock \<Rightarrow> bool" where
  arrive: "\<not> so_eof s \<Longrightarrow> 0 < n \<Longrightarrow> env_step s (s\<lparr>so_queued := so_queued s + n, so_edge := True\<rparr>)"
| close_peer: "env_step s (s\<lparr>so_eof := True, so_edge := True\<rparr>)"
| other_edge: "env_step s (s\<lparr>so_edge := True\<rparr>)"
| take_event: "so_edge s \<Longrightarrow> so_event s = None \<Longrightarrow>
    env_step s (s\<lparr>so_edge := False, so_event := Some (event_now room s)\<rparr>)"
| dispatch_event: "so_event s = Some e \<Longrightarrow> dispatch_wakers e 0 (so_wakers s) = (w, ps) \<Longrightarrow>
    env_step s (s\<lparr>so_event := None, so_wakers := w, so_pending := so_pending s \<union> set (map snd ps)\<rparr>)"
| wake: "wk \<in> so_pending s \<Longrightarrow>
    env_step s (s\<lparr>so_pending := so_pending s - {wk}, so_woken := insert wk (so_woken s)\<rparr>)"

text \<open>The reader of a socket; the connection may be reset and the socket may hold an error.\<close>

inductive read_step :: "bool \<Rightarrow> sock \<Rightarrow> sock \<Rightarrow> bool"
  for udp :: bool where
  around: "env_step s t \<Longrightarrow> read_step udp s t"
| reset_peer: "read_step udp s (s\<lparr>so_queued := 0, so_eof := True, so_error := True, so_edge := True\<rparr>)"
| soft_error: "read_step udp s (s\<lparr>so_error := True, so_edge := True\<rparr>)"
| poll_try: "so_phase s \<in> {Idle, Waiting} \<Longrightarrow> take_readable_or_park wk (so_wakers s) = (w, True) \<Longrightarrow>
    read_step udp s (s\<lparr>so_wakers := w, so_phase := Trying len, so_waker := wk, so_woken := so_woken s - {wk}\<rparr>)"
| poll_wait: "so_phase s \<in> {Idle, Waiting} \<Longrightarrow> take_readable_or_park wk (so_wakers s) = (w, False) \<Longrightarrow>
    read_step udp s (s\<lparr>so_wakers := w, so_phase := Waiting, so_waker := wk, so_woken := so_woken s - {wk}\<rparr>)"
| recv_interrupted: "so_phase s = Trying len \<Longrightarrow> read_step udp s s"
| recv_error: "so_phase s = Trying len \<Longrightarrow> so_error s \<Longrightarrow> udp \<or> so_queued s = 0 \<Longrightarrow>
    read_step udp s (s\<lparr>so_error := False, so_phase := if udp then Marking else Idle\<rparr>)"
| recv_stream: "so_phase s = Trying len \<Longrightarrow> \<not> udp \<Longrightarrow> 0 < so_queued s \<or> \<not> so_error s \<Longrightarrow> len = 0 \<or> 0 < so_queued s \<or> so_eof s \<Longrightarrow>
    n = min len (so_queued s) \<Longrightarrow>
    read_step udp s (s\<lparr>so_queued := so_queued s - n, so_phase := if n = len then Asking else Idle\<rparr>)"
| recv_datagram: "so_phase s = Trying len \<Longrightarrow> \<not> so_error s \<Longrightarrow> udp \<Longrightarrow> 0 < so_queued s \<Longrightarrow>
    read_step udp s (s\<lparr>so_queued := so_queued s - 1, so_phase := Marking\<rparr>)"
| recv_blocked: "so_phase s = Trying len \<Longrightarrow> \<not> so_error s \<Longrightarrow> so_queued s = 0 \<Longrightarrow> udp \<or> len \<noteq> 0 \<and> \<not> so_eof s \<Longrightarrow>
    read_step udp s (s\<lparr>so_phase := Blocked\<rparr>)"
| ask: "so_phase s = Asking \<Longrightarrow> left = None \<or> left = Some (so_queued s) \<Longrightarrow>
    read_step udp s (s\<lparr>so_phase := if may_remain left then Marking else Idle\<rparr>)"
| mark: "so_phase s = Marking \<Longrightarrow>
    read_step udp s (s\<lparr>so_wakers := (if udp then cancel_read_wait (mark_readable (so_wakers s)) else mark_readable (so_wakers s)),
      so_phase := Idle\<rparr>)"
| park: "so_phase s = Blocked \<Longrightarrow> poll_readable (so_waker s) (so_wakers s) = (w, ws) \<Longrightarrow>
    read_step udp s (s\<lparr>so_wakers := w, so_phase := Waiting, so_woken := so_woken s \<union> set ws\<rparr>)"
| abandon: "so_phase s = Waiting \<Longrightarrow>
    read_step udp s (s\<lparr>so_wakers := (if udp then cancel_read_wait (so_wakers s) else so_wakers s), so_phase := Idle\<rparr>)"

inductive_cases read_stepE: "read_step udp s t"

text \<open>The socket when it is registered; there may be data already, and the edge for it may be gone.\<close>

definition read_start :: "sock \<Rightarrow> bool" where
  "read_start s \<longleftrightarrow> so_wakers s = wakers_new \<and> so_phase s = Idle \<and> so_event s = None \<and> so_pending s = {} \<and>
     so_woken s = {} \<and> (so_eof s \<longrightarrow> so_edge s)"

section \<open>The invariant\<close>

text \<open>An edge, or an event under way, that will tell of data.\<close>

definition coming :: "sock \<Rightarrow> bool" where
  "coming s \<longleftrightarrow> so_edge s \<or> (\<exists>e. so_event s = Some e \<and> (ev_readable e \<or> ev_hangup e))"

definition hangup_coming :: "sock \<Rightarrow> bool" where
  "hangup_coming s \<longleftrightarrow> so_edge s \<or> (\<exists>e. so_event s = Some e \<and> ev_hangup e)"

definition ready_now :: "wakers \<Rightarrow> bool" where
  "ready_now w \<longleftrightarrow> wk_readable w \<or> wk_hangup w"

definition read_inv :: "sock \<Rightarrow> bool" where
  "read_inv s \<longleftrightarrow>
     (wk_reader (so_wakers s) \<noteq> None \<longrightarrow> \<not> ready_now (so_wakers s) \<and> so_phase s \<in> {Idle, Waiting}) \<and>
     (so_eof s \<longrightarrow> hangup_coming s \<or> wk_hangup (so_wakers s)) \<and>
     (so_phase s \<in> {Idle, Blocked, Waiting} \<longrightarrow> 0 < so_queued s \<longrightarrow> coming s \<or> ready_now (so_wakers s)) \<and>
     (so_phase s = Waiting \<longrightarrow> wk_reader (so_wakers s) = Some (so_waker s) \<or>
        so_waker s \<in> so_pending s \<or> so_waker s \<in> so_woken s)"

lemma read_inv_start: "read_start s \<Longrightarrow> read_inv s"
  by (simp add: read_start_def read_inv_def wakers_new_def ready_now_def hangup_coming_def)

lemmas registration_defs = take_readable_or_park_def poll_readable_def park_reader_def mark_readable_def
  cancel_read_wait_def ready_now_def

lemmas dispatch_defs = dispatch_wakers_def dispatch_read_def dispatch_write_def dispatch_hangup_def waiters_def

lemma dispatch_wakers_reader:
  assumes "dispatch_wakers e i w = (w', ps)"
  shows "ready_now w' \<longleftrightarrow> ready_now w \<or> ev_readable e \<or> ev_hangup e"
    "wk_hangup w' \<longleftrightarrow> wk_hangup w \<or> ev_hangup e"
    "wk_reader w' = (if ev_readable e \<or> ev_hangup e then None else wk_reader w)"
    "wk_reader w = Some wk \<Longrightarrow> ev_readable e \<or> ev_hangup e \<Longrightarrow> wk \<in> set (map snd ps)"
  using assms by (auto simp: dispatch_defs ready_now_def split: if_splits option.splits)

lemma take_readable_cases:
  "take_readable_or_park wk w = (w', True) \<Longrightarrow> ready_now w \<and> wk_reader w' = wk_reader w \<and> wk_hangup w' = wk_hangup w"
  "take_readable_or_park wk w = (w', False) \<Longrightarrow>
     \<not> ready_now w \<and> \<not> ready_now w' \<and> wk_reader w' = Some wk \<and> wk_hangup w' = wk_hangup w"
  "poll_readable wk w = (w', ws) \<Longrightarrow> (if ready_now w then w' = w \<and> ws = [wk]
     else \<not> ready_now w' \<and> wk_reader w' = Some wk \<and> wk_hangup w' = wk_hangup w)"
  by (auto simp: registration_defs split: if_splits)

lemma cancel_mark_simps [simp]:
  "wk_hangup (mark_readable w) = wk_hangup w" "wk_reader (mark_readable w) = wk_reader w" "ready_now (mark_readable w)"
  "wk_hangup (cancel_read_wait w) = wk_hangup w" "wk_reader (cancel_read_wait w) = None"
  "ready_now (cancel_read_wait w) = ready_now w"
  by (simp_all add: registration_defs)

lemmas read_inv_defs = read_inv_def coming_def hangup_coming_def

lemma env_step_inv:
  assumes "read_inv s" "env_step s t"
  shows "read_inv t"
  using assms(2)
proof cases
  case (dispatch_event e w ps)
  note d = dispatch_wakers_reader [OF dispatch_event(3)]
  show ?thesis
    using assms(1) dispatch_event(2) d(4) [of "so_waker s"] unfolding dispatch_event(1) read_inv_defs
    by (cases "ev_readable e \<or> ev_hangup e") (simp_all add: d(1-3), auto)
qed (use assms(1) in \<open>auto simp: read_inv_defs event_now_def split: if_splits option.splits\<close>)

text \<open>The two ways in which a poll begins.\<close>

lemma poll_begins_inv:
  assumes "read_inv s" "so_phase s \<in> {Idle, Blocked, Waiting}" "take_readable_or_park wk (so_wakers s) = (w, ready)"
  shows "read_inv (s\<lparr>so_wakers := w, so_phase := if ready then Trying len else Waiting, so_waker := wk, so_woken := so_woken s - {wk}\<rparr>)"
  using assms take_readable_cases(1,2) [of wk "so_wakers s" w]
  by (cases ready) (auto simp: read_inv_defs)

lemma read_step_inv:
  assumes "read_inv s" "read_step udp s t"
  shows "read_inv t"
  using assms(2)
proof cases
  case around
  then show ?thesis by (rule env_step_inv [OF assms(1)])
next
  case (poll_try wk w len)
  then show ?thesis using poll_begins_inv [OF assms(1) _ poll_try(3), of len] by auto
next
  case (poll_wait wk w)
  then show ?thesis using poll_begins_inv [OF assms(1) _ poll_wait(3)] by auto
next
  case (park w ws)
  then show ?thesis using assms(1) take_readable_cases(3) [OF park(3)]
    by (cases "ready_now (so_wakers s)") (auto simp: read_inv_defs)
qed (use assms(1) in \<open>auto simp: read_inv_defs event_now_def may_remain_def min_def split: if_splits option.splits\<close>)

interpretation reader: invariant_system read_start "read_step udp" read_inv for udp
  by unfold_locales (auto intro: read_inv_start read_step_inv)

section \<open>Properties\<close>

text \<open>
  C22: A reader that was told to wait never misses data. In every interleaving of
  arrivals, closes, errors, dispatches, wakes, spurious polls and abandoned reads, for
  streams and for datagrams: while the last poll was pending and the socket has
  something to report (data, the end, or both), the task's waker has been invoked since,
  or is about to be, or is parked in the slot with an edge or an event on its way that
  will take it from there.
\<close>

theorem reader_never_misses_data:
  assumes "reach read_start (read_step udp) s" "so_phase s = Waiting" "0 < so_queued s \<or> so_eof s"
  shows "so_waker s \<in> so_woken s \<or> so_waker s \<in> so_pending s \<or>
    wk_reader (so_wakers s) = Some (so_waker s) \<and>
      (so_edge s \<or> (\<exists>e. so_event s = Some e \<and> (ev_readable e \<or> ev_hangup e)))"
proof -
  have "read_inv s" using reader.reach_inv [OF assms(1)] .
  then show ?thesis
    using assms(2,3) unfolding read_inv_defs ready_now_def by auto
qed

text \<open>A poll finds nothing and parks; then three bytes arrive.\<close>

definition demo_sock :: "nat \<Rightarrow> bool \<Rightarrow> wakers \<Rightarrow> read_phase \<Rightarrow> sock" where
  "demo_sock queued edge w phase = \<lparr>so_queued = queued, so_eof = False, so_error = False, so_edge = edge, so_event = None,
     so_wakers = w, so_phase = phase, so_waker = 5, so_pending = {}, so_woken = {}\<rparr>"

lemma demo_sock_reach:
  "reach read_start (read_step False) (demo_sock 3 True (wakers_new\<lparr>wk_readable := False, wk_reader := Some 5\<rparr>) Waiting)"
proof -
  note go = reach.reach_step [where init = read_start and step = "read_step False"]
  let ?taken = "wakers_new\<lparr>wk_readable := False\<rparr>"
  have s0: "reach read_start (read_step False) (demo_sock 0 False wakers_new Idle)"
    by (rule reach.reach_init) (simp add: read_start_def demo_sock_def)
  have s1: "reach read_start (read_step False) (demo_sock 0 False ?taken (Trying 8))"
    by (rule go [OF s0])
      (use read_step.poll_try [of "demo_sock 0 False wakers_new Idle" 5 ?taken False 8] in
        \<open>simp add: demo_sock_def take_readable_or_park_def wakers_new_def\<close>)
  have s2: "reach read_start (read_step False) (demo_sock 0 False ?taken Blocked)"
    by (rule go [OF s1])
      (use read_step.recv_blocked [of "demo_sock 0 False ?taken (Trying 8)" 8 False] in \<open>simp add: demo_sock_def\<close>)
  have s3: "reach read_start (read_step False) (demo_sock 0 False (?taken\<lparr>wk_reader := Some 5\<rparr>) Waiting)"
    by (rule go [OF s2])
      (use read_step.park [of "demo_sock 0 False ?taken Blocked" "?taken\<lparr>wk_reader := Some 5\<rparr>" "[]" False] in
        \<open>simp add: demo_sock_def registration_defs wakers_new_def\<close>)
  show ?thesis
    by (rule go [OF s3])
      (use read_step.around [OF env_step.arrive [of "demo_sock 0 False (?taken\<lparr>wk_reader := Some 5\<rparr>) Waiting" 3]] in
        \<open>simp add: demo_sock_def\<close>)
qed

theorem reader_never_misses_data_witness:
  "\<exists>s. reach read_start (read_step False) s \<and> so_phase s = Waiting \<and> so_queued s = 3 \<and>
    (so_waker s \<in> so_woken s \<or> so_waker s \<in> so_pending s \<or>
     wk_reader (so_wakers s) = Some (so_waker s) \<and>
       (so_edge s \<or> (\<exists>e. so_event s = Some e \<and> (ev_readable e \<or> ev_hangup e))))"
  using reader_never_misses_data [OF demo_sock_reach] demo_sock_reach
  by (intro exI [of _ "demo_sock 3 True (wakers_new\<lparr>wk_readable := False, wk_reader := Some 5\<rparr>) Waiting"])
    (simp add: demo_sock_def)

end
