(* ===== verification/Child.thy ===== *)
theory Child
  imports NetReader
begin

text \<open>
  Waiting for a child process (\<open>src/src/process.rs\<close>): the watch that tells of an exit (a
  descriptor on the reactor, or a thread blocked in \<open>waitid\<close>), \<open>Process::poll_exit\<close>, which
  asks \<open>waitpid\<close> first and the watch second, \<open>Child\<close> with its kept status, and the orphan
  that reaps a child whose handle was dropped.

  One step is one system call or one lock acquisition; the child exits at any time, the
  reactor and the observing thread run at any time, polls may be spurious, a wait may be
  abandoned and the handle dropped. What is assumed of the kernel, as \<open>waitpid(2)\<close> and
  \<open>pidfd_open(2)\<close> document it: an exited child stays waitable until it is waited for, an
  exit makes a \<open>pidfd\<close> that is watched readable and queues an edge, and \<open>waitid\<close> returns once the child
  has exited. Someone else in the process may reap the child, which makes \<open>waitpid\<close> fail.

  The results: a waiter is never left parked with the exit untold, the status is taken
  from the kernel once and kept, and no signal is sent to a child this handle has reaped.
\<close>

section \<open>Watches\<close>

datatype watch =
    Descriptor wakers
  | Thread_exit bool "waker option"
  | Exiting

datatype watch_answer = Parked | Check | Past_watching

text \<open>\<open>ThreadExit::exited\<close> and \<open>ThreadExit::observed_or_park\<close>, each under its lock.\<close>

definition thread_exited :: "waker option \<Rightarrow> watch \<times> waker list" where
  "thread_exited wk = (Thread_exit True None, (case wk of Some k \<Rightarrow> [k] | None \<Rightarrow> []))"

definition observed_or_park :: "waker \<Rightarrow> bool \<Rightarrow> waker option \<Rightarrow> watch \<times> bool" where
  "observed_or_park wk seen parked =
     (if seen then (Thread_exit seen parked, True)
      else (Thread_exit seen (if parked = Some wk then parked else Some wk), False))"

definition take_or_park :: "waker \<Rightarrow> watch \<Rightarrow> watch \<times> watch_answer" where
  "take_or_park wk watch =
     (case watch of
        Descriptor w \<Rightarrow>
          (case take_readable_or_park wk w of (w, ready) \<Rightarrow> (Descriptor w, if ready then Check else Parked))
      | Thread_exit seen parked \<Rightarrow>
          (case observed_or_park wk seen parked of (watch, ready) \<Rightarrow> (watch, if ready then Check else Parked))
      | Exiting \<Rightarrow> (Exiting, Past_watching))"

section \<open>The child and its handle\<close>

record child =
  ch_process :: "watch option"
  ch_status :: "nat option"
  ch_kill_on_drop :: bool

datatype wait_error = Unreachable_state | Invalid_input | Std std_kind

definition reaped :: "nat \<Rightarrow> child \<Rightarrow> child" where
  "reaped status c = c\<lparr>ch_status := Some status, ch_process := None\<rparr>"

definition child_id :: "nat \<Rightarrow> child \<Rightarrow> nat option" where
  "child_id pid c = map_option (\<lambda>_. pid) (ch_process c)"

text \<open>\<open>Child::try_wait\<close>, given what \<open>waitpid\<close> answers.\<close>

definition child_try_wait :: "std_kind + nat option \<Rightarrow> child \<Rightarrow> child \<times> (wait_error + nat option)" where
  "child_try_wait answer c =
     (case ch_status c of
        Some status \<Rightarrow> (c, Inr (Some status))
      | None \<Rightarrow>
          if ch_process c = None then (c, Inl Unreachable_state)
          else case answer of
                 Inl e \<Rightarrow> (c, Inl (Std e))
               | Inr (Some status) \<Rightarrow> (reaped status c, Inr (Some status))
               | Inr None \<Rightarrow> (c, Inr None))"

text \<open>\<open>Child::start_kill\<close>, given what \<open>kill\<close> answers: whether a signal was sent, and the result.\<close>

definition start_kill :: "std_kind + unit \<Rightarrow> child \<Rightarrow> bool \<times> (wait_error + unit)" where
  "start_kill answer c =
     (case ch_process c of
        Some _ \<Rightarrow> (True, (case answer of Inl e \<Rightarrow> Inl (Std e) | Inr u \<Rightarrow> Inr u))
      | None \<Rightarrow> (False, Inl Invalid_input))"

text \<open>
  \<open>poll_wait\<close> before and after \<open>poll_exit\<close>: an answer that needs no process, and what a
  finished \<open>poll_exit\<close> leaves behind.
\<close>

definition poll_wait_known :: "child \<Rightarrow> (wait_error + nat) option" where
  "poll_wait_known c =
     (case ch_status c of
        Some status \<Rightarrow> Some (Inr status)
      | None \<Rightarrow> if ch_process c = None then Some (Inl Unreachable_state) else None)"

definition poll_wait_done :: "std_kind + nat \<Rightarrow> child \<Rightarrow> child" where
  "poll_wait_done result c = (case result of Inr status \<Rightarrow> reaped status c | Inl _ \<Rightarrow> c)"

text \<open>
  One pass of the loop of \<open>poll_exit\<close>: after \<open>try_wait\<close> it is done, goes round, or asks the
  watch; after the watch it is pending, goes round, or waits in the kernel.
\<close>

datatype wait_phase = Idle | Asking | Parking | Blocking | Waiting

fun asked :: "std_kind + nat option \<Rightarrow> wait_phase \<times> (std_kind + nat) option" where
  "asked (Inr (Some status)) = (Idle, Some (Inr status))"
| "asked (Inr None) = (Parking, None)"
| "asked (Inl e) = (if e = StdInterrupted then (Asking, None) else (Idle, Some (Inl e)))"

fun watched :: "watch_answer \<Rightarrow> wait_phase" where
  "watched Parked = Waiting"
| "watched Check = Asking"
| "watched Past_watching = Blocking"

section \<open>The system\<close>

text \<open>The kernel's view of the child; \<open>Stolen\<close> is one that other code has reaped.\<close>

datatype kproc = Running | Zombie nat | Reaped nat | Stolen

text \<open>What \<open>std\<close>'s \<open>try_wait\<close> does: it keeps a status it has seen.\<close>

fun waitpid :: "kproc \<Rightarrow> kproc \<times> (std_kind + nat option)" where
  "waitpid Running = (Running, Inr None)"
| "waitpid (Zombie st) = (Reaped st, Inr (Some st))"
| "waitpid (Reaped st) = (Reaped st, Inr (Some st))"
| "waitpid Stolen = (Stolen, Inl StdOther)"

record child_sys =
  cs_kernel :: kproc
  cs_child :: child
  cs_orphan :: bool
  cs_phase :: wait_phase
  cs_waker :: waker
  cs_edge :: bool
  cs_event :: "event option"
  cs_pending :: "waker set"
  cs_woken :: "waker set"
  cs_misdirected :: bool

text \<open>
  \<open>cs_misdirected\<close> says that a signal was sent when this process had already reaped the child and
  its number may have been given to another. \<open>cs_orphan\<close> says that the handle was dropped and the process is the orphan's. An
  orphan's wake is its poll, so a woken orphan is one that is about to ask again.
\<close>

definition orphan_waker :: waker where
  "orphan_waker = 0"

definition exit_done :: "std_kind + nat \<Rightarrow> child_sys \<Rightarrow> child_sys" where
  "exit_done result s =
     (if cs_orphan s then s\<lparr>cs_child := (cs_child s)\<lparr>ch_process := None\<rparr>\<rparr>
      else s\<lparr>cs_child := poll_wait_done result (cs_child s)\<rparr>)"

definition ask :: "child_sys \<Rightarrow> child_sys" where
  "ask s =
     (case waitpid (cs_kernel s) of (k, answer) \<Rightarrow>
      case asked answer of
        (phase, None) \<Rightarrow> s\<lparr>cs_kernel := k, cs_phase := phase\<rparr>
      | (phase, Some result) \<Rightarrow> exit_done result (s\<lparr>cs_kernel := k, cs_phase := phase\<rparr>))"

definition set_watch :: "watch \<Rightarrow> child_sys \<Rightarrow> child_sys" where
  "set_watch wt s = s\<lparr>cs_child := (cs_child s)\<lparr>ch_process := Some wt\<rparr>\<rparr>"

definition park :: "watch \<Rightarrow> child_sys \<Rightarrow> child_sys" where
  "park wt s =
     (case take_or_park (cs_waker s) wt of (wt, answer) \<Rightarrow> (set_watch wt s)\<lparr>cs_phase := watched answer\<rparr>)"

text \<open>A signal leaves; that the child dies of it is an exit like any other.\<close>

definition send_kill :: "child_sys \<Rightarrow> child_sys" where
  "send_kill s = s\<lparr>cs_misdirected := cs_misdirected s \<or> cs_kernel s \<in> range Reaped\<rparr>"

text \<open>\<open>Child::drop\<close> and \<open>Orphan::adopt\<close>.\<close>

definition child_drop :: "child_sys \<Rightarrow> child_sys" where
  "child_drop s =
     (if ch_process (cs_child s) = None then s\<lparr>cs_phase := Idle\<rparr>
      else (if ch_kill_on_drop (cs_child s) then send_kill s else s)
        \<lparr>cs_orphan := True, cs_phase := Asking, cs_waker := orphan_waker\<rparr>)"

inductive child_step :: "child_sys \<Rightarrow> child_sys \<Rightarrow> bool" where
  exits: "cs_kernel s = Running \<Longrightarrow> child_step s (s\<lparr>cs_kernel := Zombie st, cs_edge := True\<rparr>)"
| stolen: "cs_kernel s = Zombie st \<Longrightarrow> child_step s (s\<lparr>cs_kernel := Stolen\<rparr>)"
| other_edge: "child_step s (s\<lparr>cs_edge := True\<rparr>)"
| take_edge: "cs_edge s \<Longrightarrow> cs_event s = None \<Longrightarrow>
    child_step s (s\<lparr>cs_edge := False, cs_event := Some \<lparr>ev_token = 0, ev_readable = (cs_kernel s \<noteq> Running), ev_writable = room, ev_hangup = (hup \<and> cs_kernel s \<noteq> Running)\<rparr>\<rparr>)"
| dispatched: "cs_event s = Some e \<Longrightarrow> ch_process (cs_child s) = Some (Descriptor w) \<Longrightarrow> dispatch_wakers e 0 w = (w', ps) \<Longrightarrow>
    child_step s ((set_watch (Descriptor w') s)\<lparr>cs_event := None, cs_pending := cs_pending s \<union> set (map snd ps)\<rparr>)"
| event_gone: "cs_event s = Some e \<Longrightarrow> ch_process (cs_child s) = None \<Longrightarrow> child_step s (s\<lparr>cs_event := None\<rparr>)"
| observed: "cs_kernel s \<noteq> Running \<Longrightarrow> ch_process (cs_child s) = Some (Thread_exit False wk) \<Longrightarrow> thread_exited wk = (wt, ws) \<Longrightarrow>
    child_step s ((set_watch wt s)\<lparr>cs_pending := cs_pending s \<union> set ws\<rparr>)"
| wake: "wk \<in> cs_pending s \<Longrightarrow>
    child_step s (s\<lparr>cs_pending := cs_pending s - {wk}, cs_woken := insert wk (cs_woken s)\<rparr>)"
| poll: "cs_phase s \<in> {Idle, Waiting} \<Longrightarrow> \<not> cs_orphan s \<Longrightarrow> poll_wait_known (cs_child s) = None \<Longrightarrow>
    child_step s (s\<lparr>cs_phase := Asking, cs_waker := wk, cs_woken := cs_woken s - {wk}\<rparr>)"
| orphan_poll: "cs_phase s = Waiting \<Longrightarrow> cs_orphan s \<Longrightarrow> orphan_waker \<in> cs_woken s \<Longrightarrow>
    child_step s (s\<lparr>cs_phase := Asking, cs_woken := cs_woken s - {orphan_waker}\<rparr>)"
| asks: "cs_phase s = Asking \<Longrightarrow> child_step s (ask s)"
| interrupted: "cs_phase s = Asking \<Longrightarrow> asked (Inl StdInterrupted) = (phase, None) \<Longrightarrow> child_step s (s\<lparr>cs_phase := phase\<rparr>)"
| parks: "cs_phase s = Parking \<Longrightarrow> ch_process (cs_child s) = Some wt \<Longrightarrow> child_step s (park wt s)"
| unblocked: "cs_phase s = Blocking \<Longrightarrow> cs_kernel s \<noteq> Running \<Longrightarrow> child_step s (ask s)"
| asks_directly: "cs_phase s \<in> {Idle, Waiting} \<Longrightarrow> \<not> cs_orphan s \<Longrightarrow> waitpid (cs_kernel s) = (k, answer) \<Longrightarrow>
    poll_wait_known (cs_child s) = None \<Longrightarrow>
    child_step s (s\<lparr>cs_kernel := k, cs_child := fst (child_try_wait answer (cs_child s)), cs_phase := Idle\<rparr>)"
| kills: "cs_phase s \<in> {Idle, Waiting} \<Longrightarrow> \<not> cs_orphan s \<Longrightarrow> start_kill answer (cs_child s) = (sent, result) \<Longrightarrow>
    child_step s (if sent then send_kill s else s)"
| abandoned: "cs_phase s = Waiting \<Longrightarrow> \<not> cs_orphan s \<Longrightarrow> child_step s (s\<lparr>cs_phase := Idle\<rparr>)"
| dropped: "cs_phase s \<in> {Idle, Waiting} \<Longrightarrow> \<not> cs_orphan s \<Longrightarrow> child_step s (child_drop s)"

text \<open>A child as \<open>spawn\<close> returns it: it may have exited before the watch was set up, with the edge gone.\<close>

definition child_start :: "child_sys \<Rightarrow> bool" where
  "child_start s \<longleftrightarrow> cs_kernel s \<in> {Running} \<union> range Zombie \<and> \<not> cs_orphan s \<and> cs_phase s = Idle \<and>
     ch_status (cs_child s) = None \<and> ch_process (cs_child s) \<in> {Some (Descriptor wakers_new), Some (Thread_exit False None), Some Exiting} \<and>
     cs_event s = None \<and> cs_pending s = {} \<and> cs_woken s = {} \<and> \<not> cs_misdirected s"

section \<open>The invariant\<close>

definition exit_coming :: "child_sys \<Rightarrow> bool" where
  "exit_coming s \<longleftrightarrow> cs_edge s \<or> (\<exists>e. cs_event s = Some e \<and> ev_readable e)"

definition told :: "child_sys \<Rightarrow> bool" where
  "told s \<longleftrightarrow> cs_waker s \<in> cs_pending s \<or> cs_waker s \<in> cs_woken s"

text \<open>A watch is armed: a parked waker and readiness exclude each other, and an exit is on its way to whoever waits.\<close>

fun watch_ok :: "child_sys \<Rightarrow> watch \<Rightarrow> bool" where
  "watch_ok s (Descriptor w) \<longleftrightarrow>
     (wk_reader w \<noteq> None \<longrightarrow> \<not> ready_now w) \<and>
     (cs_phase s \<in> {Parking, Waiting} \<longrightarrow> cs_kernel s \<noteq> Running \<longrightarrow> exit_coming s \<or> ready_now w) \<and>
     (cs_phase s = Waiting \<longrightarrow> wk_reader w = Some (cs_waker s) \<or> told s)"
| "watch_ok s (Thread_exit seen parked) \<longleftrightarrow>
     (cs_phase s = Waiting \<longrightarrow> \<not> seen \<and> parked = Some (cs_waker s) \<or> told s)"
| "watch_ok s Exiting \<longleftrightarrow> cs_phase s \<noteq> Waiting"

definition child_inv :: "child_sys \<Rightarrow> bool" where
  "child_inv s \<longleftrightarrow>
     (\<forall>wt. ch_process (cs_child s) = Some wt \<longrightarrow> watch_ok s wt \<and> cs_kernel s \<notin> range Reaped) \<and>
     (ch_process (cs_child s) = None \<longrightarrow> cs_phase s = Idle) \<and>
     (\<forall>st. ch_status (cs_child s) = Some st \<longrightarrow> cs_kernel s = Reaped st \<and> ch_process (cs_child s) = None) \<and>
     (\<not> cs_orphan s \<longrightarrow> (ch_process (cs_child s) = None) = (ch_status (cs_child s) \<noteq> None))"

lemma child_inv_start: "child_start s \<Longrightarrow> child_inv s"
  by (auto simp: child_start_def child_inv_def wakers_new_def ready_now_def)

text \<open>What a step has to show when the process stays.\<close>

lemma child_invI:
  assumes "ch_process (cs_child s) = Some wt" "watch_ok s wt" "cs_kernel s \<notin> range Reaped" "ch_status (cs_child s) = None"
  shows "child_inv s"
  using assms by (simp add: child_inv_def)

lemma child_invD:
  assumes "child_inv s" "cs_phase s \<noteq> Idle"
  obtains wt where "ch_process (cs_child s) = Some wt" "watch_ok s wt" "cs_kernel s \<notin> range Reaped" "ch_status (cs_child s) = None"
  using assms by (cases "ch_process (cs_child s)") (auto simp: child_inv_def)

lemma child_invP:
  assumes "child_inv s" "ch_process (cs_child s) = Some wt"
  shows "watch_ok s wt" "cs_kernel s \<notin> range Reaped" "ch_status (cs_child s) = None"
  using assms by (auto simp: child_inv_def)

lemma poll_wait_known_None: "poll_wait_known c = None \<Longrightarrow> ch_status c = None \<and> ch_process c \<noteq> None"
  by (auto simp: poll_wait_known_def split: option.splits if_splits)

lemma ask_inv:
  assumes "child_inv s" "cs_phase s \<in> {Asking, Blocking}"
  shows "child_inv (ask s)"
proof -
  obtain wt where wt: "ch_process (cs_child s) = Some wt" "watch_ok s wt" "cs_kernel s \<notin> range Reaped" "ch_status (cs_child s) = None"
    by (rule child_invD [OF assms(1)]) (use assms(2) in auto)
  show ?thesis
  proof (cases "cs_kernel s")
    case Running
    then have "child_inv (s\<lparr>cs_kernel := Running, cs_phase := Parking\<rparr>)"
      using wt by (intro child_invI [of _ wt]) (cases wt; simp)+
    then show ?thesis using Running by (simp add: ask_def)
  next
    case Stolen
    then show ?thesis using wt by (cases wt) (auto simp: ask_def exit_done_def poll_wait_done_def child_inv_def)
  qed (use wt in \<open>auto simp: ask_def exit_done_def poll_wait_done_def child_inv_def reaped_def\<close>)
qed

lemma park_inv:
  assumes "child_inv s" "cs_phase s = Parking" "ch_process (cs_child s) = Some wt"
  shows "child_inv (park wt s)"
proof -
  note wt = child_invP [OF assms(1,3)]
  obtain wt' answer where p: "take_or_park (cs_waker s) wt = (wt', answer)" by fastforce
  have "watch_ok (park wt s) wt'"
  proof (cases wt)
    case (Descriptor w)
    then show ?thesis
      using p wt(1) assms(2) take_readable_cases(1,2) [of "cs_waker s" w]
      by (auto simp: park_def take_or_park_def set_watch_def exit_coming_def split: prod.splits if_splits)
  next
    case (Thread_exit seen parked)
    then show ?thesis
      using p wt(1) by (auto simp: park_def take_or_park_def observed_or_park_def set_watch_def split: if_splits)
  qed (use p in \<open>auto simp: park_def take_or_park_def set_watch_def\<close>)
  then show ?thesis
    using p wt(2,3) by (intro child_invI [of _ wt']) (auto simp: park_def set_watch_def)
qed

text \<open>A step that leaves the process as it is.\<close>

lemma child_frame:
  assumes "child_inv s" "cs_child t = cs_child s" "cs_orphan s \<longrightarrow> cs_orphan t"
    "cs_kernel t = cs_kernel s \<or> cs_kernel s \<notin> range Reaped \<and> cs_kernel t \<notin> range Reaped"
    "ch_process (cs_child s) = None \<Longrightarrow> cs_phase t = Idle"
    "\<And>wt. ch_process (cs_child s) = Some wt \<Longrightarrow> watch_ok s wt \<Longrightarrow> watch_ok t wt"
  shows "child_inv t"
proof (cases "ch_process (cs_child s)")
  case None
  then show ?thesis using assms(1-5) by (auto simp: child_inv_def)
next
  case (Some wt)
  then show ?thesis
    using child_invP [OF assms(1) Some] assms(2,4,6) by (intro child_invI [of _ wt]) auto
qed

lemma no_process: "child_inv s \<Longrightarrow> ch_process (cs_child s) = None \<Longrightarrow> cs_phase s = Idle"
  by (simp add: child_inv_def)

lemma child_step_inv:
  assumes "child_inv s" "child_step s t"
  shows "child_inv t"
  using assms(2)
proof cases
  case (dispatched e w w' ps)
  note wt = child_invP [OF assms(1) dispatched(3)]
  note d = dispatch_wakers_reader [OF dispatched(4)]
  have "watch_ok t (Descriptor w')"
    using wt(1) dispatched(2) d(4) [of "cs_waker s"] unfolding dispatched(1)
    by (cases "ev_readable e \<or> ev_hangup e") (auto simp: d(1-3) set_watch_def exit_coming_def told_def)
  then show ?thesis
    using wt(2,3) dispatched(1) by (intro child_invI [of _ "Descriptor w'"]) (auto simp: set_watch_def)
next
  case (observed wk wt ws)
  note w = child_invP [OF assms(1) observed(3)]
  show ?thesis
    using w observed by (intro child_invI [of _ wt]) (auto simp: thread_exited_def set_watch_def told_def split: option.splits)
next
  case asks
  then show ?thesis using ask_inv [OF assms(1)] by simp
next
  case unblocked
  then show ?thesis using ask_inv [OF assms(1)] by simp
next
  case (parks wt)
  then show ?thesis using park_inv [OF assms(1)] by simp
next
  case (asks_directly k answer)
  then obtain wt where wt: "ch_process (cs_child s) = Some wt" using poll_wait_known_None by blast
  note inv = child_invP [OF assms(1) wt]
  have same: "child_inv t" if "cs_child t = cs_child s" "cs_kernel t = cs_kernel s"
  proof -
    have "watch_ok t wt" using inv(1) asks_directly(1) by (cases wt) simp_all
    then show ?thesis using that wt inv(2,3) by (intro child_invI [of _ wt]) simp_all
  qed
  show ?thesis
  proof (cases "cs_kernel s")
    case (Zombie st)
    then have "t = s\<lparr>cs_kernel := Reaped st, cs_child := reaped st (cs_child s), cs_phase := Idle\<rparr>"
      using asks_directly wt inv(3) by (auto simp: child_try_wait_def)
    then show ?thesis by (simp add: child_inv_def reaped_def)
  next
    case (Reaped st)
    then show ?thesis using inv(2) by simp
  qed (use asks_directly wt inv same in \<open>auto simp: child_try_wait_def\<close>)
next
  case dropped
  have "watch_ok t wt" if "watch_ok s wt" for wt
    using that dropped by (cases wt) (auto simp: child_drop_def send_kill_def)
  with dropped show ?thesis by (intro child_frame [OF assms(1)]) (auto simp: child_drop_def send_kill_def)
next
  case (kills answer sent result)
  have "watch_ok t wt" if "watch_ok s wt" for wt
    using that kills by (cases wt) (auto simp: send_kill_def exit_coming_def told_def)
  with kills no_process [OF assms(1)] show ?thesis by (intro child_frame [OF assms(1)]) (auto simp: send_kill_def)
next
  case (wake wk)
  have "watch_ok t wt" if "watch_ok s wt" for wt
    using that wake by (cases wt) (auto simp: exit_coming_def told_def)
  with wake no_process [OF assms(1)] show ?thesis by (intro child_frame [OF assms(1)]) auto
next
  case (take_edge room hup)
  have "watch_ok t wt" if "watch_ok s wt" for wt
    using that take_edge by (cases wt) (auto simp: exit_coming_def told_def)
  with take_edge no_process [OF assms(1)] show ?thesis by (intro child_frame [OF assms(1)]) auto
next
  case (exits st)
  have "watch_ok t wt" if "watch_ok s wt" for wt
    using that exits by (cases wt) (auto simp: exit_coming_def told_def)
  with exits no_process [OF assms(1)] show ?thesis by (intro child_frame [OF assms(1)]) auto
next
  case (stolen st)
  have "watch_ok t wt" if "watch_ok s wt" for wt
    using that stolen by (cases wt) (auto simp: exit_coming_def told_def)
  with stolen no_process [OF assms(1)] show ?thesis by (intro child_frame [OF assms(1)]) auto
next
  case other_edge
  have "watch_ok t wt" if "watch_ok s wt" for wt
    using that other_edge by (cases wt) (auto simp: exit_coming_def told_def)
  with other_edge no_process [OF assms(1)] show ?thesis by (intro child_frame [OF assms(1)]) auto
next
  case (poll wk)
  have "watch_ok t wt" if "watch_ok s wt" for wt
    using that poll by (cases wt) auto
  with poll poll_wait_known_None [of "cs_child s"] show ?thesis by (intro child_frame [OF assms(1)]) auto
next
  case orphan_poll
  have "watch_ok t wt" if "watch_ok s wt" for wt
    using that orphan_poll by (cases wt) auto
  with orphan_poll no_process [OF assms(1)] show ?thesis by (intro child_frame [OF assms(1)]) auto
next
  case (interrupted phase)
  have "watch_ok t wt" if "watch_ok s wt" for wt
    using that interrupted by (cases wt) auto
  with interrupted no_process [OF assms(1)] show ?thesis by (intro child_frame [OF assms(1)]) auto
next
  case abandoned
  have "watch_ok t wt" if "watch_ok s wt" for wt
    using that abandoned by (cases wt) auto
  with abandoned show ?thesis by (intro child_frame [OF assms(1)]) auto
next
  case (event_gone e)
  then show ?thesis by (intro child_frame [OF assms(1)]) (auto simp: no_process [OF assms(1)])
qed

lemma child_step_directed:
  assumes "child_inv s" "\<not> cs_misdirected s" "child_step s t"
  shows "\<not> cs_misdirected t"
proof -
  have safe: "\<not> cs_misdirected (send_kill s)" if "ch_process (cs_child s) \<noteq> None"
    using that assms(1,2) child_invP(2) [OF assms(1)] by (auto simp: send_kill_def)
  have ask: "cs_misdirected (ask s) = cs_misdirected s"
    by (simp add: ask_def exit_done_def split: prod.splits option.splits)
  from assms(3) show ?thesis
  proof cases
    case (kills answer sent result)
    then show ?thesis using safe assms(2) by (auto simp: start_kill_def split: option.splits)
  next
    case dropped
    then show ?thesis using safe assms(2) by (auto simp: child_drop_def)
  qed (use assms(2) ask in \<open>auto simp: set_watch_def park_def split: prod.splits\<close>)
qed

interpretation children: invariant_system child_start child_step "\<lambda>s. child_inv s \<and> \<not> cs_misdirected s"
  by unfold_locales (auto simp: child_inv_start child_start_def intro: child_step_inv dest: child_step_directed)

section \<open>Properties\<close>

text \<open>
  C34: An exit is never missed, and its status is taken once. In every interleaving of the
  child, the reactor or the observing thread, spurious polls, interrupted calls, abandoned
  waits, direct \<open>try_wait\<close> calls and the drop of the handle: while a wait (of the handle or
  of the orphan) is pending and the child has exited, the waiter's waker has been invoked
  or is about to be, or it is parked in the watch with the exit on its way to it. No
  signal of \<open>start_kill\<close> or of the drop is ever sent after this process has reaped the
  child, when the number may name another process; and a kept status is the one the child exited with, with the
  process gone.
\<close>

theorem child_exit_never_missed:
  assumes "reach child_start child_step s"
  shows "(cs_phase s = Waiting \<longrightarrow> cs_kernel s \<noteq> Running \<longrightarrow>
      cs_waker s \<in> cs_woken s \<or> cs_waker s \<in> cs_pending s \<or>
      (\<exists>w. ch_process (cs_child s) = Some (Descriptor w) \<and> wk_reader w = Some (cs_waker s) \<and>
           (cs_edge s \<or> (\<exists>e. cs_event s = Some e \<and> ev_readable e))) \<or>
      ch_process (cs_child s) = Some (Thread_exit False (Some (cs_waker s)))) \<and>
    \<not> cs_misdirected s \<and>
    (\<forall>st. ch_status (cs_child s) = Some st \<longrightarrow> cs_kernel s = Reaped st \<and> ch_process (cs_child s) = None)"
proof -
  have inv: "child_inv s" "\<not> cs_misdirected s" using children.reach_inv [OF assms] by auto
  have "cs_waker s \<in> cs_woken s \<or> cs_waker s \<in> cs_pending s \<or>
      (\<exists>w. ch_process (cs_child s) = Some (Descriptor w) \<and> wk_reader w = Some (cs_waker s) \<and>
           (cs_edge s \<or> (\<exists>e. cs_event s = Some e \<and> ev_readable e))) \<or>
      ch_process (cs_child s) = Some (Thread_exit False (Some (cs_waker s)))"
    if waiting: "cs_phase s = Waiting" "cs_kernel s \<noteq> Running"
  proof -
    obtain wt where "ch_process (cs_child s) = Some wt" "watch_ok s wt"
      by (rule child_invD [OF inv(1)]) (use waiting(1) in auto)
    then show ?thesis using waiting by (cases wt) (auto simp: told_def exit_coming_def)
  qed
  then show ?thesis
    using inv by (auto simp: child_inv_def)
qed

text \<open>A child watched by a descriptor is waited for, parks, and then exits with status 3.\<close>

definition demo_child :: "kproc \<Rightarrow> wakers \<Rightarrow> wait_phase \<Rightarrow> bool \<Rightarrow> child_sys" where
  "demo_child k w phase edge = \<lparr>cs_kernel = k,
     cs_child = \<lparr>ch_process = Some (Descriptor w), ch_status = None, ch_kill_on_drop = False\<rparr>, cs_orphan = False,
     cs_phase = phase, cs_waker = 5, cs_edge = edge, cs_event = None, cs_pending = {}, cs_woken = {}, cs_misdirected = False\<rparr>"

lemma demo_child_reach:
  "reach child_start child_step
     (demo_child (Zombie 3) (wakers_new\<lparr>wk_readable := False, wk_reader := Some 5\<rparr>) Waiting True)"
proof -
  note go = reach.reach_step [where init = child_start and step = child_step]
  let ?taken = "wakers_new\<lparr>wk_readable := False\<rparr>"
  let ?parked = "wakers_new\<lparr>wk_readable := False, wk_reader := Some 5\<rparr>"
  note defs = demo_child_def ask_def park_def set_watch_def take_or_park_def take_readable_or_park_def park_reader_def
    poll_wait_known_def wakers_new_def
  have s0: "reach child_start child_step (demo_child Running wakers_new Idle False)"
    by (rule reach.reach_init) (simp add: child_start_def demo_child_def)
  have s1: "reach child_start child_step (demo_child Running wakers_new Asking False)"
    by (rule go [OF s0]) (use child_step.poll [of "demo_child Running wakers_new Idle False" 5] in \<open>simp add: defs\<close>)
  have s2: "reach child_start child_step (demo_child Running wakers_new Parking False)"
    by (rule go [OF s1]) (use child_step.asks [of "demo_child Running wakers_new Asking False"] in \<open>simp add: defs\<close>)
  have s3: "reach child_start child_step (demo_child Running ?taken Asking False)"
    by (rule go [OF s2])
      (use child_step.parks [of "demo_child Running wakers_new Parking False" "Descriptor wakers_new"] in \<open>simp add: defs\<close>)
  have s4: "reach child_start child_step (demo_child Running ?taken Parking False)"
    by (rule go [OF s3]) (use child_step.asks [of "demo_child Running ?taken Asking False"] in \<open>simp add: defs\<close>)
  have s5: "reach child_start child_step (demo_child Running ?parked Waiting False)"
    by (rule go [OF s4])
      (use child_step.parks [of "demo_child Running ?taken Parking False" "Descriptor ?taken"] in \<open>simp add: defs\<close>)
  show ?thesis
    by (rule go [OF s5]) (use child_step.exits [of "demo_child Running ?parked Waiting False" 3] in \<open>simp add: defs\<close>)
qed

theorem child_exit_never_missed_witness:
  "\<exists>s. reach child_start child_step s \<and> cs_phase s = Waiting \<and> cs_kernel s = Zombie 3 \<and>
    (cs_waker s \<in> cs_woken s \<or> cs_waker s \<in> cs_pending s \<or>
      (\<exists>w. ch_process (cs_child s) = Some (Descriptor w) \<and> wk_reader w = Some (cs_waker s) \<and>
           (cs_edge s \<or> (\<exists>e. cs_event s = Some e \<and> ev_readable e))) \<or>
      ch_process (cs_child s) = Some (Thread_exit False (Some (cs_waker s))))"
  using child_exit_never_missed [OF demo_child_reach] demo_child_reach
  by (intro exI [of _ "demo_child (Zombie 3) (wakers_new\<lparr>wk_readable := False, wk_reader := Some 5\<rparr>) Waiting True"])
    (simp add: demo_child_def)

end
