(* ===== verification/NetWriter.thy ===== *)
theory NetWriter
  imports NetReader
begin

text \<open>
  One writer against the kernel and the reactor, in every interleaving: \<open>poll_write\<close> of a
  stream (\<open>src/src/net.rs\<close>) and of a child's pipe (\<open>src/src/process.rs\<close>). The other side takes
  bytes out, closes, or the kernel enlarges the buffer at any time.

  What is assumed of the kernel, as \<open>epoll(7)\<close> documents it for edge-triggered watches:
  a new edge is promised when room appears after a write that was refused or that took
  less than was offered, and when the other side closes; other edges may come at any
  time and are not relied on. A send takes what there is room for, and refuses when there
  is none.

  The result: a writer that puts its readiness back after every write that was taken
  whole is told of room; a stream that knows the size of its send buffer withholds
  readiness after a write of that size and may wait for ever beside room.
\<close>

section \<open>The writer\<close>









section \<open>The invariant\<close>














section \<open>A writer that withholds its readiness\<close>




section \<open>Properties\<close>




end
