(* ===== verification/ChildPipe.thy ===== *)
theory ChildPipe
  imports Child NetWriter "HOL-Library.Sublist"
begin

text \<open>
  The pipes to a child (\<open>src/src/process.rs\<close>): \<open>Pipe::poll_read\<close> and \<open>Pipe::poll_write\<close>, the
  closing of the child's input, the draining of its output and
  \<open>Child::wait_with_output\<close>, which drains both streams at each poll and then waits.

  The results: a pending read of a pipe is never left beside bytes or the end of the
  stream with nothing on its way; a drain returns, loses and repeats nothing, and a
  stream it reports as finished has been collected whole.
\<close>

section \<open>Polls of a pipe\<close>

text \<open>\<open>ErrorKind::WouldBlock\<close> and \<open>ErrorKind::BrokenPipe\<close>, which \<open>io.rs\<close> does not name.\<close>

definition StdWouldBlock :: std_kind where
  "StdWouldBlock = StdKind 0"

definition StdBrokenPipe :: std_kind where
  "StdBrokenPipe = StdKind 1"



partial_function (option) pipe_write_loop ::
  "('k \<Rightarrow> u8 list \<Rightarrow> 'k \<times> (std_kind + nat)) \<Rightarrow> waker \<Rightarrow> u8 list \<Rightarrow> 'k \<Rightarrow> wakers \<Rightarrow> ('k \<times> wakers \<times> (std_kind + nat) poll) option" where
  "pipe_write_loop write_fd wk buffer k w =
     (case take_writable_or_park wk w of
        (w, ready) \<Rightarrow>
          if \<not> ready then Some (k, w, Pending)
          else case write_fd k buffer of
                 (k, r) \<Rightarrow>
                   (case r of
                      Inr n \<Rightarrow> Some (k, mark_writable w, Ready (Inr n))
                    | Inl e \<Rightarrow>
                        if e = StdWouldBlock then pipe_write_loop write_fd wk buffer k w
                        else if e \<noteq> StdInterrupted then Some (k, mark_writable w, Ready (Inl e))
                        else pipe_write_loop write_fd wk buffer k (mark_writable w)))"

definition pipe_poll_write ::
  "('k \<Rightarrow> u8 list \<Rightarrow> 'k \<times> (std_kind + nat)) \<Rightarrow> waker \<Rightarrow> u8 list \<Rightarrow> 'k \<Rightarrow> wakers \<Rightarrow> ('k \<times> wakers \<times> (std_kind + nat) poll) option" where
  "pipe_poll_write write_fd wk buffer k w =
     (if buffer = [] then Some (k, w, Ready (Inr 0)) else pipe_write_loop write_fd wk buffer k w)"

text \<open>\<open>ChildStdin\<close>: its pipe is there until it is closed; a second close changes nothing.\<close>

definition stdin_poll_write ::
  "('k \<Rightarrow> u8 list \<Rightarrow> 'k \<times> (std_kind + nat)) \<Rightarrow> waker \<Rightarrow> u8 list \<Rightarrow> ('k \<times> wakers) option \<Rightarrow>
   (('k \<times> wakers) option \<times> (std_kind + nat) poll) option" where
  "stdin_poll_write write_fd wk buffer pipe =
     (case pipe of
        Some (k, w) \<Rightarrow> map_option (\<lambda>(k, w, r). (Some (k, w), r)) (pipe_poll_write write_fd wk buffer k w)
      | None \<Rightarrow> Some (None, Ready (Inl StdBrokenPipe)))"

definition stdin_poll_close :: "('k \<times> wakers) option \<Rightarrow> ('k \<times> wakers) option \<times> (std_kind + unit) poll" where
  "stdin_poll_close pipe = (None, Ready (Inr ()))"

section \<open>A pipe's reader in every interleaving\<close>

text \<open>
  \<open>Pipe::poll_read\<close> against the kernel and the reactor, one lock acquisition or system
  call per step, on the socket's record: \<open>Trying\<close> is before the \<open>read\<close>, \<open>Blocked\<close> goes round
  to the flag, \<open>Asking\<close> is an interrupted read that puts readiness back and goes round,
  \<open>Marking\<close> puts it back and returns.
\<close>

inductive pipe_step :: "sock \<Rightarrow> sock \<Rightarrow> bool" where
  around: "env_step s t \<Longrightarrow> pipe_step s t"
| poll: "so_phase s \<in> {read_phase.Idle, read_phase.Waiting} \<Longrightarrow> take_readable_or_park wk (so_wakers s) = (w, ready) \<Longrightarrow> 0 < len \<Longrightarrow>
    pipe_step s (s\<lparr>so_wakers := w, so_phase := if ready then Trying len else read_phase.Waiting, so_waker := wk, so_woken := so_woken s - {wk}\<rparr>)"
| goes_round: "so_phase s = Blocked \<Longrightarrow> take_readable_or_park (so_waker s) (so_wakers s) = (w, ready) \<Longrightarrow> 0 < len \<Longrightarrow>
    pipe_step s (s\<lparr>so_wakers := w, so_phase := if ready then Trying len else read_phase.Waiting\<rparr>)"
| got: "so_phase s = Trying len \<Longrightarrow> 0 < so_queued s \<or> so_eof s \<Longrightarrow> n = min len (so_queued s) \<Longrightarrow>
    pipe_step s (s\<lparr>so_queued := so_queued s - n, so_phase := if n = 0 \<or> n = len then Marking else read_phase.Idle\<rparr>)"
| blocked: "so_phase s = Trying len \<Longrightarrow> so_queued s = 0 \<Longrightarrow> \<not> so_eof s \<Longrightarrow> pipe_step s (s\<lparr>so_phase := Blocked\<rparr>)"
| interrupted: "so_phase s = Trying len \<Longrightarrow> pipe_step s (s\<lparr>so_phase := read_phase.Asking\<rparr>)"
| again: "so_phase s = read_phase.Asking \<Longrightarrow> pipe_step s (s\<lparr>so_wakers := mark_readable (so_wakers s), so_phase := Blocked\<rparr>)"
| fails: "so_phase s = Trying len \<Longrightarrow> pipe_step s (s\<lparr>so_phase := Marking\<rparr>)"
| mark: "so_phase s = Marking \<Longrightarrow> pipe_step s (s\<lparr>so_wakers := mark_readable (so_wakers s), so_phase := read_phase.Idle\<rparr>)"
| abandon: "so_phase s = read_phase.Waiting \<Longrightarrow> pipe_step s (s\<lparr>so_phase := read_phase.Idle\<rparr>)"

lemma pipe_step_inv:
  assumes "read_inv s" "pipe_step s t"
  shows "read_inv t"
  using assms(2)
proof cases
  case around
  then show ?thesis by (rule env_step_inv [OF assms(1)])
next
  case (poll wk w ready len)
  then show ?thesis using poll_begins_inv [OF assms(1) _ poll(3), of len] by auto
next
  case (goes_round w ready len)
  then show ?thesis
    using assms(1) take_readable_cases(1,2) [of "so_waker s" "so_wakers s" w] by (cases ready) (auto simp: read_inv_defs)
qed (use assms(1) in \<open>auto simp: read_inv_defs min_def split: if_splits\<close>)

interpretation pipe_reader: invariant_system read_start pipe_step read_inv
  by unfold_locales (auto intro: read_inv_start pipe_step_inv)

text \<open>
  A pending read of a pipe is never left beside bytes or the end: the waker was invoked,
  is about to be, or is parked with an edge or an event on its way.
\<close>

theorem pipe_reader_never_misses_data:
  assumes "reach read_start pipe_step s" "so_phase s = read_phase.Waiting" "0 < so_queued s \<or> so_eof s"
  shows "so_waker s \<in> so_woken s \<or> so_waker s \<in> so_pending s \<or>
    wk_reader (so_wakers s) = Some (so_waker s) \<and>
      (so_edge s \<or> (\<exists>e. so_event s = Some e \<and> (ev_readable e \<or> ev_hangup e)))"
  using pipe_reader.reach_inv [OF assms(1)] assms(2,3) unfolding read_inv_defs ready_now_def by auto

section \<open>Draining\<close>






section \<open>What a drain relies on\<close>


section \<open>The kernel's pipe\<close>
















section \<open>Collecting a child's output\<close>






















end
