(* ===== verification/ChildSpawn.thy ===== *)
theory ChildSpawn
  imports Child
begin

text \<open>
  Starting a child (\<open>Command::spawn\<close>, \<open>adopt\<close>, \<open>Pipe::new\<close> and \<open>Watch::new\<close> of
  \<open>src/src/process.rs\<close>): the parent's ends of the pipes and the exit watch are taken onto the
  reactor one after the other, any of the calls may fail, and what was taken before is
  given back.

  The state is what the kernel keeps: the open descriptors, those of them that are still
  in \<open>std\<close>'s child, those the reactor watches, whether the child was signalled and waited
  for, and whether something went wrong that must not: a descriptor closed while it is watched or when it is not open, or removed
  from the reactor when it is not there. The answers of the fallible calls are a sequence.

  The result: a failed start leaves nothing open and nothing watched, and the child
  killed and then reaped; a successful one leaves exactly its descriptors open, and those
  watched.
\<close>

section \<open>The calls\<close>

record starting =
  st_open :: "nat set"
  st_left :: "nat set"
  st_watched :: "nat set"
  st_bad :: bool
  st_killed :: bool
  st_reaped :: bool
  st_asked :: nat

type_synonym answers = "nat \<Rightarrow> nat option"

text \<open>One fallible call: \<open>None\<close> when it succeeds, otherwise its error.\<close>

definition attempt :: "answers \<Rightarrow> starting \<Rightarrow> starting \<times> nat option" where
  "attempt ans s = (s\<lparr>st_asked := st_asked s + 1\<rparr>, ans (st_asked s))"

definition fd_close :: "nat \<Rightarrow> starting \<Rightarrow> starting" where
  "fd_close fd s = s\<lparr>st_open := st_open s - {fd}, st_bad := st_bad s \<or> fd \<notin> st_open s \<or> fd \<in> st_watched s\<rparr>"

definition fd_watch :: "nat \<Rightarrow> starting \<Rightarrow> starting" where
  "fd_watch fd s = s\<lparr>st_watched := insert fd (st_watched s), st_bad := st_bad s \<or> fd \<notin> st_open s\<rparr>"

definition fd_unwatch :: "nat \<Rightarrow> starting \<Rightarrow> starting" where
  "fd_unwatch fd s = s\<lparr>st_watched := st_watched s - {fd}, st_bad := st_bad s \<or> fd \<notin> st_watched s\<rparr>"

definition kill_child :: "starting \<Rightarrow> starting" where
  "kill_child s = s\<lparr>st_killed := True, st_bad := st_bad s \<or> st_reaped s\<rparr>"

definition wait_child :: "starting \<Rightarrow> starting" where
  "wait_child s = s\<lparr>st_reaped := True, st_bad := st_bad s \<or> \<not> st_killed s\<rparr>"

section \<open>Taking the pipes and the watch onto the reactor\<close>

text \<open>\<open>Handle::register\<close> of a descriptor that the caller owns, which closes it on failure.\<close>

definition register_owned :: "answers \<Rightarrow> nat \<Rightarrow> starting \<Rightarrow> starting \<times> (nat + nat)" where
  "register_owned ans fd s =
     (case attempt ans s of
        (s, Some e) \<Rightarrow> (fd_close fd s, Inl e)
      | (s, None) \<Rightarrow> (fd_watch fd s, Inr fd))"

text \<open>Two calls of \<open>fcntl\<close>: the flags are read and written back.\<close>

definition set_nonblocking :: "answers \<Rightarrow> starting \<Rightarrow> starting \<times> nat option" where
  "set_nonblocking ans s =
     (case attempt ans s of
        (s, Some e) \<Rightarrow> (s, Some e)
      | (s, None) \<Rightarrow> attempt ans s)"

definition pipe_new :: "answers \<Rightarrow> nat \<Rightarrow> starting \<Rightarrow> starting \<times> (nat + nat)" where
  "pipe_new ans fd s =
     (case set_nonblocking ans s of
        (s, Some e) \<Rightarrow> (fd_close fd s, Inl e)
      | (s, None) \<Rightarrow> register_owned ans fd s)"

text \<open>The fields of a pipe, and of a watch, drop in order: the registration, then the descriptor.\<close>

definition registered_drop :: "nat \<Rightarrow> starting \<Rightarrow> starting" where
  "registered_drop fd s = fd_close fd (fd_unwatch fd s)"

definition drop_all :: "('a \<Rightarrow> starting \<Rightarrow> starting) \<Rightarrow> 'a option \<Rightarrow> starting \<Rightarrow> starting" where
  "drop_all f x s = (case x of Some fd \<Rightarrow> f fd s | None \<Rightarrow> s)"

definition adopt_pipe :: "answers \<Rightarrow> nat option \<Rightarrow> starting \<Rightarrow> starting \<times> (nat + nat option)" where
  "adopt_pipe ans pipe s =
     (case pipe of
        None \<Rightarrow> (s, Inr None)
      | Some fd \<Rightarrow>
          (case pipe_new ans fd (s\<lparr>st_left := st_left s - {fd}\<rparr>) of (s, Inl e) \<Rightarrow> (s, Inl e) | (s, Inr fd) \<Rightarrow> (s, Inr (Some fd))))"

text \<open>
  \<open>sys::watch\<close>, given what \<open>pidfd_open\<close> or \<open>kqueue\<close> answers: a fresh descriptor or an error.
  On Linux a number that is no \<open>pid_t\<close> is refused; elsewhere the filter is added by a second
  call, and the queue is closed again when that fails.
\<close>

definition sys_watch :: "bool \<Rightarrow> nat \<Rightarrow> nat \<Rightarrow> nat + nat \<Rightarrow> answers \<Rightarrow> starting \<Rightarrow> starting \<times> (nat + nat option)" where
  "sys_watch linux ESRCH pid opened ans s =
     (if linux then
        if 2 ^ 31 \<le> pid then (s, Inl ESRCH)
        else case opened of
               Inl e \<Rightarrow> (s, if e = ESRCH then Inr None else Inl e)
             | Inr fd \<Rightarrow> (s\<lparr>st_open := insert fd (st_open s)\<rparr>, Inr (Some fd))
      else case opened of
             Inl e \<Rightarrow> (s, Inl e)
           | Inr queue \<Rightarrow>
               (case attempt ans (s\<lparr>st_open := insert queue (st_open s)\<rparr>) of
                  (s, Some e) \<Rightarrow> (fd_close queue s, if e = ESRCH then Inr None else Inl e)
                | (s, None) \<Rightarrow> (s, Inr (Some queue))))"

text \<open>\<open>Watch::new\<close>: on Linux an error falls back to a thread, which may not start.\<close>

datatype watch_made = Watch_fd nat | Watch_thread | Watch_exiting

definition watch_new :: "bool \<Rightarrow> nat \<Rightarrow> nat \<Rightarrow> nat + nat \<Rightarrow> answers \<Rightarrow> starting \<Rightarrow> starting \<times> (nat + watch_made)" where
  "watch_new linux ESRCH pid opened ans s =
     (case sys_watch linux ESRCH pid opened ans s of
        (s, Inr (Some fd)) \<Rightarrow>
          (case register_owned ans fd s of (s, Inl e) \<Rightarrow> (s, Inl e) | (s, Inr fd) \<Rightarrow> (s, Inr (Watch_fd fd)))
      | (s, Inr None) \<Rightarrow> (s, Inr Watch_exiting)
      | (s, Inl e) \<Rightarrow>
          if linux then (case attempt ans s of (s, Some e) \<Rightarrow> (s, Inl e) | (s, None) \<Rightarrow> (s, Inr Watch_thread))
          else (s, Inl e))"

text \<open>
  \<open>adopt\<close>: one pipe is taken and the rest of the function runs; an early return from that
  rest drops the pipe, so the latest one is dropped first.
\<close>

definition adopting ::
  "answers \<Rightarrow> nat option \<Rightarrow> (starting \<Rightarrow> starting \<times> (nat + 'a)) \<Rightarrow> starting \<Rightarrow> starting \<times> (nat + nat option \<times> 'a)" where
  "adopting ans pipe rest s =
     (case adopt_pipe ans pipe s of
        (s, Inl e) \<Rightarrow> (s, Inl e)
      | (s, Inr p) \<Rightarrow>
          (case rest s of
             (s, Inl e) \<Rightarrow> (drop_all registered_drop p s, Inl e)
           | (s, Inr v) \<Rightarrow> (s, Inr (p, v))))"

type_synonym pipes = "nat option \<times> nat option \<times> nat option"

definition adopt ::
  "bool \<Rightarrow> nat \<Rightarrow> nat \<Rightarrow> nat + nat \<Rightarrow> answers \<Rightarrow> pipes \<Rightarrow> starting \<Rightarrow>
   starting \<times> (nat + nat option \<times> nat option \<times> nat option \<times> watch_made)" where
  "adopt linux ESRCH pid opened ans =
     (\<lambda>(stdin, stdout, stderr).
        adopting ans stdin (adopting ans stdout (adopting ans stderr (watch_new linux ESRCH pid opened ans))))"

text \<open>
  \<open>std\<close>'s child comes with its pipes, and its drop closes those that are still in it.
\<close>

definition pipe_fds :: "pipes \<Rightarrow> nat set" where
  "pipe_fds = (\<lambda>(stdin, stdout, stderr). set_option stdin \<union> set_option stdout \<union> set_option stderr)"

definition std_child_new :: "pipes \<Rightarrow> starting \<Rightarrow> starting" where
  "std_child_new pipes s = s\<lparr>st_open := st_open s \<union> pipe_fds pipes, st_left := pipe_fds pipes\<rparr>"

definition std_child_drop :: "starting \<Rightarrow> starting" where
  "std_child_drop s = s\<lparr>st_open := st_open s - st_left s, st_left := {},
     st_bad := st_bad s \<or> \<not> st_left s \<subseteq> st_open s \<or> st_left s \<inter> st_watched s \<noteq> {}\<rparr>"

text \<open>\<open>spawn\<close>, given what \<open>std\<close>'s \<open>spawn\<close> answers: an error, or a child with its number and pipes.\<close>

definition spawn ::
  "bool \<Rightarrow> nat \<Rightarrow> nat + nat \<Rightarrow> answers \<Rightarrow> nat + nat \<times> pipes \<Rightarrow> starting \<Rightarrow>
   starting \<times> (nat + nat option \<times> nat option \<times> nat option \<times> watch_made)" where
  "spawn linux ESRCH opened ans child s =
     (case child of
        Inl e \<Rightarrow> (s, Inl e)
      | Inr (pid, pipes) \<Rightarrow>
          (case adopt linux ESRCH pid opened ans pipes (std_child_new pipes s) of
             (s, Inr adopted) \<Rightarrow> (s, Inr adopted)
           | (s, Inl e) \<Rightarrow> (std_child_drop (wait_child (kill_child s)), Inl e)))"

section \<open>What is held\<close>

text \<open>The descriptors that are watched and those still in \<open>std\<close>'s child; no other is open, and nothing has gone wrong.\<close>

definition holds :: "starting \<Rightarrow> nat set \<Rightarrow> nat set \<Rightarrow> bool" where
  "holds s W L \<longleftrightarrow> st_open s = W \<union> L \<and> st_watched s = W \<and> st_left s = L \<and> W \<inter> L = {} \<and>
     \<not> st_bad s \<and> \<not> st_killed s \<and> \<not> st_reaped s"

text \<open>
  A stage takes the descriptors \<open>T\<close> out of the child and, when it succeeds, holds \<open>H\<close> of its
  result in exchange; when it fails it holds nothing, and has taken some of them.
\<close>

definition stage :: "nat set \<Rightarrow> (starting \<Rightarrow> starting \<times> (nat + 'a)) \<Rightarrow> nat set \<Rightarrow> ('a \<Rightarrow> nat set) \<Rightarrow> bool" where
  "stage U m T H \<longleftrightarrow> (\<forall>s W L. holds s W L \<longrightarrow> W \<union> L \<subseteq> U \<longrightarrow> T \<subseteq> L \<longrightarrow>
     (case m s of
        (t, Inl e) \<Rightarrow> \<exists>L'. L - T \<subseteq> L' \<and> L' \<subseteq> L \<and> holds t W L'
      | (t, Inr v) \<Rightarrow> holds t (W \<union> H v) (L - T) \<and> W \<inter> H v = {}))"

lemma stageD:
  assumes "stage U m T H" "holds s W L" "W \<union> L \<subseteq> U" "T \<subseteq> L"
  shows "m s = (t, Inl e) \<Longrightarrow> \<exists>L'. L - T \<subseteq> L' \<and> L' \<subseteq> L \<and> holds t W L'"
    "m s = (t, Inr v) \<Longrightarrow> holds t (W \<union> H v) (L - T) \<and> W \<inter> H v = {}"
proof -
  have "case m s of (t, Inl e) \<Rightarrow> \<exists>L'. L - T \<subseteq> L' \<and> L' \<subseteq> L \<and> holds t W L'
      | (t, Inr v) \<Rightarrow> holds t (W \<union> H v) (L - T) \<and> W \<inter> H v = {}"
    using assms unfolding stage_def by simp
  then show "m s = (t, Inl e) \<Longrightarrow> \<exists>L'. L - T \<subseteq> L' \<and> L' \<subseteq> L \<and> holds t W L'"
    "m s = (t, Inr v) \<Longrightarrow> holds t (W \<union> H v) (L - T) \<and> W \<inter> H v = {}" by auto
qed

lemmas call_defs = attempt_def set_nonblocking_def register_owned_def pipe_new_def fd_close_def fd_watch_def fd_unwatch_def

lemma drop_holds: "holds s (W \<union> set_option p) L \<Longrightarrow> W \<inter> set_option p = {} \<Longrightarrow> holds (drop_all registered_drop p s) W L"
  by (cases p) (auto simp: holds_def drop_all_def registered_drop_def call_defs)

lemma adopt_pipe_stage: "stage U (adopt_pipe ans p) (set_option p) set_option"
  by (cases p) (auto simp: stage_def holds_def adopt_pipe_def call_defs split: option.splits)

lemma adopt_pipe_value: "adopt_pipe ans p s = (t, Inr q) \<Longrightarrow> q = p"
  by (auto simp: adopt_pipe_def call_defs split: option.splits prod.splits)

fun watch_fds :: "watch_made \<Rightarrow> nat set" where
  "watch_fds (Watch_fd fd) = {fd}"
| "watch_fds _ = {}"

lemma watch_new_stage:
  assumes "\<And>fd. opened = Inr fd \<Longrightarrow> fd \<notin> U"
  shows "stage U (watch_new linux ESRCH pid opened ans) {} watch_fds"
proof (cases opened)
  case (Inl e)
  then show ?thesis
    by (auto simp: stage_def holds_def watch_new_def sys_watch_def call_defs split: option.splits if_splits)
next
  case (Inr fd)
  have "insert fd A - {fd} = A" if "A \<subseteq> U" for A using that assms Inr by auto
  then show ?thesis
    using assms Inr by (auto simp: stage_def holds_def watch_new_def sys_watch_def call_defs split: option.splits if_splits)
qed

lemma adopting_stage:
  assumes rest: "stage U rest T H" and "set_option p \<inter> T = {}"
  shows "stage U (adopting ans p rest) (set_option p \<union> T) (\<lambda>(q, v). set_option q \<union> H v)"
  unfolding stage_def
proof (intro allI impI)
  fix s W L
  assume s: "holds s W L" "W \<union> L \<subseteq> U" "set_option p \<union> T \<subseteq> L"
  obtain t x where t: "adopt_pipe ans p s = (t, x)" by fastforce
  note first = stageD [OF adopt_pipe_stage s(1,2), of p ans t]
  show "case adopting ans p rest s of
      (t, Inl e) \<Rightarrow> \<exists>L'. L - (set_option p \<union> T) \<subseteq> L' \<and> L' \<subseteq> L \<and> holds t W L'
    | (t, Inr v) \<Rightarrow> holds t (W \<union> (case v of (q, v) \<Rightarrow> set_option q \<union> H v)) (L - (set_option p \<union> T)) \<and>
        W \<inter> (case v of (q, v) \<Rightarrow> set_option q \<union> H v) = {}"
  proof (cases x)
    case (Inl e)
    then obtain L' where "L - set_option p \<subseteq> L'" "L' \<subseteq> L" "holds t W L'" using first(1) [of e] t s(3) by auto
    then have "L - (set_option p \<union> T) \<subseteq> L' \<and> L' \<subseteq> L \<and> holds t W L'" by auto
    then show ?thesis using t Inl by (simp add: adopting_def) blast
  next
    case (Inr q)
    then have q: "q = p" using adopt_pipe_value t by blast
    have held: "holds t (W \<union> set_option p) (L - set_option p)" "W \<inter> set_option p = {}"
      using first(2) [of p] t Inr q s(3) by auto
    have inside: "W \<union> set_option p \<union> (L - set_option p) \<subseteq> U" "T \<subseteq> L - set_option p"
      using s assms(2) by auto
    obtain u y where u: "rest t = (u, y)" by fastforce
    note second = stageD [OF rest held(1) inside, of u]
    show ?thesis
    proof (cases y)
      case (Inl e)
      then obtain L' where L': "L - set_option p - T \<subseteq> L'" "L' \<subseteq> L - set_option p" "holds u (W \<union> set_option p) L'"
        using second(1) [of e] u by blast
      have "L - (set_option p \<union> T) \<subseteq> L' \<and> L' \<subseteq> L \<and> holds (drop_all registered_drop p u) W L'"
        using L' drop_holds [OF L'(3) held(2)] by auto
      moreover have "adopting ans p rest s = (drop_all registered_drop p u, Inl e)"
        using t u Inr Inl q by (simp add: adopting_def)
      ultimately show ?thesis by auto
    next
      case (Inr v)
      then have fin: "holds u (W \<union> set_option p \<union> H v) (L - set_option p - T)" "(W \<union> set_option p) \<inter> H v = {}"
        using second(2) [of v] u by auto
      have "W \<union> set_option p \<union> H v = W \<union> (set_option p \<union> H v)" "L - set_option p - T = L - (set_option p \<union> T)" by auto
      moreover have "adopting ans p rest s = (u, Inr (p, v))"
        using t u \<open>x = Inr q\<close> Inr q by (simp add: adopting_def)
      ultimately show ?thesis using fin held(2) by auto
    qed
  qed
qed

lemma adopting_value: "adopting ans p rest s = (t, Inr (q, v)) \<Longrightarrow> q = p \<and> (\<exists>u. rest u = (t, Inr v))"
  by (auto simp: adopting_def dest: adopt_pipe_value split: prod.splits sum.splits)

lemma adopt_value:
  "adopt linux ESRCH pid opened ans (i, a, b) s = (t, Inr (i', a', b', w)) \<Longrightarrow> i' = i \<and> a' = a \<and> b' = b"
  unfolding adopt_def by (auto dest!: adopting_value)

lemma adopting_watch:
  assumes "adopting ans p rest s = (t, Inr (q, v))"
  shows "\<exists>s' t'. rest s' = (t', Inr v)"
  using assms by (auto simp: adopting_def split: prod.splits sum.splits)

lemma adopt_watch:
  assumes "adopt linux ESRCH pid opened ans (i, a, b) s = (t, Inr (i', a', b', w))" "fd \<in> watch_fds w"
  shows "opened = Inr fd"
proof -
  obtain s' t' where "watch_new linux ESRCH pid opened ans s' = (t', Inr w)"
    using assms(1) unfolding adopt_def prod.case by (metis adopting_watch)
  then show ?thesis
    using assms(2) by (auto simp: watch_new_def sys_watch_def call_defs split: prod.splits sum.splits option.splits if_splits)
qed

definition pipes_distinct :: "pipes \<Rightarrow> bool" where
  "pipes_distinct = (\<lambda>(stdin, stdout, stderr). set_option stdin \<inter> set_option stdout = {} \<and>
     set_option stdin \<inter> set_option stderr = {} \<and> set_option stdout \<inter> set_option stderr = {})"

lemma adopt_stage:
  assumes "pipes_distinct pipes" "\<And>fd. opened = Inr fd \<Longrightarrow> fd \<notin> pipe_fds pipes"
  shows "stage (pipe_fds pipes) (adopt linux ESRCH pid opened ans pipes) (pipe_fds pipes)
    (\<lambda>(i, a, b, w). set_option i \<union> (set_option a \<union> (set_option b \<union> watch_fds w)))"
proof -
  obtain stdin stdout stderr where p: "pipes = (stdin, stdout, stderr)" by (cases pipes)
  let ?U = "pipe_fds pipes"
  have "stage ?U (adopt linux ESRCH pid opened ans pipes) (set_option stdin \<union> (set_option stdout \<union> (set_option stderr \<union> {})))
      (\<lambda>(q, v). set_option q \<union> (case v of (q, v) \<Rightarrow> set_option q \<union> (case v of (q, v) \<Rightarrow> set_option q \<union> watch_fds v)))"
    unfolding adopt_def p prod.case
    by (intro adopting_stage watch_new_stage) (use assms p in \<open>auto simp: pipes_distinct_def pipe_fds_def\<close>)
  moreover have "(\<lambda>(q, v). set_option q \<union> (case v of (q, v) \<Rightarrow> set_option q \<union> (case v of (q, v) \<Rightarrow> set_option q \<union> watch_fds v))) =
      (\<lambda>(i, a, b, w). set_option i \<union> (set_option a \<union> (set_option b \<union> watch_fds w)))" by auto
  ultimately show ?thesis unfolding p pipe_fds_def prod.case by (simp add: Un_assoc)
qed

text \<open>What a start holds: its pipes and its watch, apart from each other, or nothing.\<close>

lemma spawn_holds:
  assumes "holds s {} {}"
    "\<forall>pid pipes. child = Inr (pid, pipes) \<longrightarrow> pipes_distinct pipes \<and> (\<forall>fd. opened = Inr fd \<longrightarrow> fd \<notin> pipe_fds pipes)"
  shows "case spawn linux ESRCH opened ans child s of
      (t, Inl e) \<Rightarrow> st_open t = {} \<and> st_watched t = {} \<and> \<not> st_bad t \<and>
        (case child of Inl d \<Rightarrow> t = s \<and> e = d | Inr _ \<Rightarrow> st_killed t \<and> st_reaped t)
    | (t, Inr (i, a, b, watch)) \<Rightarrow> (\<exists>pid. child = Inr (pid, (i, a, b))) \<and>
        holds t (pipe_fds (i, a, b) \<union> watch_fds watch) {} \<and> pipe_fds (i, a, b) \<inter> watch_fds watch = {}"
proof (cases child)
  case (Inl d)
  then show ?thesis using assms(1) by (auto simp: spawn_def holds_def)
next
  case (Inr x)
  obtain pid stdin stdout stderr where x: "x = (pid, (stdin, stdout, stderr))" by (cases x)
  let ?p = "(stdin, stdout, stderr)"
  have st: "stage (pipe_fds ?p) (adopt linux ESRCH pid opened ans ?p) (pipe_fds ?p)
      (\<lambda>(i, a, b, w). set_option i \<union> (set_option a \<union> (set_option b \<union> watch_fds w)))"
    by (rule adopt_stage) (use assms Inr x in blast)+
  have new: "holds (std_child_new ?p s) {} (pipe_fds ?p)" using assms(1) by (simp add: holds_def std_child_new_def)
  note held = stageD [OF st new]
  obtain t y where t: "adopt linux ESRCH pid opened ans ?p (std_child_new ?p s) = (t, y)" by fastforce
  show ?thesis
  proof (cases y)
    case (Inl e)
    then obtain L where "holds t {} L" using held(1) [of t e] t by blast
    then show ?thesis
      using t Inl Inr x by (auto simp: spawn_def std_child_drop_def wait_child_def kill_child_def holds_def)
  next
    case ok: (Inr v)
    obtain i a b watch where v: "v = (i, a, b, watch)" by (cases v)
    have same: "i = stdin" "a = stdout" "b = stderr" using adopt_value t ok v by blast+
    have "holds t (set_option stdin \<union> (set_option stdout \<union> (set_option stderr \<union> watch_fds watch))) {}"
      using held(2) [of t v] t ok v same by simp
    moreover have "pipe_fds ?p \<inter> watch_fds watch = {}"
      using adopt_watch [of linux ESRCH pid opened ans stdin stdout stderr _ t i a b watch] t ok v assms(2) Inr x by auto
    ultimately show ?thesis using t Inr ok v same x by (simp add: spawn_def pipe_fds_def Un_assoc)
  qed
qed

section \<open>Properties\<close>

text \<open>
  C36: Starting a child settles its resources. When \<open>std\<close> gives no child, nothing happens. When
  it does, with distinct pipes, and whatever later calls fail: a successful start
  holds exactly the requested pipes and the watch's descriptor, all of them watched by the
  reactor, and the child is neither signalled nor waited for; a failed one leaves no
  descriptor open and none watched, and the child was killed and then waited for. In
  between, no descriptor is closed twice, or while the reactor still watches it.
\<close>

theorem spawn_settles:
  assumes "holds s {} {}" "\<And>pid pipes. child = Inr (pid, pipes) \<Longrightarrow> pipes_distinct pipes"
    "\<And>pid pipes fd. child = Inr (pid, pipes) \<Longrightarrow> opened = Inr fd \<Longrightarrow> fd \<notin> pipe_fds pipes"
  shows "case spawn linux ESRCH opened ans child s of
      (t, Inl e) \<Rightarrow> st_open t = {} \<and> st_watched t = {} \<and> \<not> st_bad t \<and>
        (case child of Inl d \<Rightarrow> t = s \<and> e = d | Inr _ \<Rightarrow> st_killed t \<and> st_reaped t)
    | (t, Inr (i, a, b, watch)) \<Rightarrow> (\<exists>pid. child = Inr (pid, (i, a, b))) \<and>
        st_open t = pipe_fds (i, a, b) \<union> watch_fds watch \<and>
        st_watched t = st_open t \<and> \<not> st_killed t \<and> \<not> st_reaped t \<and> \<not> st_bad t"
  using spawn_holds [OF assms(1), of child opened linux ESRCH ans] assms(2,3) by (auto simp: holds_def split: prod.splits sum.splits)

text \<open>
  Descriptors 3 and 4 are piped, and the seventh call, the registration of the \<open>pidfd\<close> 9, fails.
\<close>

definition demo_starting :: starting where
  "demo_starting = \<lparr>st_open = {}, st_left = {}, st_watched = {}, st_bad = False, st_killed = False, st_reaped = False, st_asked = 0\<rparr>"

theorem spawn_settles_witness:
  "(case spawn True 3 (Inr 9) (\<lambda>n. if n = 6 then Some 12 else None) (Inr (77, (Some 3, Some 4, None))) demo_starting of
      (t, Inl e) \<Rightarrow> st_open t = {} \<and> st_watched t = {} \<and> st_killed t \<and> st_reaped t \<and> \<not> st_bad t
    | (t, Inr _) \<Rightarrow> False) \<and>
   snd (spawn True 3 (Inr 9) (\<lambda>n. None) (Inr (77, (Some 3, Some 4, None))) demo_starting) = Inr (Some 3, Some 4, None, Watch_fd 9)"
proof -
  let ?ans = "\<lambda>n. if n = 6 then Some 12 else None"
  let ?child = "Inr (77, (Some 3, Some 4, None))"
  have start: "holds demo_starting {} {}" by (auto simp: holds_def demo_starting_def)
  have "snd (spawn True 3 (Inr 9) ?ans ?child demo_starting) = Inl 12"
    "snd (spawn True 3 (Inr 9) (\<lambda>n. None) ?child demo_starting) = Inr (Some 3, Some 4, None, Watch_fd 9)"
    by (simp_all add: spawn_def adopt_def adopting_def adopt_pipe_def watch_new_def sys_watch_def call_defs demo_starting_def
        std_child_new_def)
  then show ?thesis
    using spawn_settles [OF start, of ?child "Inr 9" True 3 ?ans]
    by (auto simp: pipes_distinct_def pipe_fds_def split: prod.splits sum.splits)
qed

end
