(* ===== verification/Resolve.thy ===== *)
theory Resolve
  imports SockAddr
begin

text \<open>
  Names to addresses, and a connection to the first address that answers
  (\<open>src/src/resolve.rs\<close>). \<open>getaddrinfo\<close> is an argument: its status, or the list it returns,
  with the family, the bytes of the address and the scope of each entry.

  The results: the addresses come back in the resolver's order with the caller's port and
  are well formed, so they survive the kernel's encoding; connecting tries them in order,
  stops at the first that accepts, and otherwise reports the error the documentation
  promises.
\<close>

section \<open>Resolving\<close>

record addrinfo =
  ai_family :: nat
  ai_octets :: "u8 list"
  ai_scope :: u32

datatype resolve_error = Nul | Failed int | Empty

text \<open>\<open>CString::new\<close>.\<close>

definition has_nul :: "u8 list \<Rightarrow> bool" where
  "has_nul host \<longleftrightarrow> 0 \<in> set host"

definition entry_addr :: "target \<Rightarrow> u16 \<Rightarrow> addrinfo \<Rightarrow> addr option" where
  "entry_addr tg port entry =
     (if ai_family entry = tg_inet tg then Some (V4 (ai_octets entry) port)
      else if ai_family entry = tg_inet6 tg
      then Some (if ai_scope entry = 0 then V6 (ai_octets entry) port else V6Scoped (ai_octets entry) port (ai_scope entry))
      else None)"

text \<open>The walk of the list, with what it has found so far.\<close>

fun walk :: "target \<Rightarrow> u16 \<Rightarrow> addrinfo list \<Rightarrow> addr list \<Rightarrow> addr list" where
  "walk tg port [] found = found"
| "walk tg port (entry # rest) found =
     walk tg port rest (case entry_addr tg port entry of Some a \<Rightarrow> found @ [a] | None \<Rightarrow> found)"

text \<open>\<open>resolve\<close>: the second component says how often the resolver's list was freed.\<close>

definition resolve ::
  "target \<Rightarrow> (u8 list \<Rightarrow> int \<times> addrinfo list) \<Rightarrow> u8 list \<Rightarrow> u16 \<Rightarrow> (resolve_error + addr list) \<times> nat" where
  "resolve tg getaddrinfo host port =
     (if has_nul host then (Inl Nul, 0)
      else case getaddrinfo host of
             (status, result) \<Rightarrow>
               if status \<noteq> 0 then (Inl (Failed status), 0)
               else if result = [] then (Inl Empty, 0)
               else let found = walk tg port result []
                    in (if found = [] then Inl Empty else Inr found, 1))"

section \<open>Connecting\<close>

record net_errors =
  ECONNREFUSED :: errno
  ENETUNREACH :: errno
  EHOSTUNREACH :: errno
  EAFNOSUPPORT :: errno

definition unreachable_family :: "net_errors \<Rightarrow> errno \<Rightarrow> bool" where
  "unreachable_family ne e \<longleftrightarrow> e = ENETUNREACH ne \<or> e = EHOSTUNREACH ne \<or> e = EAFNOSUPPORT ne"

text \<open>The loop of \<open>connect_any\<close>, over the state of the world that each attempt changes.\<close>

fun connect_loop ::
  "net_errors \<Rightarrow> ('k \<Rightarrow> addr \<Rightarrow> 'k \<times> (errno + 's)) \<Rightarrow> addr list \<Rightarrow> errno \<Rightarrow> errno option \<Rightarrow> 'k \<Rightarrow> 'k \<times> (errno + 's)" where
  "connect_loop ne connect [] fallback about k = (k, Inl (case about of Some e \<Rightarrow> e | None \<Rightarrow> fallback))"
| "connect_loop ne connect (a # addrs) fallback about k =
     (case connect k a of
        (k, Inr stream) \<Rightarrow> (k, Inr stream)
      | (k, Inl e) \<Rightarrow>
          connect_loop ne connect addrs e (if about = None \<and> \<not> unreachable_family ne e then Some e else about) k)"

definition connect_any ::
  "net_errors \<Rightarrow> ('k \<Rightarrow> addr \<Rightarrow> 'k \<times> (errno + 's)) \<Rightarrow> addr list \<Rightarrow> 'k \<Rightarrow> 'k \<times> (errno + 's)" where
  "connect_any ne connect addrs k = connect_loop ne connect addrs (ECONNREFUSED ne) None k"

section \<open>The walk and the loop in one piece\<close>

lemma walk_found: "walk tg port es found = found @ List.map_filter (entry_addr tg port) es"
  by (induction es arbitrary: found) (auto simp: map_filter_simps split: option.splits)

text \<open>The attempts that are made: in order, up to the first success.\<close>

fun attempts :: "('k \<Rightarrow> addr \<Rightarrow> 'k \<times> (errno + 's)) \<Rightarrow> addr list \<Rightarrow> 'k \<Rightarrow> 'k \<times> (errno + 's) list" where
  "attempts connect [] k = (k, [])"
| "attempts connect (a # addrs) k =
     (case connect k a of
        (k, Inr stream) \<Rightarrow> (k, [Inr stream])
      | (k, Inl e) \<Rightarrow> (case attempts connect addrs k of (k, rs) \<Rightarrow> (k, Inl e # rs)))"

definition errors :: "(errno + 's) list \<Rightarrow> errno list" where
  "errors rs = List.map_filter (\<lambda>r. case r of Inl e \<Rightarrow> Some e | Inr _ \<Rightarrow> None) rs"

lemma errors_simps [simp]: "errors [] = []" "errors (Inl e # rs) = e # errors rs" "errors (Inr s # rs) = errors rs"
  by (simp_all add: errors_def map_filter_simps)

text \<open>The verdict on a list of attempts: the success that ends it, or the error to report.\<close>

definition verdict :: "net_errors \<Rightarrow> errno \<Rightarrow> errno option \<Rightarrow> (errno + 's) list \<Rightarrow> errno + 's" where
  "verdict ne fallback about rs =
     (case find (\<lambda>r. \<not> isl r) rs of
        Some r \<Rightarrow> r
      | None \<Rightarrow> Inl (case (case about of Some e \<Rightarrow> Some e | None \<Rightarrow> find (\<lambda>e. \<not> unreachable_family ne e) (errors rs)) of
                      Some e \<Rightarrow> e
                    | None \<Rightarrow> last (fallback # errors rs)))"

lemma verdict_simps:
  "verdict ne fallback about [] = Inl (case about of Some e \<Rightarrow> e | None \<Rightarrow> fallback)"
  "verdict ne fallback about (Inr s # rs) = Inr s"
  "verdict ne fallback about (Inl e # rs) =
     verdict ne e (if about = None \<and> \<not> unreachable_family ne e then Some e else about) rs"
  by (auto simp: verdict_def split: option.splits)

lemma connect_loop_verdict:
  "connect_loop ne connect addrs fallback about k =
     (case attempts connect addrs k of (k, rs) \<Rightarrow> (k, verdict ne fallback about rs))"
  by (induction addrs arbitrary: fallback about k) (auto simp: verdict_simps split: prod.splits sum.splits)

section \<open>Properties\<close>

text \<open>
  The addresses of a name. A name with a NUL byte never reaches the resolver; a failure of
  the resolver is reported with its code; otherwise the answer is every IPv4 and IPv6
  address of the list, in order, with the caller's port, and the error that there is none
  when no entry is of these families. The list is freed exactly when the resolver handed
  one out, and the addresses are well formed when the resolver's are of their families' lengths.
\<close>

theorem resolve_in_order:
  assumes "\<not> has_nul host" "getaddrinfo host = (0, entries)" "tg_inet tg \<noteq> tg_inet6 tg"
    "\<forall>e \<in> set entries. (ai_family e = tg_inet tg \<longrightarrow> length (ai_octets e) = 4) \<and> (ai_family e = tg_inet6 tg \<longrightarrow> length (ai_octets e) = 16)"
  shows "resolve tg getaddrinfo host port =
      (let found = List.map_filter (entry_addr tg port) entries
       in (if found = [] then Inl Empty else Inr found, if entries = [] then 0 else 1)) \<and>
    (\<forall>a \<in> set (List.map_filter (entry_addr tg port) entries). addr_ok tg a \<and> addr_port a = port)"
proof
  show "resolve tg getaddrinfo host port =
      (let found = List.map_filter (entry_addr tg port) entries
       in (if found = [] then Inl Empty else Inr found, if entries = [] then 0 else 1))"
    using assms(1,2) by (auto simp: resolve_def walk_found Let_def map_filter_simps)
  show "\<forall>a \<in> set (List.map_filter (entry_addr tg port) entries). addr_ok tg a \<and> addr_port a = port"
    using assms(4) by (auto simp: map_filter_def entry_addr_def split: if_splits)
qed

text \<open>
  A connection to a name's addresses. For any behaviour of the attempts, \<open>connect_any\<close> makes
  them one after the other in the order of the list and no more after the first that
  succeeds, and returns that stream. When none succeeds, it reports the first error that
  is not about the reachability of an address family, or, if all are, the last one, and
  \<open>ECONNREFUSED\<close> for an empty list.
\<close>

theorem connect_any_verdict:
  "connect_any ne connect addrs k =
    (case attempts connect addrs k of (k', rs) \<Rightarrow>
       (k', case find (\<lambda>r. \<not> isl r) rs of
              Some r \<Rightarrow> r
            | None \<Rightarrow> Inl (case find (\<lambda>e. \<not> unreachable_family ne e) (errors rs) of
                            Some e \<Rightarrow> e
                          | None \<Rightarrow> last (ECONNREFUSED ne # errors rs))))"
  by (cases "attempts connect addrs k") (simp add: connect_any_def connect_loop_verdict verdict_def cong: option.case_cong)

end
