(* ===== verification/Signals.thy ===== *)
theory Signals
  imports NetReader
begin

text \<open>
  Unix signals as a readable descriptor (\<open>src/src/signal.rs\<close>): the claims on signal numbers,
  the creation and the drop of a waiter on Linux, over a \<open>signalfd\<close>, and on the BSDs, over a
  handler that writes to a pipe, and \<open>poll_recv\<close>.

  The state is the process's: the claimed numbers, the mask of the one thread that makes
  and drops the waiters, the dispositions, the cached descriptors and what the reactor
  watches. The answers of the calls that can fail are a sequence, and those of
  \<open>pthread_sigmask\<close> another, so that each call of an operation may succeed or be refused on
  its own. Calls that POSIX lets fail only for a number that is no signal (\<open>sigaddset\<close>,
  \<open>sigismember\<close>, and \<open>sigaction\<close> in the drop) are taken to succeed, since the number has been
  checked before.
\<close>

section \<open>Claims\<close>

datatype action = Default | Ignore | Ours | Program nat

record sigs =
  sg_claimed :: u64
  sg_blocked :: "nat set"
  sg_action :: "nat \<Rightarrow> action"
  sg_saved :: "nat \<Rightarrow> action option"
  sg_read :: "nat \<Rightarrow> int"
  sg_write :: "nat \<Rightarrow> int"
  sg_fds :: "nat \<Rightarrow> int"
  sg_open :: "int set"
  sg_polled :: "int set"
  sg_asked :: nat
  sg_masked :: nat
  sg_unlifted :: "nat set"

record sig_errors =
  se_EINVAL :: errno
  se_EBUSY :: errno
  se_EBADF :: errno

definition SIGKILL :: int where
  "SIGKILL = 9"

text \<open>\<open>SIGSTOP\<close> is 19 on Linux and 17 on the BSDs.\<close>

definition SIGSTOP :: "bool \<Rightarrow> int" where
  "SIGSTOP linux = (if linux then 19 else 17)"

definition signal_bit :: "nat \<Rightarrow> u64" where
  "signal_bit sg = push_bit sg 1"

definition catchable :: "bool \<Rightarrow> int \<Rightarrow> bool" where
  "catchable linux raw \<longleftrightarrow> 1 \<le> raw \<and> raw < 32 \<and> raw \<noteq> SIGKILL \<and> raw \<noteq> SIGSTOP linux"

definition claim_acquire :: "bool \<Rightarrow> sig_errors \<Rightarrow> int \<Rightarrow> sigs \<Rightarrow> sigs \<times> (errno + nat)" where
  "claim_acquire linux er raw s =
     (if \<not> catchable linux raw then (s, Inl (se_EINVAL er))
      else let bit = signal_bit (nat raw) in
        (s\<lparr>sg_claimed := sg_claimed s OR bit\<rparr>,
         if sg_claimed s AND bit \<noteq> 0 then Inl (se_EBUSY er) else Inr (nat raw)))"

definition claim_drop :: "nat \<Rightarrow> sigs \<Rightarrow> sigs" where
  "claim_drop sg s = s\<lparr>sg_claimed := sg_claimed s AND NOT (signal_bit sg)\<rparr>"

section \<open>Masks\<close>

text \<open>
  A call of \<open>pthread_sigmask\<close>, with the answers to the calls by their number. For the
  statements only, \<open>sg_unlifted\<close> are the numbers whose block was to be lifted when the kernel
  last refused that.
\<close>

type_synonym masking = "nat \<Rightarrow> errno option"

definition sigmask :: "masking \<Rightarrow> (nat set \<Rightarrow> nat set) \<Rightarrow> sigs \<Rightarrow> sigs \<times> errno option" where
  "sigmask refuses change s =
     (let t = s\<lparr>sg_masked := sg_masked s + 1\<rparr> in
      case refuses (sg_masked s) of Some e \<Rightarrow> (t, Some e) | None \<Rightarrow> (t\<lparr>sg_blocked := change (sg_blocked s)\<rparr>, None))"

text \<open>\<open>block_one\<close>, which tells whether the signal was blocked already.\<close>

definition block_one :: "masking \<Rightarrow> nat \<Rightarrow> sigs \<Rightarrow> sigs \<times> (errno + bool)" where
  "block_one refuses sg s =
     (case sigmask refuses (insert sg) s of
        (t, Some e) \<Rightarrow> (t, Inl e)
      | (t, None) \<Rightarrow> (t, Inr (sg \<in> sg_blocked s)))"

definition unblock_one :: "masking \<Rightarrow> nat \<Rightarrow> sigs \<Rightarrow> sigs \<times> (errno + unit)" where
  "unblock_one refuses sg s =
     (case sigmask refuses (\<lambda>b. b - {sg}) s of
        (t, Some e) \<Rightarrow> (t\<lparr>sg_unlifted := insert sg (sg_unlifted t)\<rparr>, Inl e)
      | (t, None) \<Rightarrow> (t\<lparr>sg_unlifted := sg_unlifted t - {sg}\<rparr>, Inr ()))"

definition restore_mask :: "masking \<Rightarrow> nat \<Rightarrow> bool \<Rightarrow> sigs \<Rightarrow> sigs \<times> (errno + unit)" where
  "restore_mask refuses sg was_blocked s = (if was_blocked then (s, Inr ()) else unblock_one refuses sg s)"

section \<open>The platforms\<close>

text \<open>An answer is an error or two numbers, of which each call uses what it returns.\<close>

type_synonym answers = "nat \<Rightarrow> errno + int \<times> int"

definition ask :: "answers \<Rightarrow> sigs \<Rightarrow> sigs \<times> (errno + int \<times> int)" where
  "ask ans s = (s\<lparr>sg_asked := sg_asked s + 1\<rparr>, ans (sg_asked s))"

text \<open>Linux: \<open>create\<close> a \<open>signalfd\<close> and \<open>arm\<close>, which masks first and uses a cached descriptor if there is one.\<close>

definition linux_create :: "answers \<Rightarrow> sigs \<Rightarrow> sigs \<times> (errno + int)" where
  "linux_create ans s =
     (case ask ans s of
        (s, Inl e) \<Rightarrow> (s, Inl e)
      | (s, Inr (fd, _)) \<Rightarrow> (s\<lparr>sg_open := insert fd (sg_open s)\<rparr>, Inr fd))"

definition linux_arm :: "masking \<Rightarrow> answers \<Rightarrow> nat \<Rightarrow> sigs \<Rightarrow> sigs \<times> (errno + int)" where
  "linux_arm refuses ans sg s =
     (case block_one refuses sg s of
        (s, Inl e) \<Rightarrow> (s, Inl e)
      | (s, Inr was_blocked) \<Rightarrow>
          if 0 \<le> sg_fds s sg then (s, Inr (sg_fds s sg))
          else case linux_create ans s of
                 (s, Inr fd) \<Rightarrow> (s\<lparr>sg_fds := (sg_fds s)(sg := fd)\<rparr>, Inr fd)
               | (s, Inl e) \<Rightarrow> (fst (restore_mask refuses sg was_blocked s), Inl e))"

definition linux_disarm :: "nat \<Rightarrow> sigs \<Rightarrow> sigs" where
  "linux_disarm sg s = s"

text \<open>The BSDs: the pipe of a signal number, made once; three \<open>fcntl\<close> calls prepare each end.\<close>

fun all_succeed :: "nat \<Rightarrow> answers \<Rightarrow> sigs \<Rightarrow> sigs \<times> (errno + unit)" where
  "all_succeed 0 ans s = (s, Inr ())"
| "all_succeed (Suc n) ans s = (case ask ans s of (s, Inl e) \<Rightarrow> (s, Inl e) | (s, _) \<Rightarrow> all_succeed n ans s)"

definition set_nonblock_cloexec :: "answers \<Rightarrow> sigs \<Rightarrow> sigs \<times> (errno + unit)" where
  "set_nonblock_cloexec ans s = all_succeed 3 ans s"

definition ensure_pipe :: "answers \<Rightarrow> nat \<Rightarrow> sigs \<Rightarrow> sigs \<times> (errno + int)" where
  "ensure_pipe ans sg s =
     (if 0 \<le> sg_write s sg then (s, Inr (sg_write s sg))
      else case ask ans s of
             (s, Inr (r, w)) \<Rightarrow>
               (let s = s\<lparr>sg_open := sg_open s \<union> {r, w}\<rparr> in
                case set_nonblock_cloexec ans s of
                  (s, Inl e) \<Rightarrow> (s\<lparr>sg_open := sg_open s - {r, w}\<rparr>, Inl e)
                | (s, Inr _) \<Rightarrow>
                    (case set_nonblock_cloexec ans s of
                       (s, Inl e) \<Rightarrow> (s\<lparr>sg_open := sg_open s - {r, w}\<rparr>, Inl e)
                     | (s, Inr _) \<Rightarrow> (s\<lparr>sg_read := (sg_read s)(sg := r)\<rparr>, Inr w)))
           | (s, Inl e) \<Rightarrow> (s, Inl e))"

definition bsd_install :: "sig_errors \<Rightarrow> answers \<Rightarrow> nat \<Rightarrow> sigs \<Rightarrow> sigs \<times> (errno + int)" where
  "bsd_install er ans sg s =
     (case ensure_pipe ans sg s of
        (s, Inl e) \<Rightarrow> (s, Inl e)
      | (s, Inr w) \<Rightarrow>
          (let s = s\<lparr>sg_write := (sg_write s)(sg := w)\<rparr>; r = sg_read s sg in
           if r < 0 then (s, Inl (se_EBADF er))
           else case ask ans s of
                  (s, Inl e) \<Rightarrow> (s, Inl e)
                | (s, _) \<Rightarrow>
                    (s\<lparr>sg_action := (sg_action s)(sg := Ours), sg_saved := (sg_saved s)(sg := Some (sg_action s sg))\<rparr>, Inr r)))"

definition bsd_disarm :: "masking \<Rightarrow> nat \<Rightarrow> sigs \<Rightarrow> sigs" where
  "bsd_disarm refuses sg s =
     (case sg_saved s sg of
        None \<Rightarrow> s
      | Some saved \<Rightarrow>
          (let s = s\<lparr>sg_saved := (sg_saved s)(sg := None)\<rparr> in
           case block_one refuses sg s of
             (s, blocked) \<Rightarrow>
               (let was_blocked = (case blocked of Inr b \<Rightarrow> b | Inl _ \<Rightarrow> True);
                    w = sg_write s sg;
                    s = s\<lparr>sg_write := (sg_write s)(sg := -1), sg_action := (sg_action s)(sg := Ignore)\<rparr>;
                    s = (if was_blocked then s else fst (block_one refuses sg (fst (unblock_one refuses sg s))));
                    s = s\<lparr>sg_action := (sg_action s)(sg := saved)\<rparr>;
                    s = (if 0 \<le> w then s\<lparr>sg_write := (sg_write s)(sg := w)\<rparr> else s)
                in fst (restore_mask refuses sg was_blocked s))))"

definition platform_arm :: "bool \<Rightarrow> sig_errors \<Rightarrow> masking \<Rightarrow> answers \<Rightarrow> nat \<Rightarrow> sigs \<Rightarrow> sigs \<times> (errno + int)" where
  "platform_arm linux er refuses ans sg s = (if linux then linux_arm refuses ans sg s else bsd_install er ans sg s)"

definition platform_disarm :: "bool \<Rightarrow> masking \<Rightarrow> nat \<Rightarrow> sigs \<Rightarrow> sigs" where
  "platform_disarm linux refuses sg s = (if linux then linux_disarm sg s else bsd_disarm refuses sg s)"

section \<open>The waiter\<close>

record signal =
  si_kind :: int
  si_claim :: nat
  si_fd :: int

text \<open>\<open>Signal::new\<close>; \<open>committed\<close> does nothing on either platform and cannot fail.\<close>

type_synonym arming = "masking \<Rightarrow> answers \<Rightarrow> nat \<Rightarrow> sigs \<Rightarrow> sigs \<times> (errno + int)"

type_synonym disarming = "masking \<Rightarrow> nat \<Rightarrow> sigs \<Rightarrow> sigs"

definition signal_new ::
  "bool \<Rightarrow> sig_errors \<Rightarrow> arming \<Rightarrow> disarming \<Rightarrow> masking \<Rightarrow> answers \<Rightarrow> int \<Rightarrow> sigs \<Rightarrow> sigs \<times> (errno + signal)" where
  "signal_new linux er arm disarm refuses ans raw s =
     (case claim_acquire linux er raw s of
        (s, Inl e) \<Rightarrow> (s, Inl e)
      | (s, Inr sg) \<Rightarrow>
          (case arm refuses ans sg s of
             (s, Inl e) \<Rightarrow> (claim_drop sg s, Inl e)
           | (s, Inr fd) \<Rightarrow>
               (case ask ans s of
                  (s, Inl e) \<Rightarrow> (claim_drop sg (disarm refuses sg s), Inl e)
                | (s, _) \<Rightarrow> (s\<lparr>sg_polled := insert fd (sg_polled s)\<rparr>, Inr \<lparr>si_kind = raw, si_claim = sg, si_fd = fd\<rparr>))))"

text \<open>\<open>Signal::drop\<close>: the disposition, then the registration, and the claim last.\<close>

definition signal_drop :: "disarming \<Rightarrow> masking \<Rightarrow> signal \<Rightarrow> sigs \<Rightarrow> sigs" where
  "signal_drop disarm refuses w s =
     (let s = disarm refuses (si_claim w) s;
          s = s\<lparr>sg_polled := sg_polled s - {si_fd w}\<rparr>
      in claim_drop (si_claim w) s)"

section \<open>Waiters over time\<close>

text \<open>
  A program makes waiters and drops them in any order, whatever the calls answer. What is
  assumed of the kernel: a descriptor it hands out is none that is open. \<open>sg_polled\<close> holds
  what the waiters have put into the poller.
\<close>

definition fresh :: "answers \<Rightarrow> sigs \<Rightarrow> bool" where
  "fresh ans s \<longleftrightarrow>
     (\<forall>i r w. ans i = Inr (r, w) \<longrightarrow> 0 \<le> r \<and> 0 \<le> w \<and> r \<noteq> w \<and> r \<notin> sg_open s \<and> w \<notin> sg_open s)"

inductive signal_step ::
  "bool \<Rightarrow> sig_errors \<Rightarrow> arming \<Rightarrow> disarming \<Rightarrow> sigs \<times> signal list \<Rightarrow> sigs \<times> signal list \<Rightarrow> bool"
  for linux :: bool and er :: sig_errors and arm :: arming and disarm :: disarming where
  made: "fresh ans s \<Longrightarrow> signal_new linux er arm disarm refuses ans raw s = (t, Inr w) \<Longrightarrow>
    signal_step linux er arm disarm (s, ws) (t, w # ws)"
| refused: "fresh ans s \<Longrightarrow> signal_new linux er arm disarm refuses ans raw s = (t, Inl e) \<Longrightarrow>
    signal_step linux er arm disarm (s, ws) (t, ws)"
| dropped: "w \<in> set ws \<Longrightarrow> signal_step linux er arm disarm (s, ws) (signal_drop disarm refuses w s, remove1 w ws)"


section \<open>What a waiter needs of its platform\<close>

text \<open>Bits of the claims.\<close>

lemma bit_signal_bit: "sg < 64 \<Longrightarrow> bit (signal_bit sg) n \<longleftrightarrow> n = sg"
  by (auto simp: signal_bit_def push_bit_eq_mult bit_exp_iff)

lemma claimed_bit:
  assumes "sg < 64"
  shows "c AND signal_bit sg \<noteq> 0 \<longleftrightarrow> bit c sg"
proof
  assume "c AND signal_bit sg \<noteq> 0"
  then obtain n where "bit (c AND signal_bit sg) n" by (metis bit_eqI bit_0_eq bot_apply bot_bool_def)
  then show "bit c sg" using assms by (auto simp: bit_and_iff bit_signal_bit)
next
  assume "bit c sg"
  then have "bit (c AND signal_bit sg) sg" using assms by (simp add: bit_and_iff bit_signal_bit)
  then show "c AND signal_bit sg \<noteq> 0" by auto
qed

definition live :: "signal list \<Rightarrow> nat set" where
  "live ws = si_claim ` set ws"

definition claims_match :: "u64 \<Rightarrow> nat set \<Rightarrow> bool" where
  "claims_match c L \<longleftrightarrow> L \<subseteq> {..<32} \<and> (\<forall>n < 64. bit c n \<longleftrightarrow> n \<in> L)"

lemma claims_match_insert: "claims_match c L \<Longrightarrow> sg < 32 \<Longrightarrow> claims_match (c OR signal_bit sg) (insert sg L)"
  by (auto simp: claims_match_def bit_or_iff bit_signal_bit)

lemma claims_match_delete: "claims_match c L \<Longrightarrow> sg < 32 \<Longrightarrow> claims_match (c AND NOT (signal_bit sg)) (L - {sg})"
  by (auto simp: claims_match_def bit_and_iff bit_not_iff bit_signal_bit)

lemma claim_acquire_refused:
  assumes "claim_acquire linux er raw s = (t, Inl e)" "claims_match (sg_claimed s) L"
  shows "t = s"
proof -
  have "sg_claimed s OR signal_bit (nat raw) = sg_claimed s" if "bit (sg_claimed s) (nat raw)" "nat raw < 32"
    using that by (intro bit_word_eqI) (auto simp: bit_or_iff bit_signal_bit)
  then show ?thesis
    using assms claimed_bit [of "nat raw" "sg_claimed s"] by (auto simp: claim_acquire_def catchable_def Let_def split: if_splits)
qed

lemma claim_acquire_made:
  assumes "claim_acquire linux er raw s = (t, Inr sg)" "claims_match (sg_claimed s) L"
  shows "raw = int sg \<and> catchable linux raw \<and> sg < 32 \<and> sg \<notin> L \<and> t = s\<lparr>sg_claimed := sg_claimed s OR signal_bit sg\<rparr>"
proof -
  have sg: "raw = int sg" "catchable linux raw" "sg < 32" "\<not> bit (sg_claimed s) sg" "t = s\<lparr>sg_claimed := sg_claimed s OR signal_bit sg\<rparr>"
    using assms(1) claimed_bit [of sg "sg_claimed s"] nat_less_iff [of raw 64]
    by (auto simp: claim_acquire_def catchable_def Let_def split: if_splits)
  then show ?thesis using assms(2) by (auto simp: claims_match_def)
qed

lemma claimed_is_busy:
  assumes "claims_match (sg_claimed s) L" "nat raw \<in> L" "catchable linux raw"
  shows "signal_new linux er arm disarm refuses ans raw s = (s, Inl (se_EBUSY er))"
proof -
  have "nat raw < 32" using assms(3) by (auto simp: catchable_def)
  then have "sg_claimed s AND signal_bit (nat raw) \<noteq> 0"
    using claimed_bit [of "nat raw" "sg_claimed s"] assms(1,2) by (auto simp: claims_match_def)
  then have "\<exists>t. claim_acquire linux er raw s = (t, Inl (se_EBUSY er))"
    using assms(3) by (simp add: claim_acquire_def Let_def)
  then show ?thesis using claim_acquire_refused [OF _ assms(1)] by (force simp: signal_new_def)
qed

text \<open>
  The contract of a platform: \<open>held L s\<close> says that the numbers in \<open>L\<close> are armed and no
  others are, and \<open>slot\<close> is the descriptor it keeps for a number.
\<close>

locale signal_platform =
  fixes arm :: arming and disarm :: disarming and held :: "nat set \<Rightarrow> sigs \<Rightarrow> bool" and slot :: "sigs \<Rightarrow> nat \<Rightarrow> int"
  assumes held_slots: "held L s \<Longrightarrow> m \<in> L \<Longrightarrow> 0 \<le> slot s m"
    "held L s \<Longrightarrow> 0 \<le> slot s m \<Longrightarrow> slot s m = slot s n \<Longrightarrow> m = n"
    and held_frame: "held L (s\<lparr>sg_claimed := c\<rparr>) = held L s" "held L (s\<lparr>sg_polled := p\<rparr>) = held L s"
      "held L (s\<lparr>sg_asked := k\<rparr>) = held L s"
    and slot_frame: "slot (s\<lparr>sg_claimed := c\<rparr>) = slot s" "slot (s\<lparr>sg_polled := p\<rparr>) = slot s" "slot (s\<lparr>sg_asked := k\<rparr>) = slot s"
    and arm_keeps: "held L s \<Longrightarrow> fresh ans s \<Longrightarrow> arm refuses ans sg s = (t, r) \<Longrightarrow>
      sg_claimed t = sg_claimed s \<and> sg_polled t = sg_polled s \<and> (\<forall>n. 0 \<le> slot s n \<longrightarrow> slot t n = slot s n)"
    and arm_ok: "held L s \<Longrightarrow> sg \<notin> L \<Longrightarrow> fresh ans s \<Longrightarrow> arm refuses ans sg s = (t, Inr fd) \<Longrightarrow>
      held (insert sg L) t \<and> slot t sg = fd"
    and arm_refused: "held L s \<Longrightarrow> sg \<notin> L \<Longrightarrow> fresh ans s \<Longrightarrow> arm refuses ans sg s = (t, Inl e) \<Longrightarrow> held L t"
    and disarm_keeps: "sg_claimed (disarm refuses sg s) = sg_claimed s" "sg_polled (disarm refuses sg s) = sg_polled s"
      "slot (disarm refuses sg s) = slot s"
    and disarm_ok: "held L s \<Longrightarrow> sg \<in> L \<Longrightarrow> held (L - {sg}) (disarm refuses sg s)"
begin

lemmas frames = held_frame slot_frame disarm_keeps

definition waiters_inv :: "bool \<Rightarrow> sigs \<times> signal list \<Rightarrow> bool" where
  "waiters_inv linux = (\<lambda>(s, ws). held (live ws) s \<and> claims_match (sg_claimed s) (live ws) \<and> distinct (map si_claim ws) \<and>
     sg_polled s = si_fd ` set ws \<and> (\<forall>w \<in> set ws. si_fd w = slot s (si_claim w) \<and> si_kind w = int (si_claim w) \<and> catchable linux (int (si_claim w))))"

lemma refused_inv:
  assumes "waiters_inv linux (s, ws)" "fresh ans s" "signal_new linux er arm disarm refuses ans raw s = (t, Inl e)"
  shows "waiters_inv linux (t, ws)"
proof (cases "claim_acquire linux er raw s")
  case acq: (Pair u r)
  note inv = assms(1) [unfolded waiters_inv_def, simplified]
  show ?thesis
  proof (cases r)
    case (Inl d)
    then have "claim_acquire linux er raw s = (t, Inl e)" using assms(3) acq by (simp add: signal_new_def)
    then show ?thesis using assms(1) claim_acquire_refused [OF _ conjunct1 [OF conjunct2 [OF inv]]] by metis
  next
    case (Inr sg)
    have c: "sg < 32" "sg \<notin> live ws" "u = s\<lparr>sg_claimed := sg_claimed s OR signal_bit sg\<rparr>"
      using claim_acquire_made [of linux er raw s u sg "live ws"] acq Inr inv by auto
    have fr: "fresh ans u" using assms(2) c(3) by (simp add: fresh_def)
    have held: "held (live ws) u" using inv c(3) by (simp add: frames)
    obtain v q where arm: "arm refuses ans sg u = (v, q)" by fastforce
    note k = arm_keeps [OF held fr arm]
    have claims: "claims_match (sg_claimed v AND NOT (signal_bit sg)) (live ws)"
      using claims_match_delete [OF claims_match_insert, of "sg_claimed s" "live ws" sg sg] inv c k by simp
    have slots: "\<forall>w \<in> set ws. si_fd w = slot v (si_claim w)"
      using k inv held_slots(1) [of "live ws" s] c(3) by (auto simp: frames live_def)
    have polled: "sg_polled v = si_fd ` set ws" using k c(3) inv by simp
    note rest = claims slots polled inv
    show ?thesis
    proof (cases q)
      case (Inl d)
      then have "t = claim_drop sg v" using assms(3) acq Inr arm by (simp add: signal_new_def)
      then show ?thesis
        using arm_refused [OF held c(2) fr arm [unfolded Inl]] rest by (simp add: waiters_inv_def claim_drop_def frames)
    next
      case (Inr fd)
      have "t = claim_drop sg (disarm refuses sg (v\<lparr>sg_asked := sg_asked v + 1\<rparr>))"
        using assms(3) acq \<open>r = Inr sg\<close> arm Inr by (auto simp: signal_new_def ask_def split: sum.splits)
      moreover have "held (live ws) (disarm refuses sg (v\<lparr>sg_asked := sg_asked v + 1\<rparr>))"
        using disarm_ok [of "insert sg (live ws)" "v\<lparr>sg_asked := sg_asked v + 1\<rparr>" sg refuses]
          arm_ok [OF held c(2) fr arm [unfolded Inr]] c(2) by (simp add: frames)
      ultimately show ?thesis using rest by (simp add: waiters_inv_def claim_drop_def frames)
    qed
  qed
qed

lemma made_inv:
  assumes "waiters_inv linux (s, ws)" "fresh ans s" "signal_new linux er arm disarm refuses ans raw s = (t, Inr w)"
  shows "waiters_inv linux (t, w # ws)"
proof -
  note inv = assms(1) [unfolded waiters_inv_def, simplified]
  obtain u sg where acq: "claim_acquire linux er raw s = (u, Inr sg)"
    using assms(3) by (auto simp: signal_new_def split: prod.splits sum.splits)
  have c: "raw = int sg \<and> catchable linux raw" "sg < 32" "sg \<notin> live ws" "u = s\<lparr>sg_claimed := sg_claimed s OR signal_bit sg\<rparr>"
    using claim_acquire_made [OF acq] inv by auto
  obtain v fd where arm: "arm refuses ans sg u = (v, Inr fd)"
    using assms(3) acq by (auto simp: signal_new_def split: prod.splits sum.splits)
  have t: "t = v\<lparr>sg_asked := sg_asked v + 1, sg_polled := insert fd (sg_polled v)\<rparr>" "w = \<lparr>si_kind = raw, si_claim = sg, si_fd = fd\<rparr>"
    using assms(3) acq arm by (auto simp: signal_new_def ask_def split: sum.splits)
  have fr: "fresh ans u" using assms(2) c(4) by (simp add: fresh_def)
  have held: "held (live ws) u" using inv c(4) by (simp add: frames)
  note k = arm_keeps [OF held fr arm] and ok = arm_ok [OF held c(3) fr arm]
  have "\<forall>w \<in> set ws. si_fd w = slot v (si_claim w)"
    using k inv held_slots(1) [of "live ws" s] c(4) by (auto simp: frames live_def)
  then show ?thesis
    using ok k c inv claims_match_insert [of "sg_claimed s" "live ws" sg] unfolding t
    by (auto simp: waiters_inv_def frames live_def)
qed

lemma slots_distinct:
  assumes "waiters_inv linux (s, ws)"
  shows "inj_on si_fd (set ws)"
proof (rule inj_onI)
  fix x y assume xy: "x \<in> set ws" "y \<in> set ws" "si_fd x = si_fd y"
  note inv = assms(1) [unfolded waiters_inv_def, simplified]
  then have "si_claim x = si_claim y"
    using xy held_slots(1) [of "live ws" s "si_claim x"] held_slots(2) [of "live ws" s "si_claim x" "si_claim y"]
    by (auto simp: live_def)
  then show "x = y" using inv xy by (auto simp: distinct_map inj_on_def)
qed

lemma settled:
  assumes "waiters_inv linux (s, ws)"
  shows "distinct (map si_fd ws)" "distinct (map si_kind ws)" "sg_polled s = si_fd ` set ws"
    "w \<in> set ws \<Longrightarrow> signal_new linux er arm' disarm' refuses ans (si_kind w) s = (s, Inl (se_EBUSY er))"
proof -
  note inv = assms(1) [unfolded waiters_inv_def, simplified]
  have d: "distinct ws" using inv distinct_map by blast
  show "distinct (map si_fd ws)" using slots_distinct [OF assms] d by (simp add: distinct_map)
  show "distinct (map si_kind ws)" using inv d by (auto simp: distinct_map inj_on_def)
  show "sg_polled s = si_fd ` set ws" using inv by simp
  show "signal_new linux er arm' disarm' refuses ans (si_kind w) s = (s, Inl (se_EBUSY er))" if "w \<in> set ws"
    by (rule claimed_is_busy [of _ "live ws"]) (use inv that in \<open>auto simp: live_def\<close>)
qed

lemma dropped_inv:
  assumes "waiters_inv linux (s, ws)" "w \<in> set ws"
  shows "waiters_inv linux (signal_drop disarm refuses w s, remove1 w ws)"
proof -
  note inv = assms(1) [unfolded waiters_inv_def, simplified]
  have d: "distinct ws" using inv distinct_map by blast
  have l: "live (remove1 w ws) = live ws - {si_claim w}"
    using inv assms(2) d by (auto simp: live_def distinct_map inj_on_def)
  have p: "si_fd ` set (remove1 w ws) = si_fd ` set ws - {si_fd w}"
    using assms(2) d slots_distinct [OF assms(1)] by (auto simp: inj_on_def)
  have "si_claim w < 32" using inv assms(2) by (auto simp: claims_match_def live_def)
  then show ?thesis
    using inv l p d assms(2) disarm_ok [of "live ws" s "si_claim w" refuses]
      claims_match_delete [of "sg_claimed s" "live ws" "si_claim w"]
    by (simp add: waiters_inv_def signal_drop_def claim_drop_def frames Let_def distinct_map live_def inj_on_diff)
qed

lemma step_inv: "waiters_inv linux x \<Longrightarrow> signal_step linux er arm disarm x y \<Longrightarrow> waiters_inv linux y"
  by (erule signal_step.cases) (auto intro: refused_inv made_inv dropped_inv)

end

section \<open>The platforms keep the contract\<close>

text \<open>
  \<open>blocked\<close> is what the program had blocked. On Linux a number is blocked besides when a
  \<open>signalfd\<close> was ever made for it, and on either platform only when, beyond that, the kernel
  refused to lift a block. Neither platform reuses a descriptor for two numbers, since
  each one it keeps is open.
\<close>

definition slots_ok :: "(nat \<Rightarrow> int) \<Rightarrow> int set \<Rightarrow> bool" where
  "slots_ok f opened \<longleftrightarrow> (\<forall>m n. 0 \<le> f m \<longrightarrow> f m \<in> opened \<and> (f m = f n \<longrightarrow> m = n))"

lemma slots_ok_put: "slots_ok f opened \<Longrightarrow> fd \<notin> opened \<Longrightarrow> fd \<in> opened' \<Longrightarrow> opened \<subseteq> opened' \<Longrightarrow> slots_ok (f(sg := fd)) opened'"
  unfolding slots_ok_def by (auto split: if_splits)

definition linux_held :: "(nat \<Rightarrow> action) \<Rightarrow> nat set \<Rightarrow> nat set \<Rightarrow> sigs \<Rightarrow> bool" where
  "linux_held actions blocked L s \<longleftrightarrow> sg_action s = actions \<and> blocked \<union> {n. 0 \<le> sg_fds s n} \<subseteq> sg_blocked s \<and>
     sg_blocked s \<subseteq> blocked \<union> {n. 0 \<le> sg_fds s n} \<union> sg_unlifted s \<and> slots_ok (sg_fds s) (sg_open s) \<and> (\<forall>n \<in> L. 0 \<le> sg_fds s n)"


lemmas mask_defs = block_one_def restore_mask_def unblock_one_def sigmask_def Let_def

lemmas linux_defs = linux_arm_def linux_create_def linux_disarm_def ask_def mask_defs

lemma linux_arm_cases:
  assumes "linux_held actions blocked L s" "sg \<notin> L" "fresh ans s" "linux_arm refuses ans sg s = (t, r)"
  shows "sg_claimed t = sg_claimed s \<and> sg_polled t = sg_polled s \<and> (\<forall>n. 0 \<le> sg_fds s n \<longrightarrow> sg_fds t n = sg_fds s n) \<and>
    (case r of Inl e \<Rightarrow> linux_held actions blocked L t
     | Inr fd \<Rightarrow> linux_held actions blocked (insert sg L) t \<and> sg_fds t sg = fd)"
proof (cases "refuses (sg_masked s) \<noteq> None \<or> 0 \<le> sg_fds s sg")
  case True
  then show ?thesis using assms by (auto simp: linux_defs linux_held_def split: option.splits)
next
  case False
  show ?thesis
  proof (cases "ans (sg_asked s)")
    case (Inl e)
    then show ?thesis
      using False assms by (cases "sg \<in> sg_blocked s"; cases "refuses (sg_masked s + 1)") (auto simp: linux_defs linux_held_def)
  next
    case (Inr rw)
    obtain fd x where rw: "rw = (fd, x)" by fastforce
    have fd: "0 \<le> fd" "fd \<notin> sg_open s" using assms(3) Inr rw by (auto simp: fresh_def)
    then have "slots_ok ((sg_fds s)(sg := fd)) (insert fd (sg_open s))"
      using assms(1) by (intro slots_ok_put [of _ "sg_open s"]) (auto simp: linux_held_def)
    moreover have "t = s\<lparr>sg_masked := sg_masked s + 1, sg_blocked := insert sg (sg_blocked s), sg_asked := sg_asked s + 1, sg_open := insert fd (sg_open s),
        sg_fds := (sg_fds s)(sg := fd)\<rparr>" "r = Inr fd"
      using False assms(4) Inr rw by (simp_all add: linux_defs)
    moreover have "{n. 0 \<le> ((sg_fds s)(sg := fd)) n} = insert sg {n. 0 \<le> sg_fds s n}" using fd by auto
    ultimately show ?thesis using assms(1) False fd by (auto simp: linux_held_def)
  qed
qed

lemma linux_arm_frame:
  assumes "linux_arm refuses ans sg s = (t, r)"
  shows "sg_claimed t = sg_claimed s \<and> sg_polled t = sg_polled s \<and> (\<forall>n. 0 \<le> sg_fds s n \<longrightarrow> sg_fds t n = sg_fds s n)"
  using assms
  by (cases "sg \<in> sg_blocked s") (auto simp: linux_defs split: option.splits sum.splits if_splits)

interpretation linux: signal_platform "platform_arm True er" "platform_disarm True" "linux_held actions blocked" sg_fds
  for er actions blocked
proof unfold_locales
  fix L s sg refuses and ans :: answers and t fd e r
  let ?h = "linux_held actions blocked"
  { assume "?h L s" "fresh ans s" "platform_arm True er refuses ans sg s = (t, r)"
    then show "sg_claimed t = sg_claimed s \<and> sg_polled t = sg_polled s \<and> (\<forall>n. 0 \<le> sg_fds s n \<longrightarrow> sg_fds t n = sg_fds s n)"
      using linux_arm_frame by (simp add: platform_arm_def) }
  { assume "?h L s" "sg \<notin> L" "fresh ans s" "platform_arm True er refuses ans sg s = (t, Inr fd)"
    then show "?h (insert sg L) t \<and> sg_fds t sg = fd"
      using linux_arm_cases [of actions blocked L s sg ans refuses t "Inr fd"] by (simp add: platform_arm_def) }
  { assume "?h L s" "sg \<notin> L" "fresh ans s" "platform_arm True er refuses ans sg s = (t, Inl e)"
    then show "?h L t"
      using linux_arm_cases [of actions blocked L s sg ans refuses t "Inl e"] by (simp add: platform_arm_def) }
qed (auto simp: linux_held_def slots_ok_def platform_disarm_def linux_disarm_def)












section \<open>Properties\<close>





text \<open>A waiter for signal 2 on a BSD, whose pipe is made of descriptors 10 and 11.\<close>

definition demo_sigs :: sigs where
  "demo_sigs = \<lparr>sg_claimed = 0, sg_blocked = {}, sg_action = (\<lambda>_. Default), sg_saved = (\<lambda>_. None), sg_read = (\<lambda>_. -1),
     sg_write = (\<lambda>_. -1), sg_fds = (\<lambda>_. -1), sg_open = {}, sg_polled = {}, sg_asked = 0, sg_masked = 0, sg_unlifted = {}\<rparr>"

definition demo_sig_errors :: sig_errors where
  "demo_sig_errors = \<lparr>se_EINVAL = 22, se_EBUSY = 16, se_EBADF = 9\<rparr>"

definition demo_sigs_made :: "sigs \<times> (errno + signal)" where
  "demo_sigs_made = signal_new False demo_sig_errors (platform_arm False demo_sig_errors) (platform_disarm False) (\<lambda>_. None)
     (\<lambda>_. Inr (10, 11)) 2 demo_sigs"

lemma demo_sigs_made: "snd demo_sigs_made = Inr \<lparr>si_kind = 2, si_claim = 2, si_fd = 10\<rparr>"
  by (simp add: demo_sigs_made_def demo_sigs_def signal_new_def claim_acquire_def catchable_def SIGKILL_def SIGSTOP_def
      platform_arm_def bsd_install_def ensure_pipe_def set_nonblock_cloexec_def ask_def numeral_3_eq_3 Let_def)



text \<open>
  On Linux a waiter that could not be registered is no waiter, and yet leaves its signal
  blocked on the thread: \<open>arm\<close> lifts the block when it fails itself, \<open>disarm\<close> does not.
\<close>

lemma linux_failed_registration_blocks:
  "case signal_new True demo_sig_errors (platform_arm True demo_sig_errors) (platform_disarm True) (\<lambda>_. None)
     (\<lambda>n. if n = 0 then Inr (10, 11) else Inl 12) 2 demo_sigs of
   (s, r) \<Rightarrow> r = Inl 12 \<and> sg_blocked demo_sigs = {} \<and> sg_blocked s = {2}"
  by (simp add: demo_sigs_def signal_new_def claim_acquire_def catchable_def SIGKILL_def SIGSTOP_def claim_drop_def
      platform_arm_def platform_disarm_def linux_defs Let_def)

text \<open>A restore that is refused after the block succeeded leaves the signal blocked, on either platform.\<close>

lemma refused_restore_blocks:
  "case signal_new True demo_sig_errors (platform_arm True demo_sig_errors) (platform_disarm True)
     (\<lambda>k. if k = 0 then None else Some 4) (\<lambda>n. Inl 12) 2 demo_sigs of
   (s, r) \<Rightarrow> r = Inl 12 \<and> sg_blocked s = {2} \<and> sg_unlifted s = {2}"
  "sg_blocked (signal_drop (platform_disarm False) (\<lambda>k. if k = 0 then None else Some 4)
     \<lparr>si_kind = 2, si_claim = 2, si_fd = 10\<rparr> (fst demo_sigs_made)) = {2}"
  by (simp_all add: demo_sigs_made_def demo_sigs_def signal_new_def signal_drop_def claim_acquire_def catchable_def SIGKILL_def
      SIGSTOP_def claim_drop_def platform_arm_def platform_disarm_def linux_defs bsd_disarm_def bsd_install_def ensure_pipe_def
      set_nonblock_cloexec_def numeral_3_eq_3)

end
