(* ===== verification/SignalRecv.thy ===== *)
theory SignalRecv
  imports Signals
begin

text \<open>
  From a delivery to \<open>recv\<close> (\<open>src/src/signal.rs\<close>): the handler of the BSDs, \<open>read_one\<close> of
  both platforms, and \<open>poll_recv\<close> over the registration.

  The results: a delivery that finds room in the pipe is received once and as the number
  that was delivered, and the handler keeps \<open>errno\<close>; and a pending \<open>recv\<close> is never left beside a
  delivery with nothing on its way, in any interleaving with the reactor.
\<close>

section \<open>The descriptor\<close>

text \<open>
  The pipe of a number, with what it still has room for, and the interrupted thread's
  \<open>errno\<close>. A write to a full pipe fails with \<open>EAGAIN\<close>, and so does a read of an empty one.
\<close>

record sig_pipe =
  sp_bytes :: "u8 list"
  sp_room :: nat
  sp_errno :: errno

definition write_byte :: "errno \<Rightarrow> u8 \<Rightarrow> sig_pipe \<Rightarrow> sig_pipe" where
  "write_byte EAGAIN byte p =
     (if 0 < sp_room p then p\<lparr>sp_bytes := sp_bytes p @ [byte], sp_room := sp_room p - 1\<rparr> else p\<lparr>sp_errno := EAGAIN\<rparr>)"

definition write_signal :: "errno \<Rightarrow> int \<Rightarrow> int \<Rightarrow> sig_pipe \<Rightarrow> sig_pipe" where
  "write_signal EAGAIN fd sg p =
     (let saved = sp_errno p;
          p = (if 1 \<le> sg \<and> sg < 32 \<and> 0 \<le> fd then write_byte EAGAIN (word_of_int sg) p else p)
      in p\<lparr>sp_errno := saved\<rparr>)"

definition read_byte :: "errno \<Rightarrow> sig_pipe \<Rightarrow> sig_pipe \<times> (errno + u8 list)" where
  "read_byte EAGAIN p =
     (case sp_bytes p of
        [] \<Rightarrow> (p, Inl EAGAIN)
      | b # bs \<Rightarrow> (p\<lparr>sp_bytes := bs, sp_room := sp_room p + 1\<rparr>, Inr [b]))"

text \<open>\<open>read_one\<close>, given the \<open>read\<close> of the descriptor.\<close>

definition bsd_read_one :: "errno \<Rightarrow> ('k \<Rightarrow> 'k \<times> (errno + u8 list)) \<Rightarrow> 'k \<Rightarrow> 'k \<times> (errno + int)" where
  "bsd_read_one EPIPE read_fd k =
     (case read_fd k of
        (k, Inl e) \<Rightarrow> (k, Inl e)
      | (k, Inr bytes) \<Rightarrow> (k, case bytes of [] \<Rightarrow> Inl EPIPE | b # _ \<Rightarrow> Inr (uint b)))"

text \<open>A \<open>signalfd\<close> is read into a \<open>signalfd_siginfo\<close>; \<open>read_fd\<close> gives the count and the number in it.\<close>

definition linux_read_one ::
  "errno \<Rightarrow> errno \<Rightarrow> nat \<Rightarrow> ('k \<Rightarrow> 'k \<times> (errno + nat \<times> u32)) \<Rightarrow> 'k \<Rightarrow> 'k \<times> (errno + int)" where
  "linux_read_one EPIPE EIO info_size read_fd k =
     (case read_fd k of
        (k, Inl e) \<Rightarrow> (k, Inl e)
      | (k, Inr (n, signo)) \<Rightarrow>
          (k, if n = 0 then Inl EPIPE else if n \<noteq> info_size then Inl EIO else Inr (sint signo)))"

section \<open>\<open>poll_recv\<close>\<close>

partial_function (option) recv_loop ::
  "('k \<Rightarrow> 'k \<times> (errno + int)) \<Rightarrow> waker \<Rightarrow> 'k \<Rightarrow> wakers \<Rightarrow> ('k \<times> wakers \<times> waker list \<times> (errno + int) poll) option" where
  "recv_loop read_one wk k w =
     (case read_one k of (k, r) \<Rightarrow>
        (case r of
           Inr signo \<Rightarrow> Some (k, mark_readable w, [], Ready (Inr signo))
         | Inl e \<Rightarrow>
             if would_block e then (case poll_readable wk w of (w, ws) \<Rightarrow> Some (k, w, ws, Pending))
             else if interrupted e then recv_loop read_one wk k w
             else Some (k, w, [], Ready (Inl e))))"

definition poll_recv ::
  "('k \<Rightarrow> 'k \<times> (errno + int)) \<Rightarrow> waker \<Rightarrow> 'k \<Rightarrow> wakers \<Rightarrow> ('k \<times> wakers \<times> waker list \<times> (errno + int) poll) option" where
  "poll_recv read_one wk k w =
     (case take_readable_or_park wk w of (w, ready) \<Rightarrow>
        if \<not> ready then Some (k, w, [], Pending) else recv_loop read_one wk k w)"

text \<open>A task that polls so many times, and what each poll gave.\<close>

fun polls ::
  "nat \<Rightarrow> ('k \<Rightarrow> 'k \<times> (errno + int)) \<Rightarrow> waker \<Rightarrow> 'k \<Rightarrow> wakers \<Rightarrow> (errno + int) poll list option" where
  "polls 0 read_one wk k w = Some []"
| "polls (Suc n) read_one wk k w =
     Option.bind (poll_recv read_one wk k w) (\<lambda>(k, w, _, r). map_option ((#) r) (polls n read_one wk k w))"

section \<open>A waiter against the kernel and the reactor\<close>

text \<open>
  One step per lock acquisition or system call, over the socket's states: \<open>so_queued\<close>
  counts the deliveries in the descriptor. A read gives one of them; as
  \<open>signalfd(2)\<close> and \<open>pipe(7)\<close> document, it fails otherwise only when it is interrupted, when
  there is none, and at the end, which \<open>read_one\<close> reports as an error.
\<close>

inductive recv_step :: "sock \<Rightarrow> sock \<Rightarrow> bool" where
  around: "env_step s t \<Longrightarrow> recv_step s t"
| poll: "so_phase s \<in> {read_phase.Idle, read_phase.Waiting} \<Longrightarrow> take_readable_or_park wk (so_wakers s) = (w, ready) \<Longrightarrow>
    recv_step s (s\<lparr>so_wakers := w, so_phase := if ready then Trying 1 else read_phase.Waiting, so_waker := wk, so_woken := so_woken s - {wk}\<rparr>)"
| got: "so_phase s = Trying n \<Longrightarrow> 0 < so_queued s \<Longrightarrow> recv_step s (s\<lparr>so_queued := so_queued s - 1, so_phase := Marking\<rparr>)"
| mark: "so_phase s = Marking \<Longrightarrow> recv_step s (s\<lparr>so_wakers := mark_readable (so_wakers s), so_phase := read_phase.Idle\<rparr>)"
| blocked: "so_phase s = Trying n \<Longrightarrow> so_queued s = 0 \<Longrightarrow> \<not> so_eof s \<Longrightarrow> recv_step s (s\<lparr>so_phase := Blocked\<rparr>)"
| park: "so_phase s = Blocked \<Longrightarrow> poll_readable (so_waker s) (so_wakers s) = (w, ws) \<Longrightarrow>
    recv_step s (s\<lparr>so_wakers := w, so_phase := read_phase.Waiting, so_woken := so_woken s \<union> set ws\<rparr>)"
| interrupted: "so_phase s = Trying n \<Longrightarrow> recv_step s s"
| fails: "so_phase s = Trying n \<Longrightarrow> so_queued s = 0 \<Longrightarrow> so_eof s \<Longrightarrow> recv_step s (s\<lparr>so_phase := read_phase.Idle\<rparr>)"
| abandon: "so_phase s = read_phase.Waiting \<Longrightarrow> recv_step s (s\<lparr>so_phase := read_phase.Idle\<rparr>)"

lemma recv_step_inv:
  assumes "read_inv s" "recv_step s t"
  shows "read_inv t"
  using assms(2)
proof cases
  case around
  then show ?thesis by (rule env_step_inv [OF assms(1)])
next
  case (poll wk w ready)
  then show ?thesis using poll_begins_inv [OF assms(1) _ poll(3), of 1] by auto
next
  case (park w ws)
  then show ?thesis using assms(1) take_readable_cases(3) [OF park(3)]
    by (cases "ready_now (so_wakers s)") (auto simp: read_inv_defs)
qed (use assms(1) in \<open>auto simp: read_inv_defs split: if_splits\<close>)

interpretation signal_reader: invariant_system read_start recv_step read_inv
  by unfold_locales (auto intro: read_inv_start recv_step_inv)

text \<open>
  A pending \<open>recv\<close> is never left beside a delivery: its waker was invoked, is about to be,
  or is parked with an edge or an event on its way.
\<close>

theorem signal_never_missed:
  assumes "reach read_start recv_step s" "so_phase s = read_phase.Waiting" "0 < so_queued s"
  shows "so_waker s \<in> so_woken s \<or> so_waker s \<in> so_pending s \<or>
    wk_reader (so_wakers s) = Some (so_waker s) \<and>
      (so_edge s \<or> (\<exists>e. so_event s = Some e \<and> (ev_readable e \<or> ev_hangup e)))"
  using signal_reader.reach_inv [OF assms(1)] assms(2,3) unfolding read_inv_defs ready_now_def by auto

section \<open>Deliveries\<close>

lemma write_signal_keeps: "sp_errno (write_signal EAGAIN fd sg p) = sp_errno p"
  by (simp add: write_signal_def Let_def)

lemma write_signal_bytes:
  assumes "1 \<le> sg" "sg < 32" "0 \<le> fd"
  shows "sp_bytes (write_signal EAGAIN fd sg p) = sp_bytes p @ (if 0 < sp_room p then [word_of_int sg] else [])"
    "sp_room (write_signal EAGAIN fd sg p) = sp_room p - 1"
  using assms by (simp_all add: write_signal_def write_byte_def Let_def)

lemma write_signals:
  assumes "1 \<le> sg" "sg < 32" "0 \<le> fd"
  shows "sp_bytes ((write_signal EAGAIN fd sg ^^ n) p) = sp_bytes p @ replicate (min n (sp_room p)) (word_of_int sg) \<and>
    sp_room ((write_signal EAGAIN fd sg ^^ n) p) = sp_room p - n \<and> sp_errno ((write_signal EAGAIN fd sg ^^ n) p) = sp_errno p"
proof (induction n)
  case (Suc n)
  have "sp_bytes ((write_signal EAGAIN fd sg ^^ Suc n) p) =
      sp_bytes p @ replicate (min n (sp_room p)) (word_of_int sg) @ (if n < sp_room p then [word_of_int sg] else [])"
    using Suc write_signal_bytes [OF assms] by simp
  also have "\<dots> = sp_bytes p @ replicate (min (Suc n) (sp_room p)) (word_of_int sg)"
    by (cases "n < sp_room p") (simp_all add: min_def replicate_append_same)
  finally show ?case using Suc write_signal_bytes [OF assms] by (simp add: write_signal_keeps)
qed simp

lemma poll_recv_one:
  assumes "sp_bytes p = word_of_int sg # bs" "0 \<le> sg" "sg < 32" "ready_now w"
  shows "\<exists>w'. ready_now w' \<and> poll_recv (bsd_read_one EPIPE (read_byte EAGAIN)) wk p w =
    Some (p\<lparr>sp_bytes := bs, sp_room := sp_room p + 1\<rparr>, w', [], Ready (Inr sg))"
proof -
  have "uint (word_of_int sg :: u8) = sg" using assms(2,3) by (simp add: uint_word_of_int)
  then show ?thesis
    using assms(1,4) unfolding poll_recv_def
    by (subst recv_loop.simps) (simp add: take_readable_or_park_def ready_now_def bsd_read_one_def read_byte_def mark_readable_def)
qed

lemma poll_recv_none:
  assumes "sp_bytes p = []" "would_block EAGAIN"
  shows "\<exists>w' ws. poll_recv (bsd_read_one EPIPE (read_byte EAGAIN)) wk p w = Some (p, w', ws, Pending)"
  using assms unfolding poll_recv_def
  by (subst recv_loop.simps) (simp add: bsd_read_one_def read_byte_def split: prod.splits)

lemma polls_replicate:
  assumes "would_block EAGAIN" "0 \<le> sg" "sg < 32" "sp_bytes p = replicate n (word_of_int sg)" "ready_now w"
  shows "polls (Suc n) (bsd_read_one EPIPE (read_byte EAGAIN)) wk p w = Some (replicate n (Ready (Inr sg)) @ [Pending])"
  using assms(4,5)
proof (induction n arbitrary: p w)
  case 0
  then show ?case using poll_recv_none [of p EAGAIN EPIPE wk w] assms(1) by auto
next
  case (Suc n)
  obtain w' where w': "ready_now w'" "poll_recv (bsd_read_one EPIPE (read_byte EAGAIN)) wk p w =
      Some (p\<lparr>sp_bytes := replicate n (word_of_int sg), sp_room := sp_room p + 1\<rparr>, w', [], Ready (Inr sg))"
    using poll_recv_one [of p sg "replicate n (word_of_int sg)" w EPIPE EAGAIN wk] Suc.prems assms(2,3) by auto
  have "polls (Suc (Suc n)) (bsd_read_one EPIPE (read_byte EAGAIN)) wk p w = map_option ((#) (Ready (Inr sg)))
      (polls (Suc n) (bsd_read_one EPIPE (read_byte EAGAIN)) wk (p\<lparr>sp_bytes := replicate n (word_of_int sg), sp_room := sp_room p + 1\<rparr>) w')"
    by (subst polls.simps(2)) (simp only: w'(2) bind.simps prod.case)
  then show ?case using Suc.IH [OF _ w'(1)] by (simp del: polls.simps)
qed

section \<open>Properties\<close>

text \<open>
  Over the BSDs' pipe a signal is received as often as it was delivered. Whatever
  number of deliveries the handler sees, it leaves the interrupted thread's \<open>errno\<close> as it
  was, and as many of them as the pipe had room for are received by as many polls, one
  each and with the number that was delivered; the poll after those waits.
\<close>

theorem delivered_signals_received:
  assumes "would_block EAGAIN" "catchable False (int sg)" "0 \<le> fd" "sp_bytes p = []"
  shows "sp_errno ((write_signal EAGAIN fd (int sg) ^^ n) p) = sp_errno p \<and>
    polls (Suc (min n (sp_room p))) (bsd_read_one EPIPE (read_byte EAGAIN)) wk ((write_signal EAGAIN fd (int sg) ^^ n) p) wakers_new =
      Some (replicate (min n (sp_room p)) (Ready (Inr (int sg))) @ [Pending])"
proof -
  have sg: "1 \<le> int sg" "int sg < 32" using assms(2) by (simp_all add: catchable_def)
  note w = write_signals [OF sg assms(3), where EAGAIN = EAGAIN and n = n and p = p]
  have "ready_now wakers_new" by (simp add: ready_now_def wakers_new_def)
  with w show ?thesis
    using polls_replicate [OF assms(1) _ sg(2)] assms(4) by simp
qed

text \<open>Five deliveries of signal 2 to a pipe with room for three.\<close>

theorem delivered_signals_received_witness:
  "sp_errno ((write_signal 35 4 (int 2) ^^ 5) \<lparr>sp_bytes = [], sp_room = 3, sp_errno = 7\<rparr>) = 7 \<and>
   polls 4 (bsd_read_one 32 (read_byte 35)) 1 ((write_signal 35 4 (int 2) ^^ 5) \<lparr>sp_bytes = [], sp_room = 3, sp_errno = 7\<rparr>) wakers_new =
     Some [Ready (Inr 2), Ready (Inr 2), Ready (Inr 2), Pending]"
  using delivered_signals_received [of 35 2 4 "\<lparr>sp_bytes = [], sp_room = 3, sp_errno = 7\<rparr>" 5 32 1]
  by (simp add: would_block_def catchable_def SIGKILL_def SIGSTOP_def eval_nat_numeral del: polls.simps funpow.simps)

end
