(* ===== verification/HostFile.thy ===== *)
theory HostFile
  imports Io "HOL-Library.Sublist"
begin

text \<open>
  \<open>HostFile\<close> of \<open>src/src/io.rs\<close> (\<open>mod host\<close>) and what it uses of \<open>std::fs\<close>.

  \<open>HostFile\<close> and the functions on paths call \<open>std::fs\<close>, so the theory models what they use
  of it: names that lead to directories or to files, files that hold bytes and outlive
  their names, handles with a cursor and an append flag, and the flags of \<open>OpenOptions\<close>.
  A path is the list of its components from the root; symbolic and hard links,
  permissions and other processes are left out, except that the platform may answer
  any call with an error of its choosing or take less than it was given: the answers
  to come are the list \<open>fs_script\<close>, and once it is used up every call is carried out in
  full. The calls that \<open>std\<close> repeats after an interruption repeat here.

  The reads and writes of a handle keep the contracts of \<open>Read\<close> and \<open>Write\<close>, so the
  provided methods are correct over them: the interpretations \<open>host_reader\<close> and
  \<open>host_writer\<close>.
\<close>

section \<open>The platform\<close>

type_synonym path = "string list"

datatype node = FileNode nat | DirNode

datatype answer = Full | Short nat | Refused std_kind

record fs =
  fs_nodes :: "(path \<times> node) list"
  fs_data :: "nat \<Rightarrow> u8 list"
  fs_fresh :: nat
  fs_dir_len :: u64
  fs_script :: "answer list"

text \<open>The kinds of \<open>std::io::Error\<close> that the conversion does not name; only their difference matters.\<close>

abbreviation "NotADirectory \<equiv> StdKind 0"
abbreviation "IsADirectory \<equiv> StdKind 1"
abbreviation "DirectoryNotEmpty \<equiv> StdKind 2"
abbreviation "AlreadyExists \<equiv> StdKind 3"
abbreviation "InvalidInput \<equiv> StdKind 4"
abbreviation "FileTooLarge \<equiv> StdKind 5"
abbreviation "BadDescriptor \<equiv> StdKind 6"
abbreviation "ResourceBusy \<equiv> StdKind 7"

text \<open>The largest offset of a file, \<open>i64::MAX\<close>.\<close>

definition MAX_OFFSET :: nat where
  "MAX_OFFSET = 2 ^ 63 - 1"

definition node_at :: "fs \<Rightarrow> path \<Rightarrow> node option" where
  "node_at fs p = map_of (fs_nodes fs) p"

definition next_answer :: "fs \<Rightarrow> fs \<times> answer" where
  "next_answer fs = (case fs_script fs of [] \<Rightarrow> (fs, Full) | a # as \<Rightarrow> (fs\<lparr>fs_script := as\<rparr>, a))"

definition retry_answer :: "fs \<Rightarrow> fs \<times> answer" where
  "retry_answer fs = next_answer (fs\<lparr>fs_script := dropWhile (\<lambda>a. a = Refused StdInterrupted) (fs_script fs)\<rparr>)"

text \<open>What the platform says of the directories a path goes through.\<close>

definition walk_path :: "fs \<Rightarrow> path \<Rightarrow> std_kind option" where
  "walk_path fs p = map_option (\<lambda>n. if node_at fs (take n p) = None then StdNotFound else NotADirectory)
     (find (\<lambda>n. node_at fs (take n p) \<noteq> Some DirNode) [0..<length p])"

definition has_child :: "fs \<Rightarrow> path \<Rightarrow> bool" where
  "has_child fs p \<longleftrightarrow> list_ex (\<lambda>(q, _). strict_prefix p q) (fs_nodes fs)"

definition set_data :: "nat \<Rightarrow> u8 list \<Rightarrow> fs \<Rightarrow> fs" where
  "set_data i d fs = fs\<lparr>fs_data := (fs_data fs)(i := d)\<rparr>"

section \<open>\<open>OpenOptions\<close> and the calls on a handle\<close>

record options =
  oo_read :: bool
  oo_write :: bool
  oo_append :: bool
  oo_truncate :: bool
  oo_create :: bool

definition options_new :: options where
  "options_new = \<lparr>oo_read = False, oo_write = False, oo_append = False, oo_truncate = False, oo_create = False\<rparr>"

record handle =
  h_inode :: nat
  h_pos :: nat
  h_read :: bool
  h_write :: bool
  h_append :: bool

definition handle_of :: "options \<Rightarrow> nat \<Rightarrow> handle" where
  "handle_of oo i = \<lparr>h_inode = i, h_pos = 0, h_read = oo_read oo, h_write = oo_write oo \<or> oo_append oo, h_append = oo_append oo\<rparr>"

definition new_file :: "path \<Rightarrow> fs \<Rightarrow> fs" where
  "new_file p fs = fs\<lparr>fs_nodes := (p, FileNode (fs_fresh fs)) # fs_nodes fs,
     fs_data := (fs_data fs)(fs_fresh fs := []), fs_fresh := fs_fresh fs + 1\<rparr>"

text \<open>
  Opening a directory for writing is refused. Opening one only to read it is not,
  but the first read is, with the same error, and nothing here does anything else
  with such a handle.
\<close>

definition open_with :: "options \<Rightarrow> fs \<Rightarrow> path \<Rightarrow> fs \<times> (std_kind + handle)" where
  "open_with oo fs p =
     (case retry_answer fs of (fs1, a) \<Rightarrow>
        (case a of Refused e \<Rightarrow> (fs1, Inl e)
         | _ \<Rightarrow> (case walk_path fs1 p of Some e \<Rightarrow> (fs1, Inl e)
           | None \<Rightarrow> (case node_at fs1 p of
                Some DirNode \<Rightarrow> (fs1, Inl IsADirectory)
              | Some (FileNode i) \<Rightarrow> (if oo_truncate oo then set_data i [] fs1 else fs1, Inr (handle_of oo i))
              | None \<Rightarrow> if oo_create oo then (new_file p fs1, Inr (handle_of oo (fs_fresh fs1)))
                        else (fs1, Inl StdNotFound)))))"

type_synonym opened = "fs \<times> handle"

definition bytes_of :: "opened \<Rightarrow> u8 list" where
  "bytes_of s = fs_data (fst s) (h_inode (snd s))"

text \<open>How much of \<open>m\<close> bytes a call moves; a read moves at least one byte where there is one.\<close>

fun granted :: "answer \<Rightarrow> nat \<Rightarrow> nat" where
  "granted (Short k) m = min k m"
| "granted _ m = m"

definition file_read :: "opened \<Rightarrow> u8 list \<Rightarrow> (opened \<times> u8 list \<times> (std_kind + nat)) option" where
  "file_read s buf =
     (case next_answer (fst s) of (fs1, a) \<Rightarrow>
        (let h = snd s in
         case a of Refused e \<Rightarrow> Some ((fs1, h), buf, Inl e)
         | _ \<Rightarrow> if \<not> h_read h then Some ((fs1, h), buf, Inl BadDescriptor)
            else (let left = drop (h_pos h) (bytes_of s); m = min (length buf) (length left);
                      n = min m (max 1 (granted a m)) in
              Some ((fs1, h\<lparr>h_pos := h_pos h + n\<rparr>), take n left @ drop n buf, Inr n))))"

text \<open>A write past the end of the file leaves zeros in between.\<close>

definition write_at :: "u8 list \<Rightarrow> nat \<Rightarrow> u8 list \<Rightarrow> u8 list" where
  "write_at d at bs = copy_from_slice (d @ replicate (at - length d) 0) at bs"

definition file_write :: "opened \<Rightarrow> u8 list \<Rightarrow> (opened \<times> (std_kind + nat)) option" where
  "file_write s buf =
     (case next_answer (fst s) of (fs1, a) \<Rightarrow>
        (let h = snd s; at = (if h_append h then length (bytes_of s) else h_pos h) in
         case a of Refused e \<Rightarrow> Some ((fs1, h), Inl e)
         | _ \<Rightarrow> if \<not> h_write h then Some ((fs1, h), Inl BadDescriptor)
            else if buf \<noteq> [] \<and> MAX_OFFSET \<le> at then Some ((fs1, h), Inl FileTooLarge)
            else (let n = granted a (min (length buf) (MAX_OFFSET - at)) in
              if n = 0 then Some ((fs1, h), Inr 0)
              else Some ((set_data (h_inode h) (write_at (bytes_of s) at (take n buf)) fs1,
                          h\<lparr>h_pos := at + n\<rparr>), Inr n))))"

text \<open>\<open>lseek\<close> takes the number as an \<open>off_t\<close>, so a start past \<open>i64::MAX\<close> is negative to it.\<close>

definition seek_target :: "opened \<Rightarrow> seek_from \<Rightarrow> int" where
  "seek_target s from = (case from of
      Start n \<Rightarrow> sint n
    | End n \<Rightarrow> int (length (bytes_of s)) + n
    | Current n \<Rightarrow> int (h_pos (snd s)) + n)"

definition file_seek :: "opened \<Rightarrow> seek_from \<Rightarrow> opened \<times> (std_kind + u64)" where
  "file_seek s from =
     (case next_answer (fst s) of (fs1, a) \<Rightarrow>
        (let t = seek_target s from in
         case a of Refused e \<Rightarrow> ((fs1, snd s), Inl e)
         | _ \<Rightarrow> if 0 \<le> t \<and> t \<le> int MAX_OFFSET then ((fs1, (snd s)\<lparr>h_pos := nat t\<rparr>), Inr (word_of_int t))
                else ((fs1, snd s), Inl InvalidInput)))"

definition file_len :: "opened \<Rightarrow> opened \<times> (std_kind + u64)" where
  "file_len s = (case next_answer (fst s) of (fs1, a) \<Rightarrow>
     ((fs1, snd s), case a of Refused e \<Rightarrow> Inl e | _ \<Rightarrow> Inr (of_nat (length (bytes_of s)))))"

definition file_set_len :: "opened \<Rightarrow> u64 \<Rightarrow> opened \<times> (std_kind + unit)" where
  "file_set_len s w =
     (if MAX_OFFSET < unat w then (s, Inl InvalidInput)
      else (case retry_answer (fst s) of (fs1, a) \<Rightarrow>
        (case a of Refused e \<Rightarrow> ((fs1, snd s), Inl e)
         | _ \<Rightarrow> if h_write (snd s)
                then ((set_data (h_inode (snd s)) (take (unat w) (bytes_of s) @ replicate (unat w - length (bytes_of s)) 0) fs1, snd s), Inr ())
                else ((fs1, snd s), Inl InvalidInput))))"

definition file_sync :: "opened \<Rightarrow> opened \<times> (std_kind + unit)" where
  "file_sync s = (case retry_answer (fst s) of (fs1, a) \<Rightarrow>
     ((fs1, snd s), case a of Refused e \<Rightarrow> Inl e | _ \<Rightarrow> Inr ()))"

section \<open>\<open>HostFile\<close>\<close>

definition host_file_read :: "opened \<Rightarrow> u8 list \<Rightarrow> (opened \<times> u8 list \<times> (io_error + nat)) option" where
  "host_file_read = host_read file_read"

definition host_file_write :: "opened \<Rightarrow> u8 list \<Rightarrow> (opened \<times> (io_error + nat)) option" where
  "host_file_write = host_write file_write"

definition host_file_flush :: "opened \<Rightarrow> opened \<times> (io_error + unit)" where
  "host_file_flush s = (s, Inr ())"

definition host_file_seek :: "opened \<Rightarrow> seek_from \<Rightarrow> opened \<times> (io_error + u64)" where
  "host_file_seek = host_seek file_seek"

definition host_file_length :: "opened \<Rightarrow> opened \<times> (io_error + u64)" where
  "host_file_length s = map_prod id map_err (file_len s)"

definition host_file_set_length :: "opened \<Rightarrow> u64 \<Rightarrow> opened \<times> (io_error + unit)" where
  "host_file_set_length s w = map_prod id map_err (file_set_len s w)"

definition host_file_sync_all :: "opened \<Rightarrow> opened \<times> (io_error + unit)" where
  "host_file_sync_all s = map_prod id map_err (file_sync s)"

definition host_file_sync_data :: "opened \<Rightarrow> opened \<times> (io_error + unit)" where
  "host_file_sync_data s = map_prod id map_err (file_sync s)"

section \<open>Answers\<close>

fun answer_of :: "answer list \<Rightarrow> answer" where
  "answer_of [] = Full"
| "answer_of (a # _) = a"

abbreviation "uninterrupted as \<equiv> dropWhile (\<lambda>a. a = Refused StdInterrupted) as"

lemma next_answer_simp [simp]: "next_answer fs = (fs\<lparr>fs_script := tl (fs_script fs)\<rparr>, answer_of (fs_script fs))"
  by (cases "fs_script fs") (simp_all add: next_answer_def)

lemma retry_answer_simp [simp]:
  "retry_answer fs = (fs\<lparr>fs_script := tl (uninterrupted (fs_script fs))\<rparr>, answer_of (uninterrupted (fs_script fs)))"
  by (simp add: retry_answer_def)

lemma script_irrelevant [simp]:
  "node_at (fs\<lparr>fs_script := as\<rparr>) = node_at fs"
  "walk_path (fs\<lparr>fs_script := as\<rparr>) = walk_path fs"
  "has_child (fs\<lparr>fs_script := as\<rparr>) = has_child fs"
  "bytes_of (fs\<lparr>fs_script := as\<rparr>, h) = bytes_of (fs, h)"
  by (auto simp: node_at_def walk_path_def has_child_def bytes_of_def fun_eq_iff)

lemma data_irrelevant [simp]:
  "node_at (set_data i d fs) = node_at fs" "walk_path (set_data i d fs) = walk_path fs"
  "fs_nodes (set_data i d fs) = fs_nodes fs" "fs_fresh (set_data i d fs) = fs_fresh fs"
  "fs_script (set_data i d fs) = fs_script fs" "fs_data (set_data i d fs) = (fs_data fs)(i := d)"
  by (auto simp: node_at_def walk_path_def set_data_def fun_eq_iff)

text \<open>A platform that refuses nothing, interruptions apart, and whose writes take something.\<close>

definition calm :: "answer list \<Rightarrow> bool" where
  "calm as \<longleftrightarrow> (\<forall>a \<in> set as. a \<noteq> Short 0 \<and> (\<forall>e. a = Refused e \<longrightarrow> e = StdInterrupted))"

lemma calm_tl [simp]: "calm as \<Longrightarrow> calm (tl as)"
  by (cases as) (auto simp: calm_def)

lemma calm_uninterrupted [simp]: "calm as \<Longrightarrow> calm (uninterrupted as)"
  by (auto simp: calm_def dest: set_dropWhileD)

lemma uninterrupted_answer [simp]: "answer_of (uninterrupted as) \<noteq> Refused StdInterrupted"
  by (induction as) auto

lemma calm_answer [simp]: "calm as \<Longrightarrow> answer_of (uninterrupted as) \<noteq> Refused e"
proof
  assume "calm as" and refused: "answer_of (uninterrupted as) = Refused e"
  then have "Refused e \<in> set (uninterrupted as)"
    by (cases "uninterrupted as") auto
  then have "Refused e \<in> set as"
    by (auto dest: set_dropWhileD)
  then show False
    using \<open>calm as\<close> refused uninterrupted_answer [of as] by (auto simp: calm_def)
qed

lemma answer_in_script: "answer_of as = a \<Longrightarrow> a \<noteq> Full \<Longrightarrow> a \<in> set as \<and> length (tl as) < length as"
  by (cases as) auto

lemma set_tl_uninterrupted: "a \<in> set (tl (uninterrupted as)) \<Longrightarrow> a \<in> set as"
  by (metis list.sel(2) list.set_sel(2) set_dropWhileD)

lemma granted_le: "granted a m \<le> m"
  by (cases a) auto

section \<open>Reading and writing through a handle\<close>

text \<open>
  What the calls of a read loop, and of a write loop, leave alone: all but the answers
  still to come and the cursor, and for a writer the bytes of its own file.
\<close>

definition reading :: "opened \<Rightarrow> opened \<Rightarrow> bool" where
  "reading s0 s \<longleftrightarrow> h_read (snd s0) \<and> fst s = (fst s0)\<lparr>fs_script := fs_script (fst s)\<rparr> \<and>
     snd s = (snd s0)\<lparr>h_pos := h_pos (snd s)\<rparr> \<and> set (fs_script (fst s)) \<subseteq> set (fs_script (fst s0))"

definition left_to_read :: "opened \<Rightarrow> u8 list" where
  "left_to_read s = drop (h_pos (snd s)) (bytes_of s)"

definition writing :: "opened \<Rightarrow> opened \<Rightarrow> bool" where
  "writing s0 s \<longleftrightarrow> h_write (snd s0) \<and> length (bytes_of s) \<le> MAX_OFFSET \<and>
     (h_append (snd s0) \<or> h_pos (snd s) \<le> length (bytes_of s) \<and> drop (h_pos (snd s)) (bytes_of s) = drop (h_pos (snd s)) (bytes_of s0)) \<and>
     fs_nodes (fst s) = fs_nodes (fst s0) \<and> fs_fresh (fst s) = fs_fresh (fst s0) \<and>
     (\<forall>j. j \<noteq> h_inode (snd s0) \<longrightarrow> fs_data (fst s) j = fs_data (fst s0) j) \<and>
     snd s = (snd s0)\<lparr>h_pos := h_pos (snd s)\<rparr> \<and> set (fs_script (fst s)) \<subseteq> set (fs_script (fst s0))"

definition written :: "opened \<Rightarrow> u8 list" where
  "written s = (if h_append (snd s) then bytes_of s else take (h_pos (snd s)) (bytes_of s))"

definition patience :: "opened \<Rightarrow> nat" where
  "patience s = length (fs_script (fst s))"

lemma script_rest: "set (tl as) \<subseteq> set as"
  by (cases as) auto

lemma reading_next:
  assumes "reading (fs0, h0) (fs, h)"
  shows "reading (fs0, h0) (fs\<lparr>fs_script := tl (fs_script fs)\<rparr>, h)"
    "reading (fs0, h0) (fs\<lparr>fs_script := tl (fs_script fs)\<rparr>, h\<lparr>h_pos := k\<rparr>)" "h_read h" "h_inode h = h_inode h0"
  using assms script_rest [of "fs_script fs"] unfolding reading_def
  by (cases fs; cases fs0; cases h; cases h0; auto)+

lemma file_read_outcome:
  assumes "reading (fs0, h0) (fs, h)"
  shows "(\<exists>e. answer_of (fs_script fs) = Refused e \<and>
      file_read (fs, h) buf = Some ((fs\<lparr>fs_script := tl (fs_script fs)\<rparr>, h), buf, Inl e)) \<or>
    (\<exists>n. file_read (fs, h) buf = Some ((fs\<lparr>fs_script := tl (fs_script fs)\<rparr>, h\<lparr>h_pos := h_pos h + n\<rparr>),
        take n (left_to_read (fs, h)) @ drop n buf, Inr n) \<and>
      n \<le> length buf \<and> n \<le> length (left_to_read (fs, h)) \<and> (n = 0 \<longrightarrow> buf = [] \<or> left_to_read (fs, h) = []))"
proof -
  let ?left = "left_to_read (fs, h)" and ?a = "answer_of (fs_script fs)"
  define n where "n = min (min (length buf) (length ?left)) (max 1 (granted ?a (min (length buf) (length ?left))))"
  have n: "n \<le> length buf" "n \<le> length ?left" "n = 0 \<longrightarrow> buf = [] \<or> ?left = []"
    unfolding n_def by (auto simp: min_def max_def split: if_splits)
  show ?thesis
  proof (cases "\<exists>e. ?a = Refused e")
    case True
    then show ?thesis by (auto simp: file_read_def)
  next
    case False
    then have "file_read (fs, h) buf = Some ((fs\<lparr>fs_script := tl (fs_script fs)\<rparr>, h\<lparr>h_pos := h_pos h + n\<rparr>),
        take n ?left @ drop n buf, Inr n)"
      using reading_next(3) [OF assms] unfolding file_read_def n_def left_to_read_def Let_def
      by (cases ?a) simp_all
    with n show ?thesis by blast
  qed
qed

lemma file_source: "byte_source (reading s0) left_to_read patience (\<lambda>e. e = StdInterrupted) file_read"
proof (unfold_locales, goal_cases)
  case (1 s buf)
  obtain fs0 h0 fs h where [simp]: "s0 = (fs0, h0)" "s = (fs, h)" by fastforce
  show ?case
    using file_read_outcome [of fs0 h0 fs h buf] reading_next [of fs0 h0 fs h] 1 by auto
next
  case (2 s buf s' part n)
  obtain fs0 h0 fs h where [simp]: "s0 = (fs0, h0)" "s = (fs, h)" by fastforce
  show ?case
    using file_read_outcome [of fs0 h0 fs h buf] 2 by (auto simp: left_to_read_def bytes_of_def add.commute)
next
  case (3 s buf s' part)
  obtain fs0 h0 fs h where [simp]: "s0 = (fs0, h0)" "s = (fs, h)" by fastforce
  show ?case
    using file_read_outcome [of fs0 h0 fs h buf] 3 by auto
next
  case (4 s buf s' part e)
  obtain fs0 h0 fs h where [simp]: "s0 = (fs0, h0)" "s = (fs, h)" by fastforce
  show ?case
    using file_read_outcome [of fs0 h0 fs h buf] 4 by (auto simp: left_to_read_def bytes_of_def)
next
  case (5 s buf s' part e)
  obtain fs0 h0 fs h where [simp]: "s0 = (fs0, h0)" "s = (fs, h)" by fastforce
  show ?case
    using file_read_outcome [of fs0 h0 fs h buf] 5 by (auto simp: patience_def dest: answer_in_script)
qed

interpretation host_reader: io_source "reading s0" left_to_read patience host_file_read for s0
  unfolding host_file_read_def by (rule host_source [OF file_source])

text \<open>The errors a reader passes on are those the platform refused a call with.\<close>

lemma host_read_fails:
  assumes "host_reader.read_fails s0 e"
  shows "\<exists>k. Refused k \<in> set (fs_script (fst s0)) \<and> k \<noteq> StdInterrupted \<and> e = from_std_error k"
proof -
  obtain s buf s' part where s: "\<not> io_interrupted e" "reading s0 s" "host_file_read s buf = Some (s', part, Inl e)"
    using assms unfolding host_reader.read_fails_def by blast
  obtain fs0 h0 fs h where [simp]: "s0 = (fs0, h0)" "s = (fs, h)" by fastforce
  obtain k where k: "answer_of (fs_script fs) = Refused k" "e = from_std_error k"
    using file_read_outcome [of fs0 h0 fs h buf] s(2,3) by (auto simp: host_file_read_def host_read_def)
  have "Refused k \<in> set (fs_script fs)"
    using answer_in_script [OF k(1)] by simp
  then show ?thesis
    using k(2) s(1,2) by (auto simp: reading_def)
qed


lemma writing_next:
  assumes "writing (fs0, h0) (fs, h)"
  shows "writing (fs0, h0) (fs\<lparr>fs_script := tl (fs_script fs)\<rparr>, h)"
    "h_append h \<or> k \<le> length d \<and> drop k d = drop k (bytes_of (fs0, h0)) \<Longrightarrow> length d \<le> MAX_OFFSET \<Longrightarrow>
     writing (fs0, h0) (set_data (h_inode h) d (fs\<lparr>fs_script := tl (fs_script fs)\<rparr>), h\<lparr>h_pos := k\<rparr>)"
    "h_write h" "h_inode h = h_inode h0" "h_append h = h_append h0"
  using assms script_rest [of "fs_script fs"] unfolding writing_def
  by (cases fs; cases fs0; cases h; cases h0; auto simp: bytes_of_def set_data_def)+

lemma length_written:
  "writing s0 s \<Longrightarrow> length (written s) = (if h_append (snd s) then length (bytes_of s) else h_pos (snd s))"
  using writing_next(5) [of "fst s0" "snd s0" "fst s" "snd s"] by (auto simp: writing_def written_def)

lemma write_at_inside: "at \<le> length d \<Longrightarrow> write_at d at bs = take at d @ bs @ drop (at + length bs) d"
  by (simp add: write_at_def copy_from_slice_def)

lemma file_write_call:
  assumes "at = (if h_append h then length (bytes_of (fs, h)) else h_pos h)"
    "n = granted (answer_of (fs_script fs)) (min (length buf) (MAX_OFFSET - at))"
    "fs1 = fs\<lparr>fs_script := tl (fs_script fs)\<rparr>"
  shows "file_write (fs, h) buf = (case answer_of (fs_script fs) of Refused e \<Rightarrow> Some ((fs1, h), Inl e)
      | _ \<Rightarrow> if \<not> h_write h then Some ((fs1, h), Inl BadDescriptor)
             else if buf \<noteq> [] \<and> MAX_OFFSET \<le> at then Some ((fs1, h), Inl FileTooLarge)
             else if n = 0 then Some ((fs1, h), Inr 0)
             else Some ((set_data (h_inode h) (write_at (bytes_of (fs, h)) at (take n buf)) fs1, h\<lparr>h_pos := at + n\<rparr>), Inr n))"
  unfolding file_write_def Let_def assms fst_conv snd_conv next_answer_simp prod.case by (rule refl)

lemma file_write_outcome:
  assumes "writing (fs0, h0) (fs, h)"
  shows "\<exists>s' r. file_write (fs, h) buf = Some (s', r) \<and> writing (fs0, h0) s' \<and> fs_script (fst s') = tl (fs_script fs) \<and>
    (case r of
       Inl e \<Rightarrow> written s' = written (fs, h) \<and>
         (answer_of (fs_script fs) = Refused e \<or> e = FileTooLarge \<and> MAX_OFFSET \<le> length (written (fs, h)))
     | Inr n \<Rightarrow> n \<le> length buf \<and> written s' = written (fs, h) @ take n buf \<and>
         (n = 0 \<longrightarrow> buf = [] \<or> answer_of (fs_script fs) = Short 0))"
    (is "\<exists>s' r. ?call = Some (s', r) \<and> ?rest s' r")
proof -
  let ?a = "answer_of (fs_script fs)" and ?fs1 = "fs\<lparr>fs_script := tl (fs_script fs)\<rparr>" and ?d = "bytes_of (fs, h)"
  define at where "at = (if h_append h then length ?d else h_pos h)"
  define n where "n = granted ?a (min (length buf) (MAX_OFFSET - at))"
  have at: "length (written (fs, h)) = at" "at \<le> length ?d" "length ?d \<le> MAX_OFFSET" "written (fs, h) = take at ?d"
    using assms length_written [OF assms] writing_next(5) [OF assms]
    by (auto simp: at_def writing_def written_def)
  have n: "n \<le> length buf" "n \<le> MAX_OFFSET - at"
    unfolding n_def using granted_le [of ?a "min (length buf) (MAX_OFFSET - at)"] by auto
  have kept: "written (?fs1, h) = written (fs, h)"
    by (simp add: written_def)
  have call: "?call = (case ?a of Refused e \<Rightarrow> Some ((?fs1, h), Inl e)
      | _ \<Rightarrow> if buf \<noteq> [] \<and> MAX_OFFSET \<le> at then Some ((?fs1, h), Inl FileTooLarge)
             else if n = 0 then Some ((?fs1, h), Inr 0)
             else Some ((set_data (h_inode h) (write_at ?d at (take n buf)) ?fs1, h\<lparr>h_pos := at + n\<rparr>), Inr n))"
    unfolding file_write_call [OF at_def n_def refl] by (simp only: writing_next(3) [OF assms] simp_thms if_False)
  consider (refused) e where "?a = Refused e"
    | (large) "\<forall>e. ?a \<noteq> Refused e" "buf \<noteq> []" "MAX_OFFSET \<le> at"
    | (none) "\<forall>e. ?a \<noteq> Refused e" "\<not> (buf \<noteq> [] \<and> MAX_OFFSET \<le> at)" "n = 0"
    | (some) "\<forall>e. ?a \<noteq> Refused e" "\<not> (buf \<noteq> [] \<and> MAX_OFFSET \<le> at)" "n \<noteq> 0"
    by blast
  then show ?thesis
  proof cases
    case refused
    then have "?call = Some ((?fs1, h), Inl e)"
      by (simp add: file_write_def)
    then show ?thesis
      using refused kept writing_next(1) [OF assms] by simp
  next
    case large
    then have "?call = Some ((?fs1, h), Inl FileTooLarge)"
      unfolding call by (cases ?a) simp_all
    then show ?thesis
      using large at kept writing_next(1) [OF assms] by simp
  next
    case none
    then have "?call = Some ((?fs1, h), Inr 0)"
      unfolding call by (cases ?a) auto
    moreover have "buf = [] \<or> ?a = Short 0"
      using none n_def by (cases ?a) (auto simp: min_def split: if_splits)
    ultimately show ?thesis
      using kept writing_next(1) [OF assms] by simp
  next
    case some
    let ?d' = "take at ?d @ take n buf @ drop (at + n) ?d"
    let ?s' = "(set_data (h_inode h) ?d' ?fs1, h\<lparr>h_pos := at + n\<rparr>)"
    have "?call = Some ((set_data (h_inode h) (write_at ?d at (take n buf)) ?fs1, h\<lparr>h_pos := at + n\<rparr>), Inr n)"
      unfolding call using some by (cases ?a) auto
    then have grown: "?call = Some (?s', Inr n)"
      using n(1) write_at_inside [OF at(2), of "take n buf"] by (simp add: min_absorb2)
    have len: "at + n \<le> length ?d'" "length ?d' \<le> MAX_OFFSET"
      using n at by auto
    have "written ?s' = take at ?d @ take n buf"
      using at n by (auto simp: written_def bytes_of_def at_def)
    moreover have "h_append h \<or> drop (at + n) ?d' = drop (at + n) (bytes_of (fs0, h0))"
    proof (cases "h_append h")
      case False
      then have "drop at ?d = drop at (bytes_of (fs0, h0))"
        using assms writing_next(5) [OF assms] by (simp add: writing_def at_def)
      then have "drop n (drop at ?d) = drop n (drop at (bytes_of (fs0, h0)))" by simp
      then show ?thesis using at(2) n(1) by (simp add: add.commute min_absorb2)
    qed simp
    ultimately show ?thesis
      using grown n some at(4) writing_next(2) [OF assms, of "at + n" ?d'] len by auto
  qed
qed

lemma file_sink: "byte_sink (writing s0) written patience (\<lambda>e. e = StdInterrupted) file_write"
proof (unfold_locales, goal_cases)
  case (1 s buf)
  obtain fs0 h0 fs h where [simp]: "s0 = (fs0, h0)" "s = (fs, h)" by fastforce
  show ?case
    using file_write_outcome [of fs0 h0 fs h buf] 1 by auto
next
  case (2 s buf s' n)
  obtain fs0 h0 fs h where [simp]: "s0 = (fs0, h0)" "s = (fs, h)" by fastforce
  show ?case
    using file_write_outcome [of fs0 h0 fs h buf] 2 by auto
next
  case (3 s buf s' e)
  obtain fs0 h0 fs h where [simp]: "s0 = (fs0, h0)" "s = (fs, h)" by fastforce
  show ?case
    using file_write_outcome [of fs0 h0 fs h buf] 3 by auto
next
  case (4 s buf s' e)
  obtain fs0 h0 fs h where [simp]: "s0 = (fs0, h0)" "s = (fs, h)" by fastforce
  show ?case
    using file_write_outcome [of fs0 h0 fs h buf] 4 answer_in_script [of "fs_script fs" "Refused e"]
    by (auto simp: patience_def)
qed

interpretation host_writer: io_sink "writing s0" written patience host_file_write for s0
  unfolding host_file_write_def by (rule host_sink [OF file_sink])

text \<open>
  A write loop that stops early was refused by the platform, or the platform took
  nothing, or the file had reached the largest offset.
\<close>

definition write_excuse :: "fs \<Rightarrow> nat \<Rightarrow> io_error \<Rightarrow> bool" where
  "write_excuse fs at e \<longleftrightarrow> (\<exists>k. Refused k \<in> set (fs_script fs) \<and> k \<noteq> StdInterrupted \<and> e = from_std_error k) \<or>
     Short 0 \<in> set (fs_script fs) \<and> e = Error WriteZero \<or> MAX_OFFSET \<le> at \<and> e = Error Other"

lemma host_write_fails:
  assumes "host_writer.write_fails s0 buf s' e"
  shows "write_excuse (fst s0) (length (written s')) e"
proof -
  obtain s where s: "\<not> io_interrupted e" "writing s0 s" "written s = written s'" "host_file_write s buf = Some (s', Inl e)"
    using assms unfolding host_writer.write_fails_def by blast
  obtain fs0 h0 fs h where eq [simp]: "s0 = (fs0, h0)" "s = (fs, h)" by fastforce
  obtain k where k: "e = from_std_error k" "answer_of (fs_script fs) = Refused k \<or> k = FileTooLarge \<and> MAX_OFFSET \<le> length (written s)"
    using file_write_outcome [of fs0 h0 fs h buf] s(2,4) by (auto simp: host_file_write_def host_write_def)
  show ?thesis
    using k s(1,2,3) answer_in_script [of "fs_script fs" "Refused k"]
    by (auto simp: write_excuse_def writing_def)
qed

lemma host_write_stalls:
  assumes "host_writer.write_stalls s0 buf s'" "buf \<noteq> []"
  shows "write_excuse (fst s0) (length (written s')) (Error WriteZero)"
proof -
  obtain s where s: "writing s0 s" "host_file_write s buf = Some (s', Inr 0)"
    using assms unfolding host_writer.write_stalls_def by blast
  obtain fs0 h0 fs h where eq [simp]: "s0 = (fs0, h0)" "s = (fs, h)" by fastforce
  have "answer_of (fs_script fs) = Short 0"
    using file_write_outcome [of fs0 h0 fs h buf] s assms(2) by (auto simp: host_file_write_def host_write_def)
  then show ?thesis
    using s(1) answer_in_script [of "fs_script fs" "Short 0"] by (auto simp: write_excuse_def writing_def)
qed

end
