(* ===== verification/HostFs.thy ===== *)
theory HostFs
  imports HostFile
begin

text \<open>
  The functions on paths of \<open>src/src/io.rs\<close> (\<open>mod host\<close>): \<open>open\<close>, \<open>create\<close>, \<open>open_or_create\<close>,
  \<open>append\<close>, \<open>read\<close>, \<open>write\<close>, \<open>metadata\<close>, \<open>remove_file\<close>, \<open>remove_dir_all\<close>, \<open>rename\<close> and
  \<open>create_dir_all\<close>, over the filesystem of \<open>HostFile\<close>. The abstract view is the tree the
  names make; each function refines an operation on it, every sequence of calls keeps
  the filesystem in order, and what is written is read back.
\<close>

section \<open>The functions on paths\<close>

definition io_open :: "fs \<Rightarrow> path \<Rightarrow> fs \<times> (io_error + handle)" where
  "io_open fs p = map_prod id map_err
     (open_with (options_new\<lparr>oo_read := True, oo_write := True\<rparr>) fs p)"

definition io_create :: "fs \<Rightarrow> path \<Rightarrow> fs \<times> (io_error + handle)" where
  "io_create fs p = map_prod id map_err
     (open_with (options_new\<lparr>oo_read := True, oo_write := True, oo_create := True, oo_truncate := True\<rparr>) fs p)"

definition io_open_or_create :: "fs \<Rightarrow> path \<Rightarrow> fs \<times> (io_error + handle)" where
  "io_open_or_create fs p = map_prod id map_err
     (open_with (options_new\<lparr>oo_read := True, oo_write := True, oo_create := True, oo_truncate := False\<rparr>) fs p)"

definition io_append :: "fs \<Rightarrow> path \<Rightarrow> fs \<times> (io_error + handle)" where
  "io_append fs p = map_prod id map_err
     (open_with (options_new\<lparr>oo_append := True, oo_create := True\<rparr>) fs p)"

text \<open>
  \<open>std::fs::read\<close> opens the file and reads it to its end, \<open>std::fs::write\<close> creates or
  truncates it and writes all; their loops treat interruptions, the end and a write
  that takes nothing as those of \<open>Read\<close> and \<open>Write\<close> do, so converting the error before
  the loop or after it is the same.
\<close>

definition io_read :: "fs \<Rightarrow> path \<Rightarrow> (fs \<times> (io_error + u8 list)) option" where
  "io_read fs p = (case open_with (options_new\<lparr>oo_read := True\<rparr>) fs p of
      (fs1, Inl e) \<Rightarrow> Some (fs1, Inl (from_std_error e))
    | (fs1, Inr h) \<Rightarrow> map_option (\<lambda>(s, v, r). (fst s, case r of Inl e \<Rightarrow> Inl e | Inr _ \<Rightarrow> Inr v))
        (read_to_end host_file_read (fs1, h) []))"

definition io_write :: "fs \<Rightarrow> path \<Rightarrow> u8 list \<Rightarrow> (fs \<times> (io_error + unit)) option" where
  "io_write fs p contents =
     (case open_with (options_new\<lparr>oo_write := True, oo_create := True, oo_truncate := True\<rparr>) fs p of
      (fs1, Inl e) \<Rightarrow> Some (fs1, Inl (from_std_error e))
    | (fs1, Inr h) \<Rightarrow> map_option (\<lambda>(s, r). (fst s, r)) (write_all host_file_write (fs1, h) contents))"

definition io_metadata :: "fs \<Rightarrow> path \<Rightarrow> fs \<times> (io_error + u64)" where
  "io_metadata fs p =
     (case next_answer fs of (fs1, a) \<Rightarrow>
        (case a of Refused e \<Rightarrow> (fs1, Inl (from_std_error e))
         | _ \<Rightarrow> (case walk_path fs1 p of Some e \<Rightarrow> (fs1, Inl (from_std_error e))
           | None \<Rightarrow> (fs1, case node_at fs1 p of
                None \<Rightarrow> Inl (from_std_error StdNotFound)
              | Some DirNode \<Rightarrow> Inr (fs_dir_len fs1)
              | Some (FileNode i) \<Rightarrow> Inr (of_nat (length (fs_data fs1 i)))))))"

definition unname :: "path \<Rightarrow> fs \<Rightarrow> fs" where
  "unname p fs = fs\<lparr>fs_nodes := filter (\<lambda>(q, _). q \<noteq> p) (fs_nodes fs)\<rparr>"

definition io_remove_file :: "fs \<Rightarrow> path \<Rightarrow> fs \<times> (io_error + unit)" where
  "io_remove_file fs p =
     (case next_answer fs of (fs1, a) \<Rightarrow>
        (case a of Refused e \<Rightarrow> (fs1, Inl (from_std_error e))
         | _ \<Rightarrow> (case walk_path fs1 p of Some e \<Rightarrow> (fs1, Inl (from_std_error e))
           | None \<Rightarrow> (case node_at fs1 p of
                None \<Rightarrow> (fs1, Inl (from_std_error StdNotFound))
              | Some DirNode \<Rightarrow> (fs1, Inl (from_std_error IsADirectory))
              | Some (FileNode _) \<Rightarrow> (unname p fs1, Inr ())))))"

text \<open>
  Removing a tree removes its entries one by one, a directory after what it holds.
  The order among them is the platform's, so it is an argument.
\<close>

definition remove_entry :: "fs \<Rightarrow> path \<Rightarrow> fs \<times> (std_kind + unit)" where
  "remove_entry fs p =
     (case next_answer fs of (fs1, a) \<Rightarrow>
        (case a of Refused e \<Rightarrow> (fs1, Inl e)
         | _ \<Rightarrow> if p = [] then (fs1, Inl ResourceBusy)
                else if node_at fs1 p = None then (fs1, Inl StdNotFound)
                else if has_child fs1 p then (fs1, Inl DirectoryNotEmpty)
                else (unname p fs1, Inr ())))"

fun remove_entries :: "fs \<Rightarrow> path list \<Rightarrow> fs \<times> (std_kind + unit)" where
  "remove_entries fs [] = (fs, Inr ())"
| "remove_entries fs (q # qs) = (case remove_entry fs q of
      (fs1, Inl e) \<Rightarrow> (fs1, Inl e)
    | (fs1, Inr _) \<Rightarrow> remove_entries fs1 qs)"

definition io_remove_dir_all :: "path list \<Rightarrow> fs \<Rightarrow> path \<Rightarrow> fs \<times> (io_error + unit)" where
  "io_remove_dir_all order fs p =
     (case next_answer fs of (fs1, a) \<Rightarrow>
        (case a of Refused e \<Rightarrow> (fs1, Inl (from_std_error e))
         | _ \<Rightarrow> (case walk_path fs1 p of Some e \<Rightarrow> (fs1, Inl (from_std_error e))
           | None \<Rightarrow> (case node_at fs1 p of
                None \<Rightarrow> (fs1, Inl (from_std_error StdNotFound))
              | Some (FileNode _) \<Rightarrow> (fs1, Inl (from_std_error NotADirectory))
              | Some DirNode \<Rightarrow> map_prod id map_err (remove_entries fs1 order)))))"

definition rename_error :: "fs \<Rightarrow> path \<Rightarrow> path \<Rightarrow> std_kind option" where
  "rename_error fs from to =
     (case (walk_path fs from, walk_path fs to, node_at fs from) of
        (Some e, _, _) \<Rightarrow> Some e
      | (None, Some e, _) \<Rightarrow> Some e
      | (None, None, None) \<Rightarrow> Some StdNotFound
      | (None, None, Some n) \<Rightarrow>
         if from = [] \<or> to = [] then Some ResourceBusy
         else if strict_prefix from to then Some InvalidInput
         else (case (n, node_at fs to) of
             (FileNode _, Some DirNode) \<Rightarrow> Some IsADirectory
           | (DirNode, Some (FileNode _)) \<Rightarrow> Some NotADirectory
           | (DirNode, Some DirNode) \<Rightarrow> if from \<noteq> to \<and> has_child fs to then Some DirectoryNotEmpty else None
           | _ \<Rightarrow> None))"

definition moved :: "path \<Rightarrow> path \<Rightarrow> path \<Rightarrow> path" where
  "moved from to q = (if prefix from q then to @ drop (length from) q else q)"

definition io_rename :: "fs \<Rightarrow> path \<Rightarrow> path \<Rightarrow> fs \<times> (io_error + unit)" where
  "io_rename fs from to =
     (case next_answer fs of (fs1, a) \<Rightarrow>
        (case a of Refused e \<Rightarrow> (fs1, Inl (from_std_error e))
         | _ \<Rightarrow> (case rename_error fs1 from to of
             Some e \<Rightarrow> (fs1, Inl (from_std_error e))
           | None \<Rightarrow> (if from = to then fs1
                      else fs1\<lparr>fs_nodes := map (\<lambda>(q, n). (moved from to q, n)) (filter (\<lambda>(q, _). q \<noteq> to) (fs_nodes fs1))\<rparr>,
                      Inr ()))))"

definition mkdir :: "fs \<Rightarrow> path \<Rightarrow> fs \<times> (std_kind + unit)" where
  "mkdir fs p =
     (case next_answer fs of (fs1, a) \<Rightarrow>
        (case a of Refused e \<Rightarrow> (fs1, Inl e)
         | _ \<Rightarrow> (case walk_path fs1 p of Some e \<Rightarrow> (fs1, Inl e)
           | None \<Rightarrow> if node_at fs1 p = None then (fs1\<lparr>fs_nodes := (p, DirNode) # fs_nodes fs1\<rparr>, Inr ())
                      else (fs1, Inl AlreadyExists))))"

definition is_dir :: "fs \<Rightarrow> path \<Rightarrow> fs \<times> bool" where
  "is_dir fs p = (case next_answer fs of (fs1, a) \<Rightarrow>
     (fs1, (case a of Refused _ \<Rightarrow> False | _ \<Rightarrow> walk_path fs1 p = None \<and> node_at fs1 p = Some DirNode)))"

definition excuse :: "fs \<Rightarrow> path \<Rightarrow> std_kind \<Rightarrow> fs \<times> (std_kind + unit)" where
  "excuse fs p e = (case is_dir fs p of (fs1, d) \<Rightarrow> (fs1, if d then Inr () else Inl e))"

function create_tree :: "fs \<Rightarrow> path \<Rightarrow> fs \<times> (std_kind + unit)" where
  "create_tree fs p =
     (case mkdir fs p of
        (fs1, Inr _) \<Rightarrow> (fs1, Inr ())
      | (fs1, Inl e) \<Rightarrow>
          if e \<noteq> StdNotFound then excuse fs1 p e
          else if p = [] then (fs1, Inl StdOther)
          else (case create_tree fs1 (butlast p) of
              (fs2, Inl e') \<Rightarrow> (fs2, Inl e')
            | (fs2, Inr _) \<Rightarrow> (case mkdir fs2 p of
                  (fs3, Inr _) \<Rightarrow> (fs3, Inr ())
                | (fs3, Inl e') \<Rightarrow> excuse fs3 p e')))"
  by pat_completeness auto
termination by (relation "measure (\<lambda>(_, p). length p)") auto

definition io_create_dir_all :: "fs \<Rightarrow> path \<Rightarrow> fs \<times> (io_error + unit)" where
  "io_create_dir_all fs p = map_prod id map_err (create_tree fs p)"

lemma rename_error_script [simp]: "rename_error (fs\<lparr>fs_script := as\<rparr>) = rename_error fs"
  by (intro ext) (simp only: rename_error_def script_irrelevant)

section \<open>The tree the names make\<close>

text \<open>
  The abstract view: what each path leads to, a directory or the bytes of a file.
\<close>

datatype tree_entry = Directory | Regular "u8 list"

fun entry_of :: "fs \<Rightarrow> node \<Rightarrow> tree_entry" where
  "entry_of fs DirNode = Directory"
| "entry_of fs (FileNode i) = Regular (fs_data fs i)"

definition tree :: "fs \<Rightarrow> path \<Rightarrow> tree_entry option" where
  "tree fs p = map_option (entry_of fs) (node_at fs p)"

text \<open>
  A filesystem in order: the root is a directory and everything else is in one; each
  file has one name and no file is longer than an offset reaches.
\<close>

definition fs_ok :: "fs \<Rightarrow> bool" where
  "fs_ok fs \<longleftrightarrow> node_at fs [] = Some DirNode \<and>
     (\<forall>p n. node_at fs p = Some n \<and> p \<noteq> [] \<longrightarrow> node_at fs (butlast p) = Some DirNode) \<and>
     (\<forall>p i. node_at fs p = Some (FileNode i) \<longrightarrow> i < fs_fresh fs) \<and>
     (\<forall>p q i. node_at fs p = Some (FileNode i) \<and> node_at fs q = Some (FileNode i) \<longrightarrow> p = q) \<and>
     (\<forall>i. length (fs_data fs i) \<le> MAX_OFFSET)"

lemma fs_okD:
  assumes "fs_ok fs"
  shows "node_at fs [] = Some DirNode"
    "node_at fs p = Some n \<Longrightarrow> p \<noteq> [] \<Longrightarrow> node_at fs (butlast p) = Some DirNode"
    "node_at fs p = Some (FileNode i) \<Longrightarrow> i < fs_fresh fs"
    "node_at fs p = Some (FileNode i) \<Longrightarrow> node_at fs q = Some (FileNode i) \<Longrightarrow> p = q"
    "length (fs_data fs i) \<le> MAX_OFFSET"
  using assms unfolding fs_ok_def by blast+

lemma entry_of_simps [simp]: "entry_of fs n = Directory \<longleftrightarrow> n = DirNode"
  by (cases n) simp_all

lemma entry_of_cong: "fs_data fs' = fs_data fs \<Longrightarrow> entry_of fs' = entry_of fs"
  by (rule ext, case_tac x) simp_all

lemma tree_simps [simp]:
  "tree fs p = None \<longleftrightarrow> node_at fs p = None"
  "tree fs p = Some Directory \<longleftrightarrow> node_at fs p = Some DirNode"
  "tree (fs\<lparr>fs_script := as\<rparr>) = tree fs"
  using entry_of_cong [of "fs\<lparr>fs_script := as\<rparr>" fs] by (auto simp: tree_def)

lemma tree_regular: "tree fs p = Some (Regular d) \<longleftrightarrow> (\<exists>i. node_at fs p = Some (FileNode i) \<and> d = fs_data fs i)"
proof -
  have "entry_of fs n = Regular d \<longleftrightarrow> (\<exists>i. n = FileNode i \<and> d = fs_data fs i)" for n
    by (cases n) auto
  then show ?thesis by (auto simp: tree_def)
qed

lemma fs_ok_script [simp]: "fs_ok (fs\<lparr>fs_script := as\<rparr>) = fs_ok fs"
  by (simp add: fs_ok_def)

lemma node_above:
  assumes "fs_ok fs" "node_at fs p = Some n" "strict_prefix q p"
  shows "node_at fs q = Some DirNode"
  using assms(2,3)
proof (induction p arbitrary: n rule: rev_induct)
  case (snoc x p)
  then have "node_at fs p = Some DirNode"
    using fs_okD(2) [OF assms(1), of "p @ [x]"] by simp
  then show ?case
    using snoc by (cases "q = p") (auto simp: strict_prefix_def)
qed simp

lemma walk_None_iff: "fs_ok fs \<Longrightarrow> walk_path fs p = None \<longleftrightarrow> p = [] \<or> node_at fs (butlast p) = Some DirNode"
proof -
  assume ok: "fs_ok fs"
  have "walk_path fs p = None \<longleftrightarrow> (\<forall>k < length p. node_at fs (take k p) = Some DirNode)"
    by (auto simp: walk_path_def find_None_iff)
  also have "\<dots> \<longleftrightarrow> p = [] \<or> node_at fs (butlast p) = Some DirNode"
  proof
    assume "\<forall>k < length p. node_at fs (take k p) = Some DirNode"
    then show "p = [] \<or> node_at fs (butlast p) = Some DirNode"
      by (cases p rule: rev_cases) auto
  next
    assume top: "p = [] \<or> node_at fs (butlast p) = Some DirNode"
    show "\<forall>k < length p. node_at fs (take k p) = Some DirNode"
    proof (intro allI impI)
      fix k assume k: "k < length p"
      then have "prefix (take k p) (butlast p)"
        using take_is_prefix [of k "take (length p - 1) p"] by (simp add: butlast_conv_take min_absorb1)
      then show "node_at fs (take k p) = Some DirNode"
        using node_above [OF ok, of "butlast p" DirNode "take k p"] top k
        by (cases "take k p = butlast p") (auto simp: strict_prefix_def)
    qed
  qed
  finally show ?thesis .
qed

lemma walk_present: "fs_ok fs \<Longrightarrow> node_at fs p = Some n \<Longrightarrow> walk_path fs p = None"
  using walk_None_iff fs_okD(2) by blast

text \<open>Changing the bytes of a named file changes what its name leads to and nothing else.\<close>

lemma tree_set_data:
  assumes "fs_ok fs" "node_at fs p = Some (FileNode i)"
  shows "tree (set_data i d fs) = (tree fs)(p \<mapsto> Regular d)"
proof
  fix q
  have "entry_of (set_data i d fs) n = (if n = FileNode i then Regular d else entry_of fs n)" for n
    by (cases n) auto
  then show "tree (set_data i d fs) q = ((tree fs)(p \<mapsto> Regular d)) q"
    using assms(2) fs_okD(4) [OF assms, of q] by (cases "node_at fs q") (auto simp: tree_def)
qed

lemma fs_ok_set_data: "fs_ok fs \<Longrightarrow> length d \<le> MAX_OFFSET \<Longrightarrow> fs_ok (set_data i d fs)"
  unfolding fs_ok_def by simp

lemma parents_extended:
  assumes "fs_ok fs" "node_at fs p = None" "walk_path fs p = None" "q \<noteq> []" "((node_at fs)(p \<mapsto> n)) q \<noteq> None"
  shows "((node_at fs)(p \<mapsto> n)) (butlast q) = Some DirNode"
proof -
  have "node_at fs (butlast q) = Some DirNode"
    using assms fs_okD(2) [OF assms(1), of q] walk_None_iff [OF assms(1), of p]
    by (cases "q = p") auto
  then show ?thesis using assms(2) by auto
qed

lemma new_file_effect:
  assumes "fs_ok fs" "node_at fs p = None" "walk_path fs p = None"
  shows "fs_ok (new_file p fs)" "tree (new_file p fs) = (tree fs)(p \<mapsto> Regular [])"
    "node_at (new_file p fs) p = Some (FileNode (fs_fresh fs))"
proof -
  note ok = fs_okD [OF assms(1)]
  have nodes: "node_at (new_file p fs) = (node_at fs)(p \<mapsto> FileNode (fs_fresh fs))"
    by (simp add: node_at_def new_file_def fun_eq_iff)
  have "p \<noteq> []" using ok(1) assms(2) by auto
  have fresh: "node_at fs q \<noteq> Some (FileNode (fs_fresh fs))" for q
    using ok(3) [of q "fs_fresh fs"] by auto
  have small: "node_at fs q = Some (FileNode i) \<Longrightarrow> i < Suc (fs_fresh fs)" for q i
    using ok(3) [of q i] by simp
  show "fs_ok (new_file p fs)"
    unfolding fs_ok_def nodes
    using ok(1,4,5) parents_extended [OF assms] fresh small \<open>p \<noteq> []\<close>
    by (intro conjI) (simp_all add: new_file_def, fastforce+)
  have "entry_of (new_file p fs) n = (if n = FileNode (fs_fresh fs) then Regular [] else entry_of fs n)" for n
    by (cases n) (auto simp: new_file_def)
  then have "tree (new_file p fs) q = ((tree fs)(p \<mapsto> Regular [])) q" for q
    using fresh [of q] by (cases "node_at fs q") (simp_all del: entry_of.simps add: tree_def nodes)
  then show "tree (new_file p fs) = (tree fs)(p \<mapsto> Regular [])" ..
  show "node_at (new_file p fs) p = Some (FileNode (fs_fresh fs))"
    by (simp add: nodes)
qed


section \<open>Opening\<close>

text \<open>
  What \<open>open\<close> with given options does: it fails and changes nothing, or it returns a
  handle on the file the path then leads to, emptied if truncation was asked for and
  created if it was absent and creation was asked for.
\<close>

lemma open_with_outcome:
  assumes "fs_ok fs" "open_with oo fs p = (fs', r)"
  shows "fs_ok fs' \<and> set (fs_script fs') \<subseteq> set (fs_script fs) \<and>
    (case r of
       Inl e \<Rightarrow> tree fs' = tree fs \<and> e \<noteq> StdInterrupted \<and>
         (Refused e \<in> set (fs_script fs) \<or> walk_path fs p = Some e \<or> e = IsADirectory \<and> tree fs p = Some Directory \<or>
          e = StdNotFound \<and> tree fs p = None \<and> \<not> oo_create oo)
     | Inr h \<Rightarrow> node_at fs' p = Some (FileNode (h_inode h)) \<and> h = handle_of oo (h_inode h) \<and>
         tree fs p \<noteq> Some Directory \<and> (tree fs p = None \<longrightarrow> oo_create oo) \<and>
         tree fs' = (tree fs)(p \<mapsto> (if oo_truncate oo then Regular [] else case tree fs p of Some f \<Rightarrow> f | None \<Rightarrow> Regular [])))"
proof -
  let ?as = "uninterrupted (fs_script fs)"
  let ?fs1 = "fs\<lparr>fs_script := tl ?as\<rparr>"
  have script: "set (tl ?as) \<subseteq> set (fs_script fs)"
    using set_tl_uninterrupted by blast
  have handle: "h_inode (handle_of oo i) = i" for i by (simp add: handle_of_def)
  have not_interrupted: "e \<noteq> StdInterrupted" if "walk_path fs p = Some e" for e
    using that by (auto simp: walk_path_def split: if_splits)
  consider (refused) e where "answer_of ?as = Refused e"
    | (walk_path) e where "\<forall>e. answer_of ?as \<noteq> Refused e" "walk_path fs p = Some e"
    | (node) "\<forall>e. answer_of ?as \<noteq> Refused e" "walk_path fs p = None"
    by (cases "walk_path fs p") auto
  then show ?thesis
  proof cases
    case refused
    then have "fs' = ?fs1" "r = Inl e"
      using assms(2) by (simp_all add: open_with_def)
    moreover have "Refused e \<in> set (fs_script fs)"
      using answer_in_script [OF refused] set_dropWhileD [of "Refused e" _ "fs_script fs"] by auto
    moreover have "e \<noteq> StdInterrupted"
      using refused uninterrupted_answer [of "fs_script fs"] by auto
    ultimately show ?thesis
      using script assms(1) by simp
  next
    case walk_path
    then have "fs' = ?fs1" "r = Inl e"
      using assms(2) by (cases "answer_of ?as"; simp add: open_with_def)+
    then show ?thesis
      using script assms(1) walk_path not_interrupted by simp
  next
    case node
    then have opened: "(fs', r) = (case node_at fs p of
          Some DirNode \<Rightarrow> (?fs1, Inl IsADirectory)
        | Some (FileNode i) \<Rightarrow> (if oo_truncate oo then set_data i [] ?fs1 else ?fs1, Inr (handle_of oo i))
        | None \<Rightarrow> if oo_create oo then (new_file p ?fs1, Inr (handle_of oo (fs_fresh fs))) else (?fs1, Inl StdNotFound))"
      using assms(2) unfolding open_with_def by (cases "answer_of ?as") (auto split: option.splits node.splits if_splits)
    show ?thesis
    proof (cases "node_at fs p")
      case None
      have "fs_ok ?fs1" "node_at ?fs1 p = None" "walk_path ?fs1 p = None"
        using None node assms(1) by simp_all
      note new = new_file_effect [OF this]
      have "(case tree fs p of None \<Rightarrow> Regular [] | Some f \<Rightarrow> f) = Regular []"
        using None by (simp add: tree_def)
      then show ?thesis
        using opened None script assms(1) new handle by (auto simp: new_file_def split: if_splits)
    next
      case (Some n)
      show ?thesis
      proof (cases n)
        case DirNode
        then show ?thesis
          using opened Some script assms(1) by simp
      next
        case (FileNode i)
        have "tree fs p = Some (Regular (fs_data fs i))" "(tree fs)(p \<mapsto> Regular (fs_data fs i)) = tree fs"
          using Some FileNode by (auto simp: tree_def)
        moreover have "tree (set_data i [] ?fs1) = (tree fs)(p \<mapsto> Regular [])" "fs_ok (set_data i [] ?fs1)"
          using tree_set_data [of ?fs1 p i "[]"] fs_ok_set_data [of ?fs1 "[]" i] Some FileNode assms(1) by simp_all
        ultimately show ?thesis
          using opened Some FileNode script assms(1) handle by (auto split: if_splits)
      qed
    qed
  qed
qed


section \<open>Removing\<close>

lemma has_child_iff: "has_child fs p \<longleftrightarrow> (\<exists>q. strict_prefix p q \<and> node_at fs q \<noteq> None)"
  by (force simp: has_child_def node_at_def list_ex_iff map_of_eq_None_iff)

lemma only_directories_have_children: "fs_ok fs \<Longrightarrow> has_child fs p \<Longrightarrow> node_at fs p = Some DirNode"
  using node_above by (auto simp: has_child_iff)

lemma map_of_without: "map_of (filter (\<lambda>(q, _). q \<noteq> p) xs) = (map_of xs)(p := None)"
  by (induction xs) (auto simp: fun_eq_iff)

lemma node_at_unname [simp]: "node_at (unname p fs) = (node_at fs)(p := None)"
  by (rule ext) (simp add: node_at_def unname_def map_of_without)

lemma unname_fields [simp]:
  "fs_data (unname p fs) = fs_data fs" "fs_fresh (unname p fs) = fs_fresh fs" "fs_script (unname p fs) = fs_script fs"
  by (simp_all add: unname_def)

lemma unname_effect:
  assumes "fs_ok fs" "p \<noteq> []" "\<not> has_child fs p"
  shows "fs_ok (unname p fs)" "tree (unname p fs) = (tree fs)(p := None)"
proof -
  note ok = fs_okD [OF assms(1)]
  have "node_at fs q = None" if "butlast q = p" "q \<noteq> []" for q
  proof -
    from that have "strict_prefix p q"
      by (metis append_butlast_last_id prefixI strict_prefixI not_Cons_self2 append_self_conv)
    then show ?thesis using assms(3) by (auto simp: has_child_iff)
  qed
  then have up: "((node_at fs)(p := None)) (butlast q) = Some DirNode" if "((node_at fs)(p := None)) q = Some n \<and> q \<noteq> []" for q n
    using that ok(2) [of q n] by (cases "q = p"; cases "butlast q = p") simp_all
  show "fs_ok (unname p fs)"
  proof (unfold fs_ok_def node_at_unname unname_fields, intro conjI allI impI)
    show "((node_at fs)(p := None)) [] = Some DirNode"
      using ok(1) assms(2) by simp
    show "i < fs_fresh fs" if "((node_at fs)(p := None)) q = Some (FileNode i)" for q i
      using that ok(3) [of q i] by (cases "q = p") auto
    show "q = q'" if "((node_at fs)(p := None)) q = Some (FileNode i) \<and> ((node_at fs)(p := None)) q' = Some (FileNode i)" for q q' i
      using that ok(4) [of q i q'] by (cases "q = p"; cases "q' = p") auto
  qed (rule up ok(5), assumption?)+
  show "tree (unname p fs) = (tree fs)(p := None)"
    using entry_of_cong [of "unname p fs" fs] by (intro ext) (simp add: tree_def)
qed

lemma io_remove_file_outcome:
  assumes "fs_ok fs" "io_remove_file fs p = (fs', r)"
  shows "fs_ok fs' \<and> fs_data fs' = fs_data fs \<and>
    (case r of Inl _ \<Rightarrow> tree fs' = tree fs
     | Inr _ \<Rightarrow> (\<exists>d. tree fs p = Some (Regular d)) \<and> tree fs' = (tree fs)(p := None))"
proof -
  let ?fs1 = "fs\<lparr>fs_script := tl (fs_script fs)\<rparr>"
  have "(fs' = ?fs1 \<and> (\<exists>e. r = Inl e)) \<or> (\<exists>i. node_at fs p = Some (FileNode i) \<and> fs' = unname p ?fs1 \<and> r = Inr ())"
    using assms(2) unfolding io_remove_file_def
    by (auto split: answer.splits option.splits node.splits)
  then show ?thesis
  proof
    assume "fs' = ?fs1 \<and> (\<exists>e. r = Inl e)"
    then show ?thesis using assms(1) by auto
  next
    assume "\<exists>i. node_at fs p = Some (FileNode i) \<and> fs' = unname p ?fs1 \<and> r = Inr ()"
    then obtain i where i: "node_at fs p = Some (FileNode i)" "fs' = unname p ?fs1" "r = Inr ()" by blast
    have "p \<noteq> []" "\<not> has_child ?fs1 p"
      using i(1) fs_okD(1) [OF assms(1)] only_directories_have_children [OF assms(1), of p] by auto
    then show ?thesis
      using unname_effect [of ?fs1 p] assms(1) i by (auto simp: tree_regular)
  qed
qed

text \<open>Removing entries removes a first part of them, all of them if it succeeds.\<close>

lemma remove_entry_outcome:
  assumes "fs_ok fs" "remove_entry fs p = (fs', r)"
  shows "fs_ok fs' \<and> fs_script fs' = tl (fs_script fs) \<and> fs_data fs' = fs_data fs \<and>
    (case r of Inl _ \<Rightarrow> tree fs' = tree fs | Inr _ \<Rightarrow> tree fs' = (tree fs)(p := None))"
proof -
  let ?fs1 = "fs\<lparr>fs_script := tl (fs_script fs)\<rparr>"
  have "(fs' = ?fs1 \<and> (\<exists>e. r = Inl e)) \<or> (p \<noteq> [] \<and> \<not> has_child ?fs1 p \<and> fs' = unname p ?fs1 \<and> r = Inr ())"
    using assms(2) unfolding remove_entry_def by (auto split: answer.splits if_splits)
  then show ?thesis
    using unname_effect [of ?fs1 p] assms(1) by auto
qed

lemma remove_entries_outcome:
  assumes "fs_ok fs" "remove_entries fs qs = (fs', r)"
  shows "fs_ok fs' \<and> fs_data fs' = fs_data fs \<and> (\<exists>k. tree fs' = tree fs |` (- set (take k qs)) \<and> (r = Inr () \<longrightarrow> k = length qs))"
  using assms
proof (induction qs arbitrary: fs)
  case Nil
  then show ?case by simp
next
  case (Cons q qs)
  obtain fs1 r1 where one: "remove_entry fs q = (fs1, r1)" by fastforce
  note first = remove_entry_outcome [OF Cons.prems(1) one]
  show ?case
  proof (cases r1)
    case (Inl e)
    then have "tree fs' = tree fs |` (- set (take 0 (q # qs)))" "fs_ok fs'" "fs_data fs' = fs_data fs" "r \<noteq> Inr ()"
      using Cons.prems(2) one first by auto
    then show ?thesis by blast
  next
    case (Inr u)
    then obtain k where k: "fs_ok fs'" "tree fs' = tree fs1 |` (- set (take k qs))" "r = Inr () \<longrightarrow> k = length qs" "fs_data fs' = fs_data fs1"
      using Cons.IH [of fs1] Cons.prems(2) one first by auto
    have "tree fs' = tree fs |` (- set (take (Suc k) (q # qs)))"
      using k(2) first Inr by (auto simp: restrict_map_def fun_eq_iff)
    then show ?thesis using k first by (intro conjI exI [of _ "Suc k"]) auto
  qed
qed


text \<open>
  An order a platform may remove a tree in: every entry of it once, what a directory
  holds before the directory.
\<close>

definition removal_order :: "fs \<Rightarrow> path \<Rightarrow> path list \<Rightarrow> bool" where
  "removal_order fs p qs \<longleftrightarrow> set qs = {q. prefix p q \<and> node_at fs q \<noteq> None} \<and> distinct qs \<and>
     sorted_wrt (\<lambda>a b. \<not> strict_prefix a b) qs"

definition quiet :: "answer list \<Rightarrow> bool" where
  "quiet as \<longleftrightarrow> (\<forall>k. Refused k \<notin> set as)"

lemma quiet_tl [simp]: "quiet as \<Longrightarrow> quiet (tl as)"
  using script_rest [of as] by (auto simp: quiet_def)

lemma quiet_answer [simp]: "quiet as \<Longrightarrow> answer_of as \<noteq> Refused k"
  by (cases as) (auto simp: quiet_def)

lemma remove_entries_succeeds:
  assumes "fs_ok fs" "quiet (fs_script fs)" "p \<noteq> []" "removal_order fs p qs"
  shows "snd (remove_entries fs qs) = Inr ()"
  using assms(1,2,4)
proof (induction qs arbitrary: fs)
  case (Cons q qs)
  let ?fs1 = "fs\<lparr>fs_script := tl (fs_script fs)\<rparr>"
  have q: "prefix p q" "node_at fs q \<noteq> None"
    using Cons.prems(3) by (auto simp: removal_order_def)
  have "\<not> has_child fs q"
  proof
    assume "has_child fs q"
    then obtain b where b: "strict_prefix q b" "node_at fs b \<noteq> None" by (auto simp: has_child_iff)
    then have "b \<in> set (q # qs)"
      using Cons.prems(3) q(1) prefix_order.order_trans [of p q b] unfolding removal_order_def strict_prefix_def by blast
    then show False
      using b(1) Cons.prems(3) by (auto simp: removal_order_def)
  qed
  moreover have "q \<noteq> []" using q(1) assms(3) by auto
  ultimately have step: "remove_entry fs q = (unname q ?fs1, Inr ())"
    using q(2) Cons.prems(2) by (cases "answer_of (fs_script fs)") (auto simp: remove_entry_def)
  moreover have "fs_ok (unname q ?fs1)"
    using unname_effect(1) [of ?fs1 q] Cons.prems(1) \<open>q \<noteq> []\<close> \<open>\<not> has_child fs q\<close> by simp
  moreover have "removal_order (unname q ?fs1) p qs"
    using Cons.prems(3) by (auto simp: removal_order_def)
  ultimately show ?case
    using Cons.IH [of "unname q ?fs1"] Cons.prems(2) by simp
qed simp

lemma io_remove_dir_all_outcome:
  assumes "fs_ok fs" "removal_order fs p qs" "io_remove_dir_all qs fs p = (fs', r)"
  shows "fs_ok fs' \<and> fs_data fs' = fs_data fs \<and> (\<forall>q. tree fs' q = tree fs q \<or> prefix p q \<and> tree fs' q = None) \<and>
    (r = Inr () \<longrightarrow> tree fs p = Some Directory \<and> tree fs' = tree fs |` {q. \<not> prefix p q}) \<and>
    (tree fs p = Some Directory \<and> p \<noteq> [] \<and> quiet (fs_script fs) \<longrightarrow> r = Inr ())"
proof -
  let ?fs1 = "fs\<lparr>fs_script := tl (fs_script fs)\<rparr>"
  have under: "set qs = {q. prefix p q \<and> node_at fs q \<noteq> None}"
    using assms(2) by (simp add: removal_order_def)
  show ?thesis
  proof (cases "(\<forall>e. answer_of (fs_script fs) \<noteq> Refused e) \<and> node_at fs p = Some DirNode")
    case False
    then have "fs' = ?fs1" "\<exists>e. r = Inl e"
      using assms(3) walk_present [OF assms(1), of p] unfolding io_remove_dir_all_def
      by (auto split: answer.splits option.splits node.splits)
    then show ?thesis
      using False assms(1) by (auto dest: quiet_answer)
  next
    case True
    then have "map_prod id map_err (remove_entries ?fs1 qs) = (fs', r)"
      using assms(3) walk_present [OF assms(1), of p] unfolding io_remove_dir_all_def
      by (auto split: answer.splits)
    then obtain r' where r': "remove_entries ?fs1 qs = (fs', r')" "r = map_err r'"
      by (cases "remove_entries ?fs1 qs") auto
    obtain k where k: "fs_ok fs'" "tree fs' = tree fs |` (- set (take k qs))" "r' = Inr () \<longrightarrow> k = length qs" "fs_data fs' = fs_data fs"
      using remove_entries_outcome [OF _ r'(1)] assms(1) by auto
    have part: "tree fs' q = tree fs q \<or> prefix p q \<and> tree fs' q = None" for q
      using k(2) under set_take_subset [of k qs] by (auto simp: restrict_map_def)
    have whole: "tree fs' = tree fs |` {q. \<not> prefix p q}" if "r' = Inr ()"
      using that k(2,3) under by (auto simp: restrict_map_def fun_eq_iff)
    have "removal_order ?fs1 p qs" using assms(2) by (simp add: removal_order_def)
    then have "r' = Inr ()" if "p \<noteq> []" "quiet (fs_script fs)"
      using remove_entries_succeeds [of ?fs1 p qs] that assms(1) r'(1) by simp
    then show ?thesis
      using k(1,4) part whole r'(2) True by (auto simp: map_err_def split: sum.splits)
  qed
qed


section \<open>Renaming\<close>

lemma map_of_renamed:
  assumes "\<forall>r \<in> fst ` set xs. f r = f q \<longrightarrow> r = q"
  shows "map_of (map (\<lambda>(q, n). (f q, n)) xs) (f q) = map_of xs q"
  using assms by (induction xs) auto

lemma map_of_renamed_None:
  assumes "k \<notin> f ` fst ` set xs"
  shows "map_of (map (\<lambda>(q, n). (f q, n)) xs) k = None"
  using assms by (induction xs) auto

lemma rename_error_None:
  assumes "fs_ok fs" "rename_error fs from to = None"
  shows "node_at fs from \<noteq> None" "walk_path fs to = None" "from \<noteq> []" "to \<noteq> []" "\<not> strict_prefix from to"
    "from \<noteq> to \<Longrightarrow> \<not> has_child fs to"
    "(node_at fs from = Some DirNode) = (node_at fs to = Some DirNode) \<or> node_at fs to = None"
proof -
  obtain n where n: "walk_path fs from = None" "walk_path fs to = None" "node_at fs from = Some n"
    using assms(2) unfolding rename_error_def by (auto split: option.splits)
  then show "node_at fs from \<noteq> None" "walk_path fs to = None" by simp_all
  have rest: "\<not> (from = [] \<or> to = [])" "\<not> strict_prefix from to"
    using assms(2) n unfolding rename_error_def by (auto split: if_splits)
  then show "from \<noteq> []" "to \<noteq> []" "\<not> strict_prefix from to" by auto
  have final: "(case (n, node_at fs to) of
             (FileNode _, Some DirNode) \<Rightarrow> Some IsADirectory
           | (DirNode, Some (FileNode _)) \<Rightarrow> Some NotADirectory
           | (DirNode, Some DirNode) \<Rightarrow> if from \<noteq> to \<and> has_child fs to then Some DirectoryNotEmpty else None
           | _ \<Rightarrow> None) = (None :: std_kind option)"
    using assms(2) n rest unfolding rename_error_def by simp
  show "(node_at fs from = Some DirNode) = (node_at fs to = Some DirNode) \<or> node_at fs to = None"
    using final n(3) by (auto split: node.splits option.splits)
  show "\<not> has_child fs to" if "from \<noteq> to"
    using final that only_directories_have_children [OF assms(1), of to] by (auto split: node.splits)
qed

text \<open>What a path leads to after a rename: what the old path led to, seen from the new one.\<close>

definition carried :: "path \<Rightarrow> path \<Rightarrow> (path \<Rightarrow> 'a option) \<Rightarrow> path \<Rightarrow> 'a option" where
  "carried from to t q = (if prefix to q then t (from @ drop (length to) q) else if prefix from q then None else t q)"

lemma rename_nodes:
  assumes "\<not> strict_prefix from to" "from \<noteq> to" "\<not> has_child fs to"
  shows "node_at (fs\<lparr>fs_nodes := map (\<lambda>(q, n). (moved from to q, n)) (filter (\<lambda>(q, _). q \<noteq> to) (fs_nodes fs))\<rparr>) =
    carried from to (node_at fs)"
proof
  fix k
  let ?xs = "filter (\<lambda>(q, _). q \<noteq> to) (fs_nodes fs)"
  have apart: "\<not> prefix from to" using assms(1,2) by (auto simp: strict_prefix_def)
  have kept: "map_of ?xs q = ((node_at fs)(to := None)) q" for q
    by (simp add: node_at_def map_of_without)
  have childless: "r \<noteq> to \<and> \<not> strict_prefix to r" if "r \<in> fst ` set ?xs" for r
  proof -
    have "node_at fs r \<noteq> None"
      using that unfolding node_at_def map_of_eq_None_iff by auto
    then show ?thesis using that assms(3) by (auto simp: has_child_iff)
  qed
  have outside: "\<not> prefix to r" if "r \<in> fst ` set ?xs" for r
    using childless [OF that] by (auto simp: strict_prefix_def)
  show "node_at (fs\<lparr>fs_nodes := map (\<lambda>(q, n). (moved from to q, n)) ?xs\<rparr>) k = carried from to (node_at fs) k"
  proof (cases "prefix to k")
    case True
    define q where "q = from @ drop (length to) k"
    have k: "moved from to q = k" "q \<noteq> to"
      using True apart by (auto simp: moved_def q_def prefix_def)
    have "r = q" if "r \<in> fst ` set ?xs" "moved from to r = moved from to q" for r
      using that(2) outside [OF that(1)] True k(1) by (auto simp: moved_def q_def prefix_def split: if_splits)
    then have "map_of (map (\<lambda>(q, n). (moved from to q, n)) ?xs) (moved from to q) = map_of ?xs q"
      by (intro map_of_renamed) blast
    then show ?thesis
      using True k kept [of q] by (simp add: node_at_def carried_def q_def)
  next
    case away: False
    show ?thesis
    proof (cases "prefix from k")
      case True
      have "moved from to r \<noteq> k" for r
        using True away by (auto simp: moved_def)
      then show ?thesis
        using True away map_of_renamed_None [of k "moved from to" ?xs] by (auto simp: node_at_def carried_def)
    next
      case False
      have k: "moved from to k = k" "k \<noteq> to" using False away by (auto simp: moved_def)
      have "r = k" if "moved from to r = moved from to k" for r
        using that k False away by (auto simp: moved_def split: if_splits)
      then have "map_of (map (\<lambda>(q, n). (moved from to q, n)) ?xs) (moved from to k) = map_of ?xs k"
        by (intro map_of_renamed) blast
      then show ?thesis
        using False away k kept [of k] by (simp add: node_at_def carried_def)
    qed
  qed
qed


lemma carried_parents:
  assumes "fs_ok fs" "\<not> strict_prefix from to" "walk_path fs to = None" "from \<noteq> []" "to \<noteq> []"
    "node_at fs from \<noteq> None" "carried from to (node_at fs) q = Some n" "q \<noteq> []" "from \<noteq> to"
  shows "carried from to (node_at fs) (butlast q) = Some DirNode"
proof -
  note ok = fs_okD [OF assms(1)]
  have apart: "\<not> prefix from to" using assms(2,9) by (auto simp: strict_prefix_def)
  consider (root) "q = to" | (under) "strict_prefix to q" | (out) "\<not> prefix to q" by (auto simp: strict_prefix_def)
  then show ?thesis
  proof cases
    case root
    have up: "node_at fs (butlast to) = Some DirNode"
      using assms(1,3,5) walk_None_iff by blast
    moreover have "\<not> prefix to (butlast to)"
      using assms(5) by (metis append_butlast_last_id prefix_length_le length_append_singleton Suc_n_not_le_n)
    moreover have "\<not> prefix from (butlast to)"
      using apart by (metis append_butlast_last_id assms(5) prefix_snoc)
    ultimately show ?thesis using root by (simp add: carried_def)
  next
    case under
    then obtain x xs where q: "q = to @ x # xs"
      by (metis prefix_def strict_prefix_def append_Nil2 neq_Nil_conv)
    have "node_at fs (butlast (from @ x # xs)) = Some DirNode"
      using assms(7) q by (intro ok(2) [of _ n]) (simp_all add: carried_def)
    then show ?thesis by (simp add: carried_def q butlast_append)
  next
    case out
    then have q: "\<not> prefix from q" "node_at fs q = Some n"
      using assms(7) by (auto simp: carried_def split: if_splits)
    have "node_at fs (butlast q) = Some DirNode"
      using ok(2) q(2) assms(8) by blast
    moreover have "\<not> prefix to (butlast q)" "\<not> prefix from (butlast q)"
      using out q(1) assms(8) by (metis append_butlast_last_id prefix_snoc)+
    ultimately show ?thesis by (simp add: carried_def)
  qed
qed

lemma carried_inj:
  assumes "fs_ok fs" "carried from to (node_at fs) p = Some (FileNode i)" "carried from to (node_at fs) q = Some (FileNode i)"
  shows "p = q"
proof -
  have source: "\<exists>p'. node_at fs p' = Some (FileNode i) \<and>
      (prefix to p \<and> p' = from @ drop (length to) p \<and> p = to @ drop (length to) p \<or> \<not> prefix to p \<and> \<not> prefix from p \<and> p' = p)"
    if "carried from to (node_at fs) p = Some (FileNode i)" for p
    using that by (auto simp: carried_def prefix_def split: if_splits)
  obtain p' q' where "node_at fs p' = Some (FileNode i)" "node_at fs q' = Some (FileNode i)"
    and h: "prefix to p \<and> p' = from @ drop (length to) p \<and> p = to @ drop (length to) p \<or> \<not> prefix to p \<and> \<not> prefix from p \<and> p' = p"
      "prefix to q \<and> q' = from @ drop (length to) q \<and> q = to @ drop (length to) q \<or> \<not> prefix to q \<and> \<not> prefix from q \<and> q' = q"
    using source [OF assms(2)] source [OF assms(3)] by blast
  then have "p' = q'" using fs_okD(4) [OF assms(1)] by blast
  with h show ?thesis by (metis prefixI same_append_eq)
qed

lemma io_rename_outcome:
  assumes "fs_ok fs" "io_rename fs from to = (fs', r)"
  shows "fs_ok fs' \<and> fs_data fs' = fs_data fs \<and>
    (case r of Inl _ \<Rightarrow> tree fs' = tree fs
     | Inr _ \<Rightarrow> tree fs from \<noteq> None \<and> tree fs' = (if from = to then tree fs else carried from to (tree fs)))"
proof -
  let ?fs1 = "fs\<lparr>fs_script := tl (fs_script fs)\<rparr>"
  let ?moved = "?fs1\<lparr>fs_nodes := map (\<lambda>(q, n). (moved from to q, n)) (filter (\<lambda>(q, _). q \<noteq> to) (fs_nodes fs))\<rparr>"
  have cases: "(fs' = ?fs1 \<and> (\<exists>e. r = Inl e)) \<or>
      rename_error fs from to = None \<and> fs' = (if from = to then ?fs1 else ?moved) \<and> r = Inr ()"
    using assms(2) unfolding io_rename_def by (auto split: answer.splits option.splits)
  show ?thesis
  proof (cases "rename_error fs from to = None \<and> fs' = ?moved \<and> from \<noteq> to \<and> r = Inr ()")
    case False
    then show ?thesis
      using cases assms(1) rename_error_None(1) [OF assms(1), of "from" "to"] by (auto split: if_splits)
  next
    case True
    then have none: "rename_error fs from to = None" by simp
    note facts = rename_error_None [OF assms(1) none]
    have nodes: "node_at fs' = carried from to (node_at fs)"
      using True rename_nodes [of "from" "to" ?fs1] facts(5,6) by simp
    have data: "fs_data fs' = fs_data fs" using True by simp
    have "tree fs' = carried from to (tree fs)"
      using entry_of_cong [of fs' fs] data unfolding tree_def nodes carried_def by (intro ext) simp
    moreover have "fs_ok fs'"
    proof (unfold fs_ok_def nodes, intro conjI allI impI)
      show "carried from to (node_at fs) [] = Some DirNode"
        using facts(3,4) fs_okD(1) [OF assms(1)] by (simp add: carried_def)
      show "carried from to (node_at fs) (butlast q) = Some DirNode"
        if "carried from to (node_at fs) q = Some n \<and> q \<noteq> []" for q n
        using carried_parents [OF assms(1) facts(5) facts(2,3,4,1)] that True by blast
      show "i < fs_fresh fs'" if "carried from to (node_at fs) q = Some (FileNode i)" for q i
        using that True fs_okD(3) [OF assms(1)] by (auto simp: carried_def split: if_splits)
      show "q = q'" if "carried from to (node_at fs) q = Some (FileNode i) \<and> carried from to (node_at fs) q' = Some (FileNode i)" for q q' i
        using that carried_inj [OF assms(1)] by blast
      show "length (fs_data fs' i) \<le> MAX_OFFSET" for i
        using True fs_okD(5) [OF assms(1)] by simp
    qed
    ultimately show ?thesis
      using True facts(1) by simp
  qed
qed


section \<open>Creating directories\<close>

lemma mkdir_outcome:
  assumes "fs_ok fs" "mkdir fs p = (fs', r)"
  shows "fs_ok fs' \<and> fs_data fs' = fs_data fs \<and> fs_script fs' = tl (fs_script fs) \<and>
    (case r of Inl _ \<Rightarrow> tree fs' = tree fs | Inr _ \<Rightarrow> tree fs p = None \<and> tree fs' = (tree fs)(p \<mapsto> Directory))"
proof -
  let ?fs1 = "fs\<lparr>fs_script := tl (fs_script fs)\<rparr>"
  let ?made = "?fs1\<lparr>fs_nodes := (p, DirNode) # fs_nodes fs\<rparr>"
  have "(fs' = ?fs1 \<and> (\<exists>e. r = Inl e)) \<or> (walk_path fs p = None \<and> node_at fs p = None \<and> fs' = ?made \<and> r = Inr ())"
    using assms(2) unfolding mkdir_def by (auto split: answer.splits option.splits if_splits)
  then show ?thesis
  proof (elim disjE conjE)
    assume new: "walk_path fs p = None" "node_at fs p = None" "fs' = ?made" "r = Inr ()"
    note ok = fs_okD [OF assms(1)]
    have nodes: "node_at fs' = (node_at fs)(p \<mapsto> DirNode)"
      using new(3) by (simp add: node_at_def fun_eq_iff)
    have "fs_ok fs'"
    proof (unfold fs_ok_def nodes, intro conjI allI impI)
      show "((node_at fs)(p \<mapsto> DirNode)) (butlast q) = Some DirNode"
        if "((node_at fs)(p \<mapsto> DirNode)) q = Some n \<and> q \<noteq> []" for q n
        using that by (intro parents_extended [OF assms(1) new(2,1)]) auto
      show "q = q'" if "((node_at fs)(p \<mapsto> DirNode)) q = Some (FileNode i) \<and> ((node_at fs)(p \<mapsto> DirNode)) q' = Some (FileNode i)" for q q' i
        using that ok(4) [of q i q'] by (auto split: if_splits)
    qed (use ok(1,3,5) new(3) in \<open>auto split: if_splits\<close>)
    moreover have "tree fs' = (tree fs)(p \<mapsto> Directory)"
      using entry_of_cong [of fs' fs] unfolding tree_def nodes by (intro ext) (simp add: new(3))
    ultimately show ?thesis using new by simp
  qed (use assms(1) in auto)
qed

lemma excuse_outcome:
  assumes "fs_ok fs" "excuse fs p e = (fs', r)"
  shows "fs_ok fs' \<and> fs_data fs' = fs_data fs \<and> fs_script fs' = tl (fs_script fs) \<and> tree fs' = tree fs \<and>
    (r = Inr () \<longrightarrow> tree fs p = Some Directory) \<and> (r \<noteq> Inr () \<longrightarrow> r = Inl e)"
  using assms by (auto simp: excuse_def is_dir_def split: answer.splits if_splits)

text \<open>A tree of directories grows along the path and nowhere else.\<close>

definition grown :: "path \<Rightarrow> fs \<Rightarrow> fs \<Rightarrow> bool" where
  "grown p fs fs' \<longleftrightarrow> fs_ok fs' \<and> fs_data fs' = fs_data fs \<and> set (fs_script fs') \<subseteq> set (fs_script fs) \<and>
     (\<forall>q. tree fs' q = tree fs q \<or> prefix q p \<and> tree fs q = None \<and> tree fs' q = Some Directory)"

lemma grown_trans: "grown p fs fs1 \<Longrightarrow> grown p fs1 fs2 \<Longrightarrow> grown p fs fs2"
  unfolding grown_def by (metis subset_trans)

lemma grown_mono: "grown q fs fs' \<Longrightarrow> prefix q p \<Longrightarrow> grown p fs fs'"
  unfolding grown_def by (meson prefix_order.order_trans)

lemma grown_mkdir: "fs_ok fs \<Longrightarrow> mkdir fs p = (fs', r) \<Longrightarrow> grown p fs fs' \<and> (r = Inr () \<longrightarrow> tree fs' p = Some Directory)"
  using mkdir_outcome [of fs p fs' r] script_rest [of "fs_script fs"]
  by (auto simp: grown_def simp del: tree_simps(1,2) split: sum.splits)

lemma grown_excuse: "fs_ok fs \<Longrightarrow> excuse fs p e = (fs', r) \<Longrightarrow> grown p fs fs' \<and> (r = Inr () \<longrightarrow> tree fs' p = Some Directory)"
  using excuse_outcome [of fs p e fs' r] script_rest [of "fs_script fs"]
  by (auto simp: grown_def simp del: tree_simps(1,2))


lemma create_tree_outcome:
  assumes "fs_ok fs" "create_tree fs p = (fs', r)"
  shows "grown p fs fs' \<and> (r = Inr () \<longrightarrow> tree fs' p = Some Directory)"
  using assms
proof (induction fs p arbitrary: fs' r rule: create_tree.induct)
  case (1 fs p)
  obtain fs1 r1 where m: "mkdir fs p = (fs1, r1)" by fastforce
  note made = grown_mkdir [OF 1(2) m]
  have ok1: "fs_ok fs1" using made by (simp add: grown_def)
  show ?case
  proof (cases "r1 = Inl StdNotFound \<and> p \<noteq> []")
    case False
    then consider "(fs', r) = (fs1, Inr ())" "r1 = Inr ()" | "(fs', r) = (fs1, Inl StdOther)"
      | e where "excuse fs1 p e = (fs', r)"
      using 1(3) m by (cases r1) (auto split: if_splits)
    then show ?thesis
      using made grown_excuse [OF ok1] grown_trans [of p fs fs1 fs'] by cases auto
  next
    case True
    obtain fs2 r2 where up: "create_tree fs1 (butlast p) = (fs2, r2)" by fastforce
    have "grown (butlast p) fs1 fs2"
      using 1(1) [OF m [symmetric] _ _ _ ok1 up] True by simp
    then have two: "grown p fs fs2"
      using made grown_trans grown_mono prefixeq_butlast by blast
    then have ok2: "fs_ok fs2" by (simp add: grown_def)
    obtain fs3 r3 where m3: "mkdir fs2 p = (fs3, r3)" by fastforce
    note three = grown_mkdir [OF ok2 m3]
    have ok3: "fs_ok fs3" using three by (simp add: grown_def)
    consider "(fs', r) = (fs2, r2)" "r \<noteq> Inr ()" | "(fs', r) = (fs3, Inr ())" "r3 = Inr ()" | e where "excuse fs3 p e = (fs', r)"
      using 1(3) m m3 up True by (cases r2; cases r3) auto
    then show ?thesis
      using two three grown_excuse [OF ok3] grown_trans [of p fs fs2 fs3] grown_trans [of p fs fs3 fs'] by cases auto
  qed
qed

text \<open>Where no file is in the way and nothing is refused, the whole path is made.\<close>

lemma mkdir_quiet:
  assumes "quiet (fs_script fs)"
  shows "mkdir fs p = (let fs1 = fs\<lparr>fs_script := tl (fs_script fs)\<rparr> in case walk_path fs p of Some e \<Rightarrow> (fs1, Inl e)
    | None \<Rightarrow> if node_at fs p = None then (fs1\<lparr>fs_nodes := (p, DirNode) # fs_nodes fs\<rparr>, Inr ()) else (fs1, Inl AlreadyExists))"
  using quiet_answer [OF assms] unfolding mkdir_def Let_def
  by (cases "answer_of (fs_script fs)") (auto split: option.splits)

lemma excuse_quiet:
  assumes "fs_ok fs" "quiet (fs_script fs)" "node_at fs p = Some DirNode"
  shows "snd (excuse fs p e) = Inr ()"
  using quiet_answer [OF assms(2)] assms(3) walk_present [OF assms(1,3)]
  by (cases "answer_of (fs_script fs)") (auto simp: excuse_def is_dir_def)

lemma mkdir_succeeds:
  assumes "fs_ok fs" "quiet (fs_script fs)" "walk_path fs p = None" "tree fs p = None \<or> tree fs p = Some Directory"
  shows "(\<exists>fs'. mkdir fs p = (fs', Inr ())) \<or> (\<exists>fs'. mkdir fs p = (fs', Inl AlreadyExists) \<and> snd (excuse fs' p e) = Inr ())"
  using mkdir_quiet [OF assms(2), of p] assms excuse_quiet [of "fs\<lparr>fs_script := tl (fs_script fs)\<rparr>" p e] by auto

lemma walk_not_found:
  assumes "\<forall>q d. prefix q p \<longrightarrow> tree fs q \<noteq> Some (Regular d)" "walk_path fs p = Some e"
  shows "e = StdNotFound"
proof -
  obtain n where n: "node_at fs (take n p) \<noteq> Some DirNode" "e = (if node_at fs (take n p) = None then StdNotFound else NotADirectory)"
    using assms(2) unfolding walk_path_def by (auto simp: find_Some_iff)
  have "node_at fs (take n p) \<noteq> Some (FileNode i)" for i
    using assms(1) take_is_prefix [of n p] by (auto simp: tree_regular)
  then have "node_at fs (take n p) = None"
    using n(1) by (metis node.exhaust not_Some_eq)
  then show ?thesis using n(2) by simp
qed

lemma create_tree_succeeds:
  assumes "fs_ok fs" "quiet (fs_script fs)" "\<forall>q d. prefix q p \<longrightarrow> tree fs q \<noteq> Some (Regular d)"
  shows "snd (create_tree fs p) = Inr ()"
  using assms
proof (induction p arbitrary: fs rule: rev_induct)
  case Nil
  have "walk_path fs [] = None" "tree fs [] = Some Directory"
    using fs_okD(1) [OF Nil(1)] walk_present [OF Nil(1)] by simp_all
  then show ?case
    using mkdir_succeeds [OF Nil(1,2), of "[]" AlreadyExists] by (subst create_tree.simps) auto
next
  case (snoc x p)
  have plain: "fs_ok fs' \<Longrightarrow> \<forall>q d. prefix q (p @ [x]) \<longrightarrow> tree fs' q \<noteq> Some (Regular d) \<Longrightarrow>
      tree fs' (p @ [x]) = None \<or> tree fs' (p @ [x]) = Some Directory" for fs'
    by (metis tree_entry.exhaust not_Some_eq prefix_order.refl)
  show ?case
  proof (cases "walk_path fs (p @ [x])")
    case None
    then show ?thesis
      using mkdir_succeeds [OF snoc.prems(1,2) None plain, of AlreadyExists] snoc.prems(1,3) by (subst create_tree.simps) auto
  next
    case (Some e)
    let ?fs1 = "fs\<lparr>fs_script := tl (fs_script fs)\<rparr>"
    have m: "mkdir fs (p @ [x]) = (?fs1, Inl StdNotFound)"
      using mkdir_quiet [OF snoc.prems(2), of "p @ [x]"] Some walk_not_found [OF snoc.prems(3) Some] by simp
    have ok1: "fs_ok ?fs1" using snoc.prems(1) by simp
    obtain fs2 r2 where up: "create_tree ?fs1 p = (fs2, r2)" by fastforce
    have "snd (create_tree ?fs1 p) = Inr ()"
      using snoc.prems by (intro snoc.IH) auto
    then have r2: "r2 = Inr ()" using up by simp
    have two: "grown p ?fs1 fs2" "tree fs2 p = Some Directory"
      using create_tree_outcome [OF ok1 up] r2 by simp_all
    have ok2: "fs_ok fs2" "quiet (fs_script fs2)"
      using two(1) snoc.prems(2) quiet_tl [of "fs_script fs"] by (auto simp: grown_def quiet_def)
    have "walk_path fs2 (p @ [x]) = None"
      using two(2) walk_None_iff [OF ok2(1)] by simp
    moreover have "\<forall>q d. prefix q (p @ [x]) \<longrightarrow> tree fs2 q \<noteq> Some (Regular d)"
      using two(1) snoc.prems(3) unfolding grown_def by (metis tree_entry.distinct(1) option.inject tree_simps(3))
    ultimately show ?thesis
      using mkdir_succeeds [OF ok2 _ plain [OF ok2(1)], of AlreadyExists] m up r2 by (subst create_tree.simps) auto
  qed
qed

lemma io_create_dir_all_outcome:
  assumes "fs_ok fs" "io_create_dir_all fs p = (fs', r)"
  shows "grown p fs fs' \<and>
    (r = Inr () \<longrightarrow> tree fs' = (\<lambda>q. if prefix q p then Some Directory else tree fs q)) \<and>
    (quiet (fs_script fs) \<and> (\<forall>q d. prefix q p \<longrightarrow> tree fs q \<noteq> Some (Regular d)) \<longrightarrow> r = Inr ())"
proof -
  obtain r' where c: "create_tree fs p = (fs', r')" "r = map_err r'"
    using assms(2) unfolding io_create_dir_all_def by (cases "create_tree fs p") auto
  note outcome = create_tree_outcome [OF assms(1) c(1)]
  have "tree fs' = (\<lambda>q. if prefix q p then Some Directory else tree fs q)" if "r' = Inr ()"
  proof
    fix q
    have "node_at fs' q = Some DirNode" if "prefix q p"
      using that outcome \<open>r' = Inr ()\<close> node_above [of fs' p DirNode q] by (cases "q = p") (auto simp: grown_def strict_prefix_def)
    then show "tree fs' q = (if prefix q p then Some Directory else tree fs q)"
      using outcome by (auto simp: grown_def tree_def)
  qed
  moreover have "r' = Inr ()" if "quiet (fs_script fs)" "\<forall>q d. prefix q p \<longrightarrow> tree fs q \<noteq> Some (Regular d)"
    using create_tree_succeeds [OF assms(1) that] c(1) by simp
  ultimately show ?thesis
    using outcome c(2) by (auto simp: map_err_def split: sum.splits)
qed


section \<open>Whole files\<close>

lemma writing_start:
  "fs_ok fs \<Longrightarrow> h_write h \<Longrightarrow> h_append h \<or> h_pos h \<le> length (bytes_of (fs, h)) \<Longrightarrow> writing (fs, h) (fs, h)"
  using fs_okD(5) [of fs "h_inode h"] by (simp add: writing_def bytes_of_def)

text \<open>What a writer's file holds shows in the tree under its name only.\<close>

lemma writing_tree:
  assumes "fs_ok fs0" "writing (fs0, h0) s" "node_at fs0 p = Some (FileNode (h_inode h0))"
  shows "fs_ok (fst s)" "tree (fst s) = (tree fs0)(p \<mapsto> Regular (bytes_of s))"
    "set (fs_script (fst s)) \<subseteq> set (fs_script fs0)"
proof -
  obtain fs h where s [simp]: "s = (fs, h)" by fastforce
  have w: "fs_nodes fs = fs_nodes fs0" "fs_fresh fs = fs_fresh fs0" "length (bytes_of s) \<le> MAX_OFFSET"
    "set (fs_script fs) \<subseteq> set (fs_script fs0)" "\<forall>j. j \<noteq> h_inode h0 \<longrightarrow> fs_data fs j = fs_data fs0 j"
    using assms(2) by (simp_all add: writing_def)
  have data: "fs_data fs = (fs_data fs0)(h_inode h0 := bytes_of s)"
    using assms(2) w(5) writing_next(4) [of fs0 h0 fs h] by (intro ext) (simp add: bytes_of_def)
  have nodes: "node_at fs = node_at (set_data (h_inode h0) (bytes_of s) fs0)"
    using w(1) by (simp add: node_at_def fun_eq_iff)
  have "entry_of fs = entry_of (set_data (h_inode h0) (bytes_of s) fs0)"
    using data by (intro entry_of_cong) simp
  then have "tree fs = tree (set_data (h_inode h0) (bytes_of s) fs0)"
    using nodes unfolding tree_def by (intro ext) (simp del: data_irrelevant)
  then show "tree (fst s) = (tree fs0)(p \<mapsto> Regular (bytes_of s))"
    using tree_set_data [OF assms(1,3)] by simp
  have "fs_ok (set_data (h_inode h0) (bytes_of s) fs0)"
    by (rule fs_ok_set_data [OF assms(1) w(3)])
  then show "fs_ok (fst s)"
    unfolding fs_ok_def by (simp add: nodes w(2) data)
  show "set (fs_script (fst s)) \<subseteq> set (fs_script fs0)" using w(4) by simp
qed

lemma handle_ofD:
  "h = handle_of oo i \<Longrightarrow> h_pos h = 0 \<and> h_read h = oo_read oo \<and> h_write h = (oo_write oo \<or> oo_append oo) \<and> h_append h = oo_append oo"
  by (simp add: handle_of_def)

definition open_excuse :: "fs \<Rightarrow> path \<Rightarrow> bool \<Rightarrow> io_error \<Rightarrow> bool" where
  "open_excuse fs p create e \<longleftrightarrow> (\<exists>k. e = from_std_error k \<and> k \<noteq> StdInterrupted \<and>
     (Refused k \<in> set (fs_script fs) \<or> walk_path fs p = Some k \<or> k = IsADirectory \<and> tree fs p = Some Directory \<or>
      k = StdNotFound \<and> tree fs p = None \<and> \<not> create))"

lemma io_write_outcome:
  assumes "fs_ok fs"
  shows "\<exists>fs' r. io_write fs p d = Some (fs', r) \<and> fs_ok fs' \<and> set (fs_script fs') \<subseteq> set (fs_script fs) \<and>
    (case r of
       Inr _ \<Rightarrow> tree fs' = (tree fs)(p \<mapsto> Regular d) \<and> tree fs p \<noteq> Some Directory
     | Inl e \<Rightarrow> tree fs' = tree fs \<and> open_excuse fs p True e \<or>
         (\<exists>k < length d. tree fs' = (tree fs)(p \<mapsto> Regular (take k d)) \<and> write_excuse fs k e))"
proof -
  let ?oo = "options_new\<lparr>oo_write := True, oo_create := True, oo_truncate := True\<rparr>"
  obtain fs1 r1 where opened: "open_with ?oo fs p = (fs1, r1)" by fastforce
  note outcome = open_with_outcome [OF assms opened]
  show ?thesis
  proof (cases r1)
    case (Inl e)
    then show ?thesis
      using outcome opened by (auto simp: io_write_def open_excuse_def)
  next
    case (Inr h)
    have node: "node_at fs1 p = Some (FileNode (h_inode h))" and h: "h_write h" "\<not> h_append h" "h_pos h = 0"
      and t: "tree fs1 = (tree fs)(p \<mapsto> Regular [])" "tree fs p \<noteq> Some Directory" "fs_ok fs1"
      using outcome Inr handle_ofD [of h ?oo "h_inode h"] by (auto simp: options_new_def)
    have "tree fs1 p = Some (Regular [])" using t(1) by simp
    then have empty: "bytes_of (fs1, h) = []"
      using node by (auto simp: tree_regular bytes_of_def)
    obtain s r k where loop: "write_all host_file_write (fs1, h) d = Some (s, r)" "writing (fs1, h) s" "k \<le> length d"
      "written s = written (fs1, h) @ take k d"
      "case r of Inr _ \<Rightarrow> k = length d
       | Inl e \<Rightarrow> k < length d \<and> (e = Error WriteZero \<and> host_writer.write_stalls (fs1, h) (drop k d) s \<or>
           host_writer.write_fails (fs1, h) (drop k d) s e)"
      using host_writer.write_all_outcome [of "(fs1, h)" "(fs1, h)" d] writing_start [of fs1 h] t(3) h by auto
    have "drop (h_pos (snd s)) (bytes_of s) = []" "\<not> h_append (snd s)"
      using loop(2) h(2) empty writing_next(5) [of fs1 h "fst s" "snd s"] by (simp_all add: writing_def)
    then have "bytes_of s = written s"
      by (simp add: written_def)
    then have bytes: "bytes_of s = take k d"
      using loop(4) h(2,3) by (simp add: written_def)
    have late: "write_excuse fs k e" if "write_excuse fs1 k e" for e
      using that outcome by (auto simp: write_excuse_def)
    have len: "length (written s) = k"
      using bytes \<open>bytes_of s = written s\<close> loop(3) by simp
    have stop: "k < length d \<and> write_excuse fs1 k e" if "r = Inl e" for e
      using that loop(3,5) host_write_fails [of "(fs1, h)" "drop k d" s e] host_write_stalls [of "(fs1, h)" "drop k d" s] len by auto
    have call: "io_write fs p d = Some (fst s, r)"
      using opened Inr loop(1) by (simp add: io_write_def)
    note after = writing_tree [OF t(3) loop(2) node]
    show ?thesis
    proof (cases r)
      case (Inl e)
      then have "k < length d \<and> tree (fst s) = (tree fs)(p \<mapsto> Regular (take k d)) \<and> write_excuse fs k e"
        using stop [OF Inl] late after(2) t(1) bytes by simp
      then show ?thesis using call after outcome Inl by auto
    next
      case Inr
      then show ?thesis using call after outcome loop(5) t bytes by auto
    qed
  qed
qed

lemma io_read_outcome:
  assumes "fs_ok fs"
  shows "\<exists>fs' r. io_read fs p = Some (fs', r) \<and> fs_ok fs' \<and> tree fs' = tree fs \<and>
    (case r of Inr d \<Rightarrow> tree fs p = Some (Regular d) | Inl e \<Rightarrow> open_excuse fs p False e)"
proof -
  let ?oo = "options_new\<lparr>oo_read := True\<rparr>"
  obtain fs1 r1 where opened: "open_with ?oo fs p = (fs1, r1)" by fastforce
  note outcome = open_with_outcome [OF assms opened]
  show ?thesis
  proof (cases r1)
    case (Inl e)
    then show ?thesis
      using outcome opened by (auto simp: io_read_def open_excuse_def options_new_def)
  next
    case (Inr h)
    have node: "node_at fs1 p = Some (FileNode (h_inode h))" and h: "h_read h" "h_pos h = 0" and ok1: "fs_ok fs1"
      and t: "tree fs1 = tree fs" "set (fs_script fs1) \<subseteq> set (fs_script fs)"
      using outcome Inr handle_ofD [of h ?oo "h_inode h"] by (auto simp: options_new_def split: option.splits)
    have all: "left_to_read (fs1, h) = fs_data fs1 (h_inode h)"
      using h(2) by (simp add: left_to_read_def bytes_of_def)
    then have held: "tree fs p = Some (Regular (left_to_read (fs1, h)))"
      using node t(1) by (metis tree_regular)
    have "reading (fs1, h) (fs1, h)" using h(1) by (simp add: reading_def)
    then obtain s r k where loop: "read_to_end host_file_read (fs1, h) [] = Some (s, take k (left_to_read (fs1, h)), r)"
      "reading (fs1, h) s"
      "case r of Inr n \<Rightarrow> k = length (left_to_read (fs1, h)) \<and> n = k | Inl e \<Rightarrow> host_reader.read_fails (fs1, h) e"
      using host_reader.read_to_end_outcome [of "(fs1, h)" "(fs1, h)" "[]"] by auto
    have same: "fst s = fs1\<lparr>fs_script := fs_script (fst s)\<rparr>"
      using loop(2) by (simp add: reading_def)
    have "fs_ok (fst s)" "tree (fst s) = tree fs"
      using ok1 t(1) by (subst same, simp)+
    then show ?thesis
      using opened Inr loop(1,3) held host_read_fails [of "(fs1, h)"] t(2)
      by (cases r) (fastforce simp: io_read_def open_excuse_def)+
  qed
qed


section \<open>Every call keeps the filesystem in order\<close>

lemma file_write_ok:
  assumes "fs_ok fs" "file_write (fs, h) buf = Some ((fs', h'), r)"
  shows "fs_ok fs'"
proof -
  let ?fs1 = "fs\<lparr>fs_script := tl (fs_script fs)\<rparr>" and ?d = "bytes_of (fs, h)"
  have d: "length ?d \<le> MAX_OFFSET" using fs_okD(5) [OF assms(1)] by (simp add: bytes_of_def)
  define at where "at = (if h_append h then length ?d else h_pos h)"
  define n where "n = granted (answer_of (fs_script fs)) (min (length buf) (MAX_OFFSET - at))"
  have n: "n \<le> length buf" "n \<le> MAX_OFFSET - at"
    unfolding n_def using granted_le [of _ "min (length buf) (MAX_OFFSET - at)"] by (meson min.boundedE)+
  have "fs' = ?fs1 \<or> n \<noteq> 0 \<and> fs' = set_data (h_inode h) (write_at ?d at (take n buf)) ?fs1"
    using assms(2) unfolding file_write_call [OF at_def n_def refl] by (auto split: answer.splits if_splits)
  moreover have "length (write_at ?d at (take n buf)) \<le> MAX_OFFSET" if "n \<noteq> 0"
    using that n d by (auto simp: write_at_def copy_from_slice_def min_def)
  ultimately show ?thesis
    using fs_ok_set_data [of ?fs1] assms(1) by auto
qed

lemma file_set_len_effect:
  assumes "file_set_len (fs, h) w = ((fs', h'), r)"
  shows "\<exists>as. (case r of Inl _ \<Rightarrow> fs' = fs\<lparr>fs_script := as\<rparr>
     | Inr _ \<Rightarrow> unat w \<le> MAX_OFFSET \<and> fs' = set_data (h_inode h)
         (take (unat w) (bytes_of (fs, h)) @ replicate (unat w - length (bytes_of (fs, h))) 0) (fs\<lparr>fs_script := as\<rparr>)) \<and> h' = h"
proof (cases "MAX_OFFSET < unat w")
  case True
  then show ?thesis using assms by (intro exI [of _ "fs_script fs"]) (auto simp: file_set_len_def)
next
  case False
  then show ?thesis
    using assms unfolding file_set_len_def
    by (intro exI [of _ "tl (uninterrupted (fs_script fs))"]) (auto split: answer.splits if_splits)
qed

inductive fs_step :: "fs \<Rightarrow> fs \<Rightarrow> bool" where
  fs_open: "io_open fs p = (fs', r) \<Longrightarrow> fs_step fs fs'"
| fs_create: "io_create fs p = (fs', r) \<Longrightarrow> fs_step fs fs'"
| fs_open_or_create: "io_open_or_create fs p = (fs', r) \<Longrightarrow> fs_step fs fs'"
| fs_append: "io_append fs p = (fs', r) \<Longrightarrow> fs_step fs fs'"
| fs_read: "io_read fs p = Some (fs', r) \<Longrightarrow> fs_step fs fs'"
| fs_write: "io_write fs p d = Some (fs', r) \<Longrightarrow> fs_step fs fs'"
| fs_metadata: "io_metadata fs p = (fs', r) \<Longrightarrow> fs_step fs fs'"
| fs_remove_file: "io_remove_file fs p = (fs', r) \<Longrightarrow> fs_step fs fs'"
| fs_remove_dir_all: "io_remove_dir_all qs fs p = (fs', r) \<Longrightarrow> removal_order fs p qs \<Longrightarrow> fs_step fs fs'"
| fs_rename: "io_rename fs p q = (fs', r) \<Longrightarrow> fs_step fs fs'"
| fs_create_dir_all: "io_create_dir_all fs p = (fs', r) \<Longrightarrow> fs_step fs fs'"
| fs_handle_read: "host_file_read (fs, h) buf = Some ((fs', h'), part, r) \<Longrightarrow> fs_step fs fs'"
| fs_handle_write: "host_file_write (fs, h) buf = Some ((fs', h'), r) \<Longrightarrow> fs_step fs fs'"
| fs_handle_seek: "host_file_seek (fs, h) where_to = ((fs', h'), r) \<Longrightarrow> fs_step fs fs'"
| fs_handle_length: "host_file_length (fs, h) = ((fs', h'), r) \<Longrightarrow> fs_step fs fs'"
| fs_handle_set_length: "host_file_set_length (fs, h) w = ((fs', h'), r) \<Longrightarrow> fs_step fs fs'"
| fs_handle_sync: "host_file_sync_all (fs, h) = ((fs', h'), r) \<or> host_file_sync_data (fs, h) = ((fs', h'), r) \<Longrightarrow> fs_step fs fs'"
| fs_answers: "fs_step fs (fs\<lparr>fs_script := as\<rparr>)"

lemma map_err_pair: "map_prod id map_err x = (y, r) \<longleftrightarrow> (\<exists>r'. x = (y, r') \<and> map_err r' = r)"
  by (cases x) auto

lemma opened_ok:
  assumes "fs_ok fs" "map_prod id map_err (open_with oo fs p) = (fs', r)"
  shows "fs_ok fs'"
  using assms open_with_outcome [OF assms(1)] by (auto simp: map_err_pair)

lemma fs_step_ok:
  assumes "fs_step fs fs'" "fs_ok fs"
  shows "fs_ok fs'"
  using assms
proof (induction rule: fs_step.induct)
  case (fs_read fs p fs' r)
  then show ?case using io_read_outcome [of fs p] by auto
next
  case (fs_write fs p d fs' r)
  then show ?case using io_write_outcome [of fs p d] by auto
next
  case (fs_metadata fs p fs' r)
  then show ?case unfolding io_metadata_def by (auto split: answer.splits option.splits)
next
  case (fs_handle_read fs h buf fs' h' part r)
  then have "fs' = fs\<lparr>fs_script := tl (fs_script fs)\<rparr>"
    unfolding host_file_read_def host_read_def file_read_def
    by (auto simp: Let_def split: answer.splits if_splits)
  then show ?case using fs_handle_read by simp
next
  case (fs_handle_write fs h buf fs' h' r)
  then show ?case
    using file_write_ok [of fs h buf fs' h'] by (auto simp: host_file_write_def host_write_def)
next
  case (fs_handle_seek fs h to fs' h' r)
  then have "fs' = fs\<lparr>fs_script := tl (fs_script fs)\<rparr>"
    unfolding host_file_seek_def host_seek_def file_seek_def
    by (auto simp: Let_def split: answer.splits if_splits)
  then show ?case using fs_handle_seek by simp
next
  case (fs_handle_set_length fs h w fs' h' r)
  then obtain r' where "file_set_len (fs, h) w = ((fs', h'), r')"
    by (auto simp: host_file_set_length_def map_err_pair)
  then show ?case
    using file_set_len_effect [of fs h w fs' h' r'] fs_handle_set_length(2) fs_ok_set_data [of "fs\<lparr>fs_script := _\<rparr>"]
    by (cases r') (auto intro!: fs_ok_set_data simp: min_def)
next
  case (fs_handle_sync fs h fs' h' r)
  then show ?case by (auto simp: host_file_sync_all_def host_file_sync_data_def file_sync_def)
qed (auto simp: io_open_def io_create_def io_open_or_create_def io_append_def host_file_length_def file_len_def grown_def
      dest: opened_ok io_remove_file_outcome io_remove_dir_all_outcome io_rename_outcome io_create_dir_all_outcome)


definition fs_new :: fs where
  "fs_new = \<lparr>fs_nodes = [([], DirNode)], fs_data = (\<lambda>_. []), fs_fresh = 0, fs_dir_len = 0, fs_script = []\<rparr>"

definition fs_init :: "fs \<Rightarrow> bool" where
  "fs_init fs \<longleftrightarrow> fs = fs_new"

lemma fs_new_ok: "fs_ok fs_new"
  by (auto simp: fs_new_def fs_ok_def node_at_def)

interpretation host_fs: invariant_system fs_init fs_step fs_ok
  by unfold_locales (auto simp: fs_init_def fs_new_ok intro: fs_step_ok)

section \<open>The methods of \<open>File\<close>\<close>

text \<open>
  Whatever the cursor of an appending handle is, its writes land at the end of the
  file; and such a handle cannot be read from.
\<close>

lemma append_lands_at_end:
  assumes "fs_ok fs" "h_append h" "h_write h" "host_file_write (fs, h) buf = Some ((fs', h'), Inr n)"
  shows "bytes_of (fs', h') = bytes_of (fs, h) @ take n buf"
proof -
  have start: "writing (fs, h) (fs, h)"
    using writing_start [OF assms(1,3)] assms(2) by simp
  have "writing (fs, h) (fs', h')" "written (fs', h') = written (fs, h) @ take n buf"
    using host_writer.write_total [OF start, of buf] host_writer.write_bytes [OF start assms(4)] assms(4) by auto
  then show ?thesis
    using assms(2) writing_next(5) [of fs h fs' h'] by (simp add: written_def)
qed

lemma append_not_readable:
  assumes "io_append fs p = (fs', Inr h)" "fs_ok fs" "quiet (fs_script fs')"
  shows "\<exists>s. host_file_read (fs', h) buf = Some (s, buf, Inl (Error Other))"
proof -
  have "\<not> h_read h"
    using assms(1) open_with_outcome [OF assms(2), of "options_new\<lparr>oo_append := True, oo_create := True\<rparr>" p fs' "Inr h"]
      handle_ofD [of h "options_new\<lparr>oo_append := True, oo_create := True\<rparr>" "h_inode h"]
    by (auto simp: io_append_def map_err_pair options_new_def)
  then show ?thesis
    using quiet_answer [OF assms(3)]
    by (cases "answer_of (fs_script fs')") (auto simp: host_file_read_def host_read_def file_read_def map_err_def)
qed

text \<open>\<open>set_length\<close> cuts or extends with zeros, and \<open>length\<close> reports what is there.\<close>

lemma set_length_then_length:
  assumes "host_file_set_length (fs, h) w = ((fs1, h1), Inr ())"
  shows "h1 = h" "bytes_of (fs1, h) = take (unat w) (bytes_of (fs, h)) @ replicate (unat w - length (bytes_of (fs, h))) 0"
    "host_file_length (fs1, h) = (s, Inr l) \<Longrightarrow> l = w"
proof -
  have "file_set_len (fs, h) w = ((fs1, h1), Inr ())"
    using assms by (auto simp: host_file_set_length_def map_err_pair)
  from file_set_len_effect [OF this]
  show "h1 = h" and bytes: "bytes_of (fs1, h) = take (unat w) (bytes_of (fs, h)) @ replicate (unat w - length (bytes_of (fs, h))) 0"
    by (auto simp: bytes_of_def)
  have "length (bytes_of (fs1, h)) = unat w" using bytes by simp
  then show "l = w" if "host_file_length (fs1, h) = (s, Inr l)"
    using that by (auto simp: host_file_length_def file_len_def map_err_pair split: answer.splits)
qed

text \<open>\<open>metadata\<close> reports the length of the file, which always fits.\<close>

lemma metadata_reports_length:
  assumes "fs_ok fs" "io_metadata fs p = (fs', Inr l)" "tree fs p \<noteq> Some Directory"
  shows "\<exists>d. tree fs p = Some (Regular d) \<and> unat l = length d"
proof -
  have "\<exists>i. node_at fs p = Some (FileNode i) \<and> l = of_nat (length (fs_data fs i))"
    using assms(2,3) unfolding io_metadata_def by (auto split: answer.splits option.splits node.splits)
  then obtain i where i: "node_at fs p = Some (FileNode i)" "l = of_nat (length (fs_data fs i))" by blast
  have "length (fs_data fs i) < 2 ^ 64"
    using fs_okD(5) [OF assms(1), of i] by (simp add: MAX_OFFSET_def)
  then show ?thesis
    using i by (auto simp: tree_regular unsigned_of_nat take_bit_nat_eq_self)
qed

section \<open>Properties\<close>
















text \<open>
  C15: What is written to a path is read back from it. Whatever sequence of calls came
  before, \<open>write\<close> and \<open>read\<close> return; \<open>write\<close> changes what no other path leads to; after
  one that succeeded, \<open>read\<close> returns exactly the bytes written, unless the platform
  refuses a call, and then with that refusal. A \<open>write\<close> that fails either changed
  nothing, and its error says why the file could not be opened, or it left a proper
  beginning of the contents, and the platform refused a call, took nothing, or the
  largest offset was reached. Where the directory exists, the path is no directory,
  and the platform refuses nothing but interrupts and takes as little at a time as
  it likes, \<open>write\<close> succeeds.
\<close>

theorem written_is_read_back:
  assumes "reach fs_init fs_step fs"
  shows "\<exists>fs1 r. io_write fs p d = Some (fs1, r) \<and> (\<forall>q. q \<noteq> p \<longrightarrow> tree fs1 q = tree fs q) \<and>
    (case r of
       Inr _ \<Rightarrow> (\<exists>fs2 r2. io_read fs1 p = Some (fs2, r2) \<and> tree fs2 = tree fs1 \<and>
         (r2 = Inr d \<or> (\<exists>k. Refused k \<in> set (fs_script fs1) \<and> k \<noteq> StdInterrupted \<and> r2 = Inl (from_std_error k))))
     | Inl e \<Rightarrow> tree fs1 = tree fs \<and> open_excuse fs p True e \<or>
         (\<exists>k < length d. tree fs1 p = Some (Regular (take k d)) \<and> write_excuse fs k e)) \<and>
    (calm (fs_script fs) \<and> tree fs (butlast p) = Some Directory \<and> tree fs p \<noteq> Some Directory \<and> length d \<le> MAX_OFFSET
      \<longrightarrow> r = Inr () \<and> calm (fs_script fs1))"
proof -
  have ok: "fs_ok fs" by (rule host_fs.reach_inv [OF assms])
  obtain fs1 r where w: "io_write fs p d = Some (fs1, r)" "fs_ok fs1" "set (fs_script fs1) \<subseteq> set (fs_script fs)"
    "case r of
       Inr _ \<Rightarrow> tree fs1 = (tree fs)(p \<mapsto> Regular d) \<and> tree fs p \<noteq> Some Directory
     | Inl e \<Rightarrow> tree fs1 = tree fs \<and> open_excuse fs p True e \<or>
         (\<exists>k < length d. tree fs1 = (tree fs)(p \<mapsto> Regular (take k d)) \<and> write_excuse fs k e)"
    using io_write_outcome [OF ok, of p d] by blast
  have others: "\<forall>q. q \<noteq> p \<longrightarrow> tree fs1 q = tree fs q"
    using w(4) by (cases r) auto
  have success: "r = Inr ()" if "calm (fs_script fs)" "tree fs (butlast p) = Some Directory" "tree fs p \<noteq> Some Directory" "length d \<le> MAX_OFFSET"
  proof (cases r)
    case (Inl e)
    have "walk_path fs p = None" using that(2) walk_None_iff [OF ok] by simp
    then have "\<not> open_excuse fs p True e"
      using that(1,3) by (auto simp: open_excuse_def calm_def)
    moreover have "\<not> write_excuse fs k e" if "k < length d" for k
      using that \<open>calm (fs_script fs)\<close> \<open>length d \<le> MAX_OFFSET\<close> by (auto simp: write_excuse_def calm_def)
    ultimately show ?thesis using w(4) Inl by auto
  qed simp
  have found: "\<exists>fs2 r2. io_read fs1 p = Some (fs2, r2) \<and> tree fs2 = tree fs1 \<and>
         (r2 = Inr d \<or> (\<exists>k. Refused k \<in> set (fs_script fs1) \<and> k \<noteq> StdInterrupted \<and> r2 = Inl (from_std_error k)))"
    if "r = Inr ()"
  proof -
    have held: "tree fs1 p = Some (Regular d)" using w(4) that by simp
    then obtain i where "node_at fs1 p = Some (FileNode i)" by (auto simp: tree_regular)
    then have "walk_path fs1 p = None" by (rule walk_present [OF w(2)])
    obtain fs2 r2 where got: "io_read fs1 p = Some (fs2, r2)" "tree fs2 = tree fs1"
      "case r2 of Inr d' \<Rightarrow> tree fs1 p = Some (Regular d') | Inl e \<Rightarrow> open_excuse fs1 p False e"
      using io_read_outcome [OF w(2), of p] by blast
    have "r2 = Inr d \<or> (\<exists>k. Refused k \<in> set (fs_script fs1) \<and> k \<noteq> StdInterrupted \<and> r2 = Inl (from_std_error k))"
      using got(3) held \<open>walk_path fs1 p = None\<close> by (cases r2) (auto simp: open_excuse_def simp del: tree_simps(1,2))
    then show ?thesis using got(1,2) by blast
  qed
  have "calm (fs_script fs1)" if "calm (fs_script fs)" using that w(3) by (auto simp: calm_def)
  then show ?thesis
    using w(1,4) others success found by (intro exI [of _ fs1] exI [of _ r]) (cases r; auto)
qed

text \<open>Witnesses.\<close>

lemma fs_new_reach: "reach fs_init fs_step fs_new"
  by (rule reach_init) (simp add: fs_init_def)

theorem written_is_read_back_witness:
  "\<exists>fs1 fs2. io_write fs_new [''notes''] [1, 2, 3] = Some (fs1, Inr ()) \<and> io_read fs1 [''notes''] = Some (fs2, Inr [1, 2, 3])"
proof -
  have "calm (fs_script fs_new)" "tree fs_new [] = Some Directory" "tree fs_new [''notes''] \<noteq> Some Directory" "length [1, 2, 3 :: u8] \<le> MAX_OFFSET"
    by (simp_all add: fs_new_def calm_def node_at_def MAX_OFFSET_def)
  then obtain fs1 where "io_write fs_new [''notes''] [1, 2, 3] = Some (fs1, Inr ())" "calm (fs_script fs1)"
    "\<exists>fs2 r2. io_read fs1 [''notes''] = Some (fs2, r2) \<and>
       (r2 = Inr [1, 2, 3] \<or> (\<exists>k. Refused k \<in> set (fs_script fs1) \<and> k \<noteq> StdInterrupted \<and> r2 = Inl (from_std_error k)))"
    using written_is_read_back [OF fs_new_reach, of "[''notes'']" "[1, 2, 3]"] by auto
  then show ?thesis by (auto simp: calm_def)
qed


end
