(* ===== verification/TimerHost.thy ===== *)
theory TimerHost
  imports ReactorTimer Runtime
begin

text \<open>
  Who serves the timers of a process (\<open>mod driver\<close> of \<open>src/src/time.rs\<close>): the cell that
  chooses between a thread of its own and a reactor, filled by \<open>set_timer_reactor\<close> or by the
  first timer that is armed, the start of the thread, and the nudge that a timer gives
  when it becomes the earliest. \<open>Timer\<close> has the thread and \<open>ReactorTimer\<close> the reactor once
  chosen; here is the choice, which is made once and reaches every nudge.
\<close>

section \<open>The cells of the process\<close>

text \<open>A clock is the default one or one of the caller's, by its address.\<close>

datatype clock = Std_clock | Custom_clock nat

text \<open>
  \<open>HOST\<close>, \<open>THREAD\<close>, \<open>CLOCK\<close> and \<open>ORIGIN\<close>, the flag of \<open>NUDGE\<close> with the number of signals
  given on its condition, and of each reactor its cached deadline and the number of
  wakes of its poller. A reactor whose poller cannot be woken is in \<open>th_deaf\<close>.
\<close>

record timer_cells =
  th_host :: "timer_host option"
  th_thread :: bool
  th_clock :: "clock option"
  th_origin :: bool
  th_nudged :: bool
  th_signals :: nat
  th_cached :: "nat \<Rightarrow> u64"
  th_wakes :: "nat \<Rightarrow> nat"
  th_deaf :: "nat \<Rightarrow> bool"

definition timer_cells_new :: timer_cells where
  "timer_cells_new = \<lparr>th_host = None, th_thread = False, th_clock = None, th_origin = False, th_nudged = False,
     th_signals = 0, th_cached = (\<lambda>_. NO_DEADLINE), th_wakes = (\<lambda>_. 0), th_deaf = (\<lambda>_. False)\<rparr>"

datatype timer_driver_started = TimerDriverStarted

definition timer_driver_started_text :: "timer_driver_started \<Rightarrow> string" where
  "timer_driver_started_text _ = ''nagoya timer driver already selected''"

definition elapsed_text :: "elapsed \<Rightarrow> string" where
  "elapsed_text _ = ''the future did not complete within its timeout''"

definition driver_bind :: "nat \<Rightarrow> timer_cells \<Rightarrow> timer_cells \<times> (timer_driver_started + unit)" where
  "driver_bind handle th =
     (if th_host th = None then (th\<lparr>th_host := Some (On_reactor handle)\<rparr>, Inr ()) else (th, Inl TimerDriverStarted))"

definition set_timer_reactor :: "nat \<Rightarrow> timer_cells \<Rightarrow> timer_cells \<times> (timer_driver_started + unit)" where
  "set_timer_reactor handle th = driver_bind handle th"

text \<open>Nanoseconds since the origin, an unbounded number, as a \<open>u64\<close> that stops at the largest.\<close>

definition std_clock :: "nat \<Rightarrow> u64" where
  "std_clock nanos = (if nanos < 2 ^ 64 then of_nat nanos else u64_max)"

definition install_default_clock :: "timer_cells \<Rightarrow> timer_cells" where
  "install_default_clock th = th\<lparr>th_origin := True, th_clock := set_clock (th_clock th) Std_clock\<rparr>"

text \<open>The thread is spawned once; a spawn that the system refuses panics and may be tried again.\<close>

definition start_driver :: "bool \<Rightarrow> timer_cells \<Rightarrow> timer_cells option" where
  "start_driver spawns th =
     (if th_thread th then Some th
      else if spawns then Some ((install_default_clock th)\<lparr>th_thread := True\<rparr>) else None)"

definition host_timer_armed :: "nat \<Rightarrow> u64 \<Rightarrow> timer_cells \<Rightarrow> timer_cells option" where
  "host_timer_armed handle deadline th =
     (let (cached, wake) = timer_armed deadline (th_cached th handle);
          th1 = th\<lparr>th_cached := (th_cached th)(handle := cached)\<rparr> in
      if \<not> wake then Some th1
      else if th_deaf th handle then None
      else Some (th1\<lparr>th_wakes := (th_wakes th)(handle := th_wakes th handle + 1)\<rparr>))"

definition nudge :: "bool \<Rightarrow> u64 \<Rightarrow> timer_cells \<Rightarrow> timer_cells option" where
  "nudge spawns deadline th =
     (let host = (case th_host th of None \<Rightarrow> Dedicated | Some h \<Rightarrow> h);
          th = th\<lparr>th_host := Some host\<rparr> in
      case host of
        Dedicated \<Rightarrow> map_option (\<lambda>th. th\<lparr>th_nudged := True, th_signals := th_signals th + 1\<rparr>) (start_driver spawns th)
      | On_reactor handle \<Rightarrow> host_timer_armed handle deadline th)"

text \<open>
  A panicking nudge leaves the host chosen and, for a reactor that cannot be woken, the
  deadline recorded.
\<close>

definition nudge_panicked :: "u64 \<Rightarrow> timer_cells \<Rightarrow> timer_cells" where
  "nudge_panicked deadline th =
     (let host = (case th_host th of None \<Rightarrow> Dedicated | Some h \<Rightarrow> h);
          th = th\<lparr>th_host := Some host\<rparr> in
      case host of
        Dedicated \<Rightarrow> install_default_clock th
      | On_reactor handle \<Rightarrow> th\<lparr>th_cached := (th_cached th)(handle := fst (timer_armed deadline (th_cached th handle)))\<rparr>)"

section \<open>Steps\<close>

inductive driver_step :: "timer_cells \<Rightarrow> timer_cells \<Rightarrow> bool" where
  h_bind: "set_timer_reactor handle th = (th', r) \<Longrightarrow> driver_step th th'"
| h_clock: "driver_step th (th\<lparr>th_clock := set_clock (th_clock th) (Custom_clock c)\<rparr>)"
| h_read: "th_clock th = None \<Longrightarrow> driver_step th (install_default_clock th)"
| h_nudge: "nudge spawns deadline th = Some th' \<Longrightarrow> driver_step th th'"
| h_panic: "nudge spawns deadline th = None \<Longrightarrow> driver_step th (nudge_panicked deadline th)"
| h_taken: "th_thread th \<Longrightarrow> driver_step th (th\<lparr>th_nudged := False\<rparr>)"
| h_served: "driver_step th (th\<lparr>th_cached := (th_cached th)(handle := c)\<rparr>)"
| h_deaf: "driver_step th (th\<lparr>th_deaf := d\<rparr>)"

text \<open>
  The thread runs only where it was chosen, and then it has a clock; no signal was
  given to a thread that was not chosen, and no reactor was woken unless bound.
\<close>

definition driver_inv :: "timer_cells \<Rightarrow> bool" where
  "driver_inv th \<longleftrightarrow> (th_thread th \<longrightarrow> th_host th = Some Dedicated \<and> th_clock th \<noteq> None) \<and>
     (0 < th_signals th \<or> th_nudged th \<longrightarrow> th_thread th) \<and>
     (\<forall>h. 0 < th_wakes th h \<longrightarrow> th_host th = Some (On_reactor h)) \<and>
     (th_clock th = Some Std_clock \<longrightarrow> th_origin th)"

lemma set_clock_keeps: "set_clock clock c \<noteq> None" "clock \<noteq> None \<Longrightarrow> set_clock clock c = clock"
  by (auto simp: set_clock_def)


text \<open>A nudge that returns went to the thread, which it may have started, or to the bound reactor.\<close>

lemma nudge_cases:
  assumes "nudge spawns deadline th = Some th'"
  obtains (thread) "th_host th = None \<or> th_host th = Some Dedicated" "th_host th' = Some Dedicated" "th_thread th'"
      "th_nudged th'" "th_signals th' = Suc (th_signals th)" "th_wakes th' = th_wakes th"
      "th_clock th' = (if th_thread th then th_clock th else set_clock (th_clock th) Std_clock)"
      "th_origin th' = (th_origin th \<or> \<not> th_thread th)"
  | (reactor) h where "th_host th = Some (On_reactor h)" "th_host th' = th_host th" "th_thread th' = th_thread th"
      "th_nudged th' = th_nudged th" "th_signals th' = th_signals th" "th_clock th' = th_clock th" "th_origin th' = th_origin th"
      "th_cached th' h \<le> deadline" "\<forall>g. g \<noteq> h \<longrightarrow> th_wakes th' g = th_wakes th g"
      "th_cached th' h \<noteq> th_cached th h \<longrightarrow> th_wakes th h < th_wakes th' h"
proof (cases "\<exists>h. th_host th = Some (On_reactor h)")
  case True
  then obtain h where "th_host th = Some (On_reactor h)" by blast
  with assms that(2) [of h] show thesis
    by (cases "th_cached th h \<le> deadline") (auto simp: nudge_def host_timer_armed_def timer_armed_def Let_def split: if_splits)
next
  case False
  then have host: "th_host th = None \<or> th_host th = Some Dedicated"
    by (metis timer_host.exhaust not_Some_eq)
  then have "map_option (\<lambda>th. th\<lparr>th_nudged := True, th_signals := th_signals th + 1\<rparr>)
      (start_driver spawns (th\<lparr>th_host := Some Dedicated\<rparr>)) = Some th'"
    using assms by (auto simp: nudge_def)
  with host that(1) show thesis
    by (auto simp: start_driver_def install_default_clock_def split: if_splits)
qed

lemma nudge_panicked_fields:
  "th_thread (nudge_panicked deadline th) = th_thread th" "th_nudged (nudge_panicked deadline th) = th_nudged th"
  "th_signals (nudge_panicked deadline th) = th_signals th" "th_wakes (nudge_panicked deadline th) = th_wakes th"
  "th_host (nudge_panicked deadline th) = Some (case th_host th of None \<Rightarrow> Dedicated | Some h \<Rightarrow> h)"
  "th_clock th \<noteq> None \<Longrightarrow> th_clock (nudge_panicked deadline th) = th_clock th"
  "th_clock (nudge_panicked deadline th) = th_clock th \<and> th_origin (nudge_panicked deadline th) = th_origin th \<or>
     th_origin (nudge_panicked deadline th)"
  by (cases "th_host th"; auto simp: nudge_panicked_def install_default_clock_def set_clock_def Let_def split: timer_host.split)+

lemma driver_inv_step:
  assumes "driver_inv th" "driver_step th th'"
  shows "driver_inv th'"
  using assms(2,1)
proof (induction rule: driver_step.induct)
  case (h_bind handle th th' r)
  show ?case
  proof (cases "th_host th = None")
    case True
    then have "th' = th\<lparr>th_host := Some (On_reactor handle)\<rparr>" "\<not> th_thread th" "\<forall>h. \<not> 0 < th_wakes th h"
      using h_bind by (simp_all add: driver_inv_def set_timer_reactor_def driver_bind_def)
    then show ?thesis using h_bind(2) by (simp add: driver_inv_def)
  next
    case False
    then show ?thesis using h_bind by (auto simp: set_timer_reactor_def driver_bind_def)
  qed
next
  case (h_nudge spawns deadline th th')
  from h_nudge(1) show ?case
  proof (cases rule: nudge_cases)
    case thread
    then show ?thesis using h_nudge(2) by (auto simp: driver_inv_def set_clock_def)
  next
    case (reactor h)
    then have "\<not> th_thread th" using h_nudge(2) by (auto simp: driver_inv_def)
    with reactor h_nudge(2) show ?thesis
      unfolding driver_inv_def by (metis timer_host.inject option.inject)
  qed
next
  case (h_panic spawns deadline th)
  then show ?case
    using nudge_panicked_fields [where deadline = deadline and th = th] unfolding driver_inv_def
    by (cases "th_host th") auto
qed (auto simp: driver_inv_def install_default_clock_def set_clock_def)

definition driver_start :: "timer_cells \<Rightarrow> bool" where
  "driver_start th \<longleftrightarrow> th = timer_cells_new"

interpretation timer_choice: invariant_system driver_start driver_step driver_inv
proof
  show "driver_inv th" if "driver_start th" for th
    using that by (simp add: driver_start_def timer_cells_new_def driver_inv_def)
qed (rule driver_inv_step)

text \<open>A choice once made stays, of the host and of the clock.\<close>

lemma choices_stay_step:
  assumes "driver_step th th'"
  shows "(th_host th \<noteq> None \<longrightarrow> th_host th' = th_host th) \<and> (th_clock th \<noteq> None \<longrightarrow> th_clock th' = th_clock th) \<and>
    (th_thread th \<longrightarrow> th_thread th')"
  using assms
proof (induction rule: driver_step.induct)
  case (h_nudge spawns deadline th th')
  then show ?case
    by (cases rule: nudge_cases) (auto simp: set_clock_def)
next
  case (h_panic spawns deadline th)
  then show ?case
    using nudge_panicked_fields [where deadline = deadline and th = th] by auto
qed (auto simp: set_timer_reactor_def driver_bind_def install_default_clock_def set_clock_def split: if_splits)

lemma choices_stay:
  assumes "driver_step\<^sup>*\<^sup>* th th'"
  shows "(th_host th \<noteq> None \<longrightarrow> th_host th' = th_host th) \<and> (th_clock th \<noteq> None \<longrightarrow> th_clock th' = th_clock th) \<and>
    (th_thread th \<longrightarrow> th_thread th')"
  using assms by (induction rule: rtranclp_induct) (auto dest: choices_stay_step)

text \<open>A nudge that returns has reached the host: its flag is set and it runs, or it knows the deadline.\<close>

lemma nudge_reaches:
  assumes "nudge spawns deadline th = Some th'"
  shows "case th_host th' of
      Some Dedicated \<Rightarrow> th_nudged th' \<and> th_thread th' \<and> th_signals th < th_signals th' \<and> th_wakes th' = th_wakes th
    | Some (On_reactor h) \<Rightarrow> th_cached th' h \<le> deadline \<and> th_thread th' = th_thread th \<and>
        (th_cached th' h \<noteq> th_cached th h \<longrightarrow> th_wakes th h < th_wakes th' h)
    | None \<Rightarrow> False"
  using assms by (cases rule: nudge_cases) auto

text \<open>It returns unless the thread cannot be spawned or the poller of the reactor not be woken.\<close>

lemma nudge_returns:
  "nudge spawns deadline th = None \<longleftrightarrow>
    (case th_host th of
       Some (On_reactor h) \<Rightarrow> th_deaf th h \<and> deadline < th_cached th h
     | _ \<Rightarrow> \<not> th_thread th \<and> \<not> spawns)"
  by (auto simp: nudge_def start_driver_def host_timer_armed_def timer_armed_def Let_def split: option.splits timer_host.splits)

text \<open>
  The choice is the one that \<open>Runtime\<close> makes with its cells: binding and nudging here are
  binding and nudging there.
\<close>

lemma driver_bind_refines:
  assumes "pr_timer_host pr = th_host th"
  shows "pr_timer_host (fst (bind_reactor h pr)) = th_host (fst (set_timer_reactor h th))"
    "snd (bind_reactor h pr) \<longleftrightarrow> snd (set_timer_reactor h th) = Inr ()"
  using assms by (auto simp: bind_reactor_def set_timer_reactor_def driver_bind_def split: option.splits)

lemma nudge_refines:
  assumes "pr_timer_host pr = th_host th"
  shows "nudge spawns deadline th = Some th' \<Longrightarrow> th_host th' = pr_timer_host (fst (nudge_host pr))"
    "th_host (nudge_panicked deadline th) = pr_timer_host (fst (nudge_host pr))"
  using assms nudge_panicked_fields(5) [of deadline th]
  by (auto simp: nudge_host_def elim!: nudge_cases split: option.splits)

text \<open>
  The timers of a process have one host. Whatever calls are made from the start,
  binding a reactor succeeds exactly while nothing was chosen, and the choice and the
  clock then stay for good: with a reactor bound no timer thread is ever started and
  no other reactor is ever woken for a timer, and with the thread chosen no reactor
  ever is. Every nudge that returns has reached that host: the thread runs, has a
  clock, and its flag is set, or the reactor has a deadline no later than the
  timer's, and its poller was woken if that is new.
\<close>

theorem timer_host_chosen_once:
  assumes "reach driver_start driver_step th" "driver_step\<^sup>*\<^sup>* th th'"
  shows "(th_host th \<noteq> None \<longrightarrow> th_host th' = th_host th \<and> set_timer_reactor h th' = (th', Inl TimerDriverStarted)) \<and>
    (th_host th = None \<longrightarrow> th_host (fst (set_timer_reactor h th)) = Some (On_reactor h)) \<and>
    (th_clock th \<noteq> None \<longrightarrow> th_clock th' = th_clock th) \<and>
    (th_host th = Some (On_reactor h) \<longrightarrow> \<not> th_thread th' \<and> (\<forall>g. g \<noteq> h \<longrightarrow> th_wakes th' g = 0)) \<and>
    (th_host th = Some Dedicated \<longrightarrow> (\<forall>g. th_wakes th' g = 0)) \<and>
    (\<forall>spawns d th2. nudge spawns d th' = Some th2 \<longrightarrow> (case th_host th2 of
        Some Dedicated \<Rightarrow> th_nudged th2 \<and> th_thread th2 \<and> th_clock th2 \<noteq> None
      | Some (On_reactor g) \<Rightarrow> th_cached th2 g \<le> d \<and> (th_cached th2 g \<noteq> th_cached th' g \<longrightarrow> th_wakes th' g < th_wakes th2 g)
      | None \<Rightarrow> False))"
proof -
  have inv: "driver_inv th'"
    using timer_choice.steps_inv [OF timer_choice.reach_inv [OF assms(1)] assms(2)] .
  note stay = choices_stay [OF assms(2)]
  have nudged: "case th_host th2 of
        Some Dedicated \<Rightarrow> th_nudged th2 \<and> th_thread th2 \<and> th_clock th2 \<noteq> None
      | Some (On_reactor g) \<Rightarrow> th_cached th2 g \<le> d \<and> (th_cached th2 g \<noteq> th_cached th' g \<longrightarrow> th_wakes th' g < th_wakes th2 g)
      | None \<Rightarrow> False" if "nudge spawns d th' = Some th2" for spawns d th2
  proof -
    have "driver_inv th2" using driver_inv_step [OF inv] h_nudge [OF that] by blast
    then show ?thesis
      using nudge_reaches [OF that] by (auto simp: driver_inv_def split: option.splits timer_host.splits)
  qed
  have wakes: "th_wakes th' g = 0" if "th_host th' \<noteq> Some (On_reactor g)" for g
    using inv that by (auto simp: driver_inv_def)
  have thread: "\<not> th_thread th'" if "th_host th' = Some (On_reactor h)"
    using inv that by (auto simp: driver_inv_def)
  show ?thesis
  proof (intro conjI)
    show "th_host th \<noteq> None \<longrightarrow> th_host th' = th_host th \<and> set_timer_reactor h th' = (th', Inl TimerDriverStarted)"
      using stay by (auto simp: set_timer_reactor_def driver_bind_def)
    show "th_host th = None \<longrightarrow> th_host (fst (set_timer_reactor h th)) = Some (On_reactor h)"
      by (simp add: set_timer_reactor_def driver_bind_def)
    show "th_clock th \<noteq> None \<longrightarrow> th_clock th' = th_clock th"
      using stay by blast
    show "th_host th = Some (On_reactor h) \<longrightarrow> \<not> th_thread th' \<and> (\<forall>g. g \<noteq> h \<longrightarrow> th_wakes th' g = 0)"
      using stay wakes thread by auto
    show "th_host th = Some Dedicated \<longrightarrow> (\<forall>g. th_wakes th' g = 0)"
      using stay wakes by auto
  qed (use nudged in blast)
qed

text \<open>The default clock counts up to the end of its range and then stands.\<close>

lemma std_clock_mono: "a \<le> b \<Longrightarrow> std_clock a \<le> std_clock b"
  by (cases "b < 2 ^ 64")
    (simp add: std_clock_def word_le_nat_alt unsigned_of_nat take_bit_nat_eq_self, simp add: std_clock_def u64_max_def)

theorem timer_host_chosen_once_witness:
  "\<exists>th. set_timer_reactor 4 timer_cells_new = (th, Inr ()) \<and> set_timer_reactor 7 th = (th, Inl TimerDriverStarted) \<and> \<not> th_thread th"
proof -
  obtain th where th: "set_timer_reactor 4 timer_cells_new = (th, Inr ())" "th_host th = Some (On_reactor 4)"
    by (simp add: set_timer_reactor_def driver_bind_def timer_cells_new_def)
  have "reach driver_start driver_step timer_cells_new"
    by (rule reach_init) (simp add: driver_start_def)
  then have "reach driver_start driver_step th"
    by (rule reach_step) (rule h_bind [OF th(1)])
  from timer_host_chosen_once [OF this rtranclp.rtrancl_refl] th show ?thesis
    by auto
qed

end
