(* ===== verification/CommandRun.thy ===== *)
theory CommandRun
  imports ChildSpawn
begin

text \<open>
  \<open>Command\<close> of \<open>src/src/process.rs\<close>: its settings, and the two ways to run a child to its end,
  \<open>output\<close> and \<open>status\<close>, up to the point where they wait, over the start of a child of
  \<open>ChildSpawn\<close>.

  The settings are those of \<open>std::process::Command\<close>, which keeps the changes to the
  environment, not the environment: what was set, what was removed, and whether all that
  the parent has was cleared. The results: what the child sees is what the calls say
  when read as changes to a plain environment, in order; \<open>output\<close> captures both streams
  whatever they were set to; and when either waits, it holds nothing of the child that
  could keep the child from ending.
\<close>

section \<open>Settings\<close>

datatype stdio = Inherit | Null | Piped | Stdio_fd nat

text \<open>The changes to an environment: \<open>None\<close> for a variable that is removed.\<close>

record std_command =
  sc_program :: string
  sc_args :: "string list"
  sc_clear :: bool
  sc_vars :: "string \<Rightarrow> string option option"
  sc_dir :: "string option"
  sc_stdin :: "stdio option"
  sc_stdout :: "stdio option"
  sc_stderr :: "stdio option"
  sc_pgroup :: "int option"

definition std_command_new :: "string \<Rightarrow> std_command" where
  "std_command_new program = \<lparr>sc_program = program, sc_args = [], sc_clear = False, sc_vars = (\<lambda>_. None), sc_dir = None,
     sc_stdin = None, sc_stdout = None, sc_stderr = None, sc_pgroup = None\<rparr>"

definition std_env_remove :: "string \<Rightarrow> std_command \<Rightarrow> std_command" where
  "std_env_remove k s = s\<lparr>sc_vars := (sc_vars s)(k := (if sc_clear s then None else Some None))\<rparr>"

text \<open>The environment the child is given, from that of the parent.\<close>

definition std_capture :: "(string \<Rightarrow> string option) \<Rightarrow> std_command \<Rightarrow> string \<Rightarrow> string option" where
  "std_capture parent s k = (case sc_vars s k of Some v \<Rightarrow> v | None \<Rightarrow> if sc_clear s then None else parent k)"

record command =
  cmd_std :: std_command
  cmd_kill_on_drop :: bool

definition command_new :: "string \<Rightarrow> command" where
  "command_new program = \<lparr>cmd_std = std_command_new program, cmd_kill_on_drop = False\<rparr>"

definition command_from :: "std_command \<Rightarrow> command" where
  "command_from s = \<lparr>cmd_std = s, cmd_kill_on_drop = False\<rparr>"

abbreviation on_std :: "(std_command \<Rightarrow> std_command) \<Rightarrow> command \<Rightarrow> command" where
  "on_std f c \<equiv> c\<lparr>cmd_std := f (cmd_std c)\<rparr>"

definition cmd_arg :: "string \<Rightarrow> command \<Rightarrow> command" where
  "cmd_arg a = on_std (\<lambda>s. s\<lparr>sc_args := sc_args s @ [a]\<rparr>)"

definition cmd_args :: "string list \<Rightarrow> command \<Rightarrow> command" where
  "cmd_args as = on_std (\<lambda>s. s\<lparr>sc_args := sc_args s @ as\<rparr>)"

definition cmd_env :: "string \<Rightarrow> string \<Rightarrow> command \<Rightarrow> command" where
  "cmd_env k v = on_std (\<lambda>s. s\<lparr>sc_vars := (sc_vars s)(k := Some (Some v))\<rparr>)"

definition cmd_envs :: "(string \<times> string) list \<Rightarrow> command \<Rightarrow> command" where
  "cmd_envs vars c = fold (\<lambda>(k, v). cmd_env k v) vars c"

definition cmd_env_remove :: "string \<Rightarrow> command \<Rightarrow> command" where
  "cmd_env_remove k = on_std (std_env_remove k)"

definition cmd_env_clear :: "command \<Rightarrow> command" where
  "cmd_env_clear = on_std (\<lambda>s. s\<lparr>sc_clear := True, sc_vars := (\<lambda>_. None)\<rparr>)"

definition cmd_current_dir :: "string \<Rightarrow> command \<Rightarrow> command" where
  "cmd_current_dir dir = on_std (\<lambda>s. s\<lparr>sc_dir := Some dir\<rparr>)"

definition cmd_stdin :: "stdio \<Rightarrow> command \<Rightarrow> command" where
  "cmd_stdin cfg = on_std (\<lambda>s. s\<lparr>sc_stdin := Some cfg\<rparr>)"

definition cmd_stdout :: "stdio \<Rightarrow> command \<Rightarrow> command" where
  "cmd_stdout cfg = on_std (\<lambda>s. s\<lparr>sc_stdout := Some cfg\<rparr>)"

definition cmd_stderr :: "stdio \<Rightarrow> command \<Rightarrow> command" where
  "cmd_stderr cfg = on_std (\<lambda>s. s\<lparr>sc_stderr := Some cfg\<rparr>)"

definition kill_on_drop :: "bool \<Rightarrow> command \<Rightarrow> command" where
  "kill_on_drop k c = c\<lparr>cmd_kill_on_drop := k\<rparr>"

definition cmd_process_group :: "int \<Rightarrow> command \<Rightarrow> command" where
  "cmd_process_group g = on_std (\<lambda>s. s\<lparr>sc_pgroup := Some g\<rparr>)"

definition get_kill_on_drop :: "command \<Rightarrow> bool" where
  "get_kill_on_drop c = cmd_kill_on_drop c"

definition as_std :: "command \<Rightarrow> std_command" where
  "as_std c = cmd_std c"

section \<open>The environment of the child\<close>

abbreviation seen :: "(string \<Rightarrow> string option) \<Rightarrow> command \<Rightarrow> string \<Rightarrow> string option" where
  "seen parent c \<equiv> std_capture parent (cmd_std c)"

lemma seen_new: "seen parent (command_new program) = parent"
  by (simp add: std_capture_def command_new_def std_command_new_def fun_eq_iff)

lemma seen_env: "seen parent (cmd_env k v c) = (seen parent c)(k \<mapsto> v)"
  by (auto simp: std_capture_def cmd_env_def fun_eq_iff)

lemma seen_envs: "seen parent (cmd_envs vars c) = seen parent c ++ map_of (rev vars)"
proof (induction vars arbitrary: c)
  case (Cons kv vars)
  then show ?case
    by (cases kv) (simp add: cmd_envs_def seen_env map_add_def fun_eq_iff map_of_append split: option.split)
qed (simp add: cmd_envs_def)

lemma seen_env_remove: "seen parent (cmd_env_remove k c) = (seen parent c)(k := None)"
  by (auto simp: std_capture_def cmd_env_remove_def std_env_remove_def fun_eq_iff)

lemma seen_env_clear: "seen parent (cmd_env_clear c) = Map.empty"
  by (simp add: std_capture_def cmd_env_clear_def fun_eq_iff)

text \<open>The calls on a command, and what each says of a plain environment.\<close>

datatype setting = Arg string | Args "string list" | Env string string | Envs "(string \<times> string) list" | Env_remove string
  | Env_clear | Current_dir string | Stdin stdio | Stdout stdio | Stderr stdio | Kill_on_drop bool | Process_group int

fun apply_setting :: "setting \<Rightarrow> command \<Rightarrow> command" where
  "apply_setting (Arg a) = cmd_arg a"
| "apply_setting (Args as) = cmd_args as"
| "apply_setting (Env k v) = cmd_env k v"
| "apply_setting (Envs vars) = cmd_envs vars"
| "apply_setting (Env_remove k) = cmd_env_remove k"
| "apply_setting Env_clear = cmd_env_clear"
| "apply_setting (Current_dir d) = cmd_current_dir d"
| "apply_setting (Stdin cfg) = cmd_stdin cfg"
| "apply_setting (Stdout cfg) = cmd_stdout cfg"
| "apply_setting (Stderr cfg) = cmd_stderr cfg"
| "apply_setting (Kill_on_drop k) = kill_on_drop k"
| "apply_setting (Process_group g) = cmd_process_group g"

fun env_change :: "setting \<Rightarrow> (string \<Rightarrow> string option) \<Rightarrow> string \<Rightarrow> string option" where
  "env_change (Env k v) e = e(k \<mapsto> v)"
| "env_change (Envs vars) e = e ++ map_of (rev vars)"
| "env_change (Env_remove k) e = e(k := None)"
| "env_change Env_clear e = Map.empty"
| "env_change _ e = e"

fun arg_change :: "setting \<Rightarrow> string list \<Rightarrow> string list" where
  "arg_change (Arg a) as = as @ [a]"
| "arg_change (Args bs) as = as @ bs"
| "arg_change _ as = as"

lemma cmd_envs_fields: "sc_args (cmd_std (cmd_envs vars c)) = sc_args (cmd_std c)"
  by (induction vars arbitrary: c) (auto simp: cmd_envs_def cmd_env_def)

lemma setting_effect:
  "seen parent (apply_setting x c) = env_change x (seen parent c)"
  "sc_args (cmd_std (apply_setting x c)) = arg_change x (sc_args (cmd_std c))"
proof -
  show "seen parent (apply_setting x c) = env_change x (seen parent c)"
    by (cases x) (simp_all add: seen_env seen_envs seen_env_remove seen_env_clear,
      simp_all add: cmd_arg_def cmd_args_def cmd_current_dir_def cmd_stdin_def cmd_stdout_def cmd_stderr_def kill_on_drop_def
        cmd_process_group_def std_capture_def fun_eq_iff)
  show "sc_args (cmd_std (apply_setting x c)) = arg_change x (sc_args (cmd_std c))"
    by (cases x) (simp_all add: cmd_envs_fields cmd_arg_def cmd_args_def cmd_current_dir_def cmd_stdin_def cmd_stdout_def cmd_stderr_def
        kill_on_drop_def cmd_process_group_def cmd_env_def cmd_env_remove_def std_env_remove_def cmd_env_clear_def)
qed

text \<open>
  What a child starts with is what the calls on its command say, in order. Whatever
  settings are made after \<open>new\<close>, the child's arguments are those added, in that order, and
  its environment is the parent's with each change made to it in turn: later values win, a
  removed variable is absent even if the parent has it, and clearing forgets the parent's
  variables and everything set before, not what is set after.
\<close>

theorem command_settings_in_order:
  "seen parent (fold apply_setting xs (command_new program)) = fold env_change xs parent \<and>
   sc_args (cmd_std (fold apply_setting xs (command_new program))) = fold arg_change xs []"
proof -
  have "seen parent (fold apply_setting xs c) = fold env_change xs (seen parent c) \<and>
      sc_args (cmd_std (fold apply_setting xs c)) = fold arg_change xs (sc_args (cmd_std c))" for c
    by (induction xs arbitrary: c) (simp_all add: setting_effect)
  from this [of "command_new program"] show ?thesis
    by (simp add: seen_new) (simp add: command_new_def std_command_new_def)
qed


section \<open>Running a child to its end\<close>

text \<open>
  \<open>std\<close>'s spawn is a parameter: the error or the child it answers for the settings. A
  stream has a pipe on the parent's side exactly when it was set to one.
\<close>

type_synonym std_spawn = "std_command \<Rightarrow> nat + nat \<times> pipes"

definition pipes_as_set :: "std_spawn \<Rightarrow> bool" where
  "pipes_as_set answer \<longleftrightarrow> (\<forall>s pid i a b. answer s = Inr (pid, (i, a, b)) \<longrightarrow>
     (i \<noteq> None \<longleftrightarrow> sc_stdin s = Some Piped) \<and> (a \<noteq> None \<longleftrightarrow> sc_stdout s = Some Piped) \<and> (b \<noteq> None \<longleftrightarrow> sc_stderr s = Some Piped) \<and>
     pipes_distinct (i, a, b))"

definition cmd_spawn ::
  "bool \<Rightarrow> nat \<Rightarrow> nat + nat \<Rightarrow> answers \<Rightarrow> std_spawn \<Rightarrow> command \<Rightarrow> starting \<Rightarrow>
   starting \<times> (nat + (nat option \<times> nat option \<times> nat option \<times> watch_made) \<times> bool)" where
  "cmd_spawn linux ESRCH opened ans answer c s =
     (case spawn linux ESRCH opened ans (answer (cmd_std c)) s of
        (s, Inl e) \<Rightarrow> (s, Inl e)
      | (s, Inr adopted) \<Rightarrow> (s, Inr (adopted, cmd_kill_on_drop c)))"

text \<open>\<open>wait_with_output\<close> up to its wait: standard input is closed, the other two are taken.\<close>

definition cmd_output ::
  "bool \<Rightarrow> nat \<Rightarrow> nat + nat \<Rightarrow> answers \<Rightarrow> std_spawn \<Rightarrow> command \<Rightarrow> starting \<Rightarrow>
   command \<times> starting \<times> (nat + nat option \<times> nat option \<times> watch_made)" where
  "cmd_output linux ESRCH opened ans answer c s =
     (let c = cmd_stderr Piped (cmd_stdout Piped c) in
      (c, case cmd_spawn linux ESRCH opened ans answer c s of
            (s, Inl e) \<Rightarrow> (s, Inl e)
          | (s, Inr ((i, a, b, w), _)) \<Rightarrow> (drop_all registered_drop i s, Inr (a, b, w))))"

definition cmd_status ::
  "bool \<Rightarrow> nat \<Rightarrow> nat + nat \<Rightarrow> answers \<Rightarrow> std_spawn \<Rightarrow> command \<Rightarrow> starting \<Rightarrow> starting \<times> (nat + watch_made)" where
  "cmd_status linux ESRCH opened ans answer c s =
     (case cmd_spawn linux ESRCH opened ans answer c s of
        (s, Inl e) \<Rightarrow> (s, Inl e)
      | (s, Inr ((i, a, b, w), _)) \<Rightarrow>
          (drop_all registered_drop b (drop_all registered_drop a (drop_all registered_drop i s)), Inr w))"

lemma output_settings:
  "sc_stdout (cmd_std (fst (cmd_output linux ESRCH opened ans answer c s))) = Some Piped"
  "sc_stderr (cmd_std (fst (cmd_output linux ESRCH opened ans answer c s))) = Some Piped"
  "sc_stdin (cmd_std (fst (cmd_output linux ESRCH opened ans answer c s))) = sc_stdin (cmd_std c)"
  by (simp_all add: cmd_output_def cmd_stderr_def cmd_stdout_def Let_def)

text \<open>
  Running a child to its end. Whatever the settings and whichever calls fail, a start
  that fails leaves nothing open or watched. When \<open>output\<close> comes to wait, both output
  streams are captured, whatever they were set to, standard input is closed if it was
  piped, and exactly the two pipes and the watch are held and watched. When \<open>status\<close> comes to
  wait it holds the watch alone: every pipe that was set up is closed, so the child can
  block on none of them. Nothing is closed twice or while it is watched.
\<close>

theorem commands_run_settled:
  assumes "holds s {} {}" "pipes_as_set answer"
    "\<And>std pid pipes fd. answer std = Inr (pid, pipes) \<Longrightarrow> opened = Inr fd \<Longrightarrow> fd \<notin> pipe_fds pipes"
  shows "(case snd (cmd_output linux ESRCH opened ans answer c s) of
        (t, Inl _) \<Rightarrow> st_open t = {} \<and> st_watched t = {} \<and> \<not> st_bad t
      | (t, Inr (a, b, w)) \<Rightarrow> a \<noteq> None \<and> b \<noteq> None \<and> holds t (set_option a \<union> set_option b \<union> watch_fds w) {}) \<and>
    (case cmd_status linux ESRCH opened ans answer c s of
        (t, Inl _) \<Rightarrow> st_open t = {} \<and> st_watched t = {} \<and> \<not> st_bad t
      | (t, Inr w) \<Rightarrow> holds t (watch_fds w) {})"
proof -
  have distinct: "answer std = Inr (pid, pipes) \<Longrightarrow> pipes_distinct pipes" for std pid pipes
    using assms(2) by (cases pipes) (auto simp: pipes_as_set_def)
  have started: "case spawn linux ESRCH opened ans (answer std) s of
      (t, Inl e) \<Rightarrow> st_open t = {} \<and> st_watched t = {} \<and> \<not> st_bad t
    | (t, Inr (i, a, b, w)) \<Rightarrow> (\<exists>pid. answer std = Inr (pid, (i, a, b))) \<and>
        holds t (pipe_fds (i, a, b) \<union> watch_fds w) {} \<and> pipe_fds (i, a, b) \<inter> watch_fds w = {}" for std
    using spawn_holds [OF assms(1), of "answer std" opened linux ESRCH ans] distinct assms(3)
    by (auto split: prod.splits sum.splits)
  have drop_in: "holds (drop_all registered_drop i t) (set_option a \<union> set_option b \<union> watch_fds w) {}"
    if "holds t (pipe_fds (i, a, b) \<union> watch_fds w) {}" "pipes_distinct (i, a, b)" "pipe_fds (i, a, b) \<inter> watch_fds w = {}" for t i a b w
    using that by (intro drop_holds) (auto simp: pipe_fds_def pipes_distinct_def Un_ac)
  have drop_out: "holds (drop_all registered_drop b (drop_all registered_drop a t)) (watch_fds w) {}"
    if "holds t (set_option a \<union> set_option b \<union> watch_fds w) {}" "pipes_distinct (i, a, b)" "pipe_fds (i, a, b) \<inter> watch_fds w = {}" for t i a b w
    using that by (intro drop_holds) (auto simp: pipe_fds_def pipes_distinct_def Un_ac)
  let ?c = "cmd_stderr Piped (cmd_stdout Piped c)"
  have captured: "a \<noteq> None \<and> b \<noteq> None" if "answer (cmd_std ?c) = Inr (pid, (i, a, b))" for pid i a b
    using assms(2) that unfolding pipes_as_set_def by (auto simp: cmd_stderr_def cmd_stdout_def)
  have "case snd (cmd_output linux ESRCH opened ans answer c s) of
        (t, Inl _) \<Rightarrow> st_open t = {} \<and> st_watched t = {} \<and> \<not> st_bad t
      | (t, Inr (a, b, w)) \<Rightarrow> a \<noteq> None \<and> b \<noteq> None \<and> holds t (set_option a \<union> set_option b \<union> watch_fds w) {}"
    using started [of "cmd_std ?c"] captured distinct [of "cmd_std ?c"] drop_in
    by (auto simp: cmd_output_def cmd_spawn_def Let_def split: prod.splits sum.splits)
  moreover have "case cmd_status linux ESRCH opened ans answer c s of
        (t, Inl _) \<Rightarrow> st_open t = {} \<and> st_watched t = {} \<and> \<not> st_bad t
      | (t, Inr w) \<Rightarrow> holds t (watch_fds w) {}"
    using started [of "cmd_std c"] distinct [of "cmd_std c"] drop_in drop_out
    by (auto simp: cmd_status_def cmd_spawn_def split: prod.splits sum.splits)
  ultimately show ?thesis by blast
qed

end
