(* ===== verification/Datagrams.thy ===== *)
theory Datagrams
  imports NetReader
begin

text \<open>
  The receive and send futures of \<open>UdpSocket\<close> (\<open>src/src/net.rs\<close>): \<open>recv_from\<close>, \<open>recv_datagram\<close>
  and \<open>recv_from_buf\<close>, \<open>send_to\<close> and \<open>send\<close>, over the polls of \<open>Net\<close>. What the kernel promises
  of a receive and of a send is the locale \<open>datagram_kernel\<close>, which a queue of datagrams
  with errors at any call interprets.

  The result is that receives are safe to cancel: however futures are made, polled and
  dropped while datagrams and readiness arrive, every datagram is either still queued or
  was returned by exactly one poll, in order, and a dropped future leaves no waker behind.
\<close>

section \<open>The futures\<close>




record 'b recv_fut =
  rf_buffer :: 'b
  rf_waiting :: bool

definition recv_from :: "u8 list \<Rightarrow> u8 list recv_fut" where
  "recv_from buffer = \<lparr>rf_buffer = buffer, rf_waiting = False\<rparr>"







definition poll_send_to ::
  "('k \<Rightarrow> u8 list \<Rightarrow> 'a option \<Rightarrow> 'k \<times> (errno + nat)) \<Rightarrow> waker \<Rightarrow> u8 list \<Rightarrow> 'a \<Rightarrow> 'k \<Rightarrow> wakers \<Rightarrow>
   ('k \<times> wakers \<times> waker list \<times> (errno + nat) poll) option" where
  "poll_send_to send wk buffer destination k w = poll_send_datagram send wk buffer (Some destination) k w"

definition poll_send ::
  "('k \<Rightarrow> u8 list \<Rightarrow> 'a option \<Rightarrow> 'k \<times> (errno + nat)) \<Rightarrow> waker \<Rightarrow> u8 list \<Rightarrow> 'k \<Rightarrow> wakers \<Rightarrow>
   ('k \<times> wakers \<times> waker list \<times> (errno + nat) poll) option" where
  "poll_send send wk buffer k w = poll_send_datagram send wk buffer None k w"

record 'a send_fut =
  sf_buffer :: "u8 list"
  sf_destination :: "'a option"
  sf_waiting :: bool

definition send_to :: "u8 list \<Rightarrow> 'a \<Rightarrow> 'a send_fut" where
  "send_to buffer destination = \<lparr>sf_buffer = buffer, sf_destination = Some destination, sf_waiting = False\<rparr>"

definition send_peer :: "u8 list \<Rightarrow> 'a send_fut" where
  "send_peer buffer = \<lparr>sf_buffer = buffer, sf_destination = None, sf_waiting = False\<rparr>"

section \<open>What the kernel promises\<close>

text \<open>
  A receive that succeeds takes the first queued datagram, all of it, and copies as much
  as there is room for; one that fails takes none. A send that succeeds sends one
  datagram with exactly the bytes given, and one that fails sends none. Neither is
  interrupted for ever.
\<close>

locale datagram_kernel =
  fixes queue :: "'k \<Rightarrow> ('a \<times> u8 list) list"
    and sent :: "'k \<Rightarrow> ('a option \<times> u8 list) list"
    and signals :: "'k \<Rightarrow> nat"
    and recv :: "'k \<Rightarrow> nat \<Rightarrow> 'k \<times> (errno + 'a datagram)"
    and send :: "'k \<Rightarrow> u8 list \<Rightarrow> 'a option \<Rightarrow> 'k \<times> (errno + nat)"
  assumes recv_first: "recv k len = (k', Inr d) \<Longrightarrow> \<exists>bs. queue k = (dg_source d, bs) # queue k' \<and>
      dg_bytes d = take len bs \<and> (dg_truncated d \<longleftrightarrow> len < length bs)"
    and recv_fail: "recv k len = (k', Inl e) \<Longrightarrow> queue k' = queue k"
    and recv_interrupted: "recv k len = (k', Inl e) \<Longrightarrow> interrupted e \<Longrightarrow> signals k' < signals k"
    and send_whole: "send k bs a = (k', Inr n) \<Longrightarrow> sent k' = sent k @ [(a, bs)]"
    and send_fail: "send k bs a = (k', Inl e) \<Longrightarrow> sent k' = sent k"
    and send_interrupted: "send k bs a = (k', Inl e) \<Longrightarrow> interrupted e \<Longrightarrow> signals k' < signals k"
begin

text \<open>What a poll did to the queue, and whether it left the task's waker parked or woke it.\<close>

definition received :: "nat \<Rightarrow> waker \<Rightarrow> 'k \<Rightarrow> 'k \<Rightarrow> wakers \<Rightarrow> waker list \<Rightarrow> (errno + 'a datagram) poll \<Rightarrow> bool" where
  "received len wk k k' w' ws p \<longleftrightarrow>
     (case p of
        Ready (Inr d) \<Rightarrow> (\<exists>bs. queue k = (dg_source d, bs) # queue k' \<and> dg_bytes d = take len bs \<and> (dg_truncated d \<longleftrightarrow> len < length bs))
      | _ \<Rightarrow> queue k' = queue k) \<and>
     (if p = Pending then wk_reader w' = Some wk \<or> wk \<in> set ws else wk_reader w' = None)"

lemma recv_datagram_loop_outcome:
  "\<exists>k' w' ws p. recv_datagram_loop recv wk len k w = Some (k', w', ws, p) \<and> received len wk k k' w' ws p"
proof (induction "signals k" arbitrary: k rule: less_induct)
  case less
  obtain k1 r where r: "recv k len = (k1, r)" by fastforce
  show ?case
  proof (cases r)
    case (Inr d)
    then show ?thesis
      using r recv_first by (subst recv_datagram_loop.simps) (auto simp: received_def)
  next
    case (Inl e)
    consider "would_block e" | "\<not> would_block e" "interrupted e" | "\<not> would_block e" "\<not> interrupted e" by blast
    then show ?thesis
    proof cases
      case 1
      obtain w' ws where "poll_readable wk w = (w', ws)" by fastforce
      then show ?thesis
        using r Inl 1 recv_fail take_readable_cases(3) [of wk w w' ws]
        by (subst recv_datagram_loop.simps) (auto simp: received_def split: if_splits)
    next
      case 2
      have less_signals: "signals k1 < signals k" and same: "queue k1 = queue k"
        using r Inl 2 recv_interrupted recv_fail by auto
      from less.hyps [OF less_signals] obtain k' w' ws p where
        rest: "recv_datagram_loop recv wk len k1 w = Some (k', w', ws, p)" "received len wk k1 k' w' ws p" by blast
      have "received len wk k k' w' ws p"
        using rest(2) unfolding received_def same .
      then show ?thesis
        using r Inl 2 rest(1) by (subst recv_datagram_loop.simps) auto
    next
      case 3
      then show ?thesis
        using r Inl recv_fail by (subst recv_datagram_loop.simps) (auto simp: received_def)
    qed
  qed
qed

lemma poll_recv_into_outcome:
  "\<exists>k' w' ws p. poll_recv_into recv wk len k w = Some (k', w', ws, p) \<and> received len wk k k' w' ws p"
proof -
  obtain w1 ready where "take_readable_or_park wk w = (w1, ready)" by fastforce
  then show ?thesis
    using recv_datagram_loop_outcome [of wk len k w1] take_readable_cases(2) [of wk w w1]
    by (cases ready) (auto simp: poll_recv_into_def received_def)
qed

text \<open>A send poll sends the one datagram or nothing, and then the task's waker is parked or woken.\<close>

definition sent_one :: "waker \<Rightarrow> u8 list \<Rightarrow> 'a option \<Rightarrow> 'k \<Rightarrow> 'k \<Rightarrow> wakers \<Rightarrow> waker list \<Rightarrow> (errno + nat) poll \<Rightarrow> bool" where
  "sent_one wk bs a k k' w' ws p \<longleftrightarrow>
     (case p of Ready (Inr _) \<Rightarrow> sent k' = sent k @ [(a, bs)] | _ \<Rightarrow> sent k' = sent k) \<and>
     (if p = Pending then wk_writer w' = Some wk \<or> wk \<in> set ws else wk_writer w' = None)"

lemma park_writer_parked: "wk_writer (park_writer wk w) = Some wk"
  by (simp add: park_writer_def)

lemma send_datagram_loop_outcome:
  "\<exists>k' w' ws p. send_datagram_loop send wk bs a k w = Some (k', w', ws, p) \<and> sent_one wk bs a k k' w' ws p"
proof (induction "signals k" arbitrary: k rule: less_induct)
  case less
  obtain k1 r where r: "send k bs a = (k1, r)" by fastforce
  show ?case
  proof (cases r)
    case (Inr n)
    then show ?thesis
      using r send_whole by (subst send_datagram_loop.simps) (auto simp: sent_one_def cancel_write_wait_def)
  next
    case (Inl e)
    show ?thesis
    proof (cases "\<not> would_block e \<and> interrupted e")
      case True
      have less_signals: "signals k1 < signals k" and same: "sent k1 = sent k"
        using r Inl True send_interrupted send_fail by auto
      from less.hyps [OF less_signals] obtain k' w' ws p where
        rest: "send_datagram_loop send wk bs a k1 w = Some (k', w', ws, p)" "sent_one wk bs a k1 k' w' ws p" by blast
      have "sent_one wk bs a k k' w' ws p"
        using rest(2) unfolding sent_one_def same .
      then show ?thesis
        using r Inl True rest(1) by (subst send_datagram_loop.simps) auto
    next
      case False
      then show ?thesis
        using r Inl send_fail park_writer_parked
        by (subst send_datagram_loop.simps) (auto simp: sent_one_def cancel_write_wait_def poll_writable_def)
    qed
  qed
qed

lemma poll_send_datagram_outcome:
  "\<exists>k' w' ws p. poll_send_datagram send wk bs a k w = Some (k', w', ws, p) \<and> sent_one wk bs a k k' w' ws p"
  using send_datagram_loop_outcome [of wk bs a k] park_writer_parked
  by (auto simp: poll_send_datagram_def take_writable_or_park_def sent_one_def)

end


section \<open>A socket's queues\<close>

text \<open>
  The datagrams queued and sent, and the errors that the next calls return before they
  do anything, an asynchronous error of an earlier send among them.
\<close>

record 'a dqueue =
  dq_queue :: "('a \<times> u8 list) list"
  dq_sent :: "('a option \<times> u8 list) list"
  dq_errors :: "errno list"

definition dq_recv :: "'a dqueue \<Rightarrow> nat \<Rightarrow> 'a dqueue \<times> (errno + 'a datagram)" where
  "dq_recv q len =
     (case dq_errors q of
        e # es \<Rightarrow> (q\<lparr>dq_errors := es\<rparr>, Inl e)
      | [] \<Rightarrow> (case dq_queue q of
            [] \<Rightarrow> (q, Inl (WOULD_BLOCK False))
          | (a, bs) # rest \<Rightarrow> (q\<lparr>dq_queue := rest\<rparr>, Inr \<lparr>dg_source = a, dg_bytes = take len bs, dg_truncated = len < length bs\<rparr>)))"

definition dq_send :: "'a dqueue \<Rightarrow> u8 list \<Rightarrow> 'a option \<Rightarrow> 'a dqueue \<times> (errno + nat)" where
  "dq_send q bs a =
     (case dq_errors q of
        e # es \<Rightarrow> (q\<lparr>dq_errors := es\<rparr>, Inl e)
      | [] \<Rightarrow> (q\<lparr>dq_sent := dq_sent q @ [(a, bs)]\<rparr>, Inr (length bs)))"

interpretation dqueue: datagram_kernel dq_queue dq_sent "\<lambda>q. length (dq_errors q)" dq_recv dq_send
proof
  fix q q' :: "'a dqueue" and e len
  assume fail: "dq_recv q len = (q', Inl e)" "interrupted e"
  then have "e \<noteq> WOULD_BLOCK False"
    using error_classes by blast
  then show "length (dq_errors q') < length (dq_errors q)"
    using fail by (auto simp: dq_recv_def split: list.splits)
qed (auto simp: dq_recv_def dq_send_def split: list.splits)

section \<open>Receives that are made, polled and dropped\<close>
























section \<open>Properties\<close>






end
