(* ===== verification/ReactorLife.thy ===== *)
theory ReactorLife
  imports ReactorTimer
begin

text \<open>
  The life of a threaded reactor (\<open>src/src/reactor/driver.rs\<close>): \<open>Reactor::start\<close> and
  \<open>Reactor::sharded\<close> with their error paths, and \<open>stop\<close>, which shutting a reactor down and
  dropping it both come to, against the thread that runs \<open>run\<close>.

  The results: a start that fails leaves no poller and no thread, and a set of shards is
  started whole or not at all; and \<open>stop\<close> comes back, because it withdraws the permission to
  run before it wakes the poller, so that a thread which is about to block finds the wake
  waiting.
\<close>

section \<open>Starting\<close>

text \<open>The pollers that exist and the threads that run.\<close>

record started =
  sd_pollers :: nat
  sd_threads :: nat

text \<open>
  What the poller's constructor and the spawn of the thread answer; a refused spawn may
  come with an error number of the system. A failed start drops what it shares with the thread,
  and the poller with it.
\<close>

type_synonym start_answer = "(errno + unit) \<times> (errno option + unit)"

definition reactor_start :: "errno \<Rightarrow> start_answer \<Rightarrow> started \<Rightarrow> started \<times> (errno + unit)" where
  "reactor_start EAGAIN answer s =
     (case fst answer of
        Inl e \<Rightarrow> (s, Inl e)
      | Inr _ \<Rightarrow>
          (let s = s\<lparr>sd_pollers := sd_pollers s + 1\<rparr> in
           case snd answer of
             Inl raw \<Rightarrow> (s\<lparr>sd_pollers := sd_pollers s - 1\<rparr>, Inl (case raw of Some e \<Rightarrow> e | None \<Rightarrow> EAGAIN))
           | Inr _ \<Rightarrow> (s\<lparr>sd_threads := sd_threads s + 1\<rparr>, Inr ())))"

text \<open>A reactor that is dropped is stopped, which joins its thread, and then its poller is closed.\<close>

definition reactor_drop :: "started \<Rightarrow> started" where
  "reactor_drop s = s\<lparr>sd_threads := sd_threads s - 1, sd_pollers := sd_pollers s - 1\<rparr>"

fun start_shards :: "errno \<Rightarrow> (nat \<Rightarrow> start_answer) \<Rightarrow> nat \<Rightarrow> nat \<Rightarrow> started \<Rightarrow> started \<times> (errno + nat)" where
  "start_shards EAGAIN answers reactors 0 s = (s, Inr reactors)"
| "start_shards EAGAIN answers reactors (Suc left) s =
     (case reactor_start EAGAIN (answers reactors) s of
        (s, Inl e) \<Rightarrow> ((reactor_drop ^^ reactors) s, Inl e)
      | (s, Inr _) \<Rightarrow> start_shards EAGAIN answers (Suc reactors) left s)"

definition reactor_sharded :: "errno \<Rightarrow> (nat \<Rightarrow> start_answer) \<Rightarrow> nat \<Rightarrow> started \<Rightarrow> started \<times> (errno + nat)" where
  "reactor_sharded EAGAIN answers shards s = start_shards EAGAIN answers 0 (sharded shards) s"

lemma reactor_start_effect:
  "case reactor_start EAGAIN answer s of
      (t, Inl _) \<Rightarrow> t = s
    | (t, Inr _) \<Rightarrow> t = s\<lparr>sd_pollers := sd_pollers s + 1, sd_threads := sd_threads s + 1\<rparr>"
  by (auto simp: reactor_start_def Let_def split: sum.splits)

lemma reactor_drops:
  "(reactor_drop ^^ n) s = s\<lparr>sd_pollers := sd_pollers s - n, sd_threads := sd_threads s - n\<rparr>"
  by (induction n) (auto simp: reactor_drop_def)

lemma start_shards_effect:
  assumes "reactors \<le> sd_pollers s" "reactors \<le> sd_threads s"
  shows "case start_shards EAGAIN answers reactors left s of
      (t, Inl _) \<Rightarrow> t = s\<lparr>sd_pollers := sd_pollers s - reactors, sd_threads := sd_threads s - reactors\<rparr>
    | (t, Inr n) \<Rightarrow> n = reactors + left \<and> t = s\<lparr>sd_pollers := sd_pollers s + left, sd_threads := sd_threads s + left\<rparr>"
  using assms
proof (induction left arbitrary: reactors s)
  case (Suc left)
  obtain t r where one: "reactor_start EAGAIN (answers reactors) s = (t, r)" by fastforce
  show ?case
  proof (cases r)
    case (Inl e)
    then show ?thesis
      using one reactor_start_effect [where EAGAIN = EAGAIN and answer = "answers reactors" and s = s] by (simp add: reactor_drops)
  next
    case (Inr u)
    then have t: "t = s\<lparr>sd_pollers := sd_pollers s + 1, sd_threads := sd_threads s + 1\<rparr>"
      using one reactor_start_effect [where EAGAIN = EAGAIN and answer = "answers reactors" and s = s] by simp
    then have "Suc reactors \<le> sd_pollers t" "Suc reactors \<le> sd_threads t" using Suc.prems by simp_all
    from Suc.IH [OF this] show ?thesis
      using one Inr t by (auto split: prod.splits sum.splits)
  qed
qed simp

text \<open>Shards are started all or none, and at least one.\<close>

lemma shards_all_or_none:
  "case reactor_sharded EAGAIN answers shards s of
      (t, Inl _) \<Rightarrow> t = s
    | (t, Inr n) \<Rightarrow> n = max shards 1 \<and> t = s\<lparr>sd_pollers := sd_pollers s + n, sd_threads := sd_threads s + n\<rparr>"
  using start_shards_effect [where reactors = 0 and s = s and EAGAIN = EAGAIN and answers = answers and left = "sharded shards"]
  by (auto simp: reactor_sharded_def sharded_def split: prod.splits sum.splits)

section \<open>Stopping\<close>

text \<open>
  The thread: about to test \<open>running\<close>; at its timers; in the wait of the poller; at the
  dispatch; ended. The stopping side: not begun; past the store; past the wake; past the
  join. \<open>lf_wake\<close> is the wake the poller holds until a wait takes it, and \<open>lf_unwoken\<close> says
  that the wake of \<open>stop\<close> failed, which the code ignores.
\<close>

datatype thread_phase = Testing | Servicing | Blocking | Dispatching | Ended

datatype stop_phase = Up | Stored | Woken | Joined

record life =
  lf_running :: bool
  lf_wake :: bool
  lf_thread :: thread_phase
  lf_stop :: stop_phase
  lf_unwoken :: bool

inductive life_step :: "life \<Rightarrow> life \<Rightarrow> bool" where
  test: "lf_thread s = Testing \<Longrightarrow> life_step s (s\<lparr>lf_thread := (if lf_running s then Servicing else Ended)\<rparr>)"
| service: "lf_thread s = Servicing \<Longrightarrow> life_step s (s\<lparr>lf_thread := Blocking\<rparr>)"
| wait_returns: "lf_thread s = Blocking \<Longrightarrow> life_step s (s\<lparr>lf_thread := Dispatching, lf_wake := (lf_wake s \<and> kept)\<rparr>)"
| wait_fails: "lf_thread s = Blocking \<Longrightarrow> life_step s (s\<lparr>lf_thread := Ended\<rparr>)"
| dispatched: "lf_thread s = Dispatching \<Longrightarrow> life_step s (s\<lparr>lf_thread := Testing\<rparr>)"
| woken_by_others: "life_step s (s\<lparr>lf_wake := True\<rparr>)"
| stop_store: "lf_stop s = Up \<Longrightarrow> life_step s (s\<lparr>lf_running := False, lf_stop := Stored\<rparr>)"
| stop_wake: "lf_stop s = Stored \<Longrightarrow> life_step s (s\<lparr>lf_wake := True, lf_stop := Woken\<rparr>)"
| stop_wake_fails: "lf_stop s = Stored \<Longrightarrow> life_step s (s\<lparr>lf_unwoken := True, lf_stop := Woken\<rparr>)"
| stop_join: "lf_stop s = Woken \<Longrightarrow> lf_thread s = Ended \<Longrightarrow> life_step s (s\<lparr>lf_stop := Joined\<rparr>)"

text \<open>
  The thread on its own, with no event and no deadline: \<open>None\<close> while it is blocked in a
  wait for which the poller holds no wake, or has ended.
\<close>

definition thread_next :: "life \<Rightarrow> life option" where
  "thread_next s =
     (case lf_thread s of
        Testing \<Rightarrow> Some (s\<lparr>lf_thread := (if lf_running s then Servicing else Ended)\<rparr>)
      | Servicing \<Rightarrow> Some (s\<lparr>lf_thread := Blocking\<rparr>)
      | Blocking \<Rightarrow> if lf_wake s then Some (s\<lparr>lf_thread := Dispatching, lf_wake := False\<rparr>) else None
      | Dispatching \<Rightarrow> Some (s\<lparr>lf_thread := Testing\<rparr>)
      | Ended \<Rightarrow> None)"

lemma thread_next_step: "thread_next s = Some t \<Longrightarrow> life_step s t"
  using wait_returns [of s False] test [of s]
  by (auto simp: thread_next_def split: thread_phase.splits if_splits intro: life_step.intros)

definition life_start :: "life \<Rightarrow> bool" where
  "life_start s \<longleftrightarrow> s = \<lparr>lf_running = True, lf_wake = False, lf_thread = Testing, lf_stop = Up, lf_unwoken = False\<rparr>"

definition life_inv :: "life \<Rightarrow> bool" where
  "life_inv s \<longleftrightarrow> (lf_running s \<longleftrightarrow> lf_stop s = Up) \<and> (lf_unwoken s \<longrightarrow> lf_stop s \<in> {Woken, Joined}) \<and>
     (lf_stop s = Woken \<and> \<not> lf_unwoken s \<and> lf_thread s \<in> {Servicing, Blocking} \<longrightarrow> lf_wake s) \<and>
     (lf_stop s = Joined \<longrightarrow> lf_thread s = Ended)"

lemma life_inv_step:
  assumes "life_inv s" "life_step s t"
  shows "life_inv t"
  using assms(2,1) by (induction rule: life_step.induct) (auto simp: life_inv_def)

interpretation life: invariant_system life_start life_step life_inv
proof
  show "life_inv s" if "life_start s" for s
    using that by (simp add: life_start_def life_inv_def)
qed (rule life_inv_step)

text \<open>How many steps of its own a thread that may no longer run has left.\<close>

fun steps_left :: "thread_phase \<Rightarrow> nat" where
  "steps_left Servicing = 4"
| "steps_left Blocking = 3"
| "steps_left Dispatching = 2"
| "steps_left Testing = 1"
| "steps_left Ended = 0"

lemma thread_ends:
  assumes "life_inv s" "lf_stop s = Woken" "\<not> lf_unwoken s"
  shows "\<exists>t. (\<lambda>a b. thread_next a = Some b)\<^sup>*\<^sup>* s t \<and> lf_thread t = Ended \<and> lf_stop t = Woken"
  using assms
proof (induction "steps_left (lf_thread s)" arbitrary: s rule: less_induct)
  case less
  show ?case
  proof (cases "lf_thread s = Ended")
    case False
    then obtain t where t: "thread_next s = Some t" "steps_left (lf_thread t) < steps_left (lf_thread s)"
      "lf_stop t = Woken" "\<not> lf_unwoken t"
      using less.prems by (cases "lf_thread s") (auto simp: thread_next_def life_inv_def)
    have "life_inv t" using life_inv_step [OF less.prems(1)] thread_next_step [OF t(1)] by blast
    from less.hyps [OF t(2) this t(3,4)] show ?thesis
      using t(1) by (meson converse_rtranclp_into_rtranclp)
  qed (use less.prems in blast)
qed

text \<open>
  Stopping a reactor comes back. However the store, the wake and the join of \<open>stop\<close> fall
  among the steps of the reactor's thread, its events, failed waits and the wakes of
  others: once the poller was woken the thread reaches its end by its own steps, with
  no event and no deadline needed, and the join is then possible; the join is reached
  only after the thread ended.
\<close>

theorem reactor_stop_returns:
  assumes "reach life_start life_step s"
  shows "(lf_stop s = Woken \<and> \<not> lf_unwoken s \<longrightarrow>
      (\<exists>t. (\<lambda>a b. thread_next a = Some b)\<^sup>*\<^sup>* s t \<and> life_step t (t\<lparr>lf_stop := Joined\<rparr>))) \<and>
    (lf_stop s = Joined \<longrightarrow> lf_thread s = Ended)"
proof -
  have inv: "life_inv s" by (rule life.reach_inv [OF assms])
  then show ?thesis
    using thread_ends [OF inv] stop_join by (fastforce simp: life_inv_def)
qed

text \<open>
  The wake is needed: when it fails, a thread that had passed the test stays in a wait
  that nothing may end, and the join with it.
\<close>

lemma unwoken_stop_may_hang:
  "\<exists>s. reach life_start life_step s \<and> lf_stop s = Woken \<and> lf_thread s = Blocking \<and> thread_next s = None"
proof -
  let ?s0 = "\<lparr>lf_running = True, lf_wake = False, lf_thread = Testing, lf_stop = Up, lf_unwoken = False\<rparr>"
  have "reach life_start life_step ?s0" by (rule reach_init) (simp add: life_start_def)
  from reach_step [OF this test] have "reach life_start life_step (?s0\<lparr>lf_thread := Servicing\<rparr>)" by simp
  from reach_step [OF this service] have "reach life_start life_step (?s0\<lparr>lf_thread := Blocking\<rparr>)" by simp
  from reach_step [OF this stop_store] have "reach life_start life_step (?s0\<lparr>lf_thread := Blocking, lf_running := False, lf_stop := Stored\<rparr>)" by simp
  from reach_step [OF this stop_wake_fails]
  have "reach life_start life_step (?s0\<lparr>lf_thread := Blocking, lf_running := False, lf_stop := Woken, lf_unwoken := True\<rparr>)" by simp
  then show ?thesis
    by (intro exI [of _ "?s0\<lparr>lf_thread := Blocking, lf_running := False, lf_stop := Woken, lf_unwoken := True\<rparr>"])
      (simp add: thread_next_def)
qed

theorem reactor_stop_returns_witness:
  "\<exists>t. (\<lambda>a b. thread_next a = Some b)\<^sup>*\<^sup>*
     \<lparr>lf_running = False, lf_wake = True, lf_thread = Testing, lf_stop = Woken, lf_unwoken = False\<rparr> t \<and> life_step t (t\<lparr>lf_stop := Joined\<rparr>)"
proof -
  let ?s0 = "\<lparr>lf_running = True, lf_wake = False, lf_thread = Testing, lf_stop = Up, lf_unwoken = False\<rparr>"
  have "reach life_start life_step ?s0" by (rule reach_init) (simp add: life_start_def)
  from reach_step [OF this stop_store] have "reach life_start life_step (?s0\<lparr>lf_running := False, lf_stop := Stored\<rparr>)" by simp
  from reach_step [OF this stop_wake] have "reach life_start life_step (?s0\<lparr>lf_running := False, lf_wake := True, lf_stop := Woken\<rparr>)" by simp
  from reactor_stop_returns [OF this] show ?thesis by simp
qed

end
