(* ===== verification/Spec2Isabelle.thy ===== *)
theory Spec2Isabelle
  imports Barrier Semaphore RwLock ReactorTimer Owner Readiness BlockOn ParFor NetClose NetOpen TaskSet LocalBlock Runtime Poller ChildPipe ChildSpawn Resolve SignalRecv HostFs TimerHost CommandRun Datagrams ReactorLife
begin

text \<open>
  A verification of nagoya, an async runtime for Rust: futures spawned on a work-stealing
  pool or driven on the calling thread, primitives to synchronise them, timers, a reactor
  over epoll or kqueue with sockets, child processes and signals on it, CPU credits, exclusive owners and parallel loops. The
  sources are under \<open>src/src/\<close>; the pool itself (\<open>ps-st3\<close>), the task cells (\<open>async-task\<close>)
  and the kernel are outside of them.

  \<^bold>\<open>The parts and how they interact.\<close> A task that waits registers its waker somewhere and
  is woken by whoever makes it runnable: a \<open>Notify\<close>, a semaphore, a lock or a barrier
  keeps wakers in a waiter queue; the timer registry keeps them beside a heap of
  deadlines that a driver thread or the reactor drains; the reactor keeps them per
  registration and wakes them when the poller reports an edge; sockets park there. A woken
  task is scheduled onto its pool, on the worker that the waking thread is, or is routed
  to. A future that is not on a pool is driven by one of the \<open>block_on\<close> loops, or by a
  task set on the reactor's own thread. So nearly every component promises the same two
  things, that nothing wakes too little (no lost wake-up) and nothing admits too much,
  and these are the theorems that come first here.

  \<^bold>\<open>How the code is modelled.\<close> A struct is a record and its operations are functions on it
  that return the new state, the wakers they invoke in order, and \<open>None\<close> for a panic. What
  runs under one lock, or is one atomic access, is one step; the interleavings are an
  inductive step relation per component, over futures or threads numbered without bound,
  and \<open>reach\<close> (\<open>Prelude\<close>) gives the reachable states. Every such system is an
  interpretation of the locale \<open>invariant_system\<close>, from which invariants of all reachable
  states follow. Memory orderings are not modelled: the steps are sequentially consistent.
  Words keep their width where the code relies on wrap-around or on bounds.

  \<^bold>\<open>The theories.\<close>
  \<^item> \<open>Prelude\<close>: machine types, saturating arithmetic, sums over finite maps, reachability
    and \<open>invariant_system\<close>.
  \<^item> \<open>WaitQueue\<close> (\<open>sync.rs\<close>: \<open>WaitQueue\<close>, \<open>Waiters\<close>): a slab of waiters with a free list and a
    doubly linked queue. The locale \<open>wait_list\<close> states the queue as a list of slots and is
    interpreted by the slab; registering, removing and granting are shown to be the list
    operations, without panics.
  \<^item> \<open>Notify\<close>, \<open>Semaphore\<close>, \<open>RwLock\<close>, \<open>Barrier\<close> (\<open>sync.rs\<close>): the primitives on that queue,
    each with its futures, their polls and drops, and its step relation: no notification
    lost or delivered twice, permits conserved, readers and writers excluded, groups
    released together, and no waiter parked beside what it waits for. The semaphore has an
    exception to the last, which is proved too (\<open>semaphore_absorbed_grant\<close>).
  \<^item> \<open>TimerHeap\<close>, \<open>Timer\<close> (\<open>time.rs\<close>): the heap with positions (locale \<open>deadline_queue\<close>), the
    registry, \<open>Sleep\<close>, \<open>Timeout\<close>, the drain and the driver thread. Drains fire exactly what
    is due, in order; pending sleeps are woken, and never early; the driver never waits
    past a deadline.
  \<^item> \<open>TimerHost\<close> (\<open>time.rs\<close>): who serves the timers, the thread or a reactor, chosen once for
    the process, and how every nudge reaches it.
  \<^item> \<open>Credits\<close>, \<open>Owner\<close> (\<open>credits.rs\<close>, \<open>owner.rs\<close>): accounts with reservations and
    settlement, and exclusive turns over a budget, which is the locale \<open>cpu_budget\<close>,
    interpreted by the accounts.
  \<^item> \<open>Readiness\<close>, \<open>BlockOn\<close>, \<open>ParFor\<close> (\<open>readiness.rs\<close>, \<open>yield_now.rs\<close>, \<open>block_on.rs\<close>, \<open>par.rs\<close>):
    retained wake reasons, the parking loops (locale \<open>park_slot\<close>, interpreted by the token
    of a thread) and the splitting loops, in which every index runs at most once and the
    waiter is told.
  \<^item> \<open>Reactor\<close>, \<open>ReactorTimer\<close> (\<open>reactor/driver.rs\<close>, \<open>reactor/poller.rs\<close>): tokens with
    generations, registration, parking and dispatch, and the reactor as the driver of
    timers, over the locale \<open>deadline_source\<close>, which the timer registry interprets.
  \<^item> \<open>ReactorLife\<close> (\<open>reactor/driver.rs\<close>): starting reactors, all or none, and stopping one,
    which comes back in every interleaving with its thread.
  \<^item> \<open>Poller\<close> (\<open>reactor/poller.rs\<close>): both pollers, as interpretations of the locale
    \<open>poller_contract\<close>, from which it follows that a registration is watched as it
    asked unless its descriptor's number was closed, registered or dropped otherwise, which
    \<open>TcpStream\<close>'s drop order can bring about.
  \<^item> \<open>Io\<close> (\<open>io.rs\<close>): errors, the read and write loops over any source or sink (locales
    \<open>byte_source\<close>, \<open>io_source\<close>, \<open>stream_source\<close>, \<open>byte_sink\<close>, \<open>io_sink\<close>), interpreted by the file
    in memory and by the pair of pipes.
  \<^item> \<open>HostFile\<close>, \<open>HostFs\<close> (\<open>io.rs\<close>): files of the host and the functions on paths, over what
    they use of \<open>std::fs\<close>, with refusals, interruptions and short transfers at any call. The
    reads and writes of a handle interpret the locales of \<open>Io\<close>; the functions on paths refine
    operations on the tree of names, and what is written is read back.
  \<^item> \<open>Net\<close>, \<open>NetReader\<close>, \<open>NetClose\<close> (\<open>net.rs\<close>): the polls of streams, listeners and datagram
    sockets, the write futures over any \<open>poll_writer\<close> (a \<open>sublocale\<close> of \<open>send_kernel\<close>, which a
    bounded send buffer interprets), one reader against the kernel and the reactor in
    every interleaving, and the end of a socket.
  \<^item> \<open>SockAddr\<close>, \<open>Sockets\<close> (\<open>reactor/socket.rs\<close>): addresses to and from the kernel's bytes, and
    the calls that open, configure and accept sockets, with every descriptor accounted for
    on every error path.
  \<^item> \<open>NetWriter\<close> (\<open>net.rs\<close>, \<open>process.rs\<close>): one writer against the kernel and the reactor, for
    streams and for pipes, with a run in which a stream is not told of room.
  \<^item> \<open>Resolve\<close> (\<open>resolve.rs\<close>): the addresses of a name, and the error that a list of failed
    attempts comes to.
  \<^item> \<open>Child\<close>, \<open>ChildPipe\<close>, \<open>ChildSpawn\<close> (\<open>process.rs\<close>): the wait for an exit, by the handle or by
    the orphan it leaves; the pipes and the collection of both outputs, over the locale
    \<open>byte_pipe\<close>; and the start of a child with every error path.
  \<^item> \<open>CommandRun\<close> (\<open>process.rs\<close>): the settings of a command, which reach the child in the order
    they were made, and \<open>output\<close> and \<open>status\<close> as far as their wait.
  \<^item> \<open>Datagrams\<close> (\<open>net.rs\<close>): the receive and send futures of a datagram socket over the locale
    \<open>datagram_kernel\<close>; receives may be cancelled at any point and lose nothing.
  \<^item> \<open>Signals\<close>, \<open>SignalRecv\<close> (\<open>signal.rs\<close>): waiters for signals over the locale
    \<open>signal_platform\<close>, which the code for Linux and the code for the BSDs interpret, with
    the mask of the registering thread, each change of which may be refused, and the
    way from a delivery to \<open>recv\<close>.
  \<^item> \<open>NetOpen\<close> (\<open>net.rs\<close>): the opening of streams, listeners and datagram sockets over the socket
    calls and the reactor together, all or nothing on every error path.
  \<^item> \<open>TaskSet\<close>, \<open>LocalBlock\<close> (\<open>reactor/local.rs\<close>): the lock-free chain of woken tasks, and
    \<open>block_on_with\<close>, which skips the interruption for wakes of its own thread.
  \<^item> \<open>Routing\<close>, \<open>Runtime\<close> (\<open>task.rs\<close>, \<open>runtime.rs\<close>, the executor and the join handle of
    \<open>lib.rs\<close>): the schedule closure with its markers and routes, the start of a runtime's
    workers and the process-wide cells, and the wakes of a dispatch as far as the worker
    they land on.

  \<^bold>\<open>Loops.\<close> Loops over data are \<open>fun\<close> or \<open>function\<close> with a measure. Loops that the outside
  world may keep going (reads that are interrupted, writes that make no progress) are
  \<open>partial_function (option)\<close>, in which not returning is \<open>None\<close>; that they return is a
  theorem wherever the code promises it (\<open>Io.read_loops_return\<close>, and inside
  \<open>Net.write_all_sends_once\<close>), under the bound on consecutive interruptions that the locales
  name \<open>patience\<close>. A loop that spins on \<open>compare_exchange\<close> is one atomic step where the
  code guards nothing in between, and its separate accesses where it does (\<open>TaskSet\<close>).
  There is no fuel in the development.

  \<^bold>\<open>Not modelled.\<close> Deliveries in the middle of the swap of a
  signal's disposition and the masks of other threads, links, permissions and other
  processes in the filesystem, the queues of the pool, unwinding, memory orderings,
  destructors of user values, and the counters, the testing support, the examples and the benchmarks.
\<close>

end
